(* ===== verification/Prelude.thy ===== *)
theory Prelude
  imports Main "HOL-Library.AList" "HOL-Library.Signed_Division"
begin

text \<open>
  What the components share: arithmetic modulo the field (\<open>eqm\<close>), the two containers of the
  Rust sources with their laws, and the fact collections of the development.

  \<^item> A \<open>HashMap\<close> is an association list with distinct keys (\<open>hm_wf\<close>). Its lookup is
    \<open>map_of\<close>, its insertion \<open>AList.update\<close>, its removal \<open>AList.delete\<close>; the order in
    which the program iterates over it is the order of the list, so a statement about all
    well-formed lists is a statement about all iteration orders. A \<open>HashSet\<close> that is iterated
    is a list without repetition.
  \<^item> A \<open>BTreeMap\<close> with \<open>usize\<close> keys is an association list sorted by key (\<open>bt_wf\<close>).
  \<^item> A panic (\<open>unwrap\<close> of nothing, a failed \<open>assert!\<close>, an index out of range, a division
    by zero) is \<open>None\<close>; a \<open>Result\<close> is a sum whose left side is the error.
\<close>

section \<open>Fact collections\<close>

named_theorems eqm_intros \<open>congruence rules of equality modulo the field\<close>
named_theorems lin_simps \<open>evaluation of linear expressions\<close>
named_theorems wf_intros \<open>well-formedness of hash maps\<close>

section \<open>The default symbol of the source's Default trait\<close>

instantiation nat :: default
begin

definition default_nat :: nat where [simp]: "default_nat = 0"

instance ..

end

instantiation list :: (type) default
begin

definition default_list :: "'a list" where [simp]: "default_list = []"

instance ..

end

section \<open>Equality modulo the field\<close>

abbreviation eqm :: "int \<Rightarrow> int \<Rightarrow> int \<Rightarrow> bool" where
  "eqm p x y \<equiv> x mod p = y mod p"

lemma eqm_iff_dvd: "eqm p x y \<longleftrightarrow> p dvd x - y"
  by (rule mod_eq_dvd_iff)

lemma eqm_add [eqm_intros]: "eqm p a b \<Longrightarrow> eqm p c d \<Longrightarrow> eqm p (a + c) (b + d)"
  by (rule mod_add_cong)

lemma eqm_diff [eqm_intros]: "eqm p a b \<Longrightarrow> eqm p c d \<Longrightarrow> eqm p (a - c) (b - d)"
  by (rule mod_diff_cong)

lemma eqm_mult [eqm_intros]: "eqm p a b \<Longrightarrow> eqm p c d \<Longrightarrow> eqm p (a * c) (b * d)"
  by (rule mod_mult_cong)

lemma eqm_minus [eqm_intros]: "eqm p a b \<Longrightarrow> eqm p (- a) (- b)" for p :: int
  by (rule mod_minus_cong)

lemma eqm_cancel_unit:
  assumes "eqm p (u * v) 1" and "eqm p (u * a) (u * b)"
  shows "eqm p a b"
proof -
  have step: "eqm p (v * (u * a)) (v * (u * b))"
    by (rule eqm_mult [OF refl assms(2)])
  have cancel: "eqm p (v * (u * x)) x" for x
  proof -
    have "eqm p ((u * v) * x) (1 * x)" using assms(1) by (rule eqm_mult) simp
    moreover have "(u * v) * x = v * (u * x)" by (simp add: ac_simps)
    ultimately show ?thesis by simp
  qed
  have "a mod p = (v * (u * a)) mod p" by (rule cancel [symmetric])
  also note step
  also have "(v * (u * b)) mod p = b mod p" by (rule cancel)
  finally show ?thesis .
qed

text \<open>
  The field: every residue but zero is invertible. For a prime \<open>p\<close> this is what primality
  gives, and all that the algorithms rely on.
\<close>

definition is_field :: "int \<Rightarrow> bool" where
  "is_field p \<longleftrightarrow> 1 < p \<and> (\<forall>a. 0 < a \<and> a < p \<longrightarrow> coprime a p)"

lemma is_field_gt1: "is_field p \<Longrightarrow> 1 < p"
  by (simp add: is_field_def)

lemma is_field_pos: "is_field p \<Longrightarrow> 0 < p"
  by (simp add: is_field_def)

lemma is_field_coprime:
  assumes "is_field p" and "a mod p \<noteq> 0"
  shows "coprime a p"
proof -
  have "0 < a mod p" "a mod p < p"
    using assms is_field_pos [of p] pos_mod_sign [of p a] pos_mod_bound [of p a] by linarith+
  then have "coprime (a mod p) p" using assms(1) by (simp add: is_field_def)
  then show ?thesis using \<open>0 < a mod p\<close> by (metis assms(1) coprime_mod_left_iff is_field_pos order_less_irrefl)
qed

lemma is_field_7: "is_field 7"
proof -
  have "coprime a 7" if "0 < a" "a < 7" for a :: int
  proof -
    from that have "a \<in> {1, 2, 3, 4, 5, 6}" by auto
    then show ?thesis by (auto simp: coprime_iff_gcd_eq_1 gcd_non_0_int)
  qed
  then show ?thesis by (simp add: is_field_def)
qed

section \<open>Hash maps\<close>

type_synonym ('k, 'v) hmap = "('k \<times> 'v) list"

definition hm_wf :: "('k, 'v) hmap \<Rightarrow> bool" where
  "hm_wf m \<longleftrightarrow> distinct (map fst m)"

definition hm_keys :: "('k, 'v) hmap \<Rightarrow> 'k list" where
  "hm_keys m = map fst m"

definition keys_of :: "('k, 'v) hmap \<Rightarrow> 'k set" where
  "keys_of m = set (map fst m)"

definition hm_contains :: "('k, 'v) hmap \<Rightarrow> 'k \<Rightarrow> bool" where
  "hm_contains m k \<longleftrightarrow> k \<in> set (map fst m)"

abbreviation hm_insert :: "'k \<Rightarrow> 'v \<Rightarrow> ('k, 'v) hmap \<Rightarrow> ('k, 'v) hmap" where
  "hm_insert \<equiv> AList.update"

abbreviation hm_remove :: "'k \<Rightarrow> ('k, 'v) hmap \<Rightarrow> ('k, 'v) hmap" where
  "hm_remove \<equiv> AList.delete"

text \<open>\<open>entry(k).or_insert(v)\<close>\<close>

definition hm_or_insert :: "'k \<Rightarrow> 'v \<Rightarrow> ('k, 'v) hmap \<Rightarrow> ('k, 'v) hmap" where
  "hm_or_insert k v m = (if hm_contains m k then m else hm_insert k v m)"

text \<open>\<open>PartialEq\<close> of two hash maps: the same number of entries, and each entry of the one in the other.\<close>

definition hm_eq :: "('k, 'v) hmap \<Rightarrow> ('k, 'v) hmap \<Rightarrow> bool" where
  "hm_eq m n \<longleftrightarrow> length m = length n \<and> list_all (\<lambda>(k, v). map_of n k = Some v) m"

lemma keys_of_Nil [simp]: "keys_of [] = {}"
  by (simp add: keys_of_def)

lemma keys_of_Cons [simp]: "keys_of (e # m) = insert (fst e) (keys_of m)"
  by (simp add: keys_of_def)

lemma keys_of_append [simp]: "keys_of (m @ n) = keys_of m \<union> keys_of n"
  by (simp add: keys_of_def)

lemma finite_keys_of [simp]: "finite (keys_of m)"
  by (simp add: keys_of_def)

lemma in_keys_of: "(k, v) \<in> set m \<Longrightarrow> k \<in> keys_of m"
  by (force simp: keys_of_def)

lemma keys_of_map_of: "k \<in> keys_of m \<longleftrightarrow> map_of m k \<noteq> None"
  by (simp add: keys_of_def map_of_eq_None_iff)

lemma keys_of_filter_subset: "keys_of (filter P m) \<subseteq> keys_of m"
  by (auto simp: keys_of_def)

lemma hm_wf_Cons: "hm_wf (e # m) \<longleftrightarrow> fst e \<notin> keys_of m \<and> hm_wf m"
  by (simp add: hm_wf_def keys_of_def)

lemma hm_wf_Nil [simp, wf_intros]: "hm_wf []"
  by (simp add: hm_wf_def)

lemma hm_wf_insert [simp, wf_intros]: "hm_wf m \<Longrightarrow> hm_wf (hm_insert k v m)"
  by (simp add: hm_wf_def distinct_update)

lemma hm_wf_remove [simp, wf_intros]: "hm_wf m \<Longrightarrow> hm_wf (hm_remove k m)"
  by (simp add: hm_wf_def distinct_delete)

lemma hm_wf_or_insert [simp, wf_intros]: "hm_wf m \<Longrightarrow> hm_wf (hm_or_insert k v m)"
  by (simp add: hm_or_insert_def)

lemma hm_wf_filter [simp, wf_intros]: "hm_wf m \<Longrightarrow> hm_wf (filter P m)"
  by (simp add: hm_wf_def distinct_map_filter)

lemma hm_wf_map_values [simp, wf_intros]: "hm_wf (map (\<lambda>(k, v). (k, f v)) m) = hm_wf m"
proof -
  have "map fst (map (\<lambda>(k, v). (k, f v)) m) = map fst m"
    by (induction m) auto
  then show ?thesis by (simp only: hm_wf_def)
qed

lemma hm_contains_set: "hm_contains m k \<longleftrightarrow> k \<in> keys_of m"
  by (simp add: hm_contains_def keys_of_def)

lemma hm_contains_map_of: "hm_contains m k \<longleftrightarrow> map_of m k \<noteq> None"
  by (simp add: hm_contains_def map_of_eq_None_iff)

lemma keys_hm_insert [simp]: "keys_of (hm_insert k v m) = insert k (keys_of m)"
  by (simp add: keys_of_def dom_update)

lemma keys_hm_remove [simp]: "keys_of (hm_remove k m) = keys_of m - {k}"
  by (auto simp: keys_of_def AList.delete_eq)

lemma keys_hm_or_insert [simp]: "keys_of (hm_or_insert k v m) = insert k (keys_of m)"
  by (auto simp: hm_or_insert_def hm_contains_set)

lemma keys_map_values [simp]: "keys_of (map (\<lambda>(k, v). (k, f v)) m) = keys_of m"
  by (induction m) auto

lemma set_hm_keys [simp]: "set (hm_keys m) = keys_of m"
  by (simp add: hm_keys_def keys_of_def)

lemma distinct_hm_keys [simp]: "distinct (hm_keys m) = hm_wf m"
  by (simp add: hm_keys_def hm_wf_def)

lemma hm_or_insert_contains [simp]: "hm_contains m k \<Longrightarrow> hm_or_insert k v m = m"
  by (simp add: hm_or_insert_def)

lemma hm_contains_or_insert [simp]: "hm_contains (hm_or_insert k v m) k"
  by (simp add: hm_contains_set)

lemma hm_contains_insert [simp]: "hm_contains (hm_insert k v m) j \<longleftrightarrow> j = k \<or> hm_contains m j"
  by (simp add: hm_contains_set)

lemma hm_contains_remove [simp]: "hm_contains (hm_remove k m) j \<longleftrightarrow> j \<noteq> k \<and> hm_contains m j"
  by (auto simp: hm_contains_set)

lemma hm_contains_Cons [simp]: "hm_contains (e # m) j \<longleftrightarrow> j = fst e \<or> hm_contains m j"
  by (auto simp: hm_contains_set)

lemma hm_contains_Nil [simp]: "\<not> hm_contains [] k"
  by (simp add: hm_contains_set)

lemma hm_insert_mem: "e \<in> set (hm_insert k v m) \<Longrightarrow> e = (k, v) \<or> e \<in> set m"
  by (induction m) (auto split: if_splits)

lemma hm_insert_append: "\<not> hm_contains m k \<Longrightarrow> hm_insert k v m = m @ [(k, v)]"
  by (induction m) (auto simp: hm_contains_set)

lemma hm_eq_map_of:
  assumes "hm_wf m" and "hm_wf n"
  shows "hm_eq m n \<longleftrightarrow> map_of m = map_of n"
proof
  assume eq: "hm_eq m n"
  have sub: "set m \<subseteq> set n"
    using eq map_of_SomeD by (fastforce simp: hm_eq_def list_all_iff)
  have "distinct m" "distinct n"
    using assms by (simp_all add: hm_wf_def distinct_map)
  then have "card (set m) = card (set n)"
    using eq by (simp add: distinct_card hm_eq_def)
  with sub have "set m = set n" by (simp add: card_subset_eq)
  then show "map_of m = map_of n"
    using assms by (simp add: hm_wf_def map_of_inject_set)
next
  assume eq: "map_of m = map_of n"
  then have s: "set m = set n"
    using assms by (simp add: hm_wf_def map_of_inject_set)
  have "distinct m" "distinct n"
    using assms by (simp_all add: hm_wf_def distinct_map)
  then have "length m = length n" using s by (metis distinct_card)
  then show "hm_eq m n"
    using assms s by (auto simp: hm_eq_def list_all_iff hm_wf_def)
qed

section \<open>Ordered maps with usize keys\<close>

type_synonym 'v btmap = "(nat \<times> 'v) list"

fun bt_insert :: "nat \<Rightarrow> 'v \<Rightarrow> 'v btmap \<Rightarrow> 'v btmap" where
  "bt_insert k v [] = [(k, v)]"
| "bt_insert k v ((j, w) # m) =
     (if k < j then (k, v) # (j, w) # m
      else if k = j then (k, v) # m
      else (j, w) # bt_insert k v m)"

definition bt_wf :: "'v btmap \<Rightarrow> bool" where
  "bt_wf m \<longleftrightarrow> sorted (map fst m) \<and> distinct (map fst m)"

lemma keys_bt_insert [simp]: "keys_of (bt_insert k v m) = insert k (keys_of m)"
  by (induction k v m rule: bt_insert.induct) auto

lemma bt_wf_Nil [simp]: "bt_wf []"
  by (simp add: bt_wf_def)

lemma bt_wf_Cons: "bt_wf (e # m) \<longleftrightarrow> (\<forall>k \<in> keys_of m. fst e < k) \<and> bt_wf m"
  by (auto simp: bt_wf_def keys_of_def order.strict_iff_order)

lemma bt_wf_insert [simp]: "bt_wf m \<Longrightarrow> bt_wf (bt_insert k v m)"
proof (induction k v m rule: bt_insert.induct)
  case (2 k v j w m)
  then show ?case
    by (auto simp: bt_wf_Cons simp del: set_map)
qed (simp add: bt_wf_def)

lemma map_of_bt_insert: "bt_wf m \<Longrightarrow> map_of (bt_insert k v m) = (map_of m)(k \<mapsto> v)"
  by (induction k v m rule: bt_insert.induct) (auto simp: bt_wf_Cons fun_eq_iff)

lemma bt_wf_hm_wf: "bt_wf m \<Longrightarrow> hm_wf m"
  by (simp add: bt_wf_def hm_wf_def)

lemma set_bt_insert:
  "bt_wf m \<Longrightarrow> set (bt_insert k v m) = insert (k, v) {e \<in> set m. fst e \<noteq> k}"
  by (induction k v m rule: bt_insert.induct) (auto simp: bt_wf_Cons, (fastforce dest: in_keys_of)+)

lemma those_Some: "those xs = Some ys \<longleftrightarrow> xs = map Some ys"
proof (induction xs arbitrary: ys)
  case (Cons x xs)
  then show ?case by (cases x; cases ys) auto
qed auto

end
