(* ===== verification/Constant_Tracking.thy ===== *)
theory Constant_Tracking
  imports Prelude
begin

text \<open>
  \<open>constant_tracking/src/lib.rs\<close>: constants are stored once and named by their position. The
  contract of such a table is the locale \<open>interner\<close>; a client that stores many constants needs
  no more than its laws.
\<close>

section \<open>The table\<close>

record 'c constant_tracker =
  ct_lookup :: "('c, nat) hmap"
  ct_constants :: "'c list"

definition ct_new :: "'c constant_tracker" where
  "ct_new = \<lparr>ct_lookup = [], ct_constants = []\<rparr>"

definition ct_get_id :: "'c constant_tracker \<Rightarrow> 'c \<Rightarrow> nat option" where
  "ct_get_id self constant = map_of (ct_lookup self) constant"

definition ct_insert :: "'c \<Rightarrow> 'c constant_tracker \<Rightarrow> nat \<times> 'c constant_tracker" where
  "ct_insert constant self =
     (case ct_get_id self constant of
        Some cid \<Rightarrow> (cid, self)
      | None \<Rightarrow>
          (let cid = length (ct_constants self)
           in (cid, \<lparr>ct_lookup = hm_insert constant cid (ct_lookup self),
                    ct_constants = ct_constants self @ [constant]\<rparr>)))"

definition ct_get_constant :: "'c constant_tracker \<Rightarrow> nat \<Rightarrow> 'c option" where
  "ct_get_constant self cid =
     (if cid < length (ct_constants self) then Some (ct_constants self ! cid) else None)"

definition ct_next_id :: "'c constant_tracker \<Rightarrow> nat" where
  "ct_next_id self = length (ct_constants self)"

section \<open>Interning\<close>

locale interner =
  fixes intern :: "'c \<Rightarrow> 't \<Rightarrow> nat \<times> 't"
    and constant_of :: "'t \<Rightarrow> nat \<Rightarrow> 'c option"
    and ok :: "'t \<Rightarrow> bool"
  assumes ok_intern: "ok t \<Longrightarrow> intern c t = (i, t') \<Longrightarrow> ok t'"
    and interned: "ok t \<Longrightarrow> intern c t = (i, t') \<Longrightarrow> constant_of t' i = Some c"
    and kept: "ok t \<Longrightarrow> intern c t = (i, t') \<Longrightarrow> constant_of t j = Some d \<Longrightarrow> constant_of t' j = Some d"
begin

text \<open>Storing a list of named constants, as clients do.\<close>

definition intern_all :: "('k \<times> 'c) list \<Rightarrow> 't \<Rightarrow> (nat \<times> 'k) list \<times> 't" where
  "intern_all xs t = fold (\<lambda>(k, c) (ids, t). case intern c t of (i, t') \<Rightarrow> (ids @ [(i, k)], t')) xs ([], t)"

lemma intern_all_fold:
  assumes "ok t" and "fold (\<lambda>(k, c) (ids, t). case intern c t of (i, t') \<Rightarrow> (ids @ [(i, k)], t')) xs (acc, t) = (ids, t')"
  shows "ok t' \<and> (\<forall>j d. constant_of t j = Some d \<longrightarrow> constant_of t' j = Some d) \<and>
    (\<exists>new. ids = acc @ new \<and> list_all2 (\<lambda>(i, k) (k', c). k = k' \<and> constant_of t' i = Some c) new xs)"
  using assms
proof (induction xs arbitrary: t acc)
  case (Cons x xs)
  obtain k c where x: "x = (k, c)" by (cases x)
  obtain i t1 where i: "intern c t = (i, t1)" by (cases "intern c t")
  note laws = ok_intern [OF Cons.prems(1) i] interned [OF Cons.prems(1) i] kept [OF Cons.prems(1) i]
  obtain new where n: "ok t'" "\<forall>j d. constant_of t1 j = Some d \<longrightarrow> constant_of t' j = Some d"
    "ids = (acc @ [(i, k)]) @ new" "list_all2 (\<lambda>(i, k) (k', c). k = k' \<and> constant_of t' i = Some c) new xs"
    using Cons.IH [OF laws(1), of "acc @ [(i, k)]"] Cons.prems(2) i by (auto simp: x)
  have "list_all2 (\<lambda>(i, k) (k', c). k = k' \<and> constant_of t' i = Some c) ((i, k) # new) (x # xs)"
    using n(2,4) laws(2) by (simp add: x)
  with n(1-3) laws(3) show ?case by (intro conjI exI [of _ "(i, k) # new"]) auto
qed simp

lemma intern_all_spec:
  assumes "ok t" and "intern_all xs t = (ids, t')"
  shows "ok t' \<and> (\<forall>j d. constant_of t j = Some d \<longrightarrow> constant_of t' j = Some d) \<and>
    list_all2 (\<lambda>(i, k) (k', c). k = k' \<and> constant_of t' i = Some c) ids xs"
  using intern_all_fold [OF assms(1), of xs "[]"] assms(2) by (simp add: intern_all_def)

end

section \<open>Lemmas\<close>

text \<open>The lookup table is the inverse of the list of constants.\<close>

definition ct_wf :: "'c constant_tracker \<Rightarrow> bool" where
  "ct_wf t \<longleftrightarrow> distinct (ct_constants t) \<and>
     (\<forall>c i. map_of (ct_lookup t) c = Some i \<longleftrightarrow> i < length (ct_constants t) \<and> ct_constants t ! i = c)"

lemma ct_wf_new [simp]: "ct_wf ct_new"
  by (simp add: ct_wf_def ct_new_def)

lemma ct_lookup_Some:
  "ct_wf t \<Longrightarrow> ct_get_id t c = Some i \<longleftrightarrow> i < length (ct_constants t) \<and> ct_constants t ! i = c"
  by (simp add: ct_wf_def ct_get_id_def)

lemma ct_insert_cases:
  assumes "ct_wf t"
  obtains (old) i where "i < length (ct_constants t)" "ct_constants t ! i = c" "ct_insert c t = (i, t)"
      "c \<in> set (ct_constants t)"
  | (new) "c \<notin> set (ct_constants t)" "ct_insert c t = (length (ct_constants t),
      \<lparr>ct_lookup = hm_insert c (length (ct_constants t)) (ct_lookup t), ct_constants = ct_constants t @ [c]\<rparr>)"
proof (cases "ct_get_id t c")
  case None
  have "c \<notin> set (ct_constants t)"
  proof
    assume "c \<in> set (ct_constants t)"
    then obtain i where "i < length (ct_constants t)" "ct_constants t ! i = c" by (auto simp: in_set_conv_nth)
    with None ct_lookup_Some [OF assms, of c i] show False by simp
  qed
  then show ?thesis using new None by (simp add: ct_insert_def Let_def)
next
  case (Some i)
  then show ?thesis using old [of i] ct_lookup_Some [OF assms, of c i] by (auto simp: ct_insert_def)
qed

lemma ct_wf_insert:
  assumes "ct_wf t" and "ct_insert c t = (i, t')"
  shows "ct_wf t'"
  using assms(1)
proof (cases rule: ct_insert_cases [where c = c])
  case old
  then show ?thesis using assms by simp
next
  case new
  then have t': "t' = \<lparr>ct_lookup = hm_insert c (length (ct_constants t)) (ct_lookup t), ct_constants = ct_constants t @ [c]\<rparr>"
    using assms(2) by simp
  show ?thesis using assms(1) new(1) by (auto simp: t' ct_wf_def update_conv' nth_append)
qed

lemma ct_insert_get:
  assumes "ct_wf t" and "ct_insert c t = (i, t')"
  shows "ct_get_constant t' i = Some c \<and> (\<forall>j d. ct_get_constant t j = Some d \<longrightarrow> ct_get_constant t' j = Some d)"
  using assms(1)
proof (cases rule: ct_insert_cases [where c = c])
  case old
  then show ?thesis using assms by (auto simp: ct_get_constant_def)
next
  case new
  then show ?thesis using assms by (auto simp: ct_get_constant_def nth_append split: if_splits)
qed

interpretation ct: interner ct_insert ct_get_constant ct_wf
  by unfold_locales (auto dest: ct_wf_insert ct_insert_get)

section \<open>Properties\<close>

text \<open>Interning. The table stays consistent, the constant is found under the number returned, numbers
  given before keep their meaning, and equal constants get equal numbers: a constant is stored
  only once.\<close>

theorem constant_tracker_interns:
  assumes "ct_wf t" and "ct_insert c t = (i, t')"
  shows "ct_wf t' \<and> ct_get_constant t' i = Some c \<and> ct_insert c t' = (i, t') \<and>
    (\<forall>j d. ct_get_constant t j = Some d \<longrightarrow> ct_get_constant t' j = Some d \<and> (j = i \<longleftrightarrow> d = c)) \<and>
    ct_next_id t' = (if c \<in> set (ct_constants t) then ct_next_id t else Suc (ct_next_id t))"
  using assms(1)
proof (cases rule: ct_insert_cases [where c = c])
  case old
  then show ?thesis using assms
    by (auto simp: ct_get_constant_def ct_wf_def nth_eq_iff_index_eq ct_next_id_def split: if_splits)
next
  case new
  have wf: "ct_wf t'" using ct_wf_insert [OF assms] .
  have i: "i = length (ct_constants t)" and t': "t' = \<lparr>ct_lookup = hm_insert c (length (ct_constants t)) (ct_lookup t),
      ct_constants = ct_constants t @ [c]\<rparr>"
    using new(2) assms(2) by simp_all
  have "ct_get_constant t' j = Some d \<and> (j = i \<longleftrightarrow> d = c)" if "ct_get_constant t j = Some d" for j d
    using that new(1) by (auto simp: t' i ct_get_constant_def nth_append split: if_splits)
  then show ?thesis
    using wf new(1) by (simp add: i t' ct_get_constant_def ct_insert_def ct_get_id_def ct_next_id_def update_conv')
qed

theorem constant_tracker_interns_witness:
  "ct_insert (5 :: int) \<lparr>ct_lookup = [(4, 0)], ct_constants = [4]\<rparr> =
     (1, \<lparr>ct_lookup = [(4, 0), (5, 1)], ct_constants = [4, 5]\<rparr>) \<and>
   ct_get_constant \<lparr>ct_lookup = [(4 :: int, 0), (5, 1)], ct_constants = [4, 5]\<rparr> 1 = Some 5"
proof -
  have t: "ct_insert (5 :: int) \<lparr>ct_lookup = [(4, 0)], ct_constants = [4]\<rparr> =
     (1, \<lparr>ct_lookup = [(4, 0), (5, 1)], ct_constants = [4, 5]\<rparr>)" by code_simp
  have "ct_wf \<lparr>ct_lookup = [(4 :: int, 0)], ct_constants = [4]\<rparr>" by (auto simp: ct_wf_def)
  from constant_tracker_interns [OF this t] t show ?thesis by blast
qed

end
