(* ===== verification/Modular_Arithmetic.thy ===== *)
theory Modular_Arithmetic
  imports Prelude
begin

text \<open>
  \<open>circom_algebra/src/modular_arithmetic.rs\<close> and \<open>program_structure/src/utils/constants.rs\<close>:
  the arithmetic of field elements on arbitrary-precision integers. A \<open>BigInt\<close> is an \<open>int\<close>;
  its \<open>/\<close> and \<open>%\<close> truncate towards zero (\<open>sdiv\<close>, \<open>smod\<close>). The field is never zero here.

  The two number-theoretic routines of the big-integer crate are parameters: \<open>minv a p\<close> for
  \<open>a.mod_inverse(p)\<close> and \<open>mpow b e p\<close> for \<open>b.modpow(e, p)\<close> (\<open>None\<close> for its panic). What
  their documentation promises is \<open>inverse_ok\<close> and \<open>modpow_ok\<close>; \<open>search_inverse\<close> and
  \<open>plain_modpow\<close> show that the promises can be kept.
\<close>

unbundle bit_operations_syntax

section \<open>Fields (constants.rs)\<close>

definition UsefulConstants_new :: "string \<Rightarrow> int option" where
  "UsefulConstants_new possible_prime =
    (if possible_prime = ''bn128'' then
       Some 21888242871839275222246405745257275088548364400416034343698204186575808495617
     else if possible_prime = ''bls12381'' then
       Some 52435875175126190479447740508185965837690552500527637822603658699938581184513
     else if possible_prime = ''goldilocks'' then
       Some 18446744069414584321
     else if possible_prime = ''grumpkin'' then
       Some 21888242871839275222246405745257275088696311157297823662689037894645226208583
     else if possible_prime = ''pallas'' then
       Some 28948022309329048855892746252171976963363056481941560715954676764349967630337
     else if possible_prime = ''vesta'' then
       Some 28948022309329048855892746252171976963363056481941647379679742748393362948097
     else if possible_prime = ''secq256r1'' then
       Some 115792089210356248762697446949407573530086143415290314195533631308867097853951
     else if possible_prime = ''bls12377'' then
       Some 8444461749428370424248824938781546531375899335154063827935233455917409239041
     else None)"

section \<open>Results and the routines of the big-integer crate\<close>

datatype arithmetic_error = DivisionByZero | BitOverFlowInShift

type_synonym 'a result = "arithmetic_error + 'a"

type_synonym inverse_fn = "int \<Rightarrow> int \<Rightarrow> int option"
type_synonym modpow_fn = "int \<Rightarrow> int \<Rightarrow> int \<Rightarrow> int option"

definition inverse_ok :: "inverse_fn \<Rightarrow> int \<Rightarrow> bool" where
  "inverse_ok minv p \<longleftrightarrow>
     (\<forall>a. case minv a p of
            Some x \<Rightarrow> 0 \<le> x \<and> x < p \<and> eqm p (a * x) 1
          | None \<Rightarrow> \<not> coprime a p)"

definition modpow_ok :: "modpow_fn \<Rightarrow> int \<Rightarrow> bool" where
  "modpow_ok mpow p \<longleftrightarrow>
     (\<forall>b e. mpow b e p = (if e < 0 then None else Some ((b ^ nat e) mod p)))"

definition search_inverse :: inverse_fn where
  "search_inverse a p = find (\<lambda>x. (a * x) mod p = 1 mod p) [0..p - 1]"

definition plain_modpow :: modpow_fn where
  "plain_modpow b e p = (if e < 0 then None else Some ((b ^ nat e) mod p))"

section \<open>Arithmetic operations\<close>

definition modulus :: "int \<Rightarrow> int \<Rightarrow> int" where
  "modulus a b = ((a smod b) + b) smod b"

definition ma_add :: "int \<Rightarrow> int \<Rightarrow> int \<Rightarrow> int" where
  "ma_add left right field = modulus (left + right) field"

definition ma_mul :: "int \<Rightarrow> int \<Rightarrow> int \<Rightarrow> int" where
  "ma_mul left right field = modulus (left * right) field"

definition ma_sub :: "int \<Rightarrow> int \<Rightarrow> int \<Rightarrow> int" where
  "ma_sub left right field = modulus (left - right) field"

definition ma_div :: "inverse_fn \<Rightarrow> int \<Rightarrow> int \<Rightarrow> int \<Rightarrow> int result" where
  "ma_div minv left right field =
     (case minv right field of
        None \<Rightarrow> Inl DivisionByZero
      | Some right_inverse \<Rightarrow> Inr (ma_mul left right_inverse field))"

definition ma_idiv :: "int \<Rightarrow> int \<Rightarrow> int \<Rightarrow> int result" where
  "ma_idiv left right field =
     (let left = modulus left field; right = modulus right field
      in if right = 0 then Inl DivisionByZero else Inr (left sdiv right))"

text \<open>A zero divisor makes \<open>%\<close> panic in the last line.\<close>

definition ma_mod_op :: "int \<Rightarrow> int \<Rightarrow> int \<Rightarrow> int result option" where
  "ma_mod_op left right field =
     (let left = modulus left field; right = modulus right field
      in if right = 0 then None else Some (Inr (modulus left right)))"

definition ma_pow :: "modpow_fn \<Rightarrow> int \<Rightarrow> int \<Rightarrow> int \<Rightarrow> int option" where
  "ma_pow mpow base exp field = mpow base exp field"

definition ma_prefix_sub :: "int \<Rightarrow> int \<Rightarrow> int" where
  "ma_prefix_sub elem field = ma_mul elem (-1) field"

text \<open>
  \<open>multi_inv\<close>: the running products, one inversion, and the loop that walks back. The
  \<open>unwrap\<close> of the inversion panics when the product has no inverse.
\<close>

definition multi_inv_partials :: "int list \<Rightarrow> int \<Rightarrow> int list" where
  "multi_inv_partials values field =
     foldl (\<lambda>partials v. partials @ [ma_mul (last partials) v field]) [1] values"

fun multi_inv_loop :: "int list \<Rightarrow> int list \<Rightarrow> int \<Rightarrow> nat \<Rightarrow> int \<Rightarrow> int list \<Rightarrow> int list" where
  "multi_inv_loop values partials field 0 invs outputs = outputs"
| "multi_inv_loop values partials field (Suc i) invs outputs =
     multi_inv_loop values partials field i
       (ma_mul invs (values ! i) field)
       (outputs[i := ma_mul (partials ! i) invs field])"

definition multi_inv :: "inverse_fn \<Rightarrow> int list \<Rightarrow> int \<Rightarrow> int list option" where
  "multi_inv minv values field =
     (let partials = multi_inv_partials values field
      in case ma_div minv 1 (last partials) field of
           Inl _ \<Rightarrow> None
         | Inr invs \<Rightarrow>
             Some (multi_inv_loop values partials field (length values) invs
                     (replicate (length partials) 0)))"

section \<open>Bit operations\<close>

text \<open>
  \<open>to_radix_le(2)\<close> and \<open>from_radix_le(_, _, 2)\<close>: little-endian digits, a single zero for zero.
  \<open>bits()\<close> is the length of the representation, zero for zero.
\<close>

fun radix_le :: "nat \<Rightarrow> nat list" where
  "radix_le n = (if n < 2 then [n] else n mod 2 # radix_le (n div 2))"

declare radix_le.simps [simp del]

fun from_radix_le :: "nat list \<Rightarrow> nat" where
  "from_radix_le [] = 0"
| "from_radix_le (b # bs) = b + 2 * from_radix_le bs"

definition bit_representation :: "int \<Rightarrow> int \<times> nat list" where
  "bit_representation elem = (sgn elem, radix_le (nat \<bar>elem\<bar>))"

definition bits :: "int \<Rightarrow> nat" where
  "bits x = (if x = 0 then 0 else length (radix_le (nat \<bar>x\<bar>)))"

definition ma_mask :: "int \<Rightarrow> int" where
  "ma_mask field = 2 ^ length (snd (bit_representation field)) - 1"

definition complement :: "int \<Rightarrow> int \<Rightarrow> int" where
  "complement elem field =
     (let (sign, bit_repr) = bit_representation elem;
          new_sign = (if elem = 0 then 1 else sign);
          nbits = bits field;
          bit_repr = take nbits bit_repr;
          bit_repr = bit_repr @ replicate (nbits - length bit_repr) 0;
          bit_repr = map (\<lambda>bit. if bit = 0 then 1 else 0) bit_repr;
          cp = new_sign * int (from_radix_le bit_repr)
      in modulus cp field)"

definition to_usize :: "int \<Rightarrow> nat option" where
  "to_usize x = (if 0 \<le> x \<and> x < 2 ^ 64 then Some (nat x) else None)"

lemma shift_turns_once: "field sdiv 2 < right \<Longrightarrow> field - right \<le> field sdiv 2" for field :: int
  by (simp add: signed_divide_int_def sgn_if abs_if split: if_splits)

text \<open>
  The two shifts call each other: a shift by more than half of the field is the opposite
  shift by the distance to the field. The second call always takes the direct branch.
\<close>

function shift_l :: "int \<Rightarrow> int \<Rightarrow> int \<Rightarrow> int result"
  and shift_r :: "int \<Rightarrow> int \<Rightarrow> int \<Rightarrow> int result" where
  "shift_l left right field =
     (let top = field sdiv 2
      in if right \<le> top then
           (case to_usize right of
              None \<Rightarrow> Inl DivisionByZero
            | Some usize_repr \<Rightarrow> Inr (modulus ((left * 2 ^ usize_repr) AND ma_mask field) field))
         else shift_r left (field - right) field)"
| "shift_r left right field =
     (let top = field sdiv 2
      in if right \<le> top then
           (case to_usize right of
              None \<Rightarrow> Inl DivisionByZero
            | Some usize_repr \<Rightarrow> Inr (left sdiv 2 ^ usize_repr))
         else shift_l left (field - right) field)"
  by pat_completeness auto

termination
  by (relation "measure (case_sum
        (\<lambda>(l, right, field). if right \<le> field sdiv 2 then 0 else 1)
        (\<lambda>(l, right, field). if right \<le> field sdiv 2 then 0 else 1))")
     (simp_all add: shift_turns_once not_le)

declare shift_l.simps [simp del] shift_r.simps [simp del]

definition bit_or :: "int \<Rightarrow> int \<Rightarrow> int \<Rightarrow> int" where
  "bit_or left right field = modulus (left OR right) field"

definition bit_and :: "int \<Rightarrow> int \<Rightarrow> int \<Rightarrow> int" where
  "bit_and left right field = modulus (left AND right) field"

definition bit_xor :: "int \<Rightarrow> int \<Rightarrow> int \<Rightarrow> int" where
  "bit_xor left right field = modulus (left XOR right) field"

section \<open>Boolean operations\<close>

definition constant_true :: int where "constant_true = 1"

definition constant_false :: int where "constant_false = 0"

definition ma_val :: "int \<Rightarrow> int \<Rightarrow> int" where
  "ma_val elem field =
     (let c = (field sdiv 2) + 1
      in if c \<le> elem \<and> elem < field then elem - field else elem)"

definition comparable_element :: "int \<Rightarrow> int \<Rightarrow> int" where
  "comparable_element elem field = ma_val (modulus elem field) field"

definition ma_normalize :: "int \<Rightarrow> int \<Rightarrow> int" where
  "ma_normalize elem field =
     (if comparable_element elem field = constant_false then constant_false else constant_true)"

definition as_bool :: "int \<Rightarrow> int \<Rightarrow> bool" where
  "as_bool elem field \<longleftrightarrow> ma_normalize elem field \<noteq> constant_false"

definition ma_not :: "int \<Rightarrow> int \<Rightarrow> int" where
  "ma_not elem field = (ma_normalize elem field + 1) smod 2"

definition bool_and :: "int \<Rightarrow> int \<Rightarrow> int \<Rightarrow> int" where
  "bool_and left right field = ma_normalize left field * ma_normalize right field"

definition bool_or :: "int \<Rightarrow> int \<Rightarrow> int \<Rightarrow> int" where
  "bool_or left right field =
     (ma_normalize left field + ma_normalize right field + bool_and left right field) smod 2"

definition ma_eq :: "int \<Rightarrow> int \<Rightarrow> int \<Rightarrow> int" where
  "ma_eq left right field =
     (let left = modulus left field; right = modulus right field
      in if left = right then constant_true else constant_false)"

definition lesser :: "int \<Rightarrow> int \<Rightarrow> int \<Rightarrow> int" where
  "lesser left right field =
     (let left = comparable_element left field; right = comparable_element right field
      in if left < right then constant_true else constant_false)"

definition not_eq :: "int \<Rightarrow> int \<Rightarrow> int \<Rightarrow> int" where
  "not_eq left right field = ma_not (ma_eq left right field) field"

definition lesser_eq :: "int \<Rightarrow> int \<Rightarrow> int \<Rightarrow> int" where
  "lesser_eq left right field =
     bool_or (lesser left right field) (ma_eq left right field) field"

definition greater :: "int \<Rightarrow> int \<Rightarrow> int \<Rightarrow> int" where
  "greater left right field = ma_not (lesser_eq left right field) field"

definition greater_eq :: "int \<Rightarrow> int \<Rightarrow> int \<Rightarrow> int" where
  "greater_eq left right field =
     bool_or (greater left right field) (ma_eq left right field) field"


section \<open>Lemmas: the modulus and the field operations\<close>

lemma sdiv_nonneg: "0 \<le> a \<Longrightarrow> 0 \<le> b \<Longrightarrow> a sdiv b = a div b" for a b :: int
  by (simp add: signed_divide_int_def sgn_if)

lemma modulus_mod [simp]: "0 < b \<Longrightarrow> modulus a b = a mod b"
proof -
  assume b: "0 < b"
  then have "a smod b \<in> {- b + 1..b - 1}" using smod_int_range [of b a] by simp
  then have "modulus a b = (a smod b + b) mod b"
    using b by (simp add: modulus_def smod_mod_positive)
  also have "\<dots> = (a - a sdiv b * b) mod b" by (simp add: minus_sdiv_mult_eq_smod)
  also have "\<dots> = a mod b" using mod_mult_self3 [of "- (a sdiv b)" b a] by (simp add: algebra_simps)
  finally show ?thesis .
qed

lemma ma_add_mod [simp]: "0 < p \<Longrightarrow> ma_add a b p = (a + b) mod p"
  by (simp add: ma_add_def)

lemma ma_mul_mod [simp]: "0 < p \<Longrightarrow> ma_mul a b p = (a * b) mod p"
  by (simp add: ma_mul_def)

lemma ma_sub_mod [simp]: "0 < p \<Longrightarrow> ma_sub a b p = (a - b) mod p"
  by (simp add: ma_sub_def)

lemma ma_prefix_sub_mod [simp]: "0 < p \<Longrightarrow> ma_prefix_sub a p = (- a) mod p"
  by (simp add: ma_prefix_sub_def)

lemma inverse_ok_Some:
  "inverse_ok minv p \<Longrightarrow> minv a p = Some x \<Longrightarrow> 0 \<le> x \<and> x < p \<and> eqm p (a * x) 1"
  by (auto simp: inverse_ok_def dest!: spec [of _ a])

lemma inverse_ok_None: "inverse_ok minv p \<Longrightarrow> minv a p = None \<Longrightarrow> \<not> coprime a p"
  by (auto simp: inverse_ok_def dest!: spec [of _ a])

lemma inverse_ok_coprime:
  assumes "inverse_ok minv p" and "coprime a p"
  obtains x where "minv a p = Some x" "0 \<le> x" "x < p" "eqm p (a * x) 1"
  using assms inverse_ok_None inverse_ok_Some by (cases "minv a p") blast+

lemma eqm_unit_coprime:
  assumes "eqm p (a * x) 1"
  shows "coprime a p"
proof (rule coprimeI)
  fix d assume d: "d dvd a" "d dvd p"
  from assms have "p dvd a * x - 1" by (simp add: mod_eq_dvd_iff)
  with d(2) have "d dvd a * x - 1" by (rule dvd_trans)
  with dvd_mult2 [OF d(1), of x] have "d dvd a * x - (a * x - 1)" by (rule dvd_diff)
  then show "is_unit d" by simp
qed

lemma inverse_ok_search: "1 < p \<Longrightarrow> inverse_ok search_inverse p"
proof -
  assume p: "1 < p"
  have "\<not> coprime a p" if none: "search_inverse a p = None" for a
  proof
    assume "coprime a p"
    then obtain u v where "u * a + v * p = 1" using bezout_int [of a p] by auto
      then have "a * u - 1 = p * (- v)" by (simp add: algebra_simps)
    then have "eqm p (a * u) 1" by (metis dvd_triv_left mod_eq_dvd_iff)
    then have "eqm p (a * (u mod p)) 1" by (simp add: mod_mult_right_eq)
    moreover have "u mod p \<in> set [0..p - 1]" using p by simp
    ultimately show False using none by (auto simp: search_inverse_def find_None_iff)
  qed
  moreover have "0 \<le> x \<and> x < p \<and> eqm p (a * x) 1" if "search_inverse a p = Some x" for a x
    using that by (auto simp: search_inverse_def find_Some_iff)
  ultimately show ?thesis by (auto simp: inverse_ok_def split: option.split)
qed

lemma modpow_ok_plain: "modpow_ok plain_modpow p"
  by (simp add: modpow_ok_def plain_modpow_def)

lemma ma_div_Inr:
  "inverse_ok minv p \<Longrightarrow> 0 < p \<Longrightarrow> ma_div minv l r p = Inr x \<Longrightarrow>
    0 \<le> x \<and> x < p \<and> eqm p (x * r) l"
proof -
  assume ok: "inverse_ok minv p" and p: "0 < p" and d: "ma_div minv l r p = Inr x"
  from d obtain i where i: "minv r p = Some i" and x: "x = (l * i) mod p"
    using p by (auto simp: ma_div_def split: option.splits)
  from inverse_ok_Some [OF ok i] have "eqm p (l * (r * i)) (l * 1)"
    by (intro eqm_mult) simp_all
  then have "eqm p (l * i * r) l" by (simp add: ac_simps)
  then have "eqm p (x * r) l" by (simp only: x mod_mult_left_eq)
  then show ?thesis using p by (simp add: x)
qed

lemma ma_div_Inl: "inverse_ok minv p \<Longrightarrow> 0 < p \<Longrightarrow> ma_div minv l r p = Inl e \<longleftrightarrow> e = DivisionByZero \<and> \<not> coprime r p"
  using inverse_ok_None [of minv p r] inverse_ok_Some [of minv p r] eqm_unit_coprime [where a = r and p = p]
  by (auto simp: ma_div_def split: option.splits)



section \<open>Lemmas: one inversion for many elements\<close>

lemma multi_inv_partials_snoc:
  "multi_inv_partials (vs @ [v]) p =
     multi_inv_partials vs p @ [ma_mul (last (multi_inv_partials vs p)) v p]"
  by (simp add: multi_inv_partials_def)

lemma length_multi_inv_partials [simp]:
  "length (multi_inv_partials vs p) = Suc (length vs)"
  by (induction vs rule: rev_induct) (simp_all add: multi_inv_partials_snoc, simp add: multi_inv_partials_def)

lemma multi_inv_partials_prod:
  assumes "0 < p" and "i \<le> length vs"
  shows "eqm p (multi_inv_partials vs p ! i) (prod_list (take i vs))"
  using assms(2)
proof (induction vs arbitrary: i rule: rev_induct)
  case Nil
  then show ?case by (simp add: multi_inv_partials_def)
next
  case (snoc v vs)
  show ?case
  proof (cases "i \<le> length vs")
    case True
    then show ?thesis using snoc.IH by (simp add: multi_inv_partials_snoc nth_append)
  next
    case False
    then have i: "i = Suc (length vs)" using snoc.prems by simp
    have "last (multi_inv_partials vs p) = multi_inv_partials vs p ! length vs"
      by (simp add: last_conv_nth flip: length_0_conv)
    then have "eqm p (last (multi_inv_partials vs p)) (prod_list vs)"
      using snoc.IH [of "length vs"] by simp
    then have "eqm p (last (multi_inv_partials vs p) * v) (prod_list vs * v)"
      by (rule eqm_mult) simp
    then show ?thesis using assms(1) i
      by (simp add: multi_inv_partials_snoc nth_append)
  qed
qed

lemma multi_inv_loop_correct:
  assumes p: "1 < p"
  shows "i \<le> length vs \<Longrightarrow> i \<le> length outs \<Longrightarrow>
    (\<forall>j \<le> length vs. eqm p (ps ! j) (prod_list (take j vs))) \<Longrightarrow>
    eqm p (acc * prod_list (take i vs)) 1 \<Longrightarrow>
    length (multi_inv_loop vs ps p i acc outs) = length outs \<and>
    (\<forall>j < i. eqm p (multi_inv_loop vs ps p i acc outs ! j * vs ! j) 1 \<and>
       multi_inv_loop vs ps p i acc outs ! j \<in> {0..<p}) \<and>
    (\<forall>j \<ge> i. multi_inv_loop vs ps p i acc outs ! j = outs ! j)"
proof (induction i arbitrary: acc outs)
  case (Suc i)
  let ?acc = "acc * vs ! i mod p" and ?outs = "outs[i := ps ! i * acc mod p]"
  have tk: "prod_list (take (Suc i) vs) = prod_list (take i vs) * vs ! i"
    using Suc.prems(1) by (simp add: take_Suc_conv_app_nth)
  have unit: "eqm p (acc * (prod_list (take i vs) * vs ! i)) 1"
    using Suc.prems(4) by (simp only: tk)
  have acc: "eqm p (?acc * prod_list (take i vs)) 1"
    using unit by (simp only: mod_mult_left_eq mod_mult_right_eq ac_simps)
  have "eqm p (ps ! i * (acc * vs ! i)) (prod_list (take i vs) * (acc * vs ! i))"
    using Suc.prems(1,3) by (intro eqm_mult) simp_all
  then have out: "eqm p ((ps ! i * acc mod p) * vs ! i) 1"
    using unit by (simp only: mod_mult_left_eq mod_mult_right_eq ac_simps)
  show ?case
    using Suc.IH [of ?outs ?acc] Suc.prems acc out p
    by (auto simp: less_Suc_eq nth_list_update)
qed simp

section \<open>Lemmas: bits\<close>

lemma from_radix_le_radix_le [simp]: "from_radix_le (radix_le n) = n"
  by (induction n rule: radix_le.induct) (subst radix_le.simps, auto)

lemma radix_le_digits: "b \<in> set (radix_le n) \<Longrightarrow> b < 2"
proof (induction n rule: radix_le.induct)
  case (1 n)
  then show ?case by (subst (asm) radix_le.simps) (auto split: if_splits)
qed

lemma from_radix_le_bound: "\<forall>b \<in> set bs. b < 2 \<Longrightarrow> from_radix_le bs < 2 ^ length bs"
  by (induction bs) auto

lemma radix_le_less: "n < 2 ^ length (radix_le n)"
  using from_radix_le_bound [of "radix_le n"] radix_le_digits [of _ n] by simp

lemma radix_le_length: "n < 2 ^ k \<Longrightarrow> 0 < k \<Longrightarrow> length (radix_le n) \<le> k"
proof (induction n arbitrary: k rule: radix_le.induct)
  case (1 n)
  show ?case
  proof (cases "n < 2")
    case True
    then show ?thesis using "1.prems" by (subst radix_le.simps) simp
  next
    case False
    then obtain j where k: "k = Suc j" "0 < j"
      using "1.prems" by (cases k; cases "k - 1") auto
    then have "n div 2 < 2 ^ j" using "1.prems"(1) by simp
    with False "1.IH" k show ?thesis by (subst radix_le.simps) simp
  qed
qed

lemma from_radix_le_pad [simp]: "from_radix_le (bs @ replicate k 0) = from_radix_le bs"
proof (induction bs)
  case Nil
  show ?case by (induction k) auto
qed simp

lemma from_radix_le_flip:
  "\<forall>b \<in> set bs. b < 2 \<Longrightarrow>
    from_radix_le (map (\<lambda>b. if b = 0 then 1 else 0) bs) + from_radix_le bs + 1 = 2 ^ length bs"
proof (induction bs)
  case (Cons b bs)
  then have "b = 0 \<or> b = 1" by auto
  with Cons show ?case by auto
qed simp

lemma bits_bound: "0 < p \<Longrightarrow> p < 2 ^ bits p"
  using radix_le_less [of "nat p"] by (simp add: bits_def nat_less_iff)

lemma bits_pos: "0 < p \<Longrightarrow> 0 < bits p"
  by (simp add: bits_def radix_le.simps)

lemma ma_mask_bits: "0 < p \<Longrightarrow> ma_mask p = 2 ^ bits p - 1"
  by (simp add: ma_mask_def bits_def bit_representation_def)

lemma and_ma_mask: "0 < p \<Longrightarrow> x AND ma_mask p = x mod 2 ^ bits p"
  by (simp add: ma_mask_bits take_bit_eq_mask mask_eq_exp_minus_1 flip: take_bit_eq_mod)

lemma complement_bits:
  assumes "0 < p" and "0 \<le> x" and "x < 2 ^ bits p"
  shows "complement x p = (2 ^ bits p - 1 - x) mod p"
proof -
  define bs where "bs = radix_le (nat x) @ replicate (bits p - length (radix_le (nat x))) 0"
  have "nat x < 2 ^ bits p" using assms by (simp add: nat_less_iff)
  then have len: "length (radix_le (nat x)) \<le> bits p"
    using bits_pos [OF assms(1)] by (rule radix_le_length)
  have "\<forall>b \<in> set bs. b < 2" using radix_le_digits by (auto simp: bs_def)
  from from_radix_le_flip [OF this]
  have "from_radix_le (map (\<lambda>b. if b = 0 then 1 else 0) bs) + nat x + 1 = 2 ^ bits p"
    using len by (simp add: bs_def)
  then have "int (from_radix_le (map (\<lambda>b. if b = 0 then 1 else 0) bs) + nat x + 1) = int (2 ^ bits p)"
    by (rule arg_cong)
  then have "int (from_radix_le (map (\<lambda>b. if b = 0 then 1 else 0) bs)) + x + 1 = 2 ^ bits p"
    using assms(2) by (simp only: of_nat_add of_nat_power int_nat_eq of_nat_1 of_nat_numeral if_True)
  then have flip: "int (from_radix_le (map (\<lambda>b. if b = 0 then 1 else 0) bs)) = 2 ^ bits p - 1 - x"
    using assms(2) by linarith
  show ?thesis
    using assms len flip
    by (cases "x = 0") (simp_all add: complement_def bit_representation_def bs_def)
qed

section \<open>Lemmas: comparisons\<close>

lemma comparable_element_eq:
  "0 < p \<Longrightarrow> comparable_element x p =
     (if p div 2 < x mod p then x mod p - p else x mod p)"
  by (auto simp: comparable_element_def ma_val_def Let_def signed_divide_int_def)

lemma comparable_element_cong: "0 < p \<Longrightarrow> eqm p (comparable_element x p) x"
  by (simp add: comparable_element_eq)

lemma comparable_element_inj:
  "0 < p \<Longrightarrow> comparable_element x p = comparable_element y p \<longleftrightarrow> eqm p x y"
  by (metis comparable_element_cong comparable_element_eq)

lemma comparable_element_0 [simp]: "0 < p \<Longrightarrow> comparable_element 0 p = 0"
  by (simp add: comparable_element_eq)

lemma normalize_of_bool:
  "0 < p \<Longrightarrow> ma_normalize x p = of_bool (\<not> eqm p x 0)"
  using comparable_element_inj [of p x 0]
  by (simp add: ma_normalize_def constant_false_def constant_true_def)

lemma normalize_0 [simp]: "1 < p \<Longrightarrow> ma_normalize 0 p = 0"
  by (simp add: normalize_of_bool)

lemma normalize_1 [simp]: "1 < p \<Longrightarrow> ma_normalize 1 p = 1"
  by (simp add: normalize_of_bool)

lemma normalize_bool [simp]: "1 < p \<Longrightarrow> ma_normalize (of_bool b) p = of_bool b"
  by (simp add: normalize_of_bool)

lemma ma_not_bool [simp]: "1 < p \<Longrightarrow> ma_not (of_bool b) p = of_bool (\<not> b)"
  by (simp add: ma_not_def smod_mod_positive)

lemma bool_or_bool [simp]:
  "1 < p \<Longrightarrow> bool_or (of_bool a) (of_bool b) p = of_bool (a \<or> b)"
  unfolding bool_or_def bool_and_def by (simp add: smod_mod_positive of_bool_def)

lemma ma_eq_bool: "0 < p \<Longrightarrow> ma_eq l r p = of_bool (eqm p l r)"
  by (simp add: ma_eq_def constant_true_def constant_false_def)

lemma lesser_bool: "lesser l r p = of_bool (comparable_element l p < comparable_element r p)"
  by (simp add: lesser_def constant_true_def constant_false_def)

lemma not_eq_bool: "1 < p \<Longrightarrow> not_eq l r p = of_bool (comparable_element l p \<noteq> comparable_element r p)"
  by (simp only: not_eq_def ma_eq_bool less_trans [OF zero_less_one] comparable_element_inj [symmetric] ma_not_bool)

lemma lesser_eq_bool:
  "1 < p \<Longrightarrow> lesser_eq l r p = of_bool (comparable_element l p \<le> comparable_element r p)"
  by (simp only: lesser_eq_def lesser_bool ma_eq_bool less_trans [OF zero_less_one]
      comparable_element_inj [symmetric] bool_or_bool le_less)

lemma greater_bool:
  "1 < p \<Longrightarrow> greater l r p = of_bool (comparable_element l p > comparable_element r p)"
  by (simp only: greater_def lesser_eq_bool ma_not_bool not_le)

lemma greater_eq_bool:
  "1 < p \<Longrightarrow> greater_eq l r p = of_bool (comparable_element l p \<ge> comparable_element r p)"
  by (simp only: greater_eq_def greater_bool ma_eq_bool less_trans [OF zero_less_one]
      comparable_element_inj [symmetric] bool_or_bool le_less) auto

lemmas comparison_bools =
  ma_eq_bool lesser_bool not_eq_bool lesser_eq_bool greater_bool greater_eq_bool

lemma shift_l_direct:
  "0 < p \<Longrightarrow> 0 \<le> k \<Longrightarrow> k \<le> p div 2 \<Longrightarrow> k < 2 ^ 64 \<Longrightarrow>
    shift_l x k p = Inr (x * 2 ^ nat k mod 2 ^ bits p mod p)"
  by (simp add: shift_l.simps signed_divide_int_def to_usize_def and_ma_mask)

lemma shift_r_direct:
  "0 < p \<Longrightarrow> 0 \<le> k \<Longrightarrow> k \<le> p div 2 \<Longrightarrow> k < 2 ^ 64 \<Longrightarrow>
    shift_r x k p = Inr (x sdiv 2 ^ nat k)"
  by (simp add: shift_r.simps signed_divide_int_def to_usize_def)

lemma shift_l_turn: "0 < p \<Longrightarrow> p div 2 < k \<Longrightarrow> shift_l x k p = shift_r x (p - k) p"
  by (subst shift_l.simps) (simp add: signed_divide_int_def)

lemma shift_r_turn: "0 < p \<Longrightarrow> p div 2 < k \<Longrightarrow> shift_r x k p = shift_l x (p - k) p"
  by (subst shift_r.simps) (simp add: signed_divide_int_def)

lemma coprime_prod_list:
  "coprime (prod_list vs) p \<longleftrightarrow> (\<forall>v \<in> set vs. coprime v p)" for p :: int
  by (induction vs) auto

lemma multi_inv_cases:
  assumes "inverse_ok minv p" and "1 < p"
  shows "multi_inv minv vs p = None \<longleftrightarrow> \<not> (\<forall>v \<in> set vs. coprime v p)"
    and "multi_inv minv vs p = Some outs \<Longrightarrow> length outs = Suc (length vs) \<and>
      (\<forall>i < length vs. eqm p (outs ! i * vs ! i) 1 \<and> 0 \<le> outs ! i \<and> outs ! i < p)"
proof -
  define ps where "ps = multi_inv_partials vs p"
  have ps: "\<forall>j \<le> length vs. eqm p (ps ! j) (prod_list (take j vs))"
    using assms by (simp add: ps_def multi_inv_partials_prod)
  have last: "last ps = ps ! length vs"
    by (simp add: ps_def last_conv_nth flip: length_0_conv)
  then have prod: "eqm p (last ps) (prod_list vs)" using ps by simp
  then have cop: "coprime (last ps) p \<longleftrightarrow> (\<forall>v \<in> set vs. coprime v p)"
    using assms(2) by (metis coprime_mod_left_iff coprime_prod_list less_irrefl less_trans zero_less_one)
  have dn: "(\<exists>e. ma_div minv 1 (last ps) p = Inl e) \<longleftrightarrow> \<not> coprime (last ps) p"
    using ma_div_Inl [OF assms(1), of 1 "last ps"] assms(2) by auto
  show "multi_inv minv vs p = None \<longleftrightarrow> \<not> (\<forall>v \<in> set vs. coprime v p)"
    using cop dn by (auto simp: multi_inv_def Let_def simp flip: ps_def split: sum.splits)
  assume "multi_inv minv vs p = Some outs"
  then obtain acc where acc: "ma_div minv 1 (last ps) p = Inr acc"
    and outs: "outs = multi_inv_loop vs ps p (length vs) acc (replicate (length ps) 0)"
    by (auto simp: multi_inv_def Let_def simp flip: ps_def split: sum.splits)
  have "eqm p (acc * last ps) 1" using ma_div_Inr [OF assms(1) _ acc] assms(2) by simp
  moreover have "eqm p (acc * last ps) (acc * prod_list vs)" using prod by (intro eqm_mult) simp_all
  ultimately have "eqm p (acc * prod_list (take (length vs) vs)) 1" by simp
  from multi_inv_loop_correct [OF assms(2) order_refl _ ps this, of "replicate (length ps) 0"]
  show "length outs = Suc (length vs) \<and>
      (\<forall>i < length vs. eqm p (outs ! i * vs ! i) 1 \<and> 0 \<le> outs ! i \<and> outs ! i < p)"
    by (simp add: outs ps_def)
qed

section \<open>Properties\<close>

text \<open>\<open>multi_inv\<close> inverts every listed coefficient with a single modular inversion: it panics
  exactly when some coefficient is not invertible, and otherwise entry \<open>i\<close> of its output is the
  reduced inverse of value \<open>i\<close> (the output has one extra trailing entry).\<close>

theorem multi_inv_correct:
  assumes "inverse_ok minv p" and "1 < p"
  shows "case multi_inv minv vs p of
      None \<Rightarrow> \<exists>v \<in> set vs. \<not> coprime v p
    | Some outs \<Rightarrow> (\<forall>v \<in> set vs. coprime v p) \<and> length outs = Suc (length vs) \<and>
        (\<forall>i < length vs. eqm p (outs ! i * vs ! i) 1 \<and> 0 \<le> outs ! i \<and> outs ! i < p)"
  using multi_inv_cases [OF assms, of vs]
  by (cases "multi_inv minv vs p") auto

theorem multi_inv_correct_witness:
  "case multi_inv search_inverse [2, 3, 6] 7 of
      None \<Rightarrow> False
    | Some outs \<Rightarrow> outs = [4, 5, 6, 0] \<and> eqm 7 (outs ! 1 * 3) 1"
proof -
  have eq: "multi_inv search_inverse [2, 3, 6] 7 = Some [4, 5, 6, 0]" by code_simp
  from multi_inv_correct [OF inverse_ok_search, of 7 "[2, 3, 6]"]
  have "eqm 7 ([4, 5, 6, 0] ! 1 * [2, 3, 6] ! 1) (1 :: int)" unfolding eq by simp
  then show ?thesis unfolding eq by simp
qed

text \<open>Field division is exact: \<open>div\<close> fails with \<open>DivisionByZero\<close> exactly when the divisor has no
  inverse modulo the field, and otherwise returns the reduced element that multiplied by the
  divisor gives back the dividend.\<close>

theorem div_exact:
  assumes "inverse_ok minv p" and "1 < p"
  shows "case ma_div minv l r p of
      Inl e \<Rightarrow> e = DivisionByZero \<and> \<not> coprime r p
    | Inr q \<Rightarrow> coprime r p \<and> 0 \<le> q \<and> q < p \<and> eqm p (ma_mul q r p) l"
  using ma_div_Inr [OF assms(1), of l r] ma_div_Inl [OF assms(1), of l r] assms(2)
  by (auto split: sum.split)

theorem div_exact_witness:
  "ma_div search_inverse 3 5 7 = Inr 2 \<and> eqm 7 (ma_mul 2 5 7) 3"
proof -
  have eq: "ma_div search_inverse 3 5 7 = Inr 2" by code_simp
  from div_exact [OF inverse_ok_search, of 7 3 5] show ?thesis unfolding eq by simp
qed

text \<open>C39: integer division and remainder of field elements are Euclidean on the reduced values. A zero
  divisor is an error value for \<open>idiv\<close> but a panic for \<open>mod_op\<close>, which does not test for it.\<close>

theorem idiv_mod_euclidean:
  assumes "0 < p"
  shows "(r mod p = 0 \<longrightarrow> ma_idiv l r p = Inl DivisionByZero \<and> ma_mod_op l r p = None) \<and>
    (r mod p \<noteq> 0 \<longrightarrow> (\<exists>q m. ma_idiv l r p = Inr q \<and> ma_mod_op l r p = Some (Inr m) \<and>
       l mod p = q * (r mod p) + m \<and> 0 \<le> m \<and> m < r mod p))"
proof -
  have "0 < r mod p" if "r mod p \<noteq> 0"
    using that pos_mod_sign [OF assms, of r] by linarith
  then show ?thesis
    using assms by (auto simp: ma_idiv_def ma_mod_op_def Let_def sdiv_nonneg minus_mod_eq_div_mult [symmetric])
qed

theorem idiv_mod_euclidean_witness:
  "ma_idiv 20 10 7 = Inr 2 \<and> ma_mod_op 20 10 7 = Some (Inr 0) \<and> ma_mod_op 5 14 7 = None"
proof -
  have i: "ma_idiv 20 10 7 = Inr 2" by code_simp
  from idiv_mod_euclidean [of 7 10 20] i
  have "\<exists>m. ma_mod_op 20 10 7 = Some (Inr m) \<and> 6 = 2 * 3 + m" by auto
  moreover from idiv_mod_euclidean [of 7 14 5] have "ma_mod_op 5 14 7 = None" by simp
  ultimately show ?thesis using i by auto
qed

text \<open>The relational operators order field elements by their signed representative:
  \<open>comparable_element\<close> is the representative between minus half and half of the field, and all six
  operators return 1 or 0 according to the comparison of the representatives.\<close>

theorem comparisons_signed:
  assumes "1 < p"
  defines "s \<equiv> \<lambda>x. comparable_element x p"
  shows "- ((p - 1) div 2) \<le> s l \<and> s l \<le> p div 2 \<and> eqm p (s l) l \<and>
    lesser l r p = of_bool (s l < s r) \<and> lesser_eq l r p = of_bool (s l \<le> s r) \<and>
    greater l r p = of_bool (s l > s r) \<and> greater_eq l r p = of_bool (s l \<ge> s r) \<and>
    ma_eq l r p = of_bool (s l = s r) \<and> not_eq l r p = of_bool (s l \<noteq> s r)"
proof -
  define m where "m = l mod p"
  have "0 \<le> m" "m < p" using assms(1) by (simp_all add: m_def)
  then have "- ((p - 1) div 2) \<le> (if p div 2 < m then m - p else m) \<and>
      (if p div 2 < m then m - p else m) \<le> p div 2"
    by presburger
  then have "- ((p - 1) div 2) \<le> s l \<and> s l \<le> p div 2"
    using assms(1) by (simp only: s_def comparable_element_eq m_def less_trans [OF zero_less_one])
  moreover have "eqm p (s l) l" "ma_eq l r p = of_bool (s l = s r)"
    using assms(1) by (simp_all add: s_def comparable_element_cong comparable_element_inj ma_eq_bool)
  ultimately show ?thesis
    using assms(1) by (simp add: comparison_bools s_def)
qed

theorem comparisons_signed_witness:
  "comparable_element 5 7 = -2 \<and> lesser 5 3 7 = 1 \<and> greater_eq 5 3 7 = 0"
  using comparisons_signed [of 7 5 3] by (simp add: comparable_element_eq)

text \<open>The shifts. A shift distance up to half of the field multiplies by a power of two within the
  bit length of the field (left) or divides by it, truncating (right); a distance above half of
  the field is the opposite shift by the distance to the field.\<close>

theorem shifts_specified:
  assumes "0 < p" and "0 \<le> k" and "k \<le> p div 2" and "k < 2 ^ 64" and "p div 2 < h"
  shows "shift_l x k p = Inr (x * 2 ^ nat k mod 2 ^ bits p mod p) \<and>
    shift_r x k p = Inr (x sdiv 2 ^ nat k) \<and>
    shift_l x h p = shift_r x (p - h) p \<and> shift_r x h p = shift_l x (p - h) p"
  using assms by (simp add: shift_l_direct shift_r_direct shift_l_turn shift_r_turn)

theorem shifts_specified_witness:
  "shift_l 200 2 257 = Inr 31 \<and> shift_r 200 2 257 = Inr 50 \<and> shift_l 200 255 257 = Inr 50"
proof -
  have b: "bits 257 = 9" by code_simp
  from shifts_specified [of 257 2 255 200] show ?thesis by (simp add: b)
qed

text \<open>The bitwise complement of an element that fits the bit length of the field flips all of these
  bits, so it is the distance to the all-ones word, reduced modulo the field.\<close>

theorem complement_flips:
  assumes "0 < p" and "0 \<le> x" and "x < 2 ^ bits p"
  shows "complement x p = (2 ^ bits p - 1 - x) mod p"
  using assms by (rule complement_bits)

theorem complement_flips_witness:
  "bits 257 = 9 \<and> complement 200 257 = 54"
proof -
  have b: "bits 257 = 9" by code_simp
  from complement_flips [of 257 200] show ?thesis by (simp add: b)
qed

end
