(* ===== verification/Arithmetic_Expression.thy ===== *)
theory Arithmetic_Expression
  imports Modular_Arithmetic
begin

text \<open>
  \<open>ArithmeticExpression\<close> of \<open>circom_algebra/src/algebra.rs\<close>: the symbolic values of the
  compiler, kept at most quadratic. A linear expression is a hash map from symbols to
  coefficients; the default symbol (0, or the empty string) stands for the constant 1, and
  \<open>initialize_hashmap_for_expression\<close> makes sure that it is a key. Reading the constant of a map
  without it is the panic of \<open>add_constant_to_coefficients\<close>.

  The meaning of an expression under an assignment of the symbols is \<open>aeval\<close>; an assignment
  gives the default symbol the value 1. The lemmas show that each operation keeps expressions
  well formed (\<open>expr_wf\<close>) and computes the operation of the field.
\<close>

section \<open>Data\<close>

type_synonym 'c coefficients = "('c, int) hmap"

datatype 'c arithmetic_expression =
    Number int
  | Signal 'c
  | Linear "'c coefficients"
  | Quadratic "'c coefficients" "'c coefficients" "'c coefficients"
  | NonQuadratic

record 'c substitution =
  sub_from :: 'c
  sub_to :: "'c coefficients"

record 'c constraint =
  con_a :: "'c coefficients"
  con_b :: "'c coefficients"
  con_c :: "'c coefficients"

text \<open>\<open>PartialEq\<close>: maps are compared as maps, and \<open>NonQuadratic\<close> equals nothing.\<close>

fun ae_partial_eq :: "'c arithmetic_expression \<Rightarrow> 'c arithmetic_expression \<Rightarrow> bool" where
  "ae_partial_eq (Number v_0) (Number v_1) = (v_0 = v_1)"
| "ae_partial_eq (Signal s_0) (Signal s_1) = (s_0 = s_1)"
| "ae_partial_eq (Linear c_0) (Linear c_1) = hm_eq c_0 c_1"
| "ae_partial_eq (Quadratic a_0 b_0 c_0) (Quadratic a_1 b_1 c_1) =
     (hm_eq a_0 a_1 \<and> hm_eq b_0 b_1 \<and> hm_eq c_0 c_1)"
| "ae_partial_eq _ _ = False"

section \<open>Operations on coefficient maps\<close>

definition constant_coefficient :: "'c::default" where
  "constant_coefficient = default"

definition initialize_hashmap_for_expression :: "'c::default coefficients \<Rightarrow> 'c coefficients" where
  "initialize_hashmap_for_expression initial = hm_or_insert constant_coefficient 0 initial"

definition valid_hashmap_for_expression :: "'c::default coefficients \<Rightarrow> bool" where
  "valid_hashmap_for_expression h = hm_contains h constant_coefficient"

definition initialize_symbol_in_coefficients :: "'c \<Rightarrow> 'c coefficients \<Rightarrow> 'c coefficients" where
  "initialize_symbol_in_coefficients symbol coefficients =
     (if \<not> hm_contains coefficients symbol then hm_insert symbol 0 coefficients else coefficients)"

definition add_constant_to_coefficients ::
    "int \<Rightarrow> 'c::default coefficients \<Rightarrow> int \<Rightarrow> 'c coefficients option" where
  "add_constant_to_coefficients value coefficients field =
     (case map_of coefficients constant_coefficient of
        None \<Rightarrow> None
      | Some old \<Rightarrow> Some (hm_insert constant_coefficient (ma_add old value field) coefficients))"

text \<open>The \<open>unwrap\<close> here follows the initialisation of the very key, so it cannot panic.\<close>

definition add_symbol_to_coefficients ::
    "'c \<Rightarrow> int \<Rightarrow> 'c coefficients \<Rightarrow> int \<Rightarrow> 'c coefficients" where
  "add_symbol_to_coefficients symbol coefficient coefficients field =
     (let coefficients = initialize_symbol_in_coefficients symbol coefficients
      in hm_insert symbol (ma_add (the (map_of coefficients symbol)) coefficient field) coefficients)"

definition add_coefficients_to_coefficients ::
    "'c coefficients \<Rightarrow> 'c coefficients \<Rightarrow> int \<Rightarrow> 'c coefficients" where
  "add_coefficients_to_coefficients coefficients_0 coefficients_1 field =
     fold (\<lambda>(symbol, coefficient) acc. add_symbol_to_coefficients symbol coefficient acc field)
       coefficients_0 coefficients_1"

definition multiply_coefficients_by_constant ::
    "int \<Rightarrow> 'c coefficients \<Rightarrow> int \<Rightarrow> 'c coefficients" where
  "multiply_coefficients_by_constant constant coefficients field =
     map (\<lambda>(symbol, value). (symbol, ma_mul value constant field)) coefficients"

definition divide_coefficients_by_constant ::
    "inverse_fn \<Rightarrow> int \<Rightarrow> 'c coefficients \<Rightarrow> int \<Rightarrow> 'c coefficients result" where
  "divide_coefficients_by_constant minv constant coefficients field =
     (case ma_div minv 1 constant field of
        Inl e \<Rightarrow> Inl e
      | Inr inverse_constant \<Rightarrow>
          Inr (multiply_coefficients_by_constant inverse_constant coefficients field))"

section \<open>Arithmetic\<close>

fun ae_add :: "'c::default arithmetic_expression \<Rightarrow> 'c arithmetic_expression \<Rightarrow> int \<Rightarrow>
    'c arithmetic_expression option" where
  "ae_add NonQuadratic _ field = Some NonQuadratic"
| "ae_add _ NonQuadratic field = Some NonQuadratic"
| "ae_add (Quadratic _ _ _) (Quadratic _ _ _) field = Some NonQuadratic"
| "ae_add (Number v_0) (Number v_1) field = Some (Number (ma_add v_0 v_1 field))"
| "ae_add (Number value) (Signal symbol) field =
     map_option (\<lambda>coefficients. Linear (add_symbol_to_coefficients symbol 1 coefficients field))
       (add_constant_to_coefficients value (initialize_hashmap_for_expression []) field)"
| "ae_add (Signal symbol) (Number value) field =
     map_option (\<lambda>coefficients. Linear (add_symbol_to_coefficients symbol 1 coefficients field))
       (add_constant_to_coefficients value (initialize_hashmap_for_expression []) field)"
| "ae_add (Number value) (Linear coefficients) field =
     map_option Linear (add_constant_to_coefficients value coefficients field)"
| "ae_add (Linear coefficients) (Number value) field =
     map_option Linear (add_constant_to_coefficients value coefficients field)"
| "ae_add (Number value) (Quadratic a b c) field =
     map_option (Quadratic a b) (add_constant_to_coefficients value c field)"
| "ae_add (Quadratic a b c) (Number value) field =
     map_option (Quadratic a b) (add_constant_to_coefficients value c field)"
| "ae_add (Signal symbol_0) (Signal symbol_1) field =
     Some (Linear (add_symbol_to_coefficients symbol_1 1
       (add_symbol_to_coefficients symbol_0 1 (initialize_hashmap_for_expression []) field) field))"
| "ae_add (Signal symbol) (Linear coefficients) field =
     Some (Linear (add_symbol_to_coefficients symbol 1 coefficients field))"
| "ae_add (Linear coefficients) (Signal symbol) field =
     Some (Linear (add_symbol_to_coefficients symbol 1 coefficients field))"
| "ae_add (Signal symbol) (Quadratic a b c) field =
     Some (Quadratic a b (add_symbol_to_coefficients symbol 1 c field))"
| "ae_add (Quadratic a b c) (Signal symbol) field =
     Some (Quadratic a b (add_symbol_to_coefficients symbol 1 c field))"
| "ae_add (Linear coefficients_0) (Linear coefficients_1) field =
     Some (Linear (add_coefficients_to_coefficients coefficients_0 coefficients_1 field))"
| "ae_add (Linear coefficients) (Quadratic a b c) field =
     Some (Quadratic a b (add_coefficients_to_coefficients coefficients c field))"
| "ae_add (Quadratic a b c) (Linear coefficients) field =
     Some (Quadratic a b (add_coefficients_to_coefficients coefficients c field))"

fun ae_mul :: "'c::default arithmetic_expression \<Rightarrow> 'c arithmetic_expression \<Rightarrow> int \<Rightarrow>
    'c arithmetic_expression" where
  "ae_mul NonQuadratic _ field = NonQuadratic"
| "ae_mul _ NonQuadratic field = NonQuadratic"
| "ae_mul (Quadratic _ _ _) (Quadratic _ _ _) field = NonQuadratic"
| "ae_mul (Quadratic _ _ _) (Linear _) field = NonQuadratic"
| "ae_mul (Linear _) (Quadratic _ _ _) field = NonQuadratic"
| "ae_mul (Quadratic _ _ _) (Signal _) field = NonQuadratic"
| "ae_mul (Signal _) (Quadratic _ _ _) field = NonQuadratic"
| "ae_mul (Number value_0) (Number value_1) field = Number (ma_mul value_0 value_1 field)"
| "ae_mul (Number value) (Signal symbol) field =
     Linear (add_symbol_to_coefficients symbol value (initialize_hashmap_for_expression []) field)"
| "ae_mul (Signal symbol) (Number value) field =
     Linear (add_symbol_to_coefficients symbol value (initialize_hashmap_for_expression []) field)"
| "ae_mul (Number value) (Linear coefficients) field =
     Linear (multiply_coefficients_by_constant value coefficients field)"
| "ae_mul (Linear coefficients) (Number value) field =
     Linear (multiply_coefficients_by_constant value coefficients field)"
| "ae_mul (Number value) (Quadratic a b c) field =
     Quadratic (multiply_coefficients_by_constant value a field) b
       (multiply_coefficients_by_constant value c field)"
| "ae_mul (Quadratic a b c) (Number value) field =
     Quadratic (multiply_coefficients_by_constant value a field) b
       (multiply_coefficients_by_constant value c field)"
| "ae_mul (Signal symbol_0) (Signal symbol_1) field =
     Quadratic
       (add_symbol_to_coefficients symbol_0 1 (initialize_hashmap_for_expression []) field)
       (add_symbol_to_coefficients symbol_1 1 (initialize_hashmap_for_expression []) field)
       (initialize_hashmap_for_expression [])"
| "ae_mul (Signal symbol) (Linear coefficients) field =
     Quadratic coefficients
       (add_symbol_to_coefficients symbol 1 (initialize_hashmap_for_expression []) field)
       (initialize_hashmap_for_expression [])"
| "ae_mul (Linear coefficients) (Signal symbol) field =
     Quadratic coefficients
       (add_symbol_to_coefficients symbol 1 (initialize_hashmap_for_expression []) field)
       (initialize_hashmap_for_expression [])"
| "ae_mul (Linear coefficients_0) (Linear coefficients_1) field =
     Quadratic coefficients_0 coefficients_1 (initialize_hashmap_for_expression [])"

definition ae_sub :: "'c::default arithmetic_expression \<Rightarrow> 'c arithmetic_expression \<Rightarrow> int \<Rightarrow>
    'c arithmetic_expression option" where
  "ae_sub left right field =
     (let minus_one = Number (-1);
          step_one = ae_mul minus_one right field
      in ae_add left step_one field)"

fun ae_div :: "inverse_fn \<Rightarrow> 'c::default arithmetic_expression \<Rightarrow> 'c arithmetic_expression \<Rightarrow> int \<Rightarrow>
    'c arithmetic_expression result" where
  "ae_div minv (Number value_0) (Number value_1) field =
     map_sum id Number (ma_div minv value_0 value_1 field)"
| "ae_div minv (Signal symbol) (Number value) field =
     map_sum id Linear (divide_coefficients_by_constant minv value
       (add_symbol_to_coefficients symbol 1 (initialize_hashmap_for_expression []) field) field)"
| "ae_div minv (Linear coefficients) (Number value) field =
     map_sum id Linear (divide_coefficients_by_constant minv value coefficients field)"
| "ae_div minv (Quadratic a b c) (Number value) field =
     (case divide_coefficients_by_constant minv value a field of
        Inl e \<Rightarrow> Inl e
      | Inr a \<Rightarrow>
          map_sum id (Quadratic a b) (divide_coefficients_by_constant minv value c field))"
| "ae_div minv _ _ field = Inr NonQuadratic"

fun ae_idiv :: "'c arithmetic_expression \<Rightarrow> 'c arithmetic_expression \<Rightarrow> int \<Rightarrow>
    'c arithmetic_expression result" where
  "ae_idiv (Number value_0) (Number value_1) field =
     map_sum id Number (ma_idiv value_0 value_1 field)"
| "ae_idiv _ _ field = Inr NonQuadratic"

fun ae_mod_op :: "'c arithmetic_expression \<Rightarrow> 'c arithmetic_expression \<Rightarrow> int \<Rightarrow>
    'c arithmetic_expression result option" where
  "ae_mod_op (Number value_0) (Number value_1) field =
     map_option (map_sum id Number) (ma_mod_op value_0 value_1 field)"
| "ae_mod_op _ _ field = Some (Inr NonQuadratic)"

fun ae_pow :: "modpow_fn \<Rightarrow> 'c::default arithmetic_expression \<Rightarrow> 'c arithmetic_expression \<Rightarrow> int \<Rightarrow>
    'c arithmetic_expression option" where
  "ae_pow mpow (Number value_0) (Number value_1) field =
     map_option Number (ma_pow mpow value_0 value_1 field)"
| "ae_pow mpow (Signal symbol) (Number value) field =
     (if value = 2 then Some (ae_mul (Signal symbol) (Signal symbol) field) else Some NonQuadratic)"
| "ae_pow mpow (Linear coefficients) (Number value) field =
     (if value = 2 then Some (ae_mul (Linear coefficients) (Linear coefficients) field)
      else Some NonQuadratic)"
| "ae_pow mpow _ _ field = Some NonQuadratic"

definition ae_prefix_sub :: "'c::default arithmetic_expression \<Rightarrow> int \<Rightarrow> 'c arithmetic_expression" where
  "ae_prefix_sub elem field =
     (let minus_one = Number (-1) in ae_mul elem minus_one field)"

section \<open>Bit and boolean operations: numbers only\<close>

fun on_number :: "(int \<Rightarrow> int \<Rightarrow> int) \<Rightarrow> 'c arithmetic_expression \<Rightarrow> int \<Rightarrow>
    'c arithmetic_expression" where
  "on_number f (Number value) field = Number (f value field)"
| "on_number f _ field = NonQuadratic"

fun on_numbers :: "(int \<Rightarrow> int \<Rightarrow> int \<Rightarrow> int) \<Rightarrow> 'c arithmetic_expression \<Rightarrow>
    'c arithmetic_expression \<Rightarrow> int \<Rightarrow> 'c arithmetic_expression" where
  "on_numbers f (Number value_0) (Number value_1) field = Number (f value_0 value_1 field)"
| "on_numbers f _ _ field = NonQuadratic"

fun on_numbers_result :: "(int \<Rightarrow> int \<Rightarrow> int \<Rightarrow> int result) \<Rightarrow> 'c arithmetic_expression \<Rightarrow>
    'c arithmetic_expression \<Rightarrow> int \<Rightarrow> 'c arithmetic_expression result" where
  "on_numbers_result f (Number value_0) (Number value_1) field =
     map_sum id Number (f value_0 value_1 field)"
| "on_numbers_result f _ _ field = Inr NonQuadratic"

definition ae_complement :: "'c arithmetic_expression \<Rightarrow> int \<Rightarrow> 'c arithmetic_expression" where
  "ae_complement = on_number complement"

definition ae_shift_l :: "'c arithmetic_expression \<Rightarrow> 'c arithmetic_expression \<Rightarrow> int \<Rightarrow>
    'c arithmetic_expression result" where
  "ae_shift_l = on_numbers_result shift_l"

definition ae_shift_r :: "'c arithmetic_expression \<Rightarrow> 'c arithmetic_expression \<Rightarrow> int \<Rightarrow>
    'c arithmetic_expression result" where
  "ae_shift_r = on_numbers_result shift_r"

definition ae_bit_or :: "'c arithmetic_expression \<Rightarrow> 'c arithmetic_expression \<Rightarrow> int \<Rightarrow>
    'c arithmetic_expression" where
  "ae_bit_or = on_numbers bit_or"

definition ae_bit_and :: "'c arithmetic_expression \<Rightarrow> 'c arithmetic_expression \<Rightarrow> int \<Rightarrow>
    'c arithmetic_expression" where
  "ae_bit_and = on_numbers bit_and"

definition ae_bit_xor :: "'c arithmetic_expression \<Rightarrow> 'c arithmetic_expression \<Rightarrow> int \<Rightarrow>
    'c arithmetic_expression" where
  "ae_bit_xor = on_numbers bit_xor"

definition ae_not :: "'c arithmetic_expression \<Rightarrow> int \<Rightarrow> 'c arithmetic_expression" where
  "ae_not = on_number ma_not"

definition ae_bool_or :: "'c arithmetic_expression \<Rightarrow> 'c arithmetic_expression \<Rightarrow> int \<Rightarrow>
    'c arithmetic_expression" where
  "ae_bool_or = on_numbers bool_or"

definition ae_bool_and :: "'c arithmetic_expression \<Rightarrow> 'c arithmetic_expression \<Rightarrow> int \<Rightarrow>
    'c arithmetic_expression" where
  "ae_bool_and = on_numbers bool_and"

definition ae_eq :: "'c arithmetic_expression \<Rightarrow> 'c arithmetic_expression \<Rightarrow> int \<Rightarrow>
    'c arithmetic_expression" where
  "ae_eq = on_numbers ma_eq"

definition ae_not_eq :: "'c arithmetic_expression \<Rightarrow> 'c arithmetic_expression \<Rightarrow> int \<Rightarrow>
    'c arithmetic_expression" where
  "ae_not_eq = on_numbers not_eq"

definition ae_lesser :: "'c arithmetic_expression \<Rightarrow> 'c arithmetic_expression \<Rightarrow> int \<Rightarrow>
    'c arithmetic_expression" where
  "ae_lesser = on_numbers lesser"

definition ae_lesser_eq :: "'c arithmetic_expression \<Rightarrow> 'c arithmetic_expression \<Rightarrow> int \<Rightarrow>
    'c arithmetic_expression" where
  "ae_lesser_eq = on_numbers lesser_eq"

definition ae_greater :: "'c arithmetic_expression \<Rightarrow> 'c arithmetic_expression \<Rightarrow> int \<Rightarrow>
    'c arithmetic_expression" where
  "ae_greater = on_numbers greater"

definition ae_greater_eq :: "'c arithmetic_expression \<Rightarrow> 'c arithmetic_expression \<Rightarrow> int \<Rightarrow>
    'c arithmetic_expression" where
  "ae_greater_eq = on_numbers greater_eq"


fun get_boolean_equivalence :: "'c arithmetic_expression \<Rightarrow> int \<Rightarrow> bool option" where
  "get_boolean_equivalence (Number value) field = Some (as_bool value field)"
| "get_boolean_equivalence _ field = None"

section \<open>Substitution into an expression, conversions\<close>

definition remove_zero_value_coefficients :: "'c coefficients \<Rightarrow> 'c coefficients" where
  "remove_zero_value_coefficients raw_expression =
     filter (\<lambda>(key, val). val \<noteq> 0) raw_expression"

definition raw_substitution :: "'c::default coefficients \<Rightarrow> 'c substitution \<Rightarrow> int \<Rightarrow> 'c coefficients" where
  "raw_substitution change substitution field =
     (let change = initialize_hashmap_for_expression change
      in case map_of change (sub_from substitution) of
           None \<Rightarrow> change
         | Some val \<Rightarrow>
             (let change = hm_remove (sub_from substitution) change;
                  coefficients = initialize_hashmap_for_expression (sub_to substitution);
                  coefficients = multiply_coefficients_by_constant val coefficients field
              in add_coefficients_to_coefficients coefficients change field))"

fun ae_apply_substitutions :: "'c::default arithmetic_expression \<Rightarrow> 'c substitution \<Rightarrow> int \<Rightarrow>
    'c arithmetic_expression" where
  "ae_apply_substitutions (Linear coefficients) substitution field =
     Linear (remove_zero_value_coefficients (raw_substitution coefficients substitution field))"
| "ae_apply_substitutions (Signal symbol) substitution field =
     (if symbol = sub_from substitution then Linear (sub_to substitution) else Signal symbol)"
| "ae_apply_substitutions (Quadratic a b c) substitution field =
     Quadratic
       (remove_zero_value_coefficients (raw_substitution a substitution field))
       (remove_zero_value_coefficients (raw_substitution b substitution field))
       (remove_zero_value_coefficients (raw_substitution c substitution field))"
| "ae_apply_substitutions expr substitution field = expr"

fun get_usize :: "'c arithmetic_expression \<Rightarrow> nat option" where
  "get_usize (Number value) = to_usize value"
| "get_usize _ = None"

fun is_number :: "'c arithmetic_expression \<Rightarrow> bool" where
  "is_number (Number _) = True" | "is_number _ = False"

fun is_nonquadratic :: "'c arithmetic_expression \<Rightarrow> bool" where
  "is_nonquadratic NonQuadratic = True" | "is_nonquadratic _ = False"

fun is_quadratic :: "'c arithmetic_expression \<Rightarrow> bool" where
  "is_quadratic (Quadratic _ _ _) = True" | "is_quadratic _ = False"

fun is_linear_expression :: "'c arithmetic_expression \<Rightarrow> bool" where
  "is_linear_expression (Linear _) = True" | "is_linear_expression _ = False"

definition hashmap_into_arith :: "'c::default coefficients \<Rightarrow> 'c arithmetic_expression" where
  "hashmap_into_arith hm =
     (case hm of
        [(symbol, value)] \<Rightarrow>
          if symbol = constant_coefficient then Number value
          else if value = 1 then Signal symbol
          else Linear (initialize_hashmap_for_expression hm)
      | _ \<Rightarrow> Linear (initialize_hashmap_for_expression hm))"

section \<open>Meaning of coefficient maps\<close>

definition lin :: "('c \<Rightarrow> int) \<Rightarrow> 'c coefficients \<Rightarrow> int" where
  "lin \<sigma> m = sum_list (map (\<lambda>(k, v). v * \<sigma> k) m)"

definition coeff :: "'c coefficients \<Rightarrow> 'c \<Rightarrow> int" where
  "coeff m k = (case map_of m k of None \<Rightarrow> 0 | Some v \<Rightarrow> v)"

text \<open>An assignment gives the constant symbol its value.\<close>

definition assigns_one :: "('c::default \<Rightarrow> int) \<Rightarrow> bool" where
  "assigns_one \<sigma> \<longleftrightarrow> \<sigma> default = 1"

lemma lin_Nil [lin_simps]: "lin \<sigma> [] = 0"
  by (simp add: lin_def)

lemma lin_Cons [lin_simps]: "lin \<sigma> ((k, v) # m) = v * \<sigma> k + lin \<sigma> m"
  by (simp add: lin_def)

lemma lin_append [lin_simps]: "lin \<sigma> (m @ n) = lin \<sigma> m + lin \<sigma> n"
  by (simp add: lin_def)

lemma coeff_Nil [simp]: "coeff [] k = 0"
  by (simp add: coeff_def)

lemma coeff_Cons [simp]: "coeff ((k, v) # m) j = (if j = k then v else coeff m j)"
  by (simp add: coeff_def)

lemma coeff_notin: "k \<notin> keys_of m \<Longrightarrow> coeff m k = 0"
  by (auto simp: coeff_def keys_of_map_of split: option.split)

lemma lin_insert [lin_simps]: "lin \<sigma> (hm_insert k v m) = lin \<sigma> m + (v - coeff m k) * \<sigma> k"
  by (induction m) (auto simp: lin_simps algebra_simps)

lemma lin_remove [lin_simps]: "hm_wf m \<Longrightarrow> lin \<sigma> (hm_remove k m) = lin \<sigma> m - coeff m k * \<sigma> k"
  by (induction m) (auto simp: lin_simps hm_wf_Cons coeff_notin)

lemma lin_or_insert [lin_simps]: "lin \<sigma> (hm_or_insert k 0 m) = lin \<sigma> m"
  by (simp add: hm_or_insert_def lin_simps coeff_notin hm_contains_set)

lemma lin_initialize [lin_simps]: "lin \<sigma> (initialize_hashmap_for_expression m) = lin \<sigma> m"
  by (simp add: initialize_hashmap_for_expression_def lin_simps)

lemma lin_initialize_symbol [lin_simps]: "lin \<sigma> (initialize_symbol_in_coefficients s m) = lin \<sigma> m"
  by (simp add: initialize_symbol_in_coefficients_def lin_simps coeff_notin hm_contains_set)

lemma lin_remove_zero [lin_simps]: "lin \<sigma> (remove_zero_value_coefficients m) = lin \<sigma> m"
  by (induction m) (auto simp: lin_simps remove_zero_value_coefficients_def)

lemma lin_add_symbol:
  assumes "0 < p"
  shows "eqm p (lin \<sigma> (add_symbol_to_coefficients s c m p)) (lin \<sigma> m + c * \<sigma> s)"
proof -
  let ?m = "initialize_symbol_in_coefficients s m"
  have the: "the (map_of ?m s) = coeff ?m s"
    by (auto simp: initialize_symbol_in_coefficients_def coeff_def hm_contains_map_of update_conv' split: option.split)
  have "eqm p ((coeff ?m s + c) mod p - coeff ?m s) c" by (simp add: mod_diff_left_eq)
  then have "eqm p (lin \<sigma> m + ((coeff ?m s + c) mod p - coeff ?m s) * \<sigma> s) (lin \<sigma> m + c * \<sigma> s)"
    by (intro eqm_add eqm_mult) simp_all
  then show ?thesis
    using assms by (simp add: add_symbol_to_coefficients_def Let_def lin_simps the)
qed

lemma lin_add_constant:
  assumes "0 < p" and "add_constant_to_coefficients v m p = Some m'" and "assigns_one \<sigma>"
  shows "eqm p (lin \<sigma> m') (lin \<sigma> m + v)"
proof -
  obtain old where old: "map_of m default = Some old"
    and m': "m' = hm_insert default ((old + v) mod p) m"
    using assms(1,2) by (auto simp: add_constant_to_coefficients_def constant_coefficient_def split: option.splits)
  have "eqm p ((old + v) mod p - old) v" by (simp add: mod_diff_left_eq)
  then have "eqm p (lin \<sigma> m + ((old + v) mod p - old)) (lin \<sigma> m + v)"
    by (intro eqm_add) simp_all
  then show ?thesis using old by (simp add: m' lin_simps coeff_def assms(3) [unfolded assigns_one_def])
qed

lemma lin_add_coefficients:
  assumes "0 < p"
  shows "eqm p (lin \<sigma> (add_coefficients_to_coefficients m0 m1 p)) (lin \<sigma> m0 + lin \<sigma> m1)"
proof (induction m0 arbitrary: m1)
  case Nil
  show ?case by (simp add: add_coefficients_to_coefficients_def lin_simps)
next
  case (Cons e m0)
  obtain s c where e: "e = (s, c)" by (cases e)
  let ?m1 = "add_symbol_to_coefficients s c m1 p"
  have "lin \<sigma> (add_coefficients_to_coefficients (e # m0) m1 p) mod p =
      (lin \<sigma> m0 + lin \<sigma> ?m1) mod p"
    using Cons [of ?m1] by (simp add: add_coefficients_to_coefficients_def e)
  also have "\<dots> = (lin \<sigma> m0 + (lin \<sigma> m1 + c * \<sigma> s)) mod p"
    using lin_add_symbol [OF assms] by (intro eqm_add) simp_all
  finally show ?case by (simp add: e lin_simps algebra_simps)
qed

lemma lin_multiply:
  assumes "0 < p"
  shows "eqm p (lin \<sigma> (multiply_coefficients_by_constant c m p)) (c * lin \<sigma> m)"
proof (induction m)
  case Nil
  show ?case by (simp add: multiply_coefficients_by_constant_def lin_simps)
next
  case (Cons e m)
  obtain s v where e: "e = (s, v)" by (cases e)
  have "eqm p ((v * c) mod p * \<sigma> s) (v * c * \<sigma> s)" by (simp add: mod_mult_left_eq)
  from eqm_add [OF this Cons] show ?case
    using assms by (simp add: e multiply_coefficients_by_constant_def lin_simps algebra_simps)
qed

lemma lin_divide:
  assumes "inverse_ok minv p" and "0 < p"
    and "divide_coefficients_by_constant minv c m p = Inr m'"
  shows "eqm p (c * lin \<sigma> m') (lin \<sigma> m)"
proof -
  obtain i where i: "ma_div minv 1 c p = Inr i" and m': "m' = multiply_coefficients_by_constant i m p"
    using assms(3) by (auto simp: divide_coefficients_by_constant_def split: sum.splits)
  have "eqm p (i * c) 1" using ma_div_Inr [OF assms(1,2) i] by simp
  then have "eqm p (i * c * lin \<sigma> m) (1 * lin \<sigma> m)" by (rule eqm_mult) simp
  moreover have "eqm p (c * lin \<sigma> m') (c * (i * lin \<sigma> m))"
    unfolding m' by (rule eqm_mult [OF refl lin_multiply [OF assms(2)]])
  ultimately show ?thesis by (simp add: ac_simps)
qed

section \<open>Well-formed maps and expressions\<close>

definition coeffs_wf :: "'c::default coefficients \<Rightarrow> bool" where
  "coeffs_wf m \<longleftrightarrow> hm_wf m \<and> valid_hashmap_for_expression m"

fun expr_wf :: "'c::default arithmetic_expression \<Rightarrow> bool" where
  "expr_wf (Linear m) = coeffs_wf m"
| "expr_wf (Quadratic a b c) = (coeffs_wf a \<and> coeffs_wf b \<and> coeffs_wf c)"
| "expr_wf _ = True"

lemma keys_initialize [simp]:
  "keys_of (initialize_hashmap_for_expression m) = insert default (keys_of m)"
  by (simp add: initialize_hashmap_for_expression_def constant_coefficient_def)

lemma hm_wf_initialize [simp, wf_intros]: "hm_wf m \<Longrightarrow> hm_wf (initialize_hashmap_for_expression m)"
  by (simp add: initialize_hashmap_for_expression_def)

lemma coeffs_wf_initialize [simp, wf_intros]: "hm_wf m \<Longrightarrow> coeffs_wf (initialize_hashmap_for_expression m)"
  by (simp add: coeffs_wf_def valid_hashmap_for_expression_def hm_contains_set constant_coefficient_def)

lemma keys_add_symbol [simp]:
  "keys_of (add_symbol_to_coefficients s c m p) = insert s (keys_of m)"
  by (auto simp: add_symbol_to_coefficients_def initialize_symbol_in_coefficients_def Let_def)

lemma hm_wf_add_symbol [simp, wf_intros]: "hm_wf m \<Longrightarrow> hm_wf (add_symbol_to_coefficients s c m p)"
  by (simp add: add_symbol_to_coefficients_def initialize_symbol_in_coefficients_def Let_def)

lemma keys_add_coefficients [simp]:
  "keys_of (add_coefficients_to_coefficients m0 m1 p) = keys_of m0 \<union> keys_of m1"
  by (induction m0 arbitrary: m1) (auto simp: add_coefficients_to_coefficients_def)

lemma hm_wf_add_coefficients [simp, wf_intros]:
  "hm_wf m1 \<Longrightarrow> hm_wf (add_coefficients_to_coefficients m0 m1 p)"
  by (induction m0 arbitrary: m1) (auto simp: add_coefficients_to_coefficients_def)

lemma keys_multiply [simp]: "keys_of (multiply_coefficients_by_constant c m p) = keys_of m"
  by (simp add: multiply_coefficients_by_constant_def)

lemma hm_wf_multiply [simp, wf_intros]:
  "hm_wf (multiply_coefficients_by_constant c m p) = hm_wf m"
  by (simp add: multiply_coefficients_by_constant_def)

lemma keys_divide:
  "divide_coefficients_by_constant minv c m p = Inr m' \<Longrightarrow>
    keys_of m' = keys_of m \<and> hm_wf m' = hm_wf m"
  by (auto simp: divide_coefficients_by_constant_def split: sum.splits)

lemma keys_add_constant:
  "add_constant_to_coefficients v m p = Some m' \<Longrightarrow>
    keys_of m' = keys_of m \<and> (hm_wf m \<longrightarrow> hm_wf m')"
  by (auto simp: add_constant_to_coefficients_def keys_of_map_of split: option.splits)

lemma add_constant_total:
  "coeffs_wf m \<Longrightarrow> \<exists>m'. add_constant_to_coefficients v m p = Some m' \<and> coeffs_wf m'"
  by (auto simp: coeffs_wf_def add_constant_to_coefficients_def valid_hashmap_for_expression_def hm_contains_map_of)
     (simp add: update_conv')

lemma coeffs_wf_keys: "hm_wf m \<Longrightarrow> keys_of m' \<subseteq> keys_of m \<Longrightarrow> coeffs_wf m' \<Longrightarrow> coeffs_wf m"
  by (auto simp: coeffs_wf_def valid_hashmap_for_expression_def hm_contains_set)

lemma coeffs_wf_add_symbol [simp, wf_intros]: "coeffs_wf m \<Longrightarrow> coeffs_wf (add_symbol_to_coefficients s c m p)"
  by (auto simp: coeffs_wf_def valid_hashmap_for_expression_def hm_contains_set)

lemma coeffs_wf_add_coefficients [simp, wf_intros]:
  "coeffs_wf m1 \<Longrightarrow> coeffs_wf (add_coefficients_to_coefficients m0 m1 p)"
  by (auto simp: coeffs_wf_def valid_hashmap_for_expression_def hm_contains_set)

lemma coeffs_wf_multiply [simp, wf_intros]:
  "coeffs_wf (multiply_coefficients_by_constant c m p) = coeffs_wf m"
  by (simp add: coeffs_wf_def valid_hashmap_for_expression_def hm_contains_set)

lemma hm_wf_remove_zero [simp, wf_intros]: "hm_wf m \<Longrightarrow> hm_wf (remove_zero_value_coefficients m)"
  by (simp add: remove_zero_value_coefficients_def)

section \<open>Meaning of expressions\<close>

fun aeval :: "int \<Rightarrow> ('c \<Rightarrow> int) \<Rightarrow> 'c arithmetic_expression \<Rightarrow> int option" where
  "aeval p \<sigma> (Number v) = Some (v mod p)"
| "aeval p \<sigma> (Signal s) = Some (\<sigma> s mod p)"
| "aeval p \<sigma> (Linear m) = Some (lin \<sigma> m mod p)"
| "aeval p \<sigma> (Quadratic a b c) = Some ((lin \<sigma> a * lin \<sigma> b + lin \<sigma> c) mod p)"
| "aeval p \<sigma> NonQuadratic = None"

fun degree :: "'c arithmetic_expression \<Rightarrow> nat" where
  "degree (Number _) = 0"
| "degree (Signal _) = 1"
| "degree (Linear _) = 1"
| "degree (Quadratic _ _ _) = 2"
| "degree NonQuadratic = 3"

lemma aeval_None: "aeval p \<sigma> e = None \<longleftrightarrow> e = NonQuadratic"
  by (cases e) auto

named_theorems lin_mods \<open>linear expressions modulo the field, also below a sum\<close>

lemma eqm_add_right: "eqm p y z \<Longrightarrow> (x + y) mod p = (x + z) mod p" for p :: int
  by (rule eqm_add) simp_all

lemmas lin_add_symbol_mod [lin_mods] =
  lin_add_symbol lin_add_symbol [THEN eqm_add_right]
lemmas lin_add_coefficients_mod [lin_mods] =
  lin_add_coefficients lin_add_coefficients [THEN eqm_add_right]
lemmas lin_multiply_mod [lin_mods] =
  lin_multiply lin_multiply [THEN eqm_add_right]

lemma lin_empty [lin_simps]: "lin \<sigma> (initialize_hashmap_for_expression []) = 0"
  by (simp add: lin_simps)

lemma coeffs_wf_empty [simp]: "coeffs_wf (initialize_hashmap_for_expression [])"
  by simp

lemma aeval_quadratic_scaled:
  assumes "0 < p"
  shows "eqm p (lin \<sigma> (multiply_coefficients_by_constant k a p) * lin \<sigma> b +
      lin \<sigma> (multiply_coefficients_by_constant k c p)) (k * (lin \<sigma> a * lin \<sigma> b + lin \<sigma> c))"
proof -
  have "eqm p (lin \<sigma> (multiply_coefficients_by_constant k a p) * lin \<sigma> b +
      lin \<sigma> (multiply_coefficients_by_constant k c p)) (k * lin \<sigma> a * lin \<sigma> b + k * lin \<sigma> c)"
    by (intro eqm_add eqm_mult lin_multiply assms) simp
  then show ?thesis by (simp add: algebra_simps)
qed

lemma add_constant_ok:
  assumes "0 < p" and "coeffs_wf m" and "assigns_one \<sigma>"
  shows "\<exists>m'. add_constant_to_coefficients v m p = Some m' \<and> coeffs_wf m' \<and>
    eqm p (lin \<sigma> m') (lin \<sigma> m + v)"
proof -
  obtain m' where m': "add_constant_to_coefficients v m p = Some m'" "coeffs_wf m'"
    using add_constant_total [OF assms(2)] by blast
  with lin_add_constant [OF assms(1) m'(1), of \<sigma>] assms(3) show ?thesis by simp
qed

text \<open>The sum of a number and an expression that is not a number, in either order.\<close>

lemma ae_add_number:
  assumes "0 < p" and "expr_wf e" and "assigns_one \<sigma>" and "degree e \<in> {1, 2}"
  shows "\<exists>e'. ae_add (Number v) e p = Some e' \<and> ae_add e (Number v) p = Some e' \<and>
    expr_wf e' \<and> aeval p \<sigma> e' = Some ((v + the (aeval p \<sigma> e)) mod p)"
proof (cases e)
  case (Signal s)
  obtain m where m: "add_constant_to_coefficients v (initialize_hashmap_for_expression []) p = Some m"
    "coeffs_wf m" "eqm p (lin \<sigma> m) v"
    using add_constant_ok [OF assms(1) coeffs_wf_empty assms(3), of v] by (auto simp: lin_simps)
  then have "eqm p (lin \<sigma> m + \<sigma> s) (v + \<sigma> s)" by (intro eqm_add) simp_all
  with m Signal assms(1) show ?thesis by (simp add: lin_add_symbol mod_simps)
next
  case (Linear m)
  obtain m' where "add_constant_to_coefficients v m p = Some m'" "coeffs_wf m'"
    "eqm p (lin \<sigma> m') (lin \<sigma> m + v)"
    using add_constant_ok [of p m \<sigma> v] assms Linear by auto
  with Linear assms(1) show ?thesis by (simp add: mod_simps add.commute)
next
  case (Quadratic a b c)
  obtain c' where c': "add_constant_to_coefficients v c p = Some c'" "coeffs_wf c'"
    "eqm p (lin \<sigma> c') (lin \<sigma> c + v)"
    using add_constant_ok [of p c \<sigma> v] assms Quadratic by auto
  from c'(3) have "eqm p (lin \<sigma> a * lin \<sigma> b + lin \<sigma> c') (lin \<sigma> a * lin \<sigma> b + (lin \<sigma> c + v))"
    by (intro eqm_add) simp_all
  then have "eqm p (lin \<sigma> a * lin \<sigma> b + lin \<sigma> c') (v + (lin \<sigma> a * lin \<sigma> b + lin \<sigma> c))"
    by (simp only: ac_simps)
  with c' Quadratic assms(1,2) show ?thesis by (simp add: mod_simps)
qed (use assms(4) in simp_all)

lemma ae_add_wf:
  fixes l r :: "'c::default arithmetic_expression"
  assumes "0 < p" and "expr_wf l" and "expr_wf r" and "assigns_one \<sigma>"
  shows "\<exists>e. ae_add l r p = Some e \<and> expr_wf e \<and>
    aeval p \<sigma> e = (case (aeval p \<sigma> l, aeval p \<sigma> r) of
        (Some x, Some y) \<Rightarrow> if degree l = 2 \<and> degree r = 2 then None else Some ((x + y) mod p)
      | _ \<Rightarrow> None)"
proof -
  consider v where "l = Number v" "degree r \<in> {1, 2}" | v where "r = Number v" "degree l \<in> {1, 2}"
    | "\<not> is_number l" "\<not> is_number r" | v w where "l = Number v" "r = Number w"
    | "l = NonQuadratic \<or> r = NonQuadratic"
    by (cases l; cases r) auto
  then show ?thesis
  proof cases
    case 1
    with ae_add_number [OF assms(1,3,4), of v] show ?thesis
      by (auto simp: mod_simps aeval_None split: option.split)
  next
    case 2
    obtain x where x: "aeval p \<sigma> l = Some x" using 2(2) by (cases l) auto
    from ae_add_number [OF assms(1,2,4) 2(2), of v] obtain e where
      "ae_add l r p = Some e" "expr_wf e" "aeval p \<sigma> e = Some ((v + x) mod p)"
      using 2(1) x by auto
    moreover have "(v + x) mod p = (x + v mod p) mod p" by (simp add: mod_simps add.commute)
    ultimately show ?thesis using 2 x by simp
  next
    case 3
    then show ?thesis
      by (cases l; cases r)
        (use assms in \<open>simp_all add: lin_mods lin_simps mod_add_eq\<close>,
          simp_all only: add.assoc add.commute add.left_commute,
          simp_all add: lin_mods lin_simps, simp_all only: add.commute)
  next
    case 4
    then show ?thesis using assms(1) by (simp add: mod_simps)
  next
    case 5
    then show ?thesis by (cases l; cases r) auto
  qed
qed

lemma lin_single_mult:
  assumes "0 < p"
  shows "(lin \<sigma> (add_symbol_to_coefficients s c (initialize_hashmap_for_expression []) p) * y) mod p =
      (c * \<sigma> s * y) mod p"
    and "(y * lin \<sigma> (add_symbol_to_coefficients s c (initialize_hashmap_for_expression []) p)) mod p =
      (y * (c * \<sigma> s)) mod p"
proof -
  have "eqm p (lin \<sigma> (add_symbol_to_coefficients s c (initialize_hashmap_for_expression []) p)) (c * \<sigma> s)"
    using lin_add_symbol [OF assms, of \<sigma> s c "initialize_hashmap_for_expression []"]
    by (simp add: lin_simps)
  note eq = this
  show "(lin \<sigma> (add_symbol_to_coefficients s c (initialize_hashmap_for_expression []) p) * y) mod p =
      (c * \<sigma> s * y) mod p"
    by (rule eqm_mult [OF eq refl])
  show "(y * lin \<sigma> (add_symbol_to_coefficients s c (initialize_hashmap_for_expression []) p)) mod p =
      (y * (c * \<sigma> s)) mod p"
    by (rule eqm_mult [OF refl eq])
qed

lemma ae_mul_wf:
  fixes l r :: "'c::default arithmetic_expression"
  assumes "0 < p" and "expr_wf l" and "expr_wf r"
  shows "expr_wf (ae_mul l r p) \<and>
    aeval p \<sigma> (ae_mul l r p) = (case (aeval p \<sigma> l, aeval p \<sigma> r) of
        (Some x, Some y) \<Rightarrow> if 2 < degree l + degree r then None else Some ((x * y) mod p)
      | _ \<Rightarrow> None)"
  by (cases l; cases r)
    (use assms in \<open>simp_all add: lin_add_symbol lin_multiply lin_simps mod_simps
       aeval_quadratic_scaled lin_single_mult, simp_all add: ac_simps\<close>)

lemma lin_raw_substitution:
  assumes "0 < p" and "hm_wf m"
    and sub: "eqm p (\<sigma> (sub_from s)) (lin \<sigma> (sub_to s))"
  shows "eqm p (lin \<sigma> (raw_substitution m s p)) (lin \<sigma> m)"
proof (cases "map_of (initialize_hashmap_for_expression m) (sub_from s)")
  case None
  then show ?thesis by (simp add: raw_substitution_def lin_simps)
next
  case (Some v)
  let ?m = "initialize_hashmap_for_expression m"
  let ?t = "multiply_coefficients_by_constant v (initialize_hashmap_for_expression (sub_to s)) p"
  have "eqm p (lin \<sigma> (raw_substitution m s p)) (lin \<sigma> ?t + lin \<sigma> (hm_remove (sub_from s) ?m))"
    using Some assms(1) by (simp add: raw_substitution_def Let_def lin_add_coefficients)
  also have "(lin \<sigma> ?t + lin \<sigma> (hm_remove (sub_from s) ?m)) mod p =
      (v * \<sigma> (sub_from s) + (lin \<sigma> m - v * \<sigma> (sub_from s))) mod p"
  proof (rule eqm_add)
    have "eqm p (lin \<sigma> ?t) (v * lin \<sigma> (sub_to s))"
      using lin_multiply [OF assms(1), of \<sigma> v "initialize_hashmap_for_expression (sub_to s)"]
      by (simp add: lin_simps)
    also have "(v * lin \<sigma> (sub_to s)) mod p = (v * \<sigma> (sub_from s)) mod p"
      by (rule eqm_mult [OF refl sub [symmetric]])
    finally show "eqm p (lin \<sigma> ?t) (v * \<sigma> (sub_from s))" .
    have "coeff ?m (sub_from s) = v" using Some by (simp add: coeff_def)
    then show "eqm p (lin \<sigma> (hm_remove (sub_from s) ?m)) (lin \<sigma> m - v * \<sigma> (sub_from s))"
      using assms(2) by (simp add: lin_simps)
  qed
  finally show ?thesis by simp
qed

lemma hm_wf_raw_substitution [simp, wf_intros]: "hm_wf m \<Longrightarrow> hm_wf (raw_substitution m s p)"
  by (simp add: raw_substitution_def Let_def split: option.split)

lemma keys_raw_substitution:
  "keys_of (raw_substitution m s p) \<subseteq>
    insert default (keys_of m - {sub_from s}) \<union> keys_of (sub_to s)"
proof (cases "map_of (initialize_hashmap_for_expression m) (sub_from s)")
  case None
  then have "sub_from s \<notin> keys_of (initialize_hashmap_for_expression m)"
    by (simp add: keys_of_map_of del: keys_initialize)
  with None show ?thesis by (auto simp: raw_substitution_def)
qed (auto simp: raw_substitution_def Let_def)

lemma ae_sub_wf:
  fixes l r :: "'c::default arithmetic_expression"
  assumes "0 < p" and "expr_wf l" and "expr_wf r" and "assigns_one \<sigma>"
  shows "\<exists>e. ae_sub l r p = Some e \<and> expr_wf e \<and>
    aeval p \<sigma> e = (case (aeval p \<sigma> l, aeval p \<sigma> r) of
        (Some x, Some y) \<Rightarrow> if degree l = 2 \<and> degree r = 2 then None else Some ((x - y) mod p)
      | _ \<Rightarrow> None)"
proof -
  let ?n = "ae_mul (Number (-1)) r p"
  have deg: "degree ?n = (if degree r = 0 \<or> degree r > 1 then degree r else 1)" by (cases r) auto
  have n: "expr_wf ?n" "aeval p \<sigma> ?n = map_option (\<lambda>y. (- y) mod p) (aeval p \<sigma> r)"
    using ae_mul_wf [OF assms(1) _ assms(3), of "Number (-1)" \<sigma>]
    by (cases r; auto simp: mod_simps split: option.splits)+
  from ae_add_wf [OF assms(1,2) n(1) assms(4)] deg n(2) show ?thesis
    by (auto simp: ae_sub_def mod_simps split: option.splits)
qed

section \<open>Properties\<close>

text \<open>C37: addition of symbolic values is addition in the field. On well-formed expressions it does not
  panic, keeps them well formed, and unless both sides are quadratic (or one is non-quadratic
  already) the result denotes the sum under every assignment.\<close>

theorem ae_add_denotes:
  fixes l r :: "'c::default arithmetic_expression"
  assumes "0 < p" and "expr_wf l" and "expr_wf r" and "assigns_one \<sigma>"
  shows "\<exists>e. ae_add l r p = Some e \<and> expr_wf e \<and>
    aeval p \<sigma> e = (case (aeval p \<sigma> l, aeval p \<sigma> r) of
        (Some x, Some y) \<Rightarrow> if degree l = 2 \<and> degree r = 2 then None else Some ((x + y) mod p)
      | _ \<Rightarrow> None)"
  using assms by (rule ae_add_wf)

theorem ae_add_denotes_witness:
  "\<exists>e. ae_add (Number 5) (Linear [(0 :: nat, 3), (1, 4)]) 7 = Some e \<and>
    aeval 7 (\<lambda>s. if s = 0 then 1 else 6) e = Some 4"
proof -
  have "expr_wf (Linear [(0 :: nat, 3), (1, 4)])"
    by (simp add: coeffs_wf_def hm_wf_def valid_hashmap_for_expression_def constant_coefficient_def)
  from ae_add_denotes [OF _ _ this, of 7 "Number 5" "\<lambda>s. if s = 0 then 1 else 6"]
  show ?thesis by (auto simp: assigns_one_def lin_def)
qed

text \<open>C38: multiplication of symbolic values is multiplication in the field, as long as the product is
  at most quadratic; a product of higher degree is \<open>NonQuadratic\<close>, never a wrong expression.\<close>

theorem ae_mul_denotes:
  fixes l r :: "'c::default arithmetic_expression"
  assumes "0 < p" and "expr_wf l" and "expr_wf r"
  shows "expr_wf (ae_mul l r p) \<and>
    aeval p \<sigma> (ae_mul l r p) = (case (aeval p \<sigma> l, aeval p \<sigma> r) of
        (Some x, Some y) \<Rightarrow> if 2 < degree l + degree r then None else Some ((x * y) mod p)
      | _ \<Rightarrow> None)"
  using assms by (rule ae_mul_wf)

theorem ae_mul_denotes_witness:
  "aeval 7 (\<lambda>s. if s = 0 then 1 else 6) (ae_mul (Signal 1) (Linear [(0 :: nat, 3), (1, 4)]) 7) = Some 1"
proof -
  have "expr_wf (Linear [(0 :: nat, 3), (1, 4)])"
    by (simp add: coeffs_wf_def hm_wf_def valid_hashmap_for_expression_def constant_coefficient_def)
  from ae_mul_denotes [OF _ _ this, of 7 "Signal 1" "\<lambda>s. if s = 0 then 1 else 6"]
  show ?thesis by (simp add: lin_def)
qed

text \<open>Subtraction denotes the difference, and like addition never panics on well-formed expressions.\<close>

theorem ae_sub_denotes:
  fixes l r :: "'c::default arithmetic_expression"
  assumes "0 < p" and "expr_wf l" and "expr_wf r" and "assigns_one \<sigma>"
  shows "\<exists>e. ae_sub l r p = Some e \<and> expr_wf e \<and>
    aeval p \<sigma> e = (case (aeval p \<sigma> l, aeval p \<sigma> r) of
        (Some x, Some y) \<Rightarrow> if degree l = 2 \<and> degree r = 2 then None else Some ((x - y) mod p)
      | _ \<Rightarrow> None)"
  using assms by (rule ae_sub_wf)

theorem ae_sub_denotes_witness:
  "\<exists>e. ae_sub (Number 5) (Linear [(0 :: nat, 3), (1, 4)]) 7 = Some e \<and>
    aeval 7 (\<lambda>s. if s = 0 then 1 else 6) e = Some 6"
proof -
  have "expr_wf (Linear [(0 :: nat, 3), (1, 4)])"
    by (simp add: coeffs_wf_def hm_wf_def valid_hashmap_for_expression_def constant_coefficient_def)
  from ae_sub_denotes [OF _ _ this, of 7 "Number 5" "\<lambda>s. if s = 0 then 1 else 6"]
  show ?thesis by (auto simp: assigns_one_def lin_def)
qed

text \<open>Division by a number is exact: it fails with \<open>DivisionByZero\<close> only for a divisor without
  inverse, and a quotient that is not \<open>NonQuadratic\<close> times the divisor denotes the dividend.\<close>

theorem ae_div_denotes:
  assumes "inverse_ok minv p" and "0 < p"
  shows "case ae_div minv l (Number v) p of
      Inl e \<Rightarrow> e = DivisionByZero \<and> \<not> coprime v p
    | Inr q \<Rightarrow> (case aeval p \<sigma> q of
          None \<Rightarrow> l = NonQuadratic
        | Some x \<Rightarrow> aeval p \<sigma> l = Some ((v * x) mod p))"
proof -
  note inl = ma_div_Inl [OF assms]
  have lin1: "eqm p (lin \<sigma> (add_symbol_to_coefficients s 1 (initialize_hashmap_for_expression []) p)) (\<sigma> s)" for s
    using lin_add_symbol [OF assms(2), of \<sigma> s 1 "initialize_hashmap_for_expression []"] by (simp add: lin_simps)
  show ?thesis
  proof (cases "is_number l")
    case True
    then obtain w where "l = Number w" by (cases l) auto
    then show ?thesis
      using inl [of w v] ma_div_Inr [OF assms, of w v]
      by (cases "ma_div minv w v p") (auto simp: mod_simps ac_simps)
  next
    case no: False
    show ?thesis
    proof (cases "ma_div minv 1 v p")
      case (Inl e)
      then have "divide_coefficients_by_constant minv v x p = Inl DivisionByZero \<and> \<not> coprime v p"
        for x :: "'a coefficients"
        using inl [of 1 v e] by (simp add: divide_coefficients_by_constant_def)
      then show ?thesis using no by (cases l) simp_all
    next
      case (Inr i)
      define m where "m x = multiply_coefficients_by_constant i x p" for x :: "'a coefficients"
      have d: "divide_coefficients_by_constant minv v x p = Inr (m x)" for x :: "'a coefficients"
        using Inr by (simp add: divide_coefficients_by_constant_def m_def)
      note dl = lin_divide [OF assms d]
      have "eqm p (v * lin \<sigma> (m a) * lin \<sigma> b + v * lin \<sigma> (m c)) (lin \<sigma> a * lin \<sigma> b + lin \<sigma> c)" for a b c
        by (intro eqm_add eqm_mult dl) simp
      then show ?thesis
        using no d dl lin1 by (cases l) (simp_all add: mod_simps algebra_simps)
    qed
  qed
qed

theorem ae_div_denotes_witness:
  "aeval 7 (\<lambda>s. if s = 0 then 1 else 6) (Linear [(0 :: nat, 3), (1, 4)]) =
     Some ((2 * 3) mod 7) \<and>
   ae_div search_inverse (Linear [(0 :: nat, 3), (1, 4)]) (Number 2) 7 = Inr (Linear [(0, 5), (1, 2)])"
proof -
  have d: "ae_div search_inverse (Linear [(0 :: nat, 3), (1, 4)]) (Number 2) 7 = Inr (Linear [(0, 5), (1, 2)])"
    by code_simp
  from ae_div_denotes [OF inverse_ok_search, where p = 7 and v = 2 and l = "Linear [(0 :: nat, 3), (1, 4)]"
      and \<sigma> = "\<lambda>s. if s = 0 then 1 else 6"]
  show ?thesis unfolding d by (simp add: lin_def)
qed

text \<open>Replacing a symbol by the right-hand side of a substitution does not change the value of an
  expression under the assignments that satisfy the substitution.\<close>

theorem ae_apply_substitutions_denotes:
  fixes e :: "'c::default arithmetic_expression"
  assumes "0 < p" and "expr_wf e" and "eqm p (\<sigma> (sub_from s)) (lin \<sigma> (sub_to s))"
  shows "aeval p \<sigma> (ae_apply_substitutions e s p) = aeval p \<sigma> e"
proof -
  note raw = lin_raw_substitution [OF assms(1) _ assms(3)]
  show ?thesis
  proof (cases e)
    case (Quadratic a b c)
    then have "hm_wf a" "hm_wf b" "hm_wf c" using assms(2) by (simp_all add: coeffs_wf_def)
    then show ?thesis
      using Quadratic by (simp add: lin_simps) (intro eqm_add eqm_mult raw)
  qed (use assms raw in \<open>auto simp: lin_simps coeffs_wf_def\<close>)
qed

theorem ae_apply_substitutions_denotes_witness:
  "aeval 7 (\<lambda>s. if s = 0 then 1 else if s = 1 then 6 else 3)
     (ae_apply_substitutions (Linear [(0 :: nat, 3), (1, 4)]) \<lparr>sub_from = 1, sub_to = [(2, 2)]\<rparr> 7) = Some 6"
proof -
  have "expr_wf (Linear [(0 :: nat, 3), (1, 4)])"
    by (simp add: coeffs_wf_def hm_wf_def valid_hashmap_for_expression_def constant_coefficient_def)
  from ae_apply_substitutions_denotes [OF _ this, of 7 "\<lambda>s. if s = 0 then 1 else if s = 1 then 6 else 3"
      "\<lparr>sub_from = 1, sub_to = [(2, 2)]\<rparr>"]
  show ?thesis by (simp add: lin_def)
qed

end
