(* ===== verification/Constraint_Algebra.thy ===== *)
theory Constraint_Algebra
  imports Arithmetic_Expression
begin

text \<open>
  \<open>Substitution\<close> and \<open>Constraint\<close> of \<open>circom_algebra/src/algebra.rs\<close>. A constraint stands for
  \<open>a * b - c = 0\<close> with linear \<open>a\<close>, \<open>b\<close> and \<open>c\<close>; a substitution for \<open>from = to\<close> with linear
  \<open>to\<close>. Their meaning under an assignment is \<open>sat\<close> and \<open>sub_holds\<close>; the lemmas relate each
  operation to these two. A panic (\<open>unwrap\<close>, \<open>assert!\<close>, an index out of range) is \<open>None\<close>.
\<close>

section \<open>From expressions to constraints\<close>

fun transform_expression_to_constraint_form ::
    "'c::default arithmetic_expression \<Rightarrow> int \<Rightarrow> 'c constraint option" where
  "transform_expression_to_constraint_form NonQuadratic field = None"
| "transform_expression_to_constraint_form (Quadratic a b c) field =
     Some \<lparr>con_a = a, con_b = b, con_c = multiply_coefficients_by_constant (-1) c field\<rparr>"
| "transform_expression_to_constraint_form (Number value) field =
     Some \<lparr>con_a = initialize_hashmap_for_expression [], con_b = initialize_hashmap_for_expression [],
       con_c = multiply_coefficients_by_constant (-1)
         (hm_insert constant_coefficient value (initialize_hashmap_for_expression [])) field\<rparr>"
| "transform_expression_to_constraint_form (Signal symbol) field =
     Some \<lparr>con_a = initialize_hashmap_for_expression [], con_b = initialize_hashmap_for_expression [],
       con_c = multiply_coefficients_by_constant (-1)
         (hm_insert symbol 1 (initialize_hashmap_for_expression [])) field\<rparr>"
| "transform_expression_to_constraint_form (Linear coefficients) field =
     Some \<lparr>con_a = initialize_hashmap_for_expression [], con_b = initialize_hashmap_for_expression [],
       con_c = multiply_coefficients_by_constant (-1) coefficients field\<rparr>"

section \<open>Renaming of symbols\<close>

definition apply_raw_correspondence ::
    "'c::default coefficients \<Rightarrow> ('c, 'k::default) hmap \<Rightarrow> 'k coefficients option" where
  "apply_raw_correspondence symbols correspondence =
     fold (\<lambda>(key, value) acc.
         Option.bind acc (\<lambda>coefficients_as_correspondence.
           Option.bind
             (if key = constant_coefficient then Some constant_coefficient
              else map_of correspondence key)
             (\<lambda>id. Some (hm_insert id value coefficients_as_correspondence))))
       symbols (Some [])"

definition apply_vectored_correspondence ::
    "nat coefficients \<Rightarrow> nat list \<Rightarrow> nat coefficients option" where
  "apply_vectored_correspondence symbols correspondence =
     fold (\<lambda>(s, v) acc.
         Option.bind acc (\<lambda>mapped.
           if s < length correspondence then Some (hm_insert (correspondence ! s) v mapped) else None))
       symbols (Some [])"

definition apply_raw_offset :: "nat coefficients \<Rightarrow> nat \<Rightarrow> nat coefficients" where
  "apply_raw_offset h offset =
     fold (\<lambda>(k, v) new.
         if k = constant_coefficient then hm_insert k v new else hm_insert (k + offset) v new)
       h []"

section \<open>Substitutions\<close>

fun substitution_new :: "'c::default \<Rightarrow> 'c arithmetic_expression \<Rightarrow> 'c substitution option" where
  "substitution_new from_s (Number value) =
     Some \<lparr>sub_from = from_s, sub_to = [(constant_coefficient, value)]\<rparr>"
| "substitution_new from_s (Signal symbol) =
     Some \<lparr>sub_from = from_s, sub_to = [(symbol, 1)]\<rparr>"
| "substitution_new from_s (Linear coefficients) =
     (if \<not> hm_contains coefficients from_s
      then Some \<lparr>sub_from = from_s, sub_to = coefficients\<rparr> else None)"
| "substitution_new from_s _ = None"

definition substitution_apply_correspondence ::
    "'c::default substitution \<Rightarrow> ('c, 'k::default) hmap \<Rightarrow> 'k substitution option" where
  "substitution_apply_correspondence substitution symbol_correspondence =
     Option.bind (map_of symbol_correspondence (sub_from substitution)) (\<lambda>from_s.
     Option.bind (apply_raw_correspondence (sub_to substitution) symbol_correspondence) (\<lambda>to.
       Some \<lparr>sub_from = from_s, sub_to = to\<rparr>))"

definition substitution_apply_substitution ::
    "'c::default substitution \<Rightarrow> 'c substitution \<Rightarrow> int \<Rightarrow> 'c substitution" where
  "substitution_apply_substitution src change field =
     src\<lparr>sub_to := raw_substitution (sub_to src) change field\<rparr>"

definition substitution_into_constraint ::
    "'c::default substitution \<Rightarrow> int \<Rightarrow> 'c constraint option" where
  "substitution_into_constraint substitution field =
     (let symbol = sub_from substitution;
          coefficients = initialize_hashmap_for_expression (sub_to substitution);
          coefficients = hm_insert symbol ((-1) smod field) coefficients;
          arith = Linear coefficients
      in transform_expression_to_constraint_form arith field)"

definition decompose :: "'c::default substitution \<Rightarrow> 'c \<times> 'c arithmetic_expression" where
  "decompose substitution =
     (let to = sub_to substitution;
          right =
            (case to of
               [(symbol, value)] \<Rightarrow>
                 if symbol = constant_coefficient then Number value
                 else if value = 1 then Signal symbol
                 else Linear (initialize_hashmap_for_expression to)
             | _ \<Rightarrow> Linear (initialize_hashmap_for_expression to))
      in (sub_from substitution, right))"

definition map_into_arith_expr ::
    "'c::default substitution \<Rightarrow> int \<Rightarrow> 'c arithmetic_expression option" where
  "map_into_arith_expr substitution field =
     (let (left, right) = decompose substitution;
          left = Signal left
      in ae_sub right left field)"

definition substitution_take_cloned_signals :: "'c::default substitution \<Rightarrow> 'c list" where
  "substitution_take_cloned_signals s = filter (\<lambda>k. constant_coefficient \<noteq> k) (hm_keys (sub_to s))"

definition rmv_zero_coefficients :: "'c substitution \<Rightarrow> 'c substitution" where
  "rmv_zero_coefficients substitution =
     substitution\<lparr>sub_to := remove_zero_value_coefficients (sub_to substitution)\<rparr>"

definition substitution_take_cloned_signals_ordered ::
    "'c::{default, linorder} substitution \<Rightarrow> 'c list" where
  "substitution_take_cloned_signals_ordered s = sort (substitution_take_cloned_signals s)"

definition substitution_apply_offset :: "nat substitution \<Rightarrow> nat \<Rightarrow> nat substitution" where
  "substitution_apply_offset s offset =
     \<lparr>sub_from = sub_from s + offset, sub_to = apply_raw_offset (sub_to s) offset\<rparr>"

section \<open>Constraints\<close>

definition constraint_empty :: "'c constraint" where
  "constraint_empty = \<lparr>con_a = [], con_b = [], con_c = []\<rparr>"

definition constraint_apply_correspondence ::
    "'c::default constraint \<Rightarrow> ('c, 'k::default) hmap \<Rightarrow> 'k constraint option" where
  "constraint_apply_correspondence constraint symbol_correspondence =
     Option.bind (apply_raw_correspondence (con_a constraint) symbol_correspondence) (\<lambda>a.
     Option.bind (apply_raw_correspondence (con_b constraint) symbol_correspondence) (\<lambda>b.
     Option.bind (apply_raw_correspondence (con_c constraint) symbol_correspondence) (\<lambda>c.
       Some \<lparr>con_a = a, con_b = b, con_c = c\<rparr>)))"

definition is_linear :: "'c constraint \<Rightarrow> bool" where
  "is_linear constraint \<longleftrightarrow> con_a constraint = [] \<and> con_b constraint = []"

definition constraint_is_empty :: "'c constraint \<Rightarrow> bool" where
  "constraint_is_empty c \<longleftrightarrow> con_a c = [] \<and> con_b c = [] \<and> con_c c = []"

text \<open>Solving a linear constraint for one of its symbols, with and without dividing.\<close>

definition clear_signal :: "inverse_fn \<Rightarrow> 'c::default coefficients \<Rightarrow> 'c \<Rightarrow> int \<Rightarrow> 'c coefficients option" where
  "clear_signal minv symbols key field =
     Option.bind (map_of symbols key) (\<lambda>key_value.
       if key_value = 0 then None else
       (let symbols = hm_remove key symbols;
            value_to_the_right = ma_mul key_value (-1) field;
            symbols = initialize_hashmap_for_expression symbols
        in case divide_coefficients_by_constant minv value_to_the_right symbols field of
             Inl _ \<Rightarrow> None
           | Inr symbols \<Rightarrow> Some (remove_zero_value_coefficients symbols)))"

definition clear_signal_from_linear ::
    "inverse_fn \<Rightarrow> 'c::default constraint \<Rightarrow> 'c \<Rightarrow> int \<Rightarrow> 'c substitution option" where
  "clear_signal_from_linear minv constraint signal field =
     Option.bind (clear_signal minv (con_c constraint) signal field) (\<lambda>raw_expression.
       Some \<lparr>sub_from = signal, sub_to = raw_expression\<rparr>)"

definition clear_signal_not_normalized ::
    "'c::default coefficients \<Rightarrow> 'c \<Rightarrow> int \<Rightarrow> (int \<times> 'c coefficients) option" where
  "clear_signal_not_normalized symbols key field =
     Option.bind (map_of symbols key) (\<lambda>key_value.
       if key_value = 0 then None else
       (let symbols = hm_remove key symbols;
            value_to_the_right = ma_mul key_value (-1) field;
            symbols = initialize_hashmap_for_expression symbols
        in Some (value_to_the_right, symbols)))"

definition clear_signal_from_linear_not_normalized ::
    "'c::default constraint \<Rightarrow> 'c \<Rightarrow> int \<Rightarrow> (int \<times> 'c substitution) option" where
  "clear_signal_from_linear_not_normalized constraint signal field =
     Option.bind (clear_signal_not_normalized (con_c constraint) signal field)
       (\<lambda>(coefficient, raw_expression).
         Some (coefficient, \<lparr>sub_from = signal, sub_to = raw_expression\<rparr>))"

definition take_cloned_signals :: "'c::default constraint \<Rightarrow> 'c list" where
  "take_cloned_signals c =
     removeAll constant_coefficient (remdups (hm_keys (con_a c) @ hm_keys (con_b c) @ hm_keys (con_c c)))"

definition take_cloned_signals_ordered :: "'c::{default, linorder} constraint \<Rightarrow> 'c list" where
  "take_cloned_signals_ordered c = sort (take_cloned_signals c)"

definition constraint_apply_substitution ::
    "'c::default constraint \<Rightarrow> 'c substitution \<Rightarrow> int \<Rightarrow> 'c constraint" where
  "constraint_apply_substitution constraint substitution field =
     \<lparr>con_a = raw_substitution (con_a constraint) substitution field,
      con_b = raw_substitution (con_b constraint) substitution field,
      con_c = raw_substitution (con_c constraint) substitution field\<rparr>"

definition constraint_remove_zero_value_coefficients :: "'c constraint \<Rightarrow> 'c constraint" where
  "constraint_remove_zero_value_coefficients constraint =
     \<lparr>con_a = remove_zero_value_coefficients (con_a constraint),
      con_b = remove_zero_value_coefficients (con_b constraint),
      con_c = remove_zero_value_coefficients (con_c constraint)\<rparr>"

definition is_constant_expression :: "'c::default coefficients \<Rightarrow> bool" where
  "is_constant_expression expr \<longleftrightarrow> hm_contains expr constant_coefficient \<and> length expr = 1"

text \<open>The reduced \<open>c\<close>; the caller clears \<open>a\<close> and \<open>b\<close>. \<open>unwrap\<close> reads the constant of \<open>a\<close>.\<close>

definition constant_linear_linear_reduction ::
    "'c::default coefficients \<Rightarrow> 'c coefficients \<Rightarrow> 'c coefficients \<Rightarrow> int \<Rightarrow> 'c coefficients" where
  "constant_linear_linear_reduction a b c field =
     (let c = initialize_hashmap_for_expression c;
          b = initialize_hashmap_for_expression b;
          constant = the (map_of a constant_coefficient);
          b = multiply_coefficients_by_constant constant b field;
          b = multiply_coefficients_by_constant (-1) b field;
          c = add_coefficients_to_coefficients b c field
      in remove_zero_value_coefficients c)"

definition fix_constraint :: "'c::default constraint \<Rightarrow> int \<Rightarrow> 'c constraint" where
  "fix_constraint constraint field =
     (let a = remove_zero_value_coefficients (con_a constraint);
          b = remove_zero_value_coefficients (con_b constraint);
          c = remove_zero_value_coefficients (con_c constraint)
      in if a = [] \<or> b = [] then \<lparr>con_a = [], con_b = [], con_c = c\<rparr>
         else if is_constant_expression a then
           \<lparr>con_a = [], con_b = [], con_c = constant_linear_linear_reduction a b c field\<rparr>
         else if is_constant_expression b then
           \<lparr>con_a = [], con_b = [], con_c = constant_linear_linear_reduction b a c field\<rparr>
         else \<lparr>con_a = a, con_b = b, con_c = c\<rparr>)"

text \<open>The third test is a second look at \<open>a\<close>, as in the code.\<close>

definition has_constant_coefficient :: "'c::default constraint \<Rightarrow> bool" where
  "has_constant_coefficient constraint \<longleftrightarrow>
     hm_contains (con_a constraint) constant_coefficient \<or>
     hm_contains (con_b constraint) constant_coefficient \<or>
     hm_contains (con_a constraint) constant_coefficient"

definition is_equality :: "'c::default constraint \<Rightarrow> int \<Rightarrow> bool" where
  "is_equality constraint field =
     (let a = con_a constraint; b = con_b constraint; c = con_c constraint
      in if a = [] \<and> b = [] \<and> \<not> hm_contains c constant_coefficient \<and> length c = 2 then
           (let signals = hm_keys c;
                c0 = the (map_of c (signals ! 0));
                c1 = the (map_of c (signals ! 1));
                c1_p = ma_mul (-1) c1 field
            in c1_p = c0)
         else False)"

definition is_constant_equality :: "'c::default constraint \<Rightarrow> bool" where
  "is_constant_equality constraint \<longleftrightarrow>
     con_a constraint = [] \<and> con_b constraint = [] \<and>
     ((hm_contains (con_c constraint) constant_coefficient \<and> length (con_c constraint) = 2) \<or>
      (\<not> hm_contains (con_c constraint) constant_coefficient \<and> length (con_c constraint) = 1))"

definition into_arithmetic_expressions ::
    "'c constraint \<Rightarrow> 'c arithmetic_expression \<times> 'c arithmetic_expression \<times> 'c arithmetic_expression" where
  "into_arithmetic_expressions constraint =
     (Linear (con_a constraint), Linear (con_b constraint), Linear (con_c constraint))"

definition constraint_apply_offset :: "nat constraint \<Rightarrow> nat \<Rightarrow> nat constraint" where
  "constraint_apply_offset constraint offset =
     \<lparr>con_a = apply_raw_offset (con_a constraint) offset,
      con_b = apply_raw_offset (con_b constraint) offset,
      con_c = apply_raw_offset (con_c constraint) offset\<rparr>"

definition apply_witness :: "nat constraint \<Rightarrow> nat list \<Rightarrow> nat constraint option" where
  "apply_witness constraint witness =
     Option.bind (apply_vectored_correspondence (con_a constraint) witness) (\<lambda>a.
     Option.bind (apply_vectored_correspondence (con_b constraint) witness) (\<lambda>b.
     Option.bind (apply_vectored_correspondence (con_c constraint) witness) (\<lambda>c.
       Some \<lparr>con_a = a, con_b = b, con_c = c\<rparr>)))"

section \<open>Meaning\<close>

definition sat :: "int \<Rightarrow> ('c \<Rightarrow> int) \<Rightarrow> 'c constraint \<Rightarrow> bool" where
  "sat p \<sigma> c \<longleftrightarrow> eqm p (lin \<sigma> (con_a c) * lin \<sigma> (con_b c)) (lin \<sigma> (con_c c))"

definition sub_holds :: "int \<Rightarrow> ('c \<Rightarrow> int) \<Rightarrow> 'c substitution \<Rightarrow> bool" where
  "sub_holds p \<sigma> s \<longleftrightarrow> eqm p (\<sigma> (sub_from s)) (lin \<sigma> (sub_to s))"

text \<open>A substitution that still carries its coefficient: \<open>k * from = to\<close>.\<close>

definition scaled_holds :: "int \<Rightarrow> ('c \<Rightarrow> int) \<Rightarrow> int \<times> 'c substitution \<Rightarrow> bool" where
  "scaled_holds p \<sigma> ks \<longleftrightarrow> eqm p (fst ks * \<sigma> (sub_from (snd ks))) (lin \<sigma> (sub_to (snd ks)))"

definition con_wf :: "'c constraint \<Rightarrow> bool" where
  "con_wf c \<longleftrightarrow> hm_wf (con_a c) \<and> hm_wf (con_b c) \<and> hm_wf (con_c c)"

definition con_keys :: "'c constraint \<Rightarrow> 'c set" where
  "con_keys c = keys_of (con_a c) \<union> keys_of (con_b c) \<union> keys_of (con_c c)"

text \<open>Coefficients as the simplification needs them: never zero modulo the field.\<close>

definition nonzero_coeffs :: "int \<Rightarrow> 'c coefficients \<Rightarrow> bool" where
  "nonzero_coeffs p m \<longleftrightarrow> (\<forall>v \<in> set (map snd m). v mod p \<noteq> 0)"

section \<open>Lemmas: renaming\<close>

definition rename_by :: "('c \<Rightarrow> 'k) \<Rightarrow> 'c coefficients \<Rightarrow> 'k coefficients \<Rightarrow> 'k coefficients" where
  "rename_by f m acc = fold (\<lambda>(k, v) acc. hm_insert (f k) v acc) m acc"

lemma rename_by_Nil [simp]: "rename_by f [] acc = acc"
  by (simp add: rename_by_def)

lemma rename_by_Cons [simp]: "rename_by f ((k, v) # m) acc = rename_by f m (hm_insert (f k) v acc)"
  by (simp add: rename_by_def)

lemma hm_wf_rename_by [simp]: "hm_wf acc \<Longrightarrow> hm_wf (rename_by f m acc)"
  by (induction m arbitrary: acc) auto

lemma keys_rename_by [simp]: "keys_of (rename_by f m acc) = f ` keys_of m \<union> keys_of acc"
  by (induction m arbitrary: acc) auto

lemma lin_rename_by:
  "hm_wf m \<Longrightarrow> inj_on f (keys_of m) \<Longrightarrow> f ` keys_of m \<inter> keys_of acc = {} \<Longrightarrow>
    lin \<sigma> (rename_by f m acc) = lin (\<lambda>k. \<sigma> (f k)) m + lin \<sigma> acc"
proof (induction m arbitrary: acc)
  case (Cons e m)
  obtain k v where e: "e = (k, v)" by (cases e)
  have "f ` keys_of m \<inter> keys_of (hm_insert (f k) v acc) = {}"
    using Cons.prems by (auto simp: e hm_wf_Cons inj_on_def)
  then have "lin \<sigma> (rename_by f m (hm_insert (f k) v acc)) =
      lin (\<lambda>k. \<sigma> (f k)) m + lin \<sigma> (hm_insert (f k) v acc)"
    using Cons by (simp add: e hm_wf_Cons inj_on_def)
  moreover have "coeff acc (f k) = 0" using Cons.prems by (auto simp: e intro: coeff_notin)
  ultimately show ?case by (simp add: e lin_simps)
qed (simp add: lin_simps)

lemma apply_raw_offset_rename:
  "apply_raw_offset h off = rename_by (\<lambda>k. if k = 0 then 0 else k + off) h []"
proof -
  have "fold (\<lambda>(k, v) new. if k = 0 then hm_insert k v new else hm_insert (k + off) v new) h acc =
      rename_by (\<lambda>k. if k = 0 then 0 else k + off) h acc" for acc :: "nat coefficients"
    by (induction h arbitrary: acc) auto
  then show ?thesis by (simp add: apply_raw_offset_def constant_coefficient_def)
qed

lemma lin_apply_raw_offset:
  "hm_wf h \<Longrightarrow> lin \<sigma> (apply_raw_offset h off) = lin (\<lambda>k. \<sigma> (if k = 0 then 0 else k + off)) h"
  by (simp add: apply_raw_offset_rename lin_rename_by inj_on_def lin_simps comp_def)

definition correspond :: "('c::default, 'k::default) hmap \<Rightarrow> 'c \<Rightarrow> 'k" where
  "correspond corr k = (if k = default then default else the (map_of corr k))"

lemma fold_bind_None:
  "fold (\<lambda>(key, value) acc. Option.bind acc (f key value)) symbols None = None"
  by (induction symbols) auto

lemma apply_raw_correspondence_rename:
  fixes corr :: "('c::default, 'k::default) hmap"
  shows "apply_raw_correspondence symbols corr =
    (if keys_of symbols \<subseteq> insert default (keys_of corr)
     then Some (rename_by (correspond corr) symbols []) else None)"
proof -
  have "fold (\<lambda>(key, value) acc. Option.bind acc (\<lambda>m.
           Option.bind (if key = default then Some default else map_of corr key)
             (\<lambda>id. Some (hm_insert id value m)))) symbols (Some acc) =
      (if keys_of symbols \<subseteq> insert default (keys_of corr)
       then Some (rename_by (correspond corr) symbols acc) else None)" for acc :: "'k coefficients"
  proof (induction symbols arbitrary: acc)
    case (Cons e symbols)
    obtain k v where e: "e = (k, v)" by (cases e)
    show ?case
    proof (cases "k = default \<or> k \<in> keys_of corr")
      case True
      then have "(if k = default then Some default else map_of corr k) = Some (correspond corr k)"
        by (auto simp: correspond_def keys_of_map_of)
      then show ?thesis using True Cons by (auto simp: e)
    next
      case False
      then have "(if k = default then Some default else map_of corr k) = (None :: 'k option)"
        using keys_of_map_of [of k corr] by auto
      then show ?thesis using False by (simp add: e fold_bind_None)
    qed
  qed simp
  then show ?thesis unfolding apply_raw_correspondence_def constant_coefficient_def by simp
qed

text \<open>A renaming that keeps the symbols apart from each other and from the constant.\<close>

definition correspondence_ok :: "('c::default, 'k::default) hmap \<Rightarrow> bool" where
  "correspondence_ok corr \<longleftrightarrow> hm_wf corr \<and> distinct (map snd corr) \<and> default \<notin> set (map snd corr)"

lemma correspond_inj:
  assumes "correspondence_ok corr"
  shows "inj_on (correspond corr) (insert default (keys_of corr))"
proof -
  have inj: "inj_on (\<lambda>k. the (map_of corr k)) (keys_of corr)"
  proof (rule inj_onI)
    fix j k assume "j \<in> keys_of corr" "k \<in> keys_of corr" "the (map_of corr j) = the (map_of corr k)"
    then obtain v where "map_of corr j = Some v" "map_of corr k = Some v"
      by (auto simp: keys_of_map_of)
    then have "(j, v) \<in> set corr" "(k, v) \<in> set corr" by (auto dest: map_of_SomeD)
    moreover have "inj_on snd (set corr)" using assms by (simp add: correspondence_ok_def distinct_map)
    ultimately show "j = k" by (metis inj_onD prod.inject snd_conv)
  qed
  have ne: "the (map_of corr k) \<noteq> default" if "k \<in> keys_of corr" for k
    using assms that by (force simp: correspondence_ok_def keys_of_map_of dest: map_of_SomeD)
  show ?thesis
  proof (rule inj_onI)
    fix j k assume "j \<in> insert default (keys_of corr)" "k \<in> insert default (keys_of corr)"
      and eq: "correspond corr j = correspond corr k"
    moreover have "j = default \<longleftrightarrow> k = default"
      using calculation ne [of j] ne [of k] by (auto simp: correspond_def split: if_splits)
    ultimately show "j = k" using inj_onD [OF inj, of j k] by (auto simp: correspond_def)
  qed
qed

lemma lin_apply_raw_correspondence:
  assumes "hm_wf symbols" and "correspondence_ok corr"
    and "apply_raw_correspondence symbols corr = Some m"
  shows "lin \<sigma> m = lin (\<lambda>k. \<sigma> (correspond corr k)) symbols \<and> hm_wf m"
proof -
  have sub: "keys_of symbols \<subseteq> insert default (keys_of corr)"
    and m: "m = rename_by (correspond corr) symbols []"
    using assms(3) by (auto simp: apply_raw_correspondence_rename split: if_splits)
  have "inj_on (correspond corr) (keys_of symbols)"
    using inj_on_subset [OF correspond_inj [OF assms(2)] sub] .
  then show ?thesis using assms(1) by (simp add: m lin_rename_by lin_simps)
qed

section \<open>Lemmas: solving and simplifying\<close>

lemma coeff_not_zero:
  "nonzero_coeffs p m \<Longrightarrow> map_of m k = Some v \<Longrightarrow> v mod p \<noteq> 0 \<and> v \<noteq> 0"
  by (force simp: nonzero_coeffs_def dest: map_of_SomeD)

lemma clear_signal_not_normalized_Some:
  assumes "0 < p" and "hm_wf m" and "clear_signal_not_normalized m k p = Some (q, t)"
  shows "\<exists>v. map_of m k = Some v \<and> q = (- v) mod p \<and>
      t = initialize_hashmap_for_expression (hm_remove k m) \<and>
      (\<forall>\<sigma>. eqm p 0 (lin \<sigma> m) \<longleftrightarrow> eqm p (q * \<sigma> k) (lin \<sigma> t))"
proof -
  obtain v where v: "map_of m k = Some v" and q: "q = (- v) mod p"
    and t: "t = initialize_hashmap_for_expression (hm_remove k m)"
    using assms(1,3) by (auto simp: clear_signal_not_normalized_def Let_def bind_eq_Some_conv split: if_splits)
  have "eqm p 0 (lin \<sigma> m) \<longleftrightarrow> eqm p (q * \<sigma> k) (lin \<sigma> t)" for \<sigma>
  proof -
    have "lin \<sigma> t = lin \<sigma> m - v * \<sigma> k"
      using assms(2) v by (simp add: t lin_simps coeff_def)
    moreover have "eqm p (q * \<sigma> k) (- v * \<sigma> k)" by (simp only: q mod_mult_left_eq)
    moreover have "eqm p (- v * \<sigma> k) (lin \<sigma> m - v * \<sigma> k) \<longleftrightarrow> eqm p 0 (lin \<sigma> m)"
      by (simp add: mod_eq_dvd_iff) (auto simp: dvd_eq_mod_eq_0)
    ultimately show ?thesis by metis
  qed
  with v q t show ?thesis by blast
qed

lemma clear_signal_not_normalized_total:
  "nonzero_coeffs p m \<Longrightarrow> k \<in> keys_of m \<Longrightarrow> \<exists>qt. clear_signal_not_normalized m k p = Some qt"
  by (auto simp: clear_signal_not_normalized_def keys_of_map_of Let_def dest: coeff_not_zero)

lemma clear_signal_Some:
  assumes "inverse_ok minv p" and "1 < p" and "hm_wf m" and "clear_signal minv m k p = Some t"
  shows "keys_of t \<subseteq> insert default (keys_of m - {k}) \<and> hm_wf t \<and>
    (\<forall>\<sigma>. eqm p 0 (lin \<sigma> m) \<longleftrightarrow> eqm p (\<sigma> k) (lin \<sigma> t))"
proof -
  let ?m = "initialize_hashmap_for_expression (hm_remove k m)"
  obtain v s where v: "map_of m k = Some v" "v \<noteq> 0"
    and d: "divide_coefficients_by_constant minv ((- v) mod p) ?m p = Inr s"
    and t: "t = remove_zero_value_coefficients s"
    using assms(2,4) by (auto simp: clear_signal_def Let_def bind_eq_Some_conv split: if_splits sum.splits)
  have p: "0 < p" using assms(2) by simp
  have cn: "clear_signal_not_normalized m k p = Some ((- v) mod p, ?m)"
    using v p by (simp add: clear_signal_not_normalized_def)
  obtain i where i: "ma_div minv 1 ((- v) mod p) p = Inr i"
    using d by (auto simp: divide_coefficients_by_constant_def split: sum.splits)
  have unit: "eqm p ((- v) mod p * i) 1"
    using ma_div_Inr [OF assms(1) p i] by (simp add: mult.commute)
  have "eqm p 0 (lin \<sigma> m) \<longleftrightarrow> eqm p (\<sigma> k) (lin \<sigma> t)" for \<sigma>
  proof -
    have lin: "eqm p ((- v) mod p * lin \<sigma> t) (lin \<sigma> ?m)"
      using lin_divide [OF assms(1) p d, of \<sigma>] by (simp add: t lin_simps)
    have "eqm p 0 (lin \<sigma> m) \<longleftrightarrow> eqm p ((- v) mod p * \<sigma> k) (lin \<sigma> ?m)"
      using clear_signal_not_normalized_Some [OF p assms(3) cn] by blast
    also have "\<dots> \<longleftrightarrow> eqm p ((- v) mod p * \<sigma> k) ((- v) mod p * lin \<sigma> t)"
      using lin by simp
    also have "\<dots> \<longleftrightarrow> eqm p (\<sigma> k) (lin \<sigma> t)"
      using eqm_cancel_unit [OF unit] eqm_mult [OF refl] by blast
    finally show ?thesis .
  qed
  moreover have "keys_of t \<subseteq> keys_of s"
    unfolding t remove_zero_value_coefficients_def by (rule keys_of_filter_subset)
  moreover have "hm_wf t" using keys_divide [OF d] assms(3) by (simp add: t)
  moreover have "keys_of s = keys_of ?m" using keys_divide [OF d] by simp
  ultimately show ?thesis by auto
qed

lemma clear_signal_total:
  assumes "inverse_ok minv p" and "is_field p" and "nonzero_coeffs p m" and "k \<in> keys_of m"
  shows "\<exists>t. clear_signal minv m k p = Some t"
proof -
  obtain v where v: "map_of m k = Some v" using assms(4) by (auto simp: keys_of_map_of)
  have nz: "v mod p \<noteq> 0" "v \<noteq> 0" using coeff_not_zero [OF assms(3) v] by auto
  have p: "0 < p" using assms(2) by (rule is_field_pos)
  have "(- v) mod p mod p \<noteq> 0" using nz by (simp add: mod_eq_0_iff_dvd)
  then have "coprime ((- v) mod p) p" by (rule is_field_coprime [OF assms(2)])
  then have "ma_div minv 1 ((- v) mod p) p \<noteq> Inl e" for e
    using ma_div_Inl [OF assms(1) p] by blast
  then obtain i where "ma_div minv 1 ((- v) mod p) p = Inr i"
    by (cases "ma_div minv 1 ((- v) mod p) p") auto
  then show ?thesis
    using v nz p by (simp add: clear_signal_def divide_coefficients_by_constant_def)
qed

lemma lin_const_reduction:
  assumes "0 < p" and "hm_wf b" and "map_of a default = Some k" and "is_constant_expression a"
    and "assigns_one \<sigma>"
  shows "eqm p (lin \<sigma> (constant_linear_linear_reduction a b c p)) (lin \<sigma> c - lin \<sigma> a * lin \<sigma> b)"
proof -
  have a: "a = [(default, k)]"
    using assms(3,4) by (cases a) (auto simp: is_constant_expression_def split: if_splits)
  let ?b = "multiply_coefficients_by_constant (- 1)
      (multiply_coefficients_by_constant k (initialize_hashmap_for_expression b) p) p"
  have "eqm p (lin \<sigma> ?b) (- 1 * (k * lin \<sigma> b))"
    using lin_multiply [OF assms(1)] by (metis lin_initialize mod_mult_right_eq)
  moreover have "eqm p (lin \<sigma> (constant_linear_linear_reduction a b c p)) (lin \<sigma> ?b + lin \<sigma> c)"
    using assms(3) lin_add_coefficients [OF assms(1), of \<sigma> ?b "initialize_hashmap_for_expression c"]
    by (simp add: constant_linear_linear_reduction_def Let_def constant_coefficient_def lin_simps)
  ultimately have "eqm p (lin \<sigma> (constant_linear_linear_reduction a b c p)) (- 1 * (k * lin \<sigma> b) + lin \<sigma> c)"
    using eqm_add [OF _ refl] by metis
  then show ?thesis using assms(5) by (simp add: a lin_simps assigns_one_def)
qed

lemma constant_key: "is_constant_expression a \<Longrightarrow> \<exists>k. map_of a default = Some k"
  by (auto simp: is_constant_expression_def hm_contains_map_of constant_coefficient_def)

lemma lin_negated:
  assumes "0 < p"
  shows "eqm p x (lin \<sigma> (multiply_coefficients_by_constant (- 1) m p)) \<longleftrightarrow> (x + lin \<sigma> m) mod p = 0"
proof -
  have "eqm p (lin \<sigma> (multiply_coefficients_by_constant (- 1) m p)) (- lin \<sigma> m)"
    using lin_multiply [OF assms, of \<sigma> "- 1" m] by simp
  then have "eqm p x (lin \<sigma> (multiply_coefficients_by_constant (- 1) m p)) \<longleftrightarrow> eqm p x (- lin \<sigma> m)"
    by simp
  then show ?thesis by (simp add: mod_eq_dvd_iff dvd_eq_mod_eq_0)
qed

lemma coeff_empty [simp]: "coeff (initialize_hashmap_for_expression []) k = 0"
  by (simp add: initialize_hashmap_for_expression_def hm_or_insert_def)

text \<open>The two shapes \<open>fix_constraint\<close> leaves: linear, or a product of two factors none of
  which is a bare constant; never a zero coefficient written out in a product.\<close>

definition constraint_fixed :: "'c::default constraint \<Rightarrow> bool" where
  "constraint_fixed c \<longleftrightarrow> (\<forall>v \<in> snd ` set (con_a c) \<union> snd ` set (con_b c) \<union> snd ` set (con_c c). v \<noteq> 0) \<and>
     (is_linear c \<or> con_a c \<noteq> [] \<and> con_b c \<noteq> [] \<and>
       \<not> is_constant_expression (con_a c) \<and> \<not> is_constant_expression (con_b c))"

lemma remove_zero_nonzero: "(k, v) \<in> set (remove_zero_value_coefficients m) \<Longrightarrow> v \<noteq> 0"
  by (auto simp: remove_zero_value_coefficients_def)

lemma constant_linear_linear_reduction_nonzero:
  "(k, v) \<in> set (constant_linear_linear_reduction a b c p) \<Longrightarrow> v \<noteq> 0"
  by (auto simp: constant_linear_linear_reduction_def Let_def dest: remove_zero_nonzero)

lemma fix_constraint_fixed: "constraint_fixed (fix_constraint c p)"
  by (auto simp: fix_constraint_def constraint_fixed_def is_linear_def Let_def
      dest: remove_zero_nonzero constant_linear_linear_reduction_nonzero)

lemma fix_constraint_same_solutions:
  assumes "0 < p" and "con_wf c" and "assigns_one \<sigma>"
  shows "sat p \<sigma> (fix_constraint c p) \<longleftrightarrow> sat p \<sigma> c"
proof -
  let ?a = "remove_zero_value_coefficients (con_a c)"
  let ?b = "remove_zero_value_coefficients (con_b c)"
  let ?c = "remove_zero_value_coefficients (con_c c)"
  have eqs: "lin \<sigma> ?a = lin \<sigma> (con_a c)" "lin \<sigma> ?b = lin \<sigma> (con_b c)" "lin \<sigma> ?c = lin \<sigma> (con_c c)"
    by (simp_all add: lin_simps)
  have zero: "sat p \<sigma> c \<longleftrightarrow> eqm p 0 (lin \<sigma> (con_c c) - lin \<sigma> (con_a c) * lin \<sigma> (con_b c))"
    by (simp add: sat_def mod_eq_dvd_iff dvd_diff_commute dvd_eq_mod_eq_0 [symmetric])
  have red: "eqm p 0 (lin \<sigma> (constant_linear_linear_reduction x y ?c p)) \<longleftrightarrow>
      eqm p 0 (lin \<sigma> (con_c c) - lin \<sigma> x * lin \<sigma> y)" if "is_constant_expression x" "hm_wf y" for x y
    using lin_const_reduction [OF assms(1) that(2) _ that(1) assms(3), of _ ?c] constant_key [OF that(1)] eqs
    by auto
  show ?thesis
  proof (cases "?a = [] \<or> ?b = []")
    case True
    then have "lin \<sigma> (con_a c) * lin \<sigma> (con_b c) = 0" using eqs(1,2) by (metis lin_Nil mult_zero_left mult_zero_right)
    then show ?thesis using True eqs by (auto simp: fix_constraint_def sat_def lin_simps)
  next
    case nonempty: False
    have wf: "hm_wf ?a" "hm_wf ?b" using assms(2) by (simp_all add: con_wf_def)
    consider "is_constant_expression ?a" | "\<not> is_constant_expression ?a" "is_constant_expression ?b"
      | "\<not> is_constant_expression ?a" "\<not> is_constant_expression ?b" by blast
    then show ?thesis
    proof cases
      case 1
      then have "fix_constraint c p =
          \<lparr>con_a = [], con_b = [], con_c = constant_linear_linear_reduction ?a ?b ?c p\<rparr>"
        using nonempty by (simp add: fix_constraint_def Let_def)
      then show ?thesis using red [OF 1 wf(2)] eqs by (simp add: zero) (simp add: sat_def lin_simps)
    next
      case 2
      then have "fix_constraint c p =
          \<lparr>con_a = [], con_b = [], con_c = constant_linear_linear_reduction ?b ?a ?c p\<rparr>"
        using nonempty by (simp add: fix_constraint_def Let_def)
      then show ?thesis using red [OF 2(2) wf(1)] eqs
        by (simp add: zero mult.commute) (simp add: sat_def lin_simps)
    next
      case 3
      then show ?thesis using nonempty eqs by (simp add: fix_constraint_def Let_def sat_def)
    qed
  qed
qed

lemma constraint_form_iff:
  fixes e :: "'c::default arithmetic_expression"
  assumes "0 < p" and "assigns_one \<sigma>"
  shows "case transform_expression_to_constraint_form e p of
      None \<Rightarrow> e = NonQuadratic
    | Some c \<Rightarrow> sat p \<sigma> c \<longleftrightarrow> aeval p \<sigma> e = Some 0"
  using assms(2)
  by (cases e)
    (simp_all add: sat_def lin_negated [OF assms(1)] lin_negated [OF assms(1), of 0, simplified]
      lin_simps assigns_one_def constant_coefficient_def)

lemma constraint_apply_substitution_iff:
  fixes c :: "'c::default constraint"
  assumes "0 < p" and "con_wf c" and "sub_holds p \<sigma> s"
  shows "(sat p \<sigma> (constraint_apply_substitution c s p) \<longleftrightarrow> sat p \<sigma> c) \<and>
    con_keys (constraint_apply_substitution c s p) \<subseteq>
      insert default (con_keys c - {sub_from s}) \<union> keys_of (sub_to s)"
proof -
  have lin: "eqm p (lin \<sigma> (raw_substitution m s p)) (lin \<sigma> m)" if "hm_wf m" for m :: "'c coefficients"
    using lin_raw_substitution [OF assms(1) that] assms(3) by (simp add: sub_holds_def)
  have "eqm p (lin \<sigma> (raw_substitution (con_a c) s p) * lin \<sigma> (raw_substitution (con_b c) s p))
      (lin \<sigma> (con_a c) * lin \<sigma> (con_b c))"
    using assms(2) by (intro eqm_mult lin) (simp_all add: con_wf_def)
  then have "sat p \<sigma> (constraint_apply_substitution c s p) \<longleftrightarrow> sat p \<sigma> c"
    using lin [of "con_c c"] assms(2) by (simp add: sat_def constraint_apply_substitution_def con_wf_def)
  moreover have "con_keys (constraint_apply_substitution c s p) \<subseteq>
      insert default (con_keys c - {sub_from s}) \<union> keys_of (sub_to s)"
    using keys_raw_substitution by (fastforce simp: con_keys_def constraint_apply_substitution_def)
  ultimately show ?thesis by blast
qed

lemma equality_classified:
  fixes c :: "'c::default constraint"
  assumes "is_field p" and "con_wf c" and "nonzero_coeffs p (con_c c)"
  shows "(is_equality c p \<longrightarrow> (\<exists>x y. con_keys c = {x, y} \<and> x \<noteq> y \<and> default \<notin> {x, y} \<and>
           (\<forall>\<sigma>. sat p \<sigma> c \<longleftrightarrow> eqm p (\<sigma> x) (\<sigma> y)))) \<and>
    (is_constant_equality c \<longrightarrow> is_linear c \<and> (\<exists>x. con_keys c - {default} = {x}))"
proof (intro conjI impI)
  assume eq: "is_equality c p"
  have p: "0 < p" using assms(1) by (rule is_field_pos)
  have ab: "con_a c = []" "con_b c = []" and len: "length (con_c c) = 2" and d: "default \<notin> keys_of (con_c c)"
    using eq by (auto simp: is_equality_def Let_def hm_contains_set constant_coefficient_def split: if_splits)
  from len obtain x u y v where c: "con_c c = [(x, u), (y, v)]"
    by (cases "con_c c"; cases "tl (con_c c)") auto
  have xy: "x \<noteq> y" using assms(2) by (simp add: con_wf_def c hm_wf_def)
  have u: "(- v) mod p = u"
    using eq xy ab d p by (simp add: is_equality_def c hm_keys_def hm_contains_set constant_coefficient_def)
  have nz: "v mod p \<noteq> 0" using assms(3) by (simp add: nonzero_coeffs_def c)
  have "sat p \<sigma> c \<longleftrightarrow> eqm p (\<sigma> x) (\<sigma> y)" for \<sigma>
  proof -
    have "sat p \<sigma> c \<longleftrightarrow> p dvd u * \<sigma> x + v * \<sigma> y"
      by (auto simp: sat_def ab c lin_simps dvd_eq_mod_eq_0)
    also have "\<dots> \<longleftrightarrow> p dvd (- v) * \<sigma> x + v * \<sigma> y"
      unfolding u [symmetric] dvd_eq_mod_eq_0 by (intro arg_cong [where f = "\<lambda>x. x = 0"] eqm_add eqm_mult) simp_all
    also have "\<dots> \<longleftrightarrow> p dvd v * (\<sigma> y - \<sigma> x)" by (simp add: algebra_simps)
    also have "\<dots> \<longleftrightarrow> p dvd \<sigma> y - \<sigma> x"
      using is_field_coprime [OF assms(1) nz] by (simp add: coprime_dvd_mult_right_iff coprime_commute)
    also have "\<dots> \<longleftrightarrow> eqm p (\<sigma> x) (\<sigma> y)" by (simp add: mod_eq_dvd_iff dvd_diff_commute)
    finally show ?thesis .
  qed
  with xy d show "\<exists>x y. con_keys c = {x, y} \<and> x \<noteq> y \<and> default \<notin> {x, y} \<and>
      (\<forall>\<sigma>. sat p \<sigma> c \<longleftrightarrow> eqm p (\<sigma> x) (\<sigma> y))"
    by (intro exI [of _ x] exI [of _ y]) (simp add: con_keys_def ab c)
next
  assume ce: "is_constant_equality c"
  then show "is_linear c" by (simp add: is_constant_equality_def is_linear_def)
  have card: "card (keys_of (con_c c)) = length (con_c c)"
    using assms(2) unfolding con_wf_def hm_wf_def keys_of_def by (metis distinct_card length_map)
  from ce have "card (con_keys c - {default}) = 1"
    using card by (auto simp: is_constant_equality_def con_keys_def hm_contains_set constant_coefficient_def)
  then show "\<exists>x. con_keys c - {default} = {x}" by (rule card_1_singletonE) blast
qed

section \<open>Properties\<close>

text \<open>The constraint form of an expression is satisfied by exactly the assignments under which the
  expression is zero, and only a non-quadratic expression has no constraint form.\<close>

theorem constraint_form_zero:
  fixes e :: "'c::default arithmetic_expression"
  assumes "0 < p" and "assigns_one \<sigma>"
  shows "case transform_expression_to_constraint_form e p of
      None \<Rightarrow> e = NonQuadratic
    | Some c \<Rightarrow> sat p \<sigma> c \<longleftrightarrow> aeval p \<sigma> e = Some 0"
  using assms by (rule constraint_form_iff)

theorem constraint_form_zero_witness:
  "transform_expression_to_constraint_form (Linear [(0 :: nat, 3), (1, 4)]) 7 =
     Some \<lparr>con_a = [(0, 0)], con_b = [(0, 0)], con_c = [(0, 4), (1, 3)]\<rparr> \<and>
   sat 7 (\<lambda>s. 1) \<lparr>con_a = [(0 :: nat, 0)], con_b = [(0, 0)], con_c = [(0, 4), (1, 3)]\<rparr>"
proof -
  have t: "transform_expression_to_constraint_form (Linear [(0 :: nat, 3), (1, 4)]) 7 =
     Some \<lparr>con_a = [(0, 0)], con_b = [(0, 0)], con_c = [(0, 4), (1, 3)]\<rparr>" by code_simp
  from constraint_form_zero [of 7 "\<lambda>s :: nat. 1" "Linear [(0, 3), (1, 4)]"] t
  show ?thesis by (simp add: assigns_one_def lin_def)
qed

text \<open>Solving a linear constraint for a signal. With non-zero coefficients over a field the solution
  exists (no assertion fails), the eliminated signal does not occur in it, and it holds for
  exactly the assignments that satisfy the constraint.\<close>

theorem clear_signal_from_linear_solves:
  assumes "inverse_ok minv p" and "is_field p" and "is_linear c" and "hm_wf (con_c c)"
    and "nonzero_coeffs p (con_c c)" and "k \<in> keys_of (con_c c)" and "k \<noteq> default"
  shows "\<exists>s. clear_signal_from_linear minv c k p = Some s \<and> sub_from s = k \<and> k \<notin> keys_of (sub_to s) \<and>
    (\<forall>\<sigma>. sat p \<sigma> c \<longleftrightarrow> sub_holds p \<sigma> s)"
proof -
  obtain t where t: "clear_signal minv (con_c c) k p = Some t"
    using clear_signal_total [OF assms(1,2,5,6)] by blast
  from clear_signal_Some [OF assms(1) is_field_gt1 [OF assms(2)] assms(4) t] t show ?thesis
    using assms(3,7)
    by (auto simp: clear_signal_from_linear_def sat_def sub_holds_def is_linear_def lin_simps)
qed

theorem clear_signal_from_linear_solves_witness:
  "\<exists>s. clear_signal_from_linear search_inverse
      \<lparr>con_a = [], con_b = [], con_c = [(0 :: nat, 3), (1, 2), (2, 5)]\<rparr> 1 7 = Some s \<and>
    1 \<notin> keys_of (sub_to s) \<and> sub_holds 7 (\<lambda>k. if k = 2 then 6 else 1) s"
proof -
  let ?c = "\<lparr>con_a = [], con_b = [], con_c = [(0 :: nat, 3), (1, 2), (2, 5)]\<rparr>"
  have "is_linear ?c" "hm_wf (con_c ?c)" "nonzero_coeffs 7 (con_c ?c)"
    by (simp_all add: hm_wf_def nonzero_coeffs_def is_linear_def)
  from clear_signal_from_linear_solves [OF inverse_ok_search is_field_7 this, of 1]
  obtain s where s: "clear_signal_from_linear search_inverse ?c 1 7 = Some s" "1 \<notin> keys_of (sub_to s)"
    "\<forall>\<sigma>. sat 7 \<sigma> ?c \<longleftrightarrow> sub_holds 7 \<sigma> s" by auto
  have "sat 7 (\<lambda>k. if k = 2 then 6 else 1) ?c" by (simp add: sat_def lin_def)
  with s show ?thesis by blast
qed

text \<open>C36: applying a substitution to a constraint keeps its solutions among the assignments that satisfy
  the substitution, and the replaced symbol is gone unless the right-hand side brings it back.\<close>

theorem constraint_apply_substitution_sat:
  fixes c :: "'c::default constraint"
  assumes "0 < p" and "con_wf c" and "sub_holds p \<sigma> s"
  shows "(sat p \<sigma> (constraint_apply_substitution c s p) \<longleftrightarrow> sat p \<sigma> c) \<and>
    con_keys (constraint_apply_substitution c s p) \<subseteq>
      insert default (con_keys c - {sub_from s}) \<union> keys_of (sub_to s)"
  using assms by (rule constraint_apply_substitution_iff)

theorem constraint_apply_substitution_sat_witness:
  "constraint_apply_substitution \<lparr>con_a = [(1 :: nat, 1)], con_b = [(2, 1)], con_c = [(0, 3), (1, 5)]\<rparr>
      \<lparr>sub_from = 1, sub_to = [(2, 2)]\<rparr> 7 =
     \<lparr>con_a = [(0, 0), (2, 2)], con_b = [(2, 1), (0, 0)], con_c = [(0, 3), (2, 3)]\<rparr> \<and>
   sat 7 (\<lambda>k :: nat. if k = 0 then 1 else if k = 1 then 6 else 3)
     \<lparr>con_a = [(0, 0), (2, 2)], con_b = [(2, 1), (0, 0)], con_c = [(0, 3), (2, 3)]\<rparr> =
   sat 7 (\<lambda>k :: nat. if k = 0 then 1 else if k = 1 then 6 else 3)
     \<lparr>con_a = [(1 :: nat, 1)], con_b = [(2, 1)], con_c = [(0, 3), (1, 5)]\<rparr>"
proof -
  let ?\<sigma> = "\<lambda>k :: nat. if k = 0 then 1 else if k = 1 then 6 else 3 :: int"
  have t: "constraint_apply_substitution \<lparr>con_a = [(1 :: nat, 1)], con_b = [(2, 1)], con_c = [(0, 3), (1, 5)]\<rparr>
      \<lparr>sub_from = 1, sub_to = [(2, 2)]\<rparr> 7 =
     \<lparr>con_a = [(0, 0), (2, 2)], con_b = [(2, 1), (0, 0)], con_c = [(0, 3), (2, 3)]\<rparr>" by code_simp
  have "con_wf \<lparr>con_a = [(1 :: nat, 1)], con_b = [(2, 1)], con_c = [(0, 3), (1, 5)]\<rparr>"
    "sub_holds 7 ?\<sigma> \<lparr>sub_from = 1, sub_to = [(2, 2)]\<rparr>"
    by (simp_all add: con_wf_def hm_wf_def sub_holds_def lin_def)
  from constraint_apply_substitution_sat [OF _ this] t show ?thesis by simp
qed

text \<open>C35: the normal form of constraints: \<open>fix_constraint\<close> keeps the solutions, and what it leaves has no
  zero coefficient and is linear or a product whose factors are not constants.\<close>

theorem fix_constraint_sat:
  fixes c :: "'c::default constraint"
  assumes "0 < p" and "con_wf c" and "assigns_one \<sigma>"
  shows "(sat p \<sigma> (fix_constraint c p) \<longleftrightarrow> sat p \<sigma> c) \<and> constraint_fixed (fix_constraint c p)"
  by (simp add: fix_constraint_same_solutions [OF assms] fix_constraint_fixed)

theorem fix_constraint_sat_witness:
  "fix_constraint \<lparr>con_a = [(0 :: nat, 3), (1, 0)], con_b = [(2, 2)], con_c = [(0, 5)]\<rparr> 7 =
     \<lparr>con_a = [], con_b = [], con_c = [(0, 5), (2, 1)]\<rparr> \<and>
   sat 7 (\<lambda>k :: nat. if k = 0 then 1 else 2) \<lparr>con_a = [(0, 3), (1, 0)], con_b = [(2, 2)], con_c = [(0, 5)]\<rparr>"
proof -
  have t: "fix_constraint \<lparr>con_a = [(0 :: nat, 3), (1, 0)], con_b = [(2, 2)], con_c = [(0, 5)]\<rparr> 7 =
     \<lparr>con_a = [], con_b = [], con_c = [(0, 5), (2, 1)]\<rparr>" by code_simp
  have "con_wf \<lparr>con_a = [(0 :: nat, 3), (1, 0)], con_b = [(2, 2)], con_c = [(0, 5)]\<rparr>"
    "assigns_one (\<lambda>k :: nat. if k = 0 then 1 else 2)"
    by (simp_all add: con_wf_def hm_wf_def assigns_one_def)
  from fix_constraint_sat [OF _ this, of 7] show ?thesis
    unfolding t by (simp add: sat_def [of _ _ "\<lparr>con_a = [], con_b = _, con_c = _\<rparr>"] lin_def)
qed

text \<open>Renaming the symbols of a constraint. It fails (panics) only for a symbol without a counterpart,
  and under a one-to-one renaming the new constraint says of the new symbols what the old one
  says of the old ones.\<close>

theorem constraint_apply_correspondence_sat:
  fixes c :: "'c::default constraint" and corr :: "('c, 'k::default) hmap"
  assumes "con_wf c" and "correspondence_ok corr"
  shows "case constraint_apply_correspondence c corr of
      None \<Rightarrow> \<not> con_keys c \<subseteq> insert default (keys_of corr)
    | Some d \<Rightarrow> con_wf d \<and> (\<forall>p \<sigma>. sat p \<sigma> d \<longleftrightarrow> sat p (\<lambda>k. \<sigma> (correspond corr k)) c)"
proof (cases "constraint_apply_correspondence c corr")
  case None
  then show ?thesis
    by (auto simp: constraint_apply_correspondence_def apply_raw_correspondence_rename con_keys_def
        split: if_splits)
next
  case (Some d)
  then obtain a b e where "apply_raw_correspondence (con_a c) corr = Some a"
    "apply_raw_correspondence (con_b c) corr = Some b" "apply_raw_correspondence (con_c c) corr = Some e"
    and d: "d = \<lparr>con_a = a, con_b = b, con_c = e\<rparr>"
    by (auto simp: constraint_apply_correspondence_def bind_eq_Some_conv)
  then have "hm_wf a \<and> hm_wf b \<and> hm_wf e \<and> (\<forall>\<sigma>. lin \<sigma> a = lin (\<lambda>k. \<sigma> (correspond corr k)) (con_a c) \<and>
      lin \<sigma> b = lin (\<lambda>k. \<sigma> (correspond corr k)) (con_b c) \<and> lin \<sigma> e = lin (\<lambda>k. \<sigma> (correspond corr k)) (con_c c))"
    using assms lin_apply_raw_correspondence [OF _ assms(2)] unfolding con_wf_def by blast
  then show ?thesis using Some by (simp add: d con_wf_def sat_def)
qed

theorem constraint_apply_correspondence_sat_witness:
  "\<exists>d. constraint_apply_correspondence
      \<lparr>con_a = [], con_b = [], con_c = [('''', 3), (''in'', 1)]\<rparr> [(''in'', 4 :: nat)] = Some d \<and>
    sat 7 (\<lambda>k. if k = 4 then 4 else 1) d"
proof -
  let ?c = "\<lparr>con_a = [], con_b = [], con_c = [('''', 3), (''in'', 1)]\<rparr>"
  have "con_wf ?c" "correspondence_ok [(''in'', 4 :: nat)]"
    by (simp_all add: con_wf_def hm_wf_def correspondence_ok_def)
  from constraint_apply_correspondence_sat [OF this] show ?thesis
    by (auto simp: con_keys_def sat_def lin_def correspond_def split: option.splits)
qed

text \<open>What the simplifier may conclude from its classifiers. A constraint that \<open>is_equality\<close> accepts
  states that two signals are equal; one that \<open>is_constant_equality\<close> accepts is linear in
  exactly one signal.\<close>

theorem equality_classifiers:
  fixes c :: "'c::default constraint"
  assumes "is_field p" and "con_wf c" and "nonzero_coeffs p (con_c c)"
  shows "(is_equality c p \<longrightarrow> (\<exists>x y. con_keys c = {x, y} \<and> x \<noteq> y \<and> default \<notin> {x, y} \<and>
           (\<forall>\<sigma>. sat p \<sigma> c \<longleftrightarrow> eqm p (\<sigma> x) (\<sigma> y)))) \<and>
    (is_constant_equality c \<longrightarrow> is_linear c \<and> (\<exists>x. con_keys c - {default} = {x}))"
  using assms by (rule equality_classified)

theorem equality_classifiers_witness:
  "\<exists>x y. con_keys \<lparr>con_a = [], con_b = [], con_c = [(1 :: nat, 3), (2, 4)]\<rparr> = {x, y} \<and>
    (\<forall>\<sigma>. sat 7 \<sigma> \<lparr>con_a = [], con_b = [], con_c = [(1 :: nat, 3), (2, 4)]\<rparr> \<longleftrightarrow> eqm 7 (\<sigma> x) (\<sigma> y))"
proof -
  let ?c = "\<lparr>con_a = [], con_b = [], con_c = [(1 :: nat, 3), (2, 4)]\<rparr>"
  have "con_wf ?c" "nonzero_coeffs 7 (con_c ?c)" "is_equality ?c 7"
    by (simp_all add: con_wf_def hm_wf_def nonzero_coeffs_def is_equality_def hm_contains_def hm_keys_def
        constant_coefficient_def)
  with equality_classifiers [OF is_field_7, of ?c] show ?thesis by blast
qed

end
