(* ===== verification/Simplification_Utils.thy ===== *)
theory Simplification_Utils
  imports Constraint_Algebra
begin

text \<open>
  \<open>circom_algebra/src/simplification_utils.rs\<close>: Gaussian elimination of linear constraints. Each
  constraint is solved for one of its signals that is not forbidden; when the signal is already
  solved for, the two solutions are merged into a new constraint and the loop goes on. The
  solutions are kept with their coefficient, normalised with one inversion at the end, and made
  free of each other's signals.

  The sets of the source that are never iterated are sets. A loop of the source that has no bound
  of its own (\<open>treat_constraint_i\<close>) is a \<open>partial_function\<close>: \<open>None\<close> is a panic or a loop that
  never ends, and the theorems show that it does not occur.
\<close>

section \<open>State\<close>

type_synonym sh = "nat substitution btmap"
type_synonym sh_not_normalized = "(int \<times> nat substitution) btmap"

record signal_definition =
  deleted_symbols :: "nat set"
  forbidden :: "nat set"

record signal_definition_4 = signal_definition +
  order_signals :: "nat list"

definition can_be_taken :: "'a signal_definition_scheme \<Rightarrow> nat \<Rightarrow> bool" where
  "can_be_taken self k \<longleftrightarrow> k \<notin> forbidden self"

definition is_deleted :: "'a signal_definition_scheme \<Rightarrow> nat \<Rightarrow> bool" where
  "is_deleted self k \<longleftrightarrow> k \<in> deleted_symbols self"

definition delete_signal :: "nat \<Rightarrow> signal_definition \<Rightarrow> signal_definition" where
  "delete_signal k self = self\<lparr>deleted_symbols := insert k (deleted_symbols self)\<rparr>"

definition delete_signal_4 :: "nat \<Rightarrow> signal_definition_4 \<Rightarrow> signal_definition_4" where
  "delete_signal_4 k self =
     self\<lparr>deleted_symbols := insert k (deleted_symbols self), order_signals := k # order_signals self\<rparr>"

text \<open>\<open>SignalsInformation\<close> is its one field, \<open>signal_to_ocurrences\<close>.\<close>

type_synonym signals_information = "(nat, nat) hmap"

definition count_occurrence ::
    "signal_definition_4 \<Rightarrow> nat \<Rightarrow> nat \<Rightarrow> (nat, nat) hmap \<times> (nat, nat) hmap \<Rightarrow>
      (nat, nat) hmap \<times> (nat, nat) hmap" where
  "count_occurrence signals pos k = (\<lambda>(signal_to_ocurrences, signal_to_rep).
     if can_be_taken signals k then
       (case map_of signal_to_ocurrences k of
          Some prev_ocu \<Rightarrow> (hm_insert k (prev_ocu + 1) signal_to_ocurrences, signal_to_rep)
        | None \<Rightarrow> (hm_insert k 1 signal_to_ocurrences, hm_insert k pos signal_to_rep))
     else (signal_to_ocurrences, signal_to_rep))"

definition count_occurrences ::
    "nat constraint list \<Rightarrow> signal_definition_4 \<Rightarrow> (nat, nat) hmap \<times> (nat, nat) hmap" where
  "count_occurrences constraints signals =
     fold (\<lambda>(pos, c). fold (count_occurrence signals pos) (hm_keys (con_c c)))
       (enumerate 0 constraints) ([], [])"

text \<open>Every counted signal has a representative, so the \<open>unwrap\<close> here cannot panic.\<close>

definition signals_information_new ::
    "nat constraint list \<Rightarrow> signal_definition_4 \<Rightarrow> signals_information \<times> nat btmap" where
  "signals_information_new constraints signals =
     (let (signal_to_ocurrences, signal_to_rep) = count_occurrences constraints signals;
          uniques = fold (\<lambda>(k, ocu) uniques.
            if ocu = 1 then bt_insert k (the (map_of signal_to_rep k)) uniques else uniques)
            signal_to_ocurrences []
      in (signal_to_ocurrences, uniques))"

text \<open>\<open>*ocurrences - 1\<close> on \<open>usize\<close> panics at 0.\<close>

definition remove_constraint ::
    "signals_information \<Rightarrow> nat constraint \<Rightarrow> signal_definition_4 \<Rightarrow> signals_information option" where
  "remove_constraint self constraint signals =
     fold (\<lambda>signal acc. Option.bind acc (\<lambda>self.
         if can_be_taken signals signal then
           (case map_of self signal of
              Some ocurrences \<Rightarrow>
                if ocurrences = 0 then None else Some (hm_insert signal (ocurrences - 1) self)
            | None \<Rightarrow> Some self)
         else Some self))
       (hm_keys (con_c constraint)) (Some self)"

definition remove_signal :: "signals_information \<Rightarrow> nat \<Rightarrow> signals_information" where
  "remove_signal self signal = hm_remove signal self"

section \<open>Choice of the signal to solve for\<close>

fun take_signal_1_loop :: "'a signal_definition_scheme \<Rightarrow> nat list \<Rightarrow> nat option \<Rightarrow> nat option" where
  "take_signal_1_loop signals [] ret = ret"
| "take_signal_1_loop signals (k # ks) ret =
     (if can_be_taken signals k then
        if is_deleted signals k then Some k
        else take_signal_1_loop signals ks
          (Some (case ret of None \<Rightarrow> k | Some v \<Rightarrow> max k v))
      else take_signal_1_loop signals ks ret)"

definition take_signal_1 :: "'a signal_definition_scheme \<Rightarrow> nat constraint \<Rightarrow> nat option" where
  "take_signal_1 signals constraint = take_signal_1_loop signals (hm_keys (con_c constraint)) None"

definition keep_greatest :: "'a signal_definition_scheme \<Rightarrow> nat \<Rightarrow> nat option \<Rightarrow> nat option" where
  "keep_greatest signals k ret =
     (if can_be_taken signals k then Some (case ret of None \<Rightarrow> k | Some v \<Rightarrow> max k v) else ret)"

definition take_signal_3 :: "'a signal_definition_scheme \<Rightarrow> nat constraint \<Rightarrow> nat option" where
  "take_signal_3 signals constraint = fold (keep_greatest signals) (hm_keys (con_c constraint)) None"

text \<open>\<open>ret\<close> and \<open>ocurrences_ret\<close> are set together: one option of a pair. The outer \<open>None\<close> is the
  \<open>unwrap\<close> of a signal that has no count.\<close>

fun take_signal_4_loop ::
    "signal_definition_4 \<Rightarrow> signals_information \<Rightarrow> nat list \<Rightarrow> (nat \<times> nat) option \<Rightarrow>
      nat option option" where
  "take_signal_4_loop signals info_ocurrences [] ret = Some (map_option fst ret)"
| "take_signal_4_loop signals info_ocurrences (k # ks) ret =
     (if can_be_taken signals k then
        if is_deleted signals k then Some (Some k)
        else
          (case map_of info_ocurrences k of
             None \<Rightarrow> None
           | Some new_ocurrences \<Rightarrow>
               take_signal_4_loop signals info_ocurrences ks
                 (case ret of
                    Some (r, val_ant) \<Rightarrow>
                      if new_ocurrences < val_ant then Some (k, new_ocurrences)
                      else if new_ocurrences = val_ant \<and> r < k then Some (k, val_ant)
                      else Some (r, val_ant)
                  | None \<Rightarrow> Some (k, new_ocurrences)))
      else take_signal_4_loop signals info_ocurrences ks ret)"

definition take_signal_4 ::
    "signal_definition_4 \<Rightarrow> signals_information \<Rightarrow> nat constraint \<Rightarrow> nat option option" where
  "take_signal_4 signals info_ocurrences constraint =
     take_signal_4_loop signals info_ocurrences (hm_keys (con_c constraint)) None"

section \<open>The elimination loops\<close>

text \<open>The tail of the loop bodies: the new solution and the one in conflict make a new constraint,
  without (\<open>treat_constraint_1\<close>) and with coefficients.\<close>

definition merge_normalized ::
    "nat substitution \<Rightarrow> nat substitution \<Rightarrow> int \<Rightarrow> nat constraint option" where
  "merge_normalized substitution in_conflict field =
     (let right = snd (decompose in_conflict);
          left = snd (decompose substitution)
      in Option.bind (ae_sub left right field) (\<lambda>merge.
         Option.bind (transform_expression_to_constraint_form merge field) (\<lambda>work.
           Some (constraint_remove_zero_value_coefficients work))))"

definition merge_not_normalized ::
    "int \<times> nat substitution \<Rightarrow> int \<times> nat substitution \<Rightarrow> int \<Rightarrow> nat constraint option" where
  "merge_not_normalized = (\<lambda>(coefficient, substitution) (in_conflict_coef, in_conflict_subs) field.
     (let right = snd (decompose in_conflict_subs);
          left = snd (decompose substitution);
          exp_coef_right = Number in_conflict_coef;
          exp_coef_left = Number coefficient;
          new_left = ae_mul exp_coef_right left field;
          new_right = ae_mul exp_coef_left right field
      in Option.bind (ae_sub new_left new_right field) (\<lambda>merge.
         Option.bind (transform_expression_to_constraint_form merge field) (\<lambda>work.
           Some (constraint_remove_zero_value_coefficients work)))))"

partial_function (option) treat_constraint_1 ::
    "inverse_fn \<Rightarrow> int \<Rightarrow> nat constraint \<Rightarrow> signal_definition \<Rightarrow> sh \<Rightarrow> nat constraint list \<Rightarrow>
      (signal_definition \<times> sh \<times> nat constraint list) option" where
  "treat_constraint_1 minv field work signals substitutions lconst =
      (if constraint_is_empty work then Some (signals, substitutions, lconst)
       else
         (case take_signal_1 signals work of
            None \<Rightarrow> Some (signals, substitutions, lconst @ [work])
          | Some out \<Rightarrow>
              (let signals = delete_signal out signals in
               Option.bind (clear_signal_from_linear minv work out field) (\<lambda>substitution.
                 case map_of substitutions (sub_from substitution) of
                   None \<Rightarrow>
                     Some (signals, bt_insert (sub_from substitution) substitution substitutions, lconst)
                 | Some in_conflict \<Rightarrow>
                     Option.bind (merge_normalized substitution in_conflict field) (\<lambda>work.
                       treat_constraint_1 minv field work signals substitutions lconst)))))"

text \<open>The bodies of \<open>treat_constraint_2\<close> and \<open>treat_constraint_3\<close> differ in the selector only.\<close>

partial_function (option) treat_constraint ::
    "(signal_definition \<Rightarrow> nat constraint \<Rightarrow> nat option) \<Rightarrow> int \<Rightarrow> nat constraint \<Rightarrow>
      signal_definition \<Rightarrow> sh_not_normalized \<Rightarrow> nat constraint list \<Rightarrow>
      (signal_definition \<times> sh_not_normalized \<times> nat constraint list) option" where
  "treat_constraint take_signal field work signals substitutions lconst =
      (if constraint_is_empty work then Some (signals, substitutions, lconst)
       else
         (case take_signal signals work of
            None \<Rightarrow> Some (signals, substitutions, lconst @ [work])
          | Some out \<Rightarrow>
              (let signals = delete_signal out signals in
               Option.bind (clear_signal_from_linear_not_normalized work out field) (\<lambda>cs.
                 case map_of substitutions (sub_from (snd cs)) of
                   None \<Rightarrow>
                     Some (signals, bt_insert (sub_from (snd cs)) cs substitutions, lconst)
                 | Some in_conflict \<Rightarrow>
                     Option.bind (merge_not_normalized cs in_conflict field) (\<lambda>work.
                       treat_constraint take_signal field work signals substitutions lconst)))))"

definition treat_constraint_2 where
  "treat_constraint_2 = treat_constraint take_signal_1"

definition treat_constraint_3 where
  "treat_constraint_3 = treat_constraint take_signal_3"

type_synonym state_4 =
  "signal_definition_4 \<times> sh_not_normalized \<times> nat constraint list \<times> signals_information"

definition treat_unique_constraint_4 ::
    "nat constraint \<Rightarrow> nat \<Rightarrow> int \<Rightarrow> state_4 \<Rightarrow> state_4 option" where
  "treat_unique_constraint_4 work signal field = (\<lambda>(signals, substitutions, lconst, info_ocurrences).
     Option.bind (clear_signal_from_linear_not_normalized work signal field) (\<lambda>cs.
       Some (delete_signal_4 signal signals, bt_insert (sub_from (snd cs)) cs substitutions, lconst,
             remove_signal info_ocurrences signal)))"

partial_function (option) treat_constraint_4 ::
    "int \<Rightarrow> nat constraint \<Rightarrow> signal_definition_4 \<Rightarrow> sh_not_normalized \<Rightarrow>
      nat constraint list \<Rightarrow> signals_information \<Rightarrow> state_4 option" where
  "treat_constraint_4 field work signals substitutions lconst info_ocurrences =
     (if constraint_is_empty work then Some (signals, substitutions, lconst, info_ocurrences)
       else
         Option.bind (take_signal_4 signals info_ocurrences work) (\<lambda>out_opt.
         case out_opt of
           None \<Rightarrow> Some (signals, substitutions, lconst @ [work], info_ocurrences)
         | Some out \<Rightarrow>
             Option.bind (clear_signal_from_linear_not_normalized work out field) (\<lambda>cs.
               case map_of substitutions (sub_from (snd cs)) of
                 None \<Rightarrow>
                   Some (delete_signal_4 out signals, bt_insert (sub_from (snd cs)) cs substitutions,
                     lconst, remove_signal info_ocurrences out)
               | Some in_conflict \<Rightarrow>
                   Option.bind (merge_not_normalized cs in_conflict field) (\<lambda>work.
                     treat_constraint_4 field work signals substitutions lconst info_ocurrences))))"

declare treat_constraint_1.simps [code] treat_constraint.simps [code] treat_constraint_4.simps [code]

section \<open>The passes\<close>

text \<open>\<open>pop_back\<close> until the list is empty: the constraints from the last to the first.\<close>

definition pop_back_all :: "('c \<Rightarrow> 's \<Rightarrow> 's option) \<Rightarrow> 'c list \<Rightarrow> 's \<Rightarrow> 's option" where
  "pop_back_all treat constraints st =
     fold (\<lambda>actual_constraint acc. Option.bind acc (treat actual_constraint)) (rev constraints) (Some st)"

definition substitution_process_1 ::
    "inverse_fn \<Rightarrow> signal_definition \<Rightarrow> nat constraint list \<Rightarrow> sh \<Rightarrow> int \<Rightarrow>
      (signal_definition \<times> sh \<times> nat constraint list) option" where
  "substitution_process_1 minv signals constraints substitutions field =
     pop_back_all (\<lambda>work (signals, substitutions, lconst). treat_constraint_1 minv field work signals substitutions lconst)
       constraints (signals, substitutions, [])"

definition substitution_process_2 ::
    "signal_definition \<Rightarrow> nat constraint list \<Rightarrow> sh_not_normalized \<Rightarrow> int \<Rightarrow>
      (signal_definition \<times> sh_not_normalized \<times> nat constraint list) option" where
  "substitution_process_2 signals constraints substitutions field =
     pop_back_all (\<lambda>work (signals, substitutions, lconst). treat_constraint_2 field work signals substitutions lconst)
       constraints (signals, substitutions, [])"

definition substitution_process_3 ::
    "signal_definition \<Rightarrow> nat constraint list \<Rightarrow> sh_not_normalized \<Rightarrow> int \<Rightarrow>
      (signal_definition \<times> sh_not_normalized \<times> nat constraint list) option" where
  "substitution_process_3 signals constraints substitutions field =
     pop_back_all (\<lambda>work (signals, substitutions, lconst). treat_constraint_3 field work signals substitutions lconst)
       constraints (signals, substitutions, [])"

text \<open>First the constraints that own a signal, in the order of these signals, then the others.\<close>

definition treat_uniques_4 ::
    "nat btmap \<Rightarrow> int \<Rightarrow> nat constraint list \<times> state_4 \<Rightarrow> (nat constraint list \<times> state_4) option" where
  "treat_uniques_4 uniques field init =
     fold (\<lambda>(signal, index) acc. Option.bind acc (\<lambda>(vec_constraints, signals, substitutions, lconst, info_ocurrences).
         if index < length vec_constraints then
           if \<not> constraint_is_empty (vec_constraints ! index) then
             (let actual_constraint = vec_constraints ! index;
                  vec_constraints = vec_constraints[index := constraint_empty]
              in Option.bind (remove_constraint info_ocurrences actual_constraint signals) (\<lambda>info_ocurrences.
                 map_option (Pair vec_constraints)
                   (treat_unique_constraint_4 actual_constraint signal field
                     (signals, substitutions, lconst, info_ocurrences))))
           else Some (vec_constraints, signals, substitutions, lconst, info_ocurrences)
         else None))
       uniques (Some init)"

definition pop_constraint_4 :: "int \<Rightarrow> nat constraint \<Rightarrow> state_4 \<Rightarrow> state_4 option" where
  "pop_constraint_4 field actual_constraint = (\<lambda>(signals, substitutions, lconst, info_ocurrences).
     Option.bind (remove_constraint info_ocurrences actual_constraint signals) (\<lambda>info_ocurrences.
       treat_constraint_4 field actual_constraint signals substitutions lconst info_ocurrences))"

definition substitution_process_4 ::
    "signal_definition_4 \<Rightarrow> nat constraint list \<Rightarrow> sh_not_normalized \<Rightarrow> int \<Rightarrow>
      (signal_definition_4 \<times> sh_not_normalized \<times> nat constraint list) option" where
  "substitution_process_4 signals constraints substitutions field =
     (let (info_ocurrences, uniques) = signals_information_new constraints signals
      in Option.bind (treat_uniques_4 uniques field (constraints, signals, substitutions, [], info_ocurrences))
           (\<lambda>(vec_constraints, st).
         map_option (\<lambda>(signals, substitutions, lconst, _). (signals, substitutions, lconst))
           (pop_back_all (pop_constraint_4 field) vec_constraints st)))"

section \<open>From scaled to independent substitutions\<close>

definition normalize_substitutions ::
    "inverse_fn \<Rightarrow> sh_not_normalized \<Rightarrow> int \<Rightarrow> sh option" where
  "normalize_substitutions minv substitutions field =
     (let coeffs = map (\<lambda>(signal, coeff, sub). coeff) substitutions
      in Option.bind (multi_inv minv coeffs field) (\<lambda>inverses.
           fold (\<lambda>(i, signal, coeff, sub) acc. Option.bind acc (\<lambda>tree.
               if i < length inverses then
                 (let arith_sub = hashmap_into_arith (sub_to sub);
                      mult_by_inverse = ae_mul arith_sub (Number (inverses ! i)) field
                  in map_option (\<lambda>new_sub. bt_insert signal new_sub tree)
                       (substitution_new signal mult_by_inverse))
               else None))
             (enumerate 0 substitutions) (Some [])))"

definition take_substitutions_to_be_applied ::
    "(nat, nat substitution) hmap \<Rightarrow> nat substitution \<Rightarrow> nat substitution list" where
  "take_substitutions_to_be_applied sh subs = List.map_filter (map_of sh) (hm_keys (sub_to subs))"

definition apply_all :: "nat substitution list \<Rightarrow> int \<Rightarrow> nat substitution \<Rightarrow> nat substitution" where
  "apply_all to_be_applied field substitution =
     fold (\<lambda>sub substitution. substitution_apply_substitution substitution sub field)
       to_be_applied substitution"

definition create_nonoverlapping_substitutions ::
    "sh \<Rightarrow> int \<Rightarrow> (nat, nat substitution) hmap" where
  "create_nonoverlapping_substitutions possible_overlap field =
     fold (\<lambda>(s, substitution) no_overlap.
         hm_insert s (apply_all (take_substitutions_to_be_applied no_overlap substitution) field substitution)
           no_overlap)
       possible_overlap []"

definition create_nonoverlapping_substitutions_4 ::
    "sh \<Rightarrow> signal_definition_4 \<Rightarrow> int \<Rightarrow> (nat, nat substitution) hmap option" where
  "create_nonoverlapping_substitutions_4 possible_overlap signals field =
     map_option snd
       (fold (\<lambda>s acc. Option.bind acc (\<lambda>(possible_overlap, no_overlap).
           Option.bind (map_of possible_overlap s) (\<lambda>substitution.
             Some (hm_remove s possible_overlap,
               hm_insert s
                 (apply_all (take_substitutions_to_be_applied no_overlap substitution) field substitution)
                 no_overlap))))
         (order_signals signals) (Some (possible_overlap, [])))"

definition debug_substitution_check :: "(nat, nat substitution) hmap \<Rightarrow> bool" where
  "debug_substitution_check substitutions =
     (let left_hand = set (hm_keys substitutions)
      in list_all (\<lambda>s. list_all (\<lambda>signal. signal \<notin> left_hand) (hm_keys (sub_to s)))
           (map snd substitutions))"

section \<open>Encoded substitutions\<close>

definition fast_encoded_constraint_substitution ::
    "nat constraint \<Rightarrow> (nat, nat arithmetic_expression) hmap \<Rightarrow> int \<Rightarrow> (nat constraint \<times> bool) option" where
  "fast_encoded_constraint_substitution c enc field =
     fold (\<lambda>signal acc. Option.bind acc (\<lambda>(c, applied_substitution).
         case map_of enc signal of
           Some expr \<Rightarrow>
             map_option (\<lambda>sub. (constraint_apply_substitution c sub field, True)) (substitution_new signal expr)
         | None \<Rightarrow> Some (c, applied_substitution)))
       (take_cloned_signals c) (Some (c, False))"

definition fast_encoded_substitution_substitution ::
    "nat substitution \<Rightarrow> (nat, nat arithmetic_expression) hmap \<Rightarrow> int \<Rightarrow> nat substitution option" where
  "fast_encoded_substitution_substitution s enc field =
     map_option rmv_zero_coefficients
       (fold (\<lambda>signal acc. Option.bind acc (\<lambda>s.
           case map_of enc signal of
             Some expr \<Rightarrow>
               map_option (\<lambda>sub. substitution_apply_substitution s sub field) (substitution_new signal expr)
           | None \<Rightarrow> Some s))
         (substitution_take_cloned_signals s) (Some s))"

definition build_encoded_fast_substitutions ::
    "nat substitution list \<Rightarrow> (nat, nat arithmetic_expression) hmap" where
  "build_encoded_fast_substitutions fast_sub =
     fold (\<lambda>sub encoded. (let (from_s, to) = decompose sub in hm_insert from_s to encoded)) fast_sub []"

section \<open>The whole simplification\<close>

record config =
  cfg_field :: int
  cfg_constraints :: "nat constraint list"
  cfg_forbidden :: "nat set"
  cfg_num_signals :: nat
  use_old_heuristics :: bool

record simplified =
  simp_constraints :: "nat constraint list"
  simp_substitutions :: "nat substitution list"
  simp_removed :: "nat list"

definition full_simplification :: "inverse_fn \<Rightarrow> config \<Rightarrow> simplified option" where
  "full_simplification minv config =
     (let min_c = 350; max_c = 1000000;
          apply_less_ocurrences =
            min_c \<le> length (cfg_constraints config) \<and> length (cfg_constraints config) < max_c \<and>
            \<not> use_old_heuristics config;
          field = cfg_field config;
          result =
            (if apply_less_ocurrences then
               (let signals = \<lparr>deleted_symbols = {}, forbidden = cfg_forbidden config, order_signals = []\<rparr>
                in Option.bind (substitution_process_4 signals (cfg_constraints config) [] field)
                     (\<lambda>(signals, holder, constraints).
                   Option.bind (normalize_substitutions minv holder field) (\<lambda>normalized_holder.
                     map_option (Pair constraints)
                       (create_nonoverlapping_substitutions_4 normalized_holder signals field))))
             else
               (let signals = \<lparr>deleted_symbols = {}, forbidden = cfg_forbidden config\<rparr>
                in Option.bind (substitution_process_3 signals (cfg_constraints config) [] field)
                     (\<lambda>(signals, holder, constraints).
                   map_option (\<lambda>normalized_holder.
                       (constraints, create_nonoverlapping_substitutions normalized_holder field))
                     (normalize_substitutions minv holder field))))
      in map_option (\<lambda>(constraints, non_overlapping).
           \<lparr>simp_constraints = constraints, simp_substitutions = map snd non_overlapping,
            simp_removed = map fst non_overlapping\<rparr>) result)"

text \<open>\<open>check_substitutions\<close> reports what is left of the one set after the other has been applied;
  here as the list of these rests, in the order in which they are printed.\<close>

definition check_substitutions_rests ::
    "nat substitution list \<Rightarrow> nat substitution list \<Rightarrow> int \<Rightarrow> nat constraint list option" where
  "check_substitutions_rests subs_1 subs_2 field =
     (if list_all (\<lambda>s. substitution_into_constraint s field \<noteq> None) subs_1 then
        Some (filter (\<lambda>cons. \<not> constraint_is_empty cons)
          (map (\<lambda>s. fold (\<lambda>s_2 cons. fix_constraint (constraint_apply_substitution cons s_2 field) field)
             subs_2 (the (substitution_into_constraint s field))) subs_1))
      else None)"

definition check_substitutions ::
    "nat substitution list \<Rightarrow> nat substitution list \<Rightarrow> int \<Rightarrow> nat constraint list option" where
  "check_substitutions subs_1 subs_2 field =
     Option.bind (check_substitutions_rests subs_1 subs_2 field) (\<lambda>rests_1.
       map_option (\<lambda>rests_2. rests_1 @ rests_2) (check_substitutions_rests subs_2 subs_1 field))"

section \<open>Meaning of the state\<close>

definition all_sat :: "int \<Rightarrow> ('c \<Rightarrow> int) \<Rightarrow> 'c constraint list \<Rightarrow> bool" where
  "all_sat p \<sigma> cs \<longleftrightarrow> (\<forall>c \<in> set cs. sat p \<sigma> c)"

definition holder_holds :: "int \<Rightarrow> (nat \<Rightarrow> int) \<Rightarrow> sh_not_normalized \<Rightarrow> bool" where
  "holder_holds p \<sigma> subs \<longleftrightarrow> (\<forall>(k, cs) \<in> set subs. scaled_holds p \<sigma> cs)"

text \<open>The constraints the loops work on: linear, with distinct signals and non-zero coefficients.\<close>

definition work_wf :: "int \<Rightarrow> 'c constraint \<Rightarrow> bool" where
  "work_wf p c \<longleftrightarrow> is_linear c \<and> hm_wf (con_c c) \<and> nonzero_coeffs p (con_c c)"

definition entry_wf :: "int \<Rightarrow> nat \<Rightarrow> int \<times> nat substitution \<Rightarrow> bool" where
  "entry_wf p k cs \<longleftrightarrow> sub_from (snd cs) = k \<and> coprime (fst cs) p \<and> hm_wf (sub_to (snd cs)) \<and>
     0 \<in> keys_of (sub_to (snd cs)) \<and> k \<notin> keys_of (sub_to (snd cs))"

definition holder_wf :: "int \<Rightarrow> sh_not_normalized \<Rightarrow> bool" where
  "holder_wf p subs \<longleftrightarrow> bt_wf subs \<and> (\<forall>(k, cs) \<in> set subs. entry_wf p k cs)"

section \<open>Lemmas: one round of the loop\<close>

lemma work_wf_nonzero: "work_wf p w \<Longrightarrow> con_keys w = keys_of (con_c w)"
  by (simp add: work_wf_def is_linear_def con_keys_def)

lemma clear_step:
  fixes w :: "nat constraint"
  assumes "is_field p" and "work_wf p w" and "k \<in> keys_of (con_c w)" and "k \<noteq> 0"
  shows "\<exists>cs. clear_signal_from_linear_not_normalized w k p = Some cs \<and> entry_wf p k cs \<and>
    keys_of (sub_to (snd cs)) = insert 0 (keys_of (con_c w) - {k}) \<and>
    (\<forall>\<sigma>. sat p \<sigma> w \<longleftrightarrow> scaled_holds p \<sigma> cs)"
proof -
  have p: "0 < p" using assms(1) by (rule is_field_pos)
  have w: "is_linear w" "hm_wf (con_c w)" "nonzero_coeffs p (con_c w)"
    using assms(2) by (simp_all add: work_wf_def)
  obtain q t where qt: "clear_signal_not_normalized (con_c w) k p = Some (q, t)"
    using clear_signal_not_normalized_total [OF w(3) assms(3)] by auto
  then obtain v where v: "map_of (con_c w) k = Some v" "q = (- v) mod p"
      "t = initialize_hashmap_for_expression (hm_remove k (con_c w))"
      "\<forall>\<sigma>. eqm p 0 (lin \<sigma> (con_c w)) \<longleftrightarrow> eqm p (q * \<sigma> k) (lin \<sigma> t)"
    using clear_signal_not_normalized_Some [OF p w(2) qt] by blast
  have "q mod p \<noteq> 0" using coeff_not_zero [OF w(3) v(1)] v(2) by (simp add: mod_eq_0_iff_dvd)
  then have "coprime q p" by (rule is_field_coprime [OF assms(1)])
  moreover have "\<forall>\<sigma>. sat p \<sigma> w \<longleftrightarrow> scaled_holds p \<sigma> (q, \<lparr>sub_from = k, sub_to = t\<rparr>)"
    using v(4) w(1) by (simp add: sat_def scaled_holds_def is_linear_def lin_simps)
  ultimately show ?thesis
    using qt w(2) v(3) assms(4) by (simp add: clear_signal_from_linear_not_normalized_def entry_wf_def)
qed

fun ae_keys :: "'c arithmetic_expression \<Rightarrow> 'c set" where
  "ae_keys (Linear m) = keys_of m"
| "ae_keys (Signal s) = {s}"
| "ae_keys (Quadratic a b c) = keys_of a \<union> keys_of b \<union> keys_of c"
| "ae_keys _ = {}"

lemma ae_mul_number:
  "degree e \<le> 1 \<Longrightarrow> degree (ae_mul (Number v) e p) \<le> 1 \<and>
    ae_keys (ae_mul (Number v) e p) \<subseteq> insert default (ae_keys e)"
  for e :: "'c::default arithmetic_expression"
  by (cases e) auto

lemma ae_add_degree1:
  fixes l r :: "'c::default arithmetic_expression"
  assumes "degree l \<le> 1" and "degree r \<le> 1" and "ae_add l r p = Some e"
  shows "degree e \<le> 1 \<and> ae_keys e \<subseteq> insert default (ae_keys l \<union> ae_keys r)"
proof -
  have "ae_add l r p = Some e \<Longrightarrow> degree l \<le> 1 \<Longrightarrow> degree r \<le> 1 \<Longrightarrow> ?thesis"
    by (induction l r p rule: ae_add.induct; simp; (elim exE conjE)?;
        (drule keys_add_constant)?; (clarsimp)?; blast?)
  with assms show ?thesis by blast
qed

lemma decompose_to:
  assumes "hm_wf (sub_to s)" and "default \<in> keys_of (sub_to s)" and "assigns_one \<sigma>"
  shows "expr_wf (snd (decompose s)) \<and> degree (snd (decompose s)) \<le> 1 \<and>
    ae_keys (snd (decompose s)) \<subseteq> keys_of (sub_to s) \<and>
    aeval p \<sigma> (snd (decompose s)) = Some (lin \<sigma> (sub_to s) mod p)"
proof (cases "\<exists>v. sub_to s = [(default, v)]")
  case True
  then show ?thesis using assms(3)
    by (auto simp: decompose_def constant_coefficient_def lin_simps assigns_one_def)
next
  case False
  then have "snd (decompose s) = Linear (initialize_hashmap_for_expression (sub_to s))"
    using assms(2) by (auto simp: decompose_def constant_coefficient_def Let_def split: list.split)
  then show ?thesis using assms(1,2) by (auto simp: lin_simps)
qed

lemma nonzero_remove_zero_multiply:
  "nonzero_coeffs p (remove_zero_value_coefficients (multiply_coefficients_by_constant c m p))"
  if "0 < p"
  using that by (auto simp: nonzero_coeffs_def remove_zero_value_coefficients_def
      multiply_coefficients_by_constant_def dvd_eq_mod_eq_0)

lemma keys_remove_zero: "keys_of (remove_zero_value_coefficients m) \<subseteq> keys_of m"
  unfolding remove_zero_value_coefficients_def by (rule keys_of_filter_subset)

lemma remove_zero_empty [simp]: "remove_zero_value_coefficients (initialize_hashmap_for_expression []) = []"
  by (simp add: remove_zero_value_coefficients_def initialize_hashmap_for_expression_def hm_or_insert_def)

lemma sat_remove_zero [simp]: "sat p \<sigma> (constraint_remove_zero_value_coefficients c) = sat p \<sigma> c"
  by (simp add: sat_def constraint_remove_zero_value_coefficients_def lin_simps)

text \<open>A linear expression as a work constraint.\<close>

lemma linear_form_work:
  fixes e :: "nat arithmetic_expression"
  assumes "0 < p" and "expr_wf e" and "degree e \<le> 1"
  shows "\<exists>w. transform_expression_to_constraint_form e p = Some w \<and>
    work_wf p (constraint_remove_zero_value_coefficients w) \<and>
    keys_of (con_c (constraint_remove_zero_value_coefficients w)) \<subseteq> insert 0 (ae_keys e) \<and>
    (\<forall>\<sigma>. assigns_one \<sigma> \<longrightarrow> sat p \<sigma> w \<longleftrightarrow> aeval p \<sigma> e = Some 0)"
proof -
  obtain w where w: "transform_expression_to_constraint_form e p = Some w"
    using assms(3) by (cases e) auto
  have "work_wf p (constraint_remove_zero_value_coefficients w) \<and>
      keys_of (con_c (constraint_remove_zero_value_coefficients w)) \<subseteq> insert 0 (ae_keys e)"
    using w assms
    by (cases e)
      (auto simp: work_wf_def is_linear_def constraint_remove_zero_value_coefficients_def coeffs_wf_def
        nonzero_remove_zero_multiply constant_coefficient_def dest!: subsetD [OF keys_remove_zero])
  moreover have "sat p \<sigma> w \<longleftrightarrow> aeval p \<sigma> e = Some 0" if "assigns_one \<sigma>" for \<sigma>
    using constraint_form_iff [OF assms(1) that, of e] w by simp
  ultimately show ?thesis using w by blast
qed

lemma cross_multiply:
  assumes "coprime q' p" and "eqm p (q' * x) r"
  shows "eqm p (q * x) l \<longleftrightarrow> (q' * l - q * r) mod p = 0"
proof -
  have "eqm p (q * r) (q * (q' * x))" by (rule eqm_mult [OF refl assms(2) [symmetric]])
  then have "(q' * l - q * r) mod p = (q' * l - q * (q' * x)) mod p" by (rule eqm_diff [OF refl])
  also have "\<dots> = 0 \<longleftrightarrow> p dvd q' * (l - q * x)" by (simp add: dvd_eq_mod_eq_0 algebra_simps)
  also have "\<dots> \<longleftrightarrow> p dvd l - q * x"
    using assms(1) by (simp add: coprime_dvd_mult_right_iff coprime_commute)
  finally show ?thesis by (simp add: mod_eq_dvd_iff dvd_diff_commute)
qed

lemma merge_step:
  assumes "0 < p" and "entry_wf p k cs" and "entry_wf p k cs'"
  shows "\<exists>w. merge_not_normalized cs cs' p = Some w \<and> work_wf p w \<and>
    keys_of (con_c w) \<subseteq> insert 0 (keys_of (sub_to (snd cs)) \<union> keys_of (sub_to (snd cs'))) \<and>
    (\<forall>\<sigma>. assigns_one \<sigma> \<longrightarrow> scaled_holds p \<sigma> cs' \<longrightarrow> scaled_holds p \<sigma> cs \<longleftrightarrow> sat p \<sigma> w)"
proof -
  obtain q s q' s' where cs: "cs = (q, s)" "cs' = (q', s')" by (cases cs; cases cs')
  have wf: "hm_wf (sub_to s)" "default \<in> keys_of (sub_to s)" "hm_wf (sub_to s')" "default \<in> keys_of (sub_to s')"
    using assms(2,3) by (simp_all add: cs entry_wf_def)
  define l r where "l = snd (decompose s)" and "r = snd (decompose s')"
  define nl nr where "nl = ae_mul (Number q') l p" and "nr = ae_mul (Number q) r p"
  have one: "assigns_one (\<lambda>_ :: nat. 1)" by (simp add: assigns_one_def)
  note dl = decompose_to [OF wf(1,2), folded l_def] and dr = decompose_to [OF wf(3,4), folded r_def]
  have d: "degree l \<le> 1" "degree r \<le> 1" "expr_wf l" "expr_wf r"
    "ae_keys l \<subseteq> keys_of (sub_to s)" "ae_keys r \<subseteq> keys_of (sub_to s')"
    using dl [OF one] dr [OF one] by auto
  have n: "expr_wf nl" "expr_wf nr" "degree nl \<le> 1" "degree nr \<le> 1"
    "ae_keys nl \<subseteq> insert 0 (keys_of (sub_to s))" "ae_keys nr \<subseteq> insert 0 (keys_of (sub_to s'))"
    unfolding nl_def nr_def
    using ae_mul_wf [OF assms(1) _ d(3), of "Number q'"] ae_mul_wf [OF assms(1) _ d(4), of "Number q"] d(5,6)
      ae_mul_number [OF d(1), of q' p] ae_mul_number [OF d(2), of q p]
    by (simp_all only: expr_wf.simps) auto
  obtain e where e: "ae_sub nl nr p = Some e" "expr_wf e"
    using ae_sub_wf [OF assms(1) n(1,2) one] by blast
  have neg: "degree (ae_mul (Number (-1)) nr p) \<le> 1"
    "ae_keys (ae_mul (Number (-1)) nr p) \<subseteq> insert 0 (ae_keys nr)"
    using ae_mul_number [OF n(4), of "-1" p] by simp_all
  have eds: "degree e \<le> 1" "ae_keys e \<subseteq> insert 0 (keys_of (sub_to s) \<union> keys_of (sub_to s'))"
    using ae_add_degree1 [OF n(3) neg(1), of p e] neg(2) n(5,6) e(1) by (auto simp: ae_sub_def)
  obtain w where w: "transform_expression_to_constraint_form e p = Some w"
    "work_wf p (constraint_remove_zero_value_coefficients w)"
    "keys_of (con_c (constraint_remove_zero_value_coefficients w)) \<subseteq> insert 0 (ae_keys e)"
    "\<And>\<sigma>. assigns_one \<sigma> \<Longrightarrow> sat p \<sigma> w \<longleftrightarrow> aeval p \<sigma> e = Some 0"
    using linear_form_work [OF assms(1) e(2) eds(1)] by blast
  have "scaled_holds p \<sigma> cs \<longleftrightarrow> sat p \<sigma> w"
    if one: "assigns_one \<sigma>" and h: "scaled_holds p \<sigma> cs'" for \<sigma>
  proof -
    have ev: "aeval p \<sigma> nl = Some ((q' * lin \<sigma> (sub_to s)) mod p)"
      "aeval p \<sigma> nr = Some ((q * lin \<sigma> (sub_to s')) mod p)"
      using ae_mul_wf [OF assms(1) _ d(3), of "Number q'" \<sigma>] ae_mul_wf [OF assms(1) _ d(4), of "Number q" \<sigma>]
        dl [OF one, of p] dr [OF one, of p] d(1,2) by (simp_all add: nl_def nr_def mod_simps)
    have "aeval p \<sigma> e = Some ((q' * lin \<sigma> (sub_to s) - q * lin \<sigma> (sub_to s')) mod p)"
      using ae_sub_wf [OF assms(1) n(1,2) one] e(1) n(3,4) ev by (auto simp: mod_simps)
    then have "sat p \<sigma> w \<longleftrightarrow> (q' * lin \<sigma> (sub_to s) - q * lin \<sigma> (sub_to s')) mod p = 0"
      using w(4) [OF one] by simp
    also have "\<dots> \<longleftrightarrow> scaled_holds p \<sigma> cs"
      using cross_multiply [of q' p "\<sigma> k" "lin \<sigma> (sub_to s')" q "lin \<sigma> (sub_to s)"] assms(2,3) h
      by (simp add: cs entry_wf_def scaled_holds_def)
    finally show ?thesis by simp
  qed
  moreover have "merge_not_normalized cs cs' p = Some (constraint_remove_zero_value_coefficients w)"
    using e(1) w(1) by (simp add: merge_not_normalized_def cs l_def r_def nl_def nr_def Let_def)
  ultimately show ?thesis
    using w(2,3) eds(2) by (intro exI [of _ "constraint_remove_zero_value_coefficients w"]) (auto simp: cs)
qed

section \<open>Lemmas: the loops\<close>

text \<open>The measure: each signal weighs \<open>2 ^ rank\<close>, so replacing one by any set of signals of smaller
  rank makes a set lighter.\<close>

definition weight :: "(nat \<Rightarrow> nat) \<Rightarrow> nat set \<Rightarrow> nat" where
  "weight rank A = (\<Sum>j \<in> A. 2 ^ rank j)"

lemma sum_powers: "(\<Sum>i \<in> {..<n}. 2 ^ i) < (2 ^ n :: nat)"
  by (induction n) simp_all

lemma weight_smaller:
  assumes "finite A" and "k \<in> A" and "finite B" and "inj_on rank B" and "\<forall>j \<in> B. rank j < rank k"
    and "C \<subseteq> (A - {k}) \<union> B"
  shows "weight rank C < weight rank A"
proof -
  have "weight rank B = (\<Sum>i \<in> rank ` B. 2 ^ i)"
    using assms(4) by (simp add: weight_def sum.reindex)
  also have "\<dots> \<le> (\<Sum>i \<in> {..<rank k}. 2 ^ i)"
    using assms(3,5) by (intro sum_mono2) auto
  also have "\<dots> < 2 ^ rank k"
    by (rule sum_powers)
  finally have b: "weight rank B < 2 ^ rank k" .
  have "weight rank C \<le> weight rank ((A - {k}) \<union> B)"
    using assms(1,3,6) unfolding weight_def by (intro sum_mono2) auto
  also have "\<dots> \<le> weight rank (A - {k}) + weight rank B"
    using assms(1,3) unfolding weight_def by (simp add: sum_Un_nat)
  also have "\<dots> < weight rank (A - {k}) + 2 ^ rank k" using b by simp
  also have "\<dots> = weight rank A"
    using assms(1,2) unfolding weight_def by (simp add: sum.remove)
  finally show ?thesis .
qed


lemma can_be_taken_delete [simp]:
  "forbidden (delete_signal k sg) = forbidden sg"
  "forbidden (delete_signal_4 k sg4) = forbidden sg4"
  "deleted_symbols (delete_signal_4 k sg4) = insert k (deleted_symbols sg4)"
  "order_signals (delete_signal_4 k sg4) = k # order_signals sg4"
  by (simp_all add: delete_signal_def delete_signal_4_def)

lemma holder_wf_insert:
  "holder_wf p subs \<Longrightarrow> entry_wf p k cs \<Longrightarrow> holder_wf p (bt_insert k cs subs)"
  by (auto simp: holder_wf_def set_bt_insert)

lemma holder_holds_insert:
  "bt_wf subs \<Longrightarrow> k \<notin> keys_of subs \<Longrightarrow>
    holder_holds p \<sigma> (bt_insert k cs subs) \<longleftrightarrow> scaled_holds p \<sigma> cs \<and> holder_holds p \<sigma> subs"
  by (fastforce simp: holder_holds_def set_bt_insert dest: in_keys_of)

lemma holder_lookup:
  "holder_wf p subs \<Longrightarrow> map_of subs k = Some cs \<Longrightarrow>
    entry_wf p k cs \<and> (holder_holds p \<sigma> subs \<longrightarrow> scaled_holds p \<sigma> cs)"
  by (auto simp: holder_wf_def holder_holds_def dest!: map_of_SomeD)

lemma all_sat_simps [simp]:
  "all_sat p \<sigma> []" "all_sat p \<sigma> (c # cs) \<longleftrightarrow> sat p \<sigma> c \<and> all_sat p \<sigma> cs"
  "all_sat p \<sigma> (cs @ ds) \<longleftrightarrow> all_sat p \<sigma> cs \<and> all_sat p \<sigma> ds"
  "all_sat p \<sigma> (rev cs) \<longleftrightarrow> all_sat p \<sigma> cs"
  by (auto simp: all_sat_def)

lemma constraint_is_empty_sat: "constraint_is_empty c \<Longrightarrow> sat p \<sigma> c"
  by (simp add: constraint_is_empty_def sat_def lin_simps)

text \<open>What the loops keep. \<open>F\<close> are the forbidden signals; what is put aside has no other signal.\<close>

definition holder_inv :: "int \<Rightarrow> nat set \<Rightarrow> sh_not_normalized \<Rightarrow> nat constraint list \<Rightarrow> bool" where
  "holder_inv p F subs lconst \<longleftrightarrow> holder_wf p subs \<and> keys_of subs \<inter> F = {} \<and>
     (\<forall>c \<in> set lconst. work_wf p c \<and> keys_of (con_c c) \<subseteq> F)"

lemma holder_inv_put_aside:
  "holder_inv p F subs l \<Longrightarrow> work_wf p w \<Longrightarrow> keys_of (con_c w) \<subseteq> F \<Longrightarrow> holder_inv p F subs (l @ [w])"
  by (auto simp: holder_inv_def)

lemma holder_inv_insert:
  "holder_inv p F subs l \<Longrightarrow> entry_wf p k cs \<Longrightarrow> k \<notin> F \<Longrightarrow> holder_inv p F (bt_insert k cs subs) l"
  by (auto simp: holder_inv_def holder_wf_insert)

text \<open>The outcome of working off the constraint \<open>w\<close> with the holder \<open>subs\<close> and the rest \<open>l\<close>.\<close>

definition treated :: "int \<Rightarrow> nat set \<Rightarrow> nat constraint \<Rightarrow> sh_not_normalized \<Rightarrow> nat constraint list \<Rightarrow>
    sh_not_normalized \<Rightarrow> nat constraint list \<Rightarrow> bool" where
  "treated p F w subs l subs' l' \<longleftrightarrow> holder_inv p F subs' l' \<and>
     (\<forall>\<sigma>. assigns_one \<sigma> \<longrightarrow>
       (sat p \<sigma> w \<and> holder_holds p \<sigma> subs \<and> all_sat p \<sigma> l \<longleftrightarrow> holder_holds p \<sigma> subs' \<and> all_sat p \<sigma> l'))"

lemma treated_empty: "constraint_is_empty w \<Longrightarrow> holder_inv p F subs l \<Longrightarrow> treated p F w subs l subs l"
  by (simp add: treated_def constraint_is_empty_sat)

lemma treated_put_aside:
  "holder_inv p F subs l \<Longrightarrow> work_wf p w \<Longrightarrow> keys_of (con_c w) \<subseteq> F \<Longrightarrow> treated p F w subs l subs (l @ [w])"
  by (auto simp: treated_def holder_inv_put_aside)

lemma treated_round:
  assumes "is_field p" and "0 \<in> F" and "work_wf p w" and "holder_inv p F subs l"
    and "k \<in> keys_of (con_c w)" and "k \<notin> F"
  shows "\<exists>cs. clear_signal_from_linear_not_normalized w k p = Some cs \<and> sub_from (snd cs) = k \<and>
    keys_of (sub_to (snd cs)) = insert 0 (keys_of (con_c w) - {k}) \<and>
    (case map_of subs k of
       None \<Rightarrow> treated p F w subs l (bt_insert k cs subs) l
     | Some cs' \<Rightarrow> \<exists>w'. merge_not_normalized cs cs' p = Some w' \<and> work_wf p w' \<and>
         keys_of (con_c w') \<subseteq> insert 0 ((keys_of (con_c w) - {k}) \<union> keys_of (sub_to (snd cs'))) \<and>
         (\<forall>subs'' l''. treated p F w' subs l subs'' l'' \<longrightarrow> treated p F w subs l subs'' l''))"
proof -
  have k: "k \<noteq> 0" using assms(2,6) by metis
  obtain cs where cs: "clear_signal_from_linear_not_normalized w k p = Some cs" "entry_wf p k cs"
    "keys_of (sub_to (snd cs)) = insert 0 (keys_of (con_c w) - {k})"
    "\<And>\<sigma>. sat p \<sigma> w \<longleftrightarrow> scaled_holds p \<sigma> cs"
    using clear_step [OF assms(1,3,5) k] by blast
  have hw: "holder_wf p subs" using assms(4) by (simp add: holder_inv_def)
  have "case map_of subs k of
       None \<Rightarrow> treated p F w subs l (bt_insert k cs subs) l
     | Some cs' \<Rightarrow> \<exists>w'. merge_not_normalized cs cs' p = Some w' \<and> work_wf p w' \<and>
         keys_of (con_c w') \<subseteq> insert 0 ((keys_of (con_c w) - {k}) \<union> keys_of (sub_to (snd cs'))) \<and>
         (\<forall>subs'' l''. treated p F w' subs l subs'' l'' \<longrightarrow> treated p F w subs l subs'' l'')"
  proof (cases "map_of subs k")
    case None
    then have "k \<notin> keys_of subs" by (simp add: keys_of_map_of)
    then show ?thesis
      using None cs(2,4) assms(4,6) hw
      by (auto simp: treated_def holder_inv_insert holder_holds_insert holder_wf_def)
  next
    case (Some cs')
    obtain w' where w': "merge_not_normalized cs cs' p = Some w'" "work_wf p w'"
      "keys_of (con_c w') \<subseteq> insert 0 (keys_of (sub_to (snd cs)) \<union> keys_of (sub_to (snd cs')))"
      "\<And>\<sigma>. assigns_one \<sigma> \<Longrightarrow> scaled_holds p \<sigma> cs' \<Longrightarrow> scaled_holds p \<sigma> cs \<longleftrightarrow> sat p \<sigma> w'"
      using merge_step [OF is_field_pos [OF assms(1)] cs(2), of cs'] holder_lookup [OF hw Some] by blast
    have eq: "sat p \<sigma> w \<and> holder_holds p \<sigma> subs \<longleftrightarrow> sat p \<sigma> w' \<and> holder_holds p \<sigma> subs"
      if "assigns_one \<sigma>" for \<sigma>
      using w'(4) [OF that] cs(4) holder_lookup [OF hw Some] by blast
    have "treated p F w subs l subs'' l''" if "treated p F w' subs l subs'' l''" for subs'' l''
      using that eq unfolding treated_def by blast
    then show ?thesis using Some w'(1-3) cs(3) by auto
  qed
  then show ?thesis using cs(1-3) by (auto simp: entry_wf_def)
qed

text \<open>Each solution kept mentions only smaller signals, besides the forbidden ones, and no signal
  outside \<open>U\<close>.\<close>

definition downward :: "nat set \<Rightarrow> nat set \<Rightarrow> sh_not_normalized \<Rightarrow> bool" where
  "downward U F subs \<longleftrightarrow> (\<forall>(k, cs) \<in> set subs. k \<in> U \<and> keys_of (sub_to (snd cs)) \<subseteq> U \<and>
     (\<forall>j \<in> keys_of (sub_to (snd cs)) - F. j < k))"

text \<open>A contract for the choice of the signal.\<close>

locale signal_selector =
  fixes pick :: "signal_definition \<Rightarrow> nat constraint \<Rightarrow> nat option"
  assumes picked: "pick sg c = Some k \<Longrightarrow> k \<in> keys_of (con_c c) \<and> k \<notin> forbidden sg"
    and none_left: "pick sg c = None \<Longrightarrow> keys_of (con_c c) \<subseteq> forbidden sg"
begin

text \<open>Whatever the choice, a loop that ends has not changed the solutions.\<close>

lemma treat_sound:
  assumes "treat_constraint pick p w sg subs l = Some r"
  shows "is_field p \<longrightarrow> 0 \<in> forbidden sg \<longrightarrow> work_wf p w \<longrightarrow> holder_inv p (forbidden sg) subs l \<longrightarrow>
    (case r of (sg', subs', l') \<Rightarrow>
      forbidden sg' = forbidden sg \<and> treated p (forbidden sg) w subs l subs' l')"
proof -
  have "pick = pick \<longrightarrow> is_field p \<longrightarrow> 0 \<in> forbidden sg \<longrightarrow> work_wf p w \<longrightarrow>
    holder_inv p (forbidden sg) subs l \<longrightarrow>
    (case r of (sg', subs', l') \<Rightarrow>
      forbidden sg' = forbidden sg \<and> treated p (forbidden sg) w subs l subs' l')"
  proof (rule treat_constraint.raw_induct [where P = "\<lambda>t p w sg subs l r. t = pick \<longrightarrow>
        is_field p \<longrightarrow> 0 \<in> forbidden sg \<longrightarrow> work_wf p w \<longrightarrow> holder_inv p (forbidden sg) subs l \<longrightarrow>
        (case r of (sg', subs', l') \<Rightarrow>
          forbidden sg' = forbidden sg \<and> treated p (forbidden sg) w subs l subs' l')",
        OF _ assms], intro impI, goal_cases)
    case (1 rec t p w sg subs l r)
    note IH = 1(1) [of t p _ "delete_signal _ sg" subs l r, rule_format, OF _ 1(3,4)]
    show ?case
    proof (cases "constraint_is_empty w")
      case True
      then show ?thesis using 1 by (auto simp: treated_empty)
    next
      case nonempty: False
      show ?thesis
      proof (cases "pick sg w")
        case None
        then show ?thesis using 1 nonempty none_left [OF None] by (auto simp: treated_put_aside)
      next
        case (Some k)
        with picked have k: "k \<in> keys_of (con_c w)" "k \<notin> forbidden sg" by auto
        obtain cs where cs: "clear_signal_from_linear_not_normalized w k p = Some cs" "sub_from (snd cs) = k"
          and c: "case map_of subs k of
            None \<Rightarrow> treated p (forbidden sg) w subs l (bt_insert k cs subs) l
          | Some cs' \<Rightarrow> \<exists>w'. merge_not_normalized cs cs' p = Some w' \<and> work_wf p w' \<and>
              keys_of (con_c w') \<subseteq> insert 0 ((keys_of (con_c w) - {k}) \<union> keys_of (sub_to (snd cs'))) \<and>
              (\<forall>subs'' l''. treated p (forbidden sg) w' subs l subs'' l'' \<longrightarrow> treated p (forbidden sg) w subs l subs'' l'')"
          using treated_round [OF 1(4,5,6,7) k] by blast
        show ?thesis
        proof (cases "map_of subs k")
          case None
          then show ?thesis using 1(2,3) nonempty Some cs c by auto
        next
          case conflict: (Some cs')
          then obtain w' where w': "merge_not_normalized cs cs' p = Some w'" "work_wf p w'"
            "\<And>subs'' l''. treated p (forbidden sg) w' subs l subs'' l'' \<Longrightarrow> treated p (forbidden sg) w subs l subs'' l''"
            using c by auto
          then have "rec t p w' (delete_signal k sg) subs l = Some r"
            using 1(2,3) nonempty Some cs conflict by auto
          from IH [OF this] show ?thesis using 1(5,7) w' by auto
        qed
      qed
    qed
  qed
  then show ?thesis by simp
qed

end

text \<open>The choice that makes the loop end: the greatest signal.\<close>

locale greatest_selector = signal_selector +
  assumes greatest: "pick sg c = Some k \<Longrightarrow> j \<in> keys_of (con_c c) \<Longrightarrow> j \<notin> forbidden sg \<Longrightarrow> j \<le> k"
begin

lemma treat_total:
  assumes "is_field p" and "0 \<in> forbidden sg" and "work_wf p w" and "holder_inv p (forbidden sg) subs l"
    and "downward U (forbidden sg) subs" and "0 \<in> U" and "keys_of (con_c w) \<subseteq> U"
  shows "\<exists>sg' subs' l'. treat_constraint pick p w sg subs l = Some (sg', subs', l') \<and>
    forbidden sg' = forbidden sg \<and> treated p (forbidden sg) w subs l subs' l' \<and> downward U (forbidden sg) subs'"
  using assms
proof (induction "weight id (keys_of (con_c w) - forbidden sg)" arbitrary: w sg rule: less_induct)
  case less
  show ?case
  proof (cases "constraint_is_empty w \<or> pick sg w = None")
    case True
    then show ?thesis
      using less.prems none_left
      by (subst treat_constraint.simps) (auto simp: treated_empty treated_put_aside)
  next
    case False
    then obtain k where pick: "pick sg w = Some k" and ne: "\<not> constraint_is_empty w" by auto
    with picked have k: "k \<in> keys_of (con_c w)" "k \<notin> forbidden sg" by auto
    obtain cs where cs: "clear_signal_from_linear_not_normalized w k p = Some cs" "sub_from (snd cs) = k"
      "keys_of (sub_to (snd cs)) = insert 0 (keys_of (con_c w) - {k})"
      and c: "case map_of subs k of
        None \<Rightarrow> treated p (forbidden sg) w subs l (bt_insert k cs subs) l
      | Some cs' \<Rightarrow> \<exists>w'. merge_not_normalized cs cs' p = Some w' \<and> work_wf p w' \<and>
          keys_of (con_c w') \<subseteq> insert 0 ((keys_of (con_c w) - {k}) \<union> keys_of (sub_to (snd cs'))) \<and>
          (\<forall>subs'' l''. treated p (forbidden sg) w' subs l subs'' l'' \<longrightarrow> treated p (forbidden sg) w subs l subs'' l'')"
      using treated_round [OF less.prems(1-4) k] by blast
    show ?thesis
    proof (cases "map_of subs k")
      case None
      have "bt_wf subs" using less.prems(4) by (simp add: holder_inv_def holder_wf_def)
      moreover have "\<forall>j \<in> keys_of (sub_to (snd cs)) - forbidden sg. j < k"
        using cs(3) greatest [OF pick] less.prems(2) by (auto simp: order.strict_iff_order)
      ultimately have "downward U (forbidden sg) (bt_insert k cs subs)"
        using less.prems(5,6,7) k(1) cs(3) by (auto simp: downward_def set_bt_insert)
      then show ?thesis
        using ne pick cs(1,2) None c by (subst treat_constraint.simps) auto
    next
      case (Some cs')
      then obtain w' where w': "merge_not_normalized cs cs' p = Some w'" "work_wf p w'"
        "keys_of (con_c w') \<subseteq> insert 0 ((keys_of (con_c w) - {k}) \<union> keys_of (sub_to (snd cs')))"
        "\<And>subs'' l''. treated p (forbidden sg) w' subs l subs'' l'' \<Longrightarrow> treated p (forbidden sg) w subs l subs'' l''"
        using c by auto
      have down: "\<forall>j \<in> keys_of (sub_to (snd cs')) - forbidden sg. j < k" "keys_of (sub_to (snd cs')) \<subseteq> U"
        using less.prems(5) Some by (auto simp: downward_def dest!: map_of_SomeD)
      then have within: "keys_of (con_c w') \<subseteq> U" using w'(3) less.prems(6,7) by auto
      have "weight id (keys_of (con_c w') - forbidden sg) < weight id (keys_of (con_c w) - forbidden sg)"
        by (rule weight_smaller [where k = k and B = "keys_of (sub_to (snd cs')) - forbidden sg"])
          (use k down(1) w'(3) less.prems(2) in auto)
      with less.hyps [of w' "delete_signal k sg"] less.prems w'(2) within
      obtain sg' subs' l' where "treat_constraint pick p w' (delete_signal k sg) subs l = Some (sg', subs', l')"
        "forbidden sg' = forbidden sg" "treated p (forbidden sg) w' subs l subs' l'" "downward U (forbidden sg) subs'"
        by auto
      then show ?thesis
        using ne pick cs(1,2) Some w'(1,4) by (subst treat_constraint.simps) auto
    qed
  qed
qed

end

lemma take_signal_1_loop_cases:
  "(take_signal_1_loop sg ks ret = None \<longrightarrow> ret = None \<and> set ks \<subseteq> forbidden sg) \<and>
   (\<forall>k. take_signal_1_loop sg ks ret = Some k \<longrightarrow> ret = Some k \<or> k \<in> set ks \<and> k \<notin> forbidden sg)"
proof (induction ks arbitrary: ret)
  case (Cons j ks)
  show ?case
  proof (cases "j \<in> forbidden sg")
    case True
    then show ?thesis using Cons [of ret] by (simp add: can_be_taken_def) blast
  next
    case False
    define r where "r = (case ret of None \<Rightarrow> j | Some v \<Rightarrow> max j v)"
    have "r = j \<or> ret = Some r" by (auto simp: r_def max_def split: option.splits)
    then show ?thesis using False Cons [of "Some r"] by (simp add: can_be_taken_def r_def [symmetric]) blast
  qed
qed simp

lemma keep_greatest_fold:
  "(fold (keep_greatest sg) ks ret = None \<longrightarrow> ret = None \<and> set ks \<subseteq> forbidden sg) \<and>
    (\<forall>k. fold (keep_greatest sg) ks ret = Some k \<longrightarrow> (ret = Some k \<or> k \<in> set ks \<and> k \<notin> forbidden sg) \<and>
      (\<forall>j \<in> set ks - forbidden sg. j \<le> k) \<and> (\<forall>v. ret = Some v \<longrightarrow> v \<le> k))"
proof (induction ks arbitrary: ret)
  case (Cons j ks)
  show ?case
  proof (cases "j \<in> forbidden sg")
    case True
    then show ?thesis using Cons [of ret] by (simp add: keep_greatest_def can_be_taken_def) blast
  next
    case False
    define r where "r = (case ret of None \<Rightarrow> j | Some v \<Rightarrow> max j v)"
    have r: "r = j \<or> ret = Some r" "j \<le> r" "\<And>v. ret = Some v \<Longrightarrow> v \<le> r"
      by (auto simp: r_def max_def split: option.splits)
    have "fold (keep_greatest sg) (j # ks) ret = fold (keep_greatest sg) ks (Some r)"
      using False by (simp add: keep_greatest_def can_be_taken_def r_def)
    with Cons [of "Some r"] have n: "fold (keep_greatest sg) (j # ks) ret \<noteq> None"
      and s: "\<And>k. fold (keep_greatest sg) (j # ks) ret = Some k \<Longrightarrow>
        (r = k \<or> k \<in> set ks \<and> k \<notin> forbidden sg) \<and> (\<forall>j \<in> set ks - forbidden sg. j \<le> k) \<and> r \<le> k"
      by auto
    show ?thesis
    proof (intro conjI allI impI)
      fix k assume k: "fold (keep_greatest sg) (j # ks) ret = Some k"
      show "ret = Some k \<or> k \<in> set (j # ks) \<and> k \<notin> forbidden sg" using s [OF k] r(1) False by auto
      show "\<forall>i \<in> set (j # ks) - forbidden sg. i \<le> k" using s [OF k] r(2) by auto
      show "v \<le> k" if "ret = Some v" for v using s [OF k] r(3) [OF that] by linarith
    qed (use n in blast)+
  qed
qed simp

interpretation sel1: signal_selector take_signal_1
proof unfold_locales
  fix sg :: signal_definition and c :: "nat constraint" and k
  note cases = take_signal_1_loop_cases [of sg "hm_keys (con_c c)" None, folded take_signal_1_def]
  show "take_signal_1 sg c = Some k \<Longrightarrow> k \<in> keys_of (con_c c) \<and> k \<notin> forbidden sg"
    "take_signal_1 sg c = None \<Longrightarrow> keys_of (con_c c) \<subseteq> forbidden sg"
    using cases by simp_all
qed

interpretation sel3: greatest_selector take_signal_3
proof unfold_locales
  fix sg :: signal_definition and c :: "nat constraint" and k j
  note cases = keep_greatest_fold [of sg "hm_keys (con_c c)" None, folded take_signal_3_def]
  show "take_signal_3 sg c = Some k \<Longrightarrow> k \<in> keys_of (con_c c) \<and> k \<notin> forbidden sg"
    "take_signal_3 sg c = None \<Longrightarrow> keys_of (con_c c) \<subseteq> forbidden sg"
    "take_signal_3 sg c = Some k \<Longrightarrow> j \<in> keys_of (con_c c) \<Longrightarrow> j \<notin> forbidden sg \<Longrightarrow> j \<le> k"
    using cases by simp_all
qed

section \<open>Lemmas: the first pass\<close>

lemma pop_back_all_Nil [simp]: "pop_back_all f [] st = Some st"
  by (simp add: pop_back_all_def)

lemma fold_bind_failed [simp]: "fold (\<lambda>c acc. Option.bind acc (f c)) cs None = None"
  by (induction cs) simp_all

lemma pop_back_all_snoc [simp]: "pop_back_all f (cs @ [c]) st = Option.bind (f c st) (pop_back_all f cs)"
  by (cases "f c st") (simp_all add: pop_back_all_def)

lemma substitution_process_3_total:
  assumes "is_field p" and "0 \<in> forbidden sg" and "\<forall>c \<in> set cs. work_wf p c"
    and "holder_inv p (forbidden sg) subs l" and "downward U (forbidden sg) subs"
    and "0 \<in> U" and "\<forall>c \<in> set cs. keys_of (con_c c) \<subseteq> U"
  shows "\<exists>sg' subs' l'. pop_back_all
        (\<lambda>work (signals, substitutions, lconst). treat_constraint_3 p work signals substitutions lconst)
        cs (sg, subs, l) = Some (sg', subs', l') \<and>
      holder_inv p (forbidden sg) subs' l' \<and> downward U (forbidden sg) subs' \<and>
      (\<forall>\<sigma>. assigns_one \<sigma> \<longrightarrow> (all_sat p \<sigma> cs \<and> holder_holds p \<sigma> subs \<and> all_sat p \<sigma> l \<longleftrightarrow>
        holder_holds p \<sigma> subs' \<and> all_sat p \<sigma> l'))"
  using assms
proof (induction cs arbitrary: sg subs l rule: rev_induct)
  case (snoc c cs)
  then obtain sg1 subs1 l1 where one: "treat_constraint_3 p c sg subs l = Some (sg1, subs1, l1)"
    "forbidden sg1 = forbidden sg" "treated p (forbidden sg) c subs l subs1 l1" "downward U (forbidden sg) subs1"
    using sel3.treat_total [of p sg c subs l U] by (auto simp: treat_constraint_3_def)
  then have "holder_inv p (forbidden sg1) subs1 l1" by (simp add: treated_def)
  with snoc.IH [of sg1 subs1 l1] snoc.prems one obtain sg' subs' l' where
    rest: "pop_back_all
        (\<lambda>work (signals, substitutions, lconst). treat_constraint_3 p work signals substitutions lconst)
        cs (sg1, subs1, l1) = Some (sg', subs', l')"
      "holder_inv p (forbidden sg) subs' l'" "downward U (forbidden sg) subs'"
      "\<forall>\<sigma>. assigns_one \<sigma> \<longrightarrow> (all_sat p \<sigma> cs \<and> holder_holds p \<sigma> subs1 \<and> all_sat p \<sigma> l1 \<longleftrightarrow>
        holder_holds p \<sigma> subs' \<and> all_sat p \<sigma> l')"
    by auto
  have "\<forall>\<sigma>. assigns_one \<sigma> \<longrightarrow> (all_sat p \<sigma> (cs @ [c]) \<and> holder_holds p \<sigma> subs \<and> all_sat p \<sigma> l \<longleftrightarrow>
        holder_holds p \<sigma> subs' \<and> all_sat p \<sigma> l')"
    using one(3) rest(4) unfolding treated_def by auto
  with rest(1-3) one(1) show ?case by auto
qed auto

end
