(* ===== verification/Substitution_Independence.thy ===== *)
theory Substitution_Independence
  imports Simplification_Utils
begin

text \<open>
  From the scaled solutions of \<open>simplification_utils.rs\<close> to independent substitutions: the lemmas on
  \<open>normalize_substitutions\<close> (one inversion for all coefficients), on the two functions that make
  the substitutions free of each other's signals, and on the encoded substitutions that are
  applied to constraints and substitutions of other clusters.
\<close>

section \<open>Lemmas: normalisation\<close>

lemma hashmap_into_arith_value:
  assumes "hm_wf m" and "default \<in> keys_of m" and "assigns_one \<sigma>"
  shows "expr_wf (hashmap_into_arith m) \<and> degree (hashmap_into_arith m) \<le> 1 \<and>
    ae_keys (hashmap_into_arith m) \<subseteq> keys_of m \<and>
    aeval p \<sigma> (hashmap_into_arith m) = Some (lin \<sigma> m mod p)"
proof (cases "\<exists>v. m = [(default, v)]")
  case True
  then show ?thesis using assms(3)
    by (auto simp: hashmap_into_arith_def constant_coefficient_def lin_simps assigns_one_def)
next
  case False
  then have "hashmap_into_arith m = Linear (initialize_hashmap_for_expression m)"
    using assms(2) by (auto simp: hashmap_into_arith_def constant_coefficient_def split: list.split)
  then show ?thesis using assms(1,2) by (auto simp: lin_simps)
qed

text \<open>The outcome of \<open>S::new\<close> on a linear expression without the signal.\<close>

lemma substitution_new_linear:
  assumes "expr_wf e" and "degree e \<le> 1" and "k \<notin> ae_keys e"
  shows "\<exists>s. substitution_new k e = Some s \<and> sub_from s = k \<and> hm_wf (sub_to s) \<and>
    keys_of (sub_to s) \<subseteq> insert default (ae_keys e) \<and>
    (\<forall>p \<sigma>. assigns_one \<sigma> \<longrightarrow> aeval p \<sigma> e = Some (lin \<sigma> (sub_to s) mod p))"
  using assms
  by (cases e) (auto simp: lin_simps assigns_one_def constant_coefficient_def hm_wf_Cons coeffs_wf_def hm_contains_set)

definition subs_hold :: "int \<Rightarrow> ('c \<Rightarrow> int) \<Rightarrow> 'c substitution list \<Rightarrow> bool" where
  "subs_hold p \<sigma> ss \<longleftrightarrow> (\<forall>s \<in> set ss. sub_holds p \<sigma> s)"

definition sub_wf :: "nat substitution \<Rightarrow> bool" where
  "sub_wf s \<longleftrightarrow> hm_wf (sub_to s) \<and> sub_from s \<notin> keys_of (sub_to s)"

text \<open>One solution, divided by its coefficient.\<close>

lemma unit_transfer:
  assumes "eqm p (i * q) 1"
  shows "eqm p x (i * y) \<longleftrightarrow> eqm p (q * x) y"
proof -
  have cancel: "eqm p (i * (q * z)) z" for z
    using eqm_mult [OF assms refl, of z] by (simp add: mult.assoc)
  have "eqm p (q * x) y \<longleftrightarrow> eqm p (i * (q * x)) (i * y)"
    using eqm_cancel_unit [OF assms] eqm_mult [OF refl] by blast
  then show ?thesis by (simp add: cancel)
qed

lemma normalize_one:
  assumes "0 < p" and "entry_wf p k (q, s)" and "eqm p (i * q) 1" and "k \<noteq> 0"
  shows "\<exists>t. substitution_new k (ae_mul (hashmap_into_arith (sub_to s)) (Number i) p) = Some t \<and>
    sub_from t = k \<and> sub_wf t \<and> keys_of (sub_to t) \<subseteq> keys_of (sub_to s) \<and>
    (\<forall>\<sigma>. assigns_one \<sigma> \<longrightarrow> sub_holds p \<sigma> t \<longleftrightarrow> scaled_holds p \<sigma> (q, s))"
proof -
  define e where "e = hashmap_into_arith (sub_to s)"
  have s: "hm_wf (sub_to s)" "default \<in> keys_of (sub_to s)" "k \<notin> keys_of (sub_to s)" "sub_from s = k"
    using assms(2) by (simp_all add: entry_wf_def)
  have one: "assigns_one (\<lambda>_ :: nat. 1)" by (simp add: assigns_one_def)
  note e = hashmap_into_arith_value [OF s(1,2), folded e_def]
  have ew: "expr_wf e" "degree e \<le> 1" "ae_keys e \<subseteq> keys_of (sub_to s)" using e [OF one] by auto
  have m: "expr_wf (ae_mul e (Number i) p)" "degree (ae_mul e (Number i) p) \<le> 1"
    "ae_keys (ae_mul e (Number i) p) \<subseteq> insert 0 (ae_keys e)"
    using ae_mul_wf [OF assms(1) ew(1), of "Number i"] ew(2) by (simp_all, (cases e; auto)+)
  have "k \<notin> ae_keys (ae_mul e (Number i) p)" using m(3) ew(3) s(3) assms(4) by auto
  from substitution_new_linear [OF m(1,2) this] obtain t where
    t: "substitution_new k (ae_mul e (Number i) p) = Some t" "sub_from t = k" "hm_wf (sub_to t)"
      "keys_of (sub_to t) \<subseteq> insert 0 (ae_keys (ae_mul e (Number i) p))"
      "\<And>\<sigma>. assigns_one \<sigma> \<Longrightarrow> aeval p \<sigma> (ae_mul e (Number i) p) = Some (lin \<sigma> (sub_to t) mod p)"
    by auto
  have "sub_holds p \<sigma> t \<longleftrightarrow> scaled_holds p \<sigma> (q, s)" if one: "assigns_one \<sigma>" for \<sigma>
  proof -
    have "lin \<sigma> (sub_to t) mod p = (lin \<sigma> (sub_to s) * i) mod p"
      using ae_mul_wf [OF assms(1) ew(1), of "Number i" \<sigma>] e [OF one, of p] ew(2) t(5) [OF one]
      by (simp add: mod_simps)
    then have "sub_holds p \<sigma> t \<longleftrightarrow> eqm p (\<sigma> k) (i * lin \<sigma> (sub_to s))"
      by (simp add: sub_holds_def t(2) mult.commute)
    also have "\<dots> \<longleftrightarrow> eqm p (q * \<sigma> k) (lin \<sigma> (sub_to s))"
      by (rule unit_transfer [OF assms(3)])
    finally show ?thesis by (simp add: scaled_holds_def s(4))
  qed
  moreover have "keys_of (sub_to t) \<subseteq> keys_of (sub_to s)" using t(4) m(3) ew(3) s(2) by auto
  ultimately show ?thesis using t(1-3) s(3) by (intro exI [of _ t]) (auto simp: e_def sub_wf_def)
qed

lemma bt_insert_last: "\<forall>j \<in> keys_of m. j < k \<Longrightarrow> bt_insert k v m = m @ [(k, v)]"
  by (induction k v m rule: bt_insert.induct) auto

text \<open>Entry by entry, the normalised tree is the holder divided by its coefficients.\<close>

definition normalized_entry :: "int \<Rightarrow> nat \<times> int \<times> nat substitution \<Rightarrow> nat \<times> nat substitution \<Rightarrow> bool" where
  "normalized_entry p = (\<lambda>(k, q, s) (k', t). k' = k \<and> sub_from t = k \<and> sub_wf t \<and>
     keys_of (sub_to t) \<subseteq> keys_of (sub_to s) \<and>
     (\<forall>\<sigma>. assigns_one \<sigma> \<longrightarrow> sub_holds p \<sigma> t \<longleftrightarrow> scaled_holds p \<sigma> (q, s)))"

lemma normalize_fold:
  assumes "0 < p" and "sorted (map fst subs)" and "distinct (map fst subs)" and "0 \<notin> keys_of subs"
    and "\<forall>(k, cs) \<in> set subs. entry_wf p k cs"
    and "n + length subs \<le> length inverses"
    and "\<forall>i < length subs. eqm p (inverses ! (n + i) * fst (snd (subs ! i))) 1"
    and "\<forall>j \<in> keys_of acc. \<forall>k \<in> keys_of subs. j < k"
  shows "\<exists>ts. list_all2 (normalized_entry p) subs ts \<and>
    fold (\<lambda>(i, signal, coeff, sub) acc. Option.bind acc (\<lambda>tree.
        if i < length inverses then
          (let arith_sub = hashmap_into_arith (sub_to sub);
               mult_by_inverse = ae_mul arith_sub (Number (inverses ! i)) p
           in map_option (\<lambda>new_sub. bt_insert signal new_sub tree)
                (substitution_new signal mult_by_inverse))
        else None))
      (enumerate n subs) (Some acc) = Some (acc @ ts)"
  using assms(2-)
proof (induction subs arbitrary: n acc)
  case (Cons e subs)
  obtain k q s where e: "e = (k, q, s)" by (cases e)
  have unit: "eqm p (inverses ! n * q) 1" using Cons.prems(6) [rule_format, of 0] by (simp add: e)
  obtain t where t: "substitution_new k (ae_mul (hashmap_into_arith (sub_to s)) (Number (inverses ! n)) p) = Some t"
    "normalized_entry p e (k, t)"
    using normalize_one [OF assms(1) _ unit, of k s] Cons.prems(3,4) by (auto simp: e normalized_entry_def)
  have acc: "\<forall>j \<in> keys_of (acc @ [(k, t)]). \<forall>i \<in> keys_of subs. j < i"
    using Cons.prems(1,2,7) by (force simp: e keys_of_def order.strict_iff_order)
  have eqms: "\<forall>i < length subs. eqm p (inverses ! (Suc n + i) * fst (snd (subs ! i))) 1"
    using Cons.prems(6) by auto
  obtain ts where ts: "list_all2 (normalized_entry p) subs ts"
    "fold (\<lambda>(i, signal, coeff, sub) acc. Option.bind acc (\<lambda>tree.
        if i < length inverses then
          (let arith_sub = hashmap_into_arith (sub_to sub);
               mult_by_inverse = ae_mul arith_sub (Number (inverses ! i)) p
           in map_option (\<lambda>new_sub. bt_insert signal new_sub tree)
                (substitution_new signal mult_by_inverse))
        else None))
      (enumerate (Suc n) subs) (Some (acc @ [(k, t)])) = Some ((acc @ [(k, t)]) @ ts)"
    using Cons.IH [OF _ _ _ _ _ eqms acc] Cons.prems(1-5) by auto
  have "bt_insert k t acc = acc @ [(k, t)]"
    using Cons.prems(7) by (intro bt_insert_last) (simp add: e)
  then show ?case
    using ts t Cons.prems(5) by (intro exI [of _ "(k, t) # ts"]) (simp add: e)
qed simp

lemma normalize_substitutions_total:
  assumes "inverse_ok minv p" and "1 < p" and "holder_wf p subs" and "0 \<notin> keys_of subs"
  shows "\<exists>ts. normalize_substitutions minv subs p = Some ts \<and> list_all2 (normalized_entry p) subs ts"
proof -
  let ?cs = "map (\<lambda>(signal, coeff, sub). coeff) subs"
  have wf: "sorted (map fst subs)" "distinct (map fst subs)" "\<forall>(k, cs) \<in> set subs. entry_wf p k cs"
    using assms(3) by (auto simp: holder_wf_def bt_wf_def)
  have "\<forall>v \<in> set ?cs. coprime v p" using wf(3) by (auto simp: entry_wf_def)
  then obtain invs where invs: "multi_inv minv ?cs p = Some invs"
    using multi_inv_cases(1) [OF assms(1,2), of ?cs] by auto
  have nth: "?cs ! i = fst (snd (subs ! i))" if "i < length subs" for i
    using that by (simp add: case_prod_beta)
  have "\<forall>i < length subs. eqm p (invs ! (0 + i) * fst (snd (subs ! i))) 1" "0 + length subs \<le> length invs"
    using multi_inv_cases(2) [OF assms(1,2) invs] nth by auto
  from normalize_fold [OF _ wf(1,2) assms(4) wf(3) this(2,1), of "[]"] assms(2) invs
  show ?thesis unfolding normalize_substitutions_def Let_def by auto
qed

lemma normalized_holds:
  "list_all2 (normalized_entry p) subs ts \<Longrightarrow> assigns_one \<sigma> \<Longrightarrow>
    subs_hold p \<sigma> (map snd ts) \<longleftrightarrow> holder_holds p \<sigma> subs"
  by (induction rule: list_all2_induct) (auto simp: subs_hold_def holder_holds_def normalized_entry_def)

lemma normalized_keys:
  "list_all2 (normalized_entry p) subs ts \<Longrightarrow>
    map fst ts = map fst subs \<and> (\<forall>(k, t) \<in> set ts. sub_from t = k \<and> sub_wf t)"
  by (induction rule: list_all2_induct) (auto simp: normalized_entry_def)

section \<open>Lemmas: independent substitutions\<close>

lemma apply_all_Cons [simp]:
  "apply_all (u # us) p s = apply_all us p (substitution_apply_substitution s u p)"
  by (simp add: apply_all_def)

lemma apply_all_Nil [simp]: "apply_all [] p s = s"
  by (simp add: apply_all_def)

lemma apply_all_from [simp]: "sub_from (apply_all us p s) = sub_from s"
  by (induction us arbitrary: s) (simp_all add: substitution_apply_substitution_def)

lemma apply_all_wf: "hm_wf (sub_to s) \<Longrightarrow> hm_wf (sub_to (apply_all us p s))"
  by (induction us arbitrary: s) (simp_all add: substitution_apply_substitution_def)

lemma apply_all_holds:
  assumes "0 < p" and "hm_wf (sub_to s)" and "subs_hold p \<sigma> us"
  shows "sub_holds p \<sigma> (apply_all us p s) \<longleftrightarrow> sub_holds p \<sigma> s"
  using assms(2,3)
proof (induction us arbitrary: s)
  case (Cons u us)
  have "sub_holds p \<sigma> (substitution_apply_substitution s u p) \<longleftrightarrow> sub_holds p \<sigma> s"
    using lin_raw_substitution [OF assms(1) Cons.prems(1), of \<sigma> u] Cons.prems(2)
    by (simp add: sub_holds_def substitution_apply_substitution_def subs_hold_def)
  moreover have "hm_wf (sub_to (substitution_apply_substitution s u p))"
    using Cons.prems(1) by (simp add: substitution_apply_substitution_def)
  ultimately show ?case using Cons by (simp add: subs_hold_def)
qed simp

lemma insert_step:
  assumes "A' \<subseteq> insert z (A - {x}) \<union> B" and "C \<subseteq> insert z ((A' - F) \<union> D)"
  shows "C \<subseteq> insert z ((A - insert x F) \<union> (B \<union> D))"
proof
  fix y assume "y \<in> C"
  with assms show "y \<in> insert z ((A - insert x F) \<union> (B \<union> D))" by (cases "y = z") auto
qed

lemma insert_disjoint_step:
  assumes "X \<subseteq> insert z ((S - F) \<union> D)" and "F = S \<inter> A" and "D \<inter> K = {}" and "S \<inter> (K - A) = {}" and "z \<notin> K"
  shows "X \<inter> K = {}"
proof -
  have "x \<notin> K" if "x \<in> X" for x using that assms by (cases "x = z") auto
  then show ?thesis by auto
qed

lemma apply_all_keys:
  fixes s :: "nat substitution"
  shows "keys_of (sub_to (apply_all us p s)) \<subseteq>
    insert 0 ((keys_of (sub_to s) - sub_from ` set us) \<union> (\<Union>u \<in> set us. keys_of (sub_to u)))"
proof (induction us arbitrary: s)
  case (Cons u us)
  have "keys_of (sub_to (substitution_apply_substitution s u p)) \<subseteq>
      insert 0 (keys_of (sub_to s) - {sub_from u}) \<union> keys_of (sub_to u)"
    using keys_raw_substitution [of "sub_to s" u p] by (simp add: substitution_apply_substitution_def)
  moreover have "keys_of (sub_to (apply_all (u # us) p s)) \<subseteq>
      insert 0 ((keys_of (sub_to (substitution_apply_substitution s u p)) - sub_from ` set us) \<union>
        (\<Union>u \<in> set us. keys_of (sub_to u)))"
    using Cons [of "substitution_apply_substitution s u p"] by simp
  ultimately show ?case using insert_step by simp
qed auto

text \<open>Processing order: no substitution mentions the signals of its own or of a later one.\<close>

fun ordered_subs :: "(nat \<times> nat substitution) list \<Rightarrow> bool" where
  "ordered_subs [] = True"
| "ordered_subs ((k, s) # rest) \<longleftrightarrow>
     keys_of (sub_to s) \<inter> insert k (keys_of rest) = {} \<and> ordered_subs rest"

definition independent :: "nat set \<Rightarrow> (nat, nat substitution) hmap \<Rightarrow> bool" where
  "independent K subs \<longleftrightarrow>
     (\<forall>(k, s) \<in> set subs. sub_from s = k \<and> hm_wf (sub_to s) \<and> keys_of (sub_to s) \<inter> K = {})"

definition nonoverlap_step ::
    "int \<Rightarrow> nat \<times> nat substitution \<Rightarrow> (nat, nat substitution) hmap \<Rightarrow> (nat, nat substitution) hmap" where
  "nonoverlap_step p = (\<lambda>(s, substitution) no_overlap.
     hm_insert s (apply_all (take_substitutions_to_be_applied no_overlap substitution) p substitution)
       no_overlap)"

lemma set_of_map_filter: "set (List.map_filter f xs) = {y. \<exists>x \<in> set xs. f x = Some y}"
  by (force simp: List.map_filter_def)

lemma nonoverlap_step_independent:
  assumes "0 < p" and "k \<notin> keys_of acc" and "sub_from s = k" and "hm_wf (sub_to s)"
    and "independent K acc" and "keys_of (sub_to s) \<inter> (K - keys_of acc) = {}" and "0 \<notin> K"
  shows "\<exists>t. nonoverlap_step p (k, s) acc = acc @ [(k, t)] \<and> independent K (acc @ [(k, t)]) \<and>
    (\<forall>\<sigma>. subs_hold p \<sigma> (map snd acc) \<longrightarrow> sub_holds p \<sigma> t \<longleftrightarrow> sub_holds p \<sigma> s)"
proof -
  define us where "us = take_substitutions_to_be_applied acc s"
  have us: "u \<in> set us \<Longrightarrow> u \<in> snd ` set acc" for u
    by (force simp: us_def take_substitutions_to_be_applied_def set_of_map_filter dest: map_of_SomeD)
  have "sub_from ` set us = keys_of (sub_to s) \<inter> keys_of acc"
  proof (intro equalityI subsetI)
    fix j assume "j \<in> keys_of (sub_to s) \<inter> keys_of acc"
    moreover then obtain u where u: "map_of acc j = Some u" by (auto simp: keys_of_map_of)
    moreover have "sub_from u = j" using map_of_SomeD [OF u] assms(5) by (auto simp: independent_def)
    ultimately show "j \<in> sub_from ` set us"
      by (force simp: us_def take_substitutions_to_be_applied_def set_of_map_filter)
  next
    fix j assume "j \<in> sub_from ` set us"
    then obtain u i where u: "i \<in> keys_of (sub_to s)" "map_of acc i = Some u" "j = sub_from u"
      by (auto simp: us_def take_substitutions_to_be_applied_def set_of_map_filter)
    moreover have "sub_from u = i" using map_of_SomeD [OF u(2)] assms(5) by (auto simp: independent_def)
    ultimately show "j \<in> keys_of (sub_to s) \<inter> keys_of acc" by (auto simp: keys_of_map_of)
  qed
  moreover have "(\<Union>u \<in> set us. keys_of (sub_to u)) \<inter> K = {}"
    using us assms(5) by (fastforce simp: independent_def)
  ultimately have "keys_of (sub_to (apply_all us p s)) \<inter> K = {}"
    using insert_disjoint_step [OF apply_all_keys _ _ assms(6,7)] by blast
  moreover have "sub_holds p \<sigma> (apply_all us p s) \<longleftrightarrow> sub_holds p \<sigma> s"
    if "subs_hold p \<sigma> (map snd acc)" for \<sigma>
    using that us by (intro apply_all_holds [OF assms(1,4)]) (auto simp: subs_hold_def)
  moreover have "nonoverlap_step p (k, s) acc = acc @ [(k, apply_all us p s)]"
    using assms(2) by (simp add: nonoverlap_step_def us_def hm_insert_append hm_contains_set)
  moreover have "sub_from (apply_all us p s) = k" "hm_wf (sub_to (apply_all us p s))"
    using assms(3,4) by (simp_all add: apply_all_wf)
  ultimately show ?thesis
    using assms(5) unfolding independent_def by (intro exI [of _ "apply_all us p s"]) simp
qed

lemma nonoverlap_fold:
  assumes "0 < p" and "ordered_subs P" and "hm_wf P" and "\<forall>(k, s) \<in> set P. sub_from s = k \<and> hm_wf (sub_to s)"
    and "keys_of acc \<inter> keys_of P = {}" and "K = keys_of acc \<union> keys_of P" and "0 \<notin> K" and "independent K acc"
  shows "\<exists>ts. fold (nonoverlap_step p) P acc = acc @ ts \<and> map fst ts = map fst P \<and> independent K (acc @ ts) \<and>
    (\<forall>\<sigma>. subs_hold p \<sigma> (map snd (acc @ ts)) \<longleftrightarrow> subs_hold p \<sigma> (map snd (acc @ P)))"
  using assms(2-)
proof (induction P arbitrary: acc)
  case (Cons e P)
  obtain k s where e: "e = (k, s)" by (cases e)
  have disj: "keys_of (sub_to s) \<inter> (K - keys_of acc) = {}" using Cons.prems(1,5) by (auto simp: e)
  obtain t where t: "nonoverlap_step p (k, s) acc = acc @ [(k, t)]" "independent K (acc @ [(k, t)])"
    "\<And>\<sigma>. subs_hold p \<sigma> (map snd acc) \<Longrightarrow> sub_holds p \<sigma> t \<longleftrightarrow> sub_holds p \<sigma> s"
    using nonoverlap_step_independent [OF assms(1) _ _ _ Cons.prems(7) disj Cons.prems(6), of k] Cons.prems(3,4)
    by (auto simp: e)
  obtain ts where ts: "fold (nonoverlap_step p) P (acc @ [(k, t)]) = (acc @ [(k, t)]) @ ts"
    "map fst ts = map fst P" "independent K ((acc @ [(k, t)]) @ ts)"
    "\<forall>\<sigma>. subs_hold p \<sigma> (map snd ((acc @ [(k, t)]) @ ts)) \<longleftrightarrow> subs_hold p \<sigma> (map snd ((acc @ [(k, t)]) @ P))"
    using Cons.IH [of "acc @ [(k, t)]"] Cons.prems t(2) by (auto simp: e hm_wf_Cons)
  have "\<forall>\<sigma>. subs_hold p \<sigma> (map snd (acc @ (k, t) # ts)) \<longleftrightarrow> subs_hold p \<sigma> (map snd (acc @ (k, s) # P))"
    using ts(4) t(3) by (auto simp: subs_hold_def)
  then show ?case using ts t(1) by (intro exI [of _ "(k, t) # ts"]) (simp add: e)
qed simp

section \<open>Lemmas: encoded substitutions\<close>

definition encoding_wf :: "(nat, nat arithmetic_expression) hmap \<Rightarrow> bool" where
  "encoding_wf enc \<longleftrightarrow> hm_wf enc \<and> 0 \<notin> keys_of enc \<and>
     (\<forall>(k, e) \<in> set enc. expr_wf e \<and> degree e \<le> 1 \<and> ae_keys e \<inter> keys_of enc = {})"

definition encoding_holds :: "int \<Rightarrow> (nat \<Rightarrow> int) \<Rightarrow> (nat, nat arithmetic_expression) hmap \<Rightarrow> bool" where
  "encoding_holds p \<sigma> enc \<longleftrightarrow> (\<forall>(k, e) \<in> set enc. aeval p \<sigma> e = Some (\<sigma> k mod p))"

lemma encoding_lookup:
  assumes "encoding_wf enc" and "map_of enc k = Some e"
  shows "\<exists>s. substitution_new k e = Some s \<and> sub_from s = k \<and> hm_wf (sub_to s) \<and>
    keys_of (sub_to s) \<inter> keys_of enc = {} \<and>
    (\<forall>p \<sigma>. assigns_one \<sigma> \<longrightarrow> encoding_holds p \<sigma> enc \<longrightarrow> sub_holds p \<sigma> s)"
proof -
  have in_enc: "(k, e) \<in> set enc" using assms(2) by (rule map_of_SomeD)
  then have e: "expr_wf e" "degree e \<le> 1" "ae_keys e \<inter> keys_of enc = {}" "0 \<notin> keys_of enc" "k \<in> keys_of enc"
    using assms(1) by (auto simp: encoding_wf_def in_keys_of)
  then obtain s where s: "substitution_new k e = Some s" "sub_from s = k" "hm_wf (sub_to s)"
    "keys_of (sub_to s) \<subseteq> insert default (ae_keys e)"
    "\<forall>p \<sigma>. assigns_one \<sigma> \<longrightarrow> aeval p \<sigma> e = Some (lin \<sigma> (sub_to s) mod p)"
    using substitution_new_linear [of e k] by auto
  moreover have "keys_of (sub_to s) \<inter> keys_of enc = {}" using s(4) e(3,4) by auto
  moreover have "sub_holds p \<sigma> s" if "assigns_one \<sigma>" "encoding_holds p \<sigma> enc" for p \<sigma>
    using s(2,5) that in_enc by (fastforce simp: encoding_holds_def sub_holds_def)
  ultimately show ?thesis by blast
qed

lemma con_wf_apply: "con_wf c \<Longrightarrow> con_wf (constraint_apply_substitution c s p)"
  by (simp add: con_wf_def constraint_apply_substitution_def)

lemma constraint_apply_keys:
  fixes c :: "nat constraint"
  assumes "con_wf c"
  shows "con_keys (constraint_apply_substitution c s p) \<subseteq> insert 0 (con_keys c - {sub_from s}) \<union> keys_of (sub_to s)"
  using keys_raw_substitution [of _ s p] by (fastforce simp: con_keys_def constraint_apply_substitution_def)

lemma inter_zero: "D \<inter> Y \<subseteq> C - (C - {z}) \<Longrightarrow> z \<notin> Y \<Longrightarrow> D \<inter> Y = {}"
  by blast

lemma fast_encoded_constraint_fold:
  assumes "0 < p" and "encoding_wf enc" and "con_wf c"
  shows "\<exists>d b. fold (\<lambda>signal acc. Option.bind acc (\<lambda>(c, applied_substitution).
         case map_of enc signal of
           Some expr \<Rightarrow>
             map_option (\<lambda>sub. (constraint_apply_substitution c sub p, True)) (substitution_new signal expr)
         | None \<Rightarrow> Some (c, applied_substitution))) ks (Some (c, a)) = Some (d, b) \<and>
    (b \<longleftrightarrow> a \<or> set ks \<inter> keys_of enc \<noteq> {}) \<and> con_keys d \<inter> keys_of enc \<subseteq> con_keys c - set ks \<and>
    (\<forall>\<sigma>. assigns_one \<sigma> \<longrightarrow> encoding_holds p \<sigma> enc \<longrightarrow> (sat p \<sigma> d \<longleftrightarrow> sat p \<sigma> c))"
  using assms(3)
proof (induction ks arbitrary: c a)
  case (Cons k ks)
  show ?case
  proof (cases "map_of enc k")
    case None
    then have "k \<notin> keys_of enc" by (simp add: keys_of_map_of)
    then show ?thesis using Cons.IH [OF Cons.prems, of a] None by auto
  next
    case (Some e)
    obtain s where s: "substitution_new k e = Some s" "sub_from s = k"
      "keys_of (sub_to s) \<inter> keys_of enc = {}"
      "\<And>\<sigma>. assigns_one \<sigma> \<Longrightarrow> encoding_holds p \<sigma> enc \<Longrightarrow> sub_holds p \<sigma> s"
      using encoding_lookup [OF assms(2) Some] by blast
    let ?c = "constraint_apply_substitution c s p"
    obtain d b where d: "fold (\<lambda>signal acc. Option.bind acc (\<lambda>(c, applied_substitution).
         case map_of enc signal of
           Some expr \<Rightarrow>
             map_option (\<lambda>sub. (constraint_apply_substitution c sub p, True)) (substitution_new signal expr)
         | None \<Rightarrow> Some (c, applied_substitution))) ks (Some (?c, True)) = Some (d, b)"
      "b" "con_keys d \<inter> keys_of enc \<subseteq> con_keys ?c - set ks"
      "\<forall>\<sigma>. assigns_one \<sigma> \<longrightarrow> encoding_holds p \<sigma> enc \<longrightarrow> (sat p \<sigma> d \<longleftrightarrow> sat p \<sigma> ?c)"
      using Cons.IH [OF con_wf_apply [OF Cons.prems, of s p], of True] by blast
    have "k \<in> keys_of enc" using Some by (simp add: keys_of_map_of)
    moreover have "0 \<notin> keys_of enc" using assms(2) by (simp add: encoding_wf_def)
    then have "con_keys d \<inter> keys_of enc \<subseteq> con_keys c - set (k # ks)"
      using d(3) constraint_apply_keys [OF Cons.prems, of s p] s(2,3) by auto
    moreover have "sat p \<sigma> d \<longleftrightarrow> sat p \<sigma> c" if "assigns_one \<sigma>" "encoding_holds p \<sigma> enc" for \<sigma>
      using d(4) s(4) [OF that] that constraint_apply_substitution_iff [OF assms(1) Cons.prems, of \<sigma> s] by blast
    ultimately show ?thesis using d(1,2) s(1) Some by (intro exI [of _ d] exI [of _ b]) auto
  qed
qed auto

lemma fast_encoded_substitution_fold:
  assumes "0 < p" and "encoding_wf enc" and "hm_wf (sub_to s)"
  shows "\<exists>t. fold (\<lambda>signal acc. Option.bind acc (\<lambda>s.
         case map_of enc signal of
           Some expr \<Rightarrow>
             map_option (\<lambda>sub. substitution_apply_substitution s sub p) (substitution_new signal expr)
         | None \<Rightarrow> Some s)) ks (Some s) = Some t \<and> sub_from t = sub_from s \<and> hm_wf (sub_to t) \<and>
    keys_of (sub_to t) \<inter> keys_of enc \<subseteq> keys_of (sub_to s) - set ks \<and>
    (\<forall>\<sigma>. assigns_one \<sigma> \<longrightarrow> encoding_holds p \<sigma> enc \<longrightarrow> (sub_holds p \<sigma> t \<longleftrightarrow> sub_holds p \<sigma> s))"
  using assms(3)
proof (induction ks arbitrary: s)
  case (Cons k ks)
  show ?case
  proof (cases "map_of enc k")
    case None
    then have "k \<notin> keys_of enc" by (simp add: keys_of_map_of)
    then show ?thesis using Cons.IH [OF Cons.prems] None by auto
  next
    case (Some e)
    obtain u where u: "substitution_new k e = Some u" "sub_from u = k"
      "keys_of (sub_to u) \<inter> keys_of enc = {}"
      "\<And>\<sigma>. assigns_one \<sigma> \<Longrightarrow> encoding_holds p \<sigma> enc \<Longrightarrow> sub_holds p \<sigma> u"
      using encoding_lookup [OF assms(2) Some] by blast
    let ?s = "substitution_apply_substitution s u p"
    have wf: "hm_wf (sub_to ?s)" using Cons.prems by (simp add: substitution_apply_substitution_def)
    obtain t where t: "fold (\<lambda>signal acc. Option.bind acc (\<lambda>s.
         case map_of enc signal of
           Some expr \<Rightarrow>
             map_option (\<lambda>sub. substitution_apply_substitution s sub p) (substitution_new signal expr)
         | None \<Rightarrow> Some s)) ks (Some ?s) = Some t" "sub_from t = sub_from ?s" "hm_wf (sub_to t)"
      "keys_of (sub_to t) \<inter> keys_of enc \<subseteq> keys_of (sub_to ?s) - set ks"
      "\<forall>\<sigma>. assigns_one \<sigma> \<longrightarrow> encoding_holds p \<sigma> enc \<longrightarrow> (sub_holds p \<sigma> t \<longleftrightarrow> sub_holds p \<sigma> ?s)"
      using Cons.IH [OF wf] by blast
    have keys: "keys_of (sub_to ?s) \<subseteq> insert 0 (keys_of (sub_to s) - {k}) \<union> keys_of (sub_to u)"
      using keys_raw_substitution [of "sub_to s" u p] u(2) by (simp add: substitution_apply_substitution_def)
    have "0 \<notin> keys_of enc" using assms(2) by (simp add: encoding_wf_def)
    then have "keys_of (sub_to t) \<inter> keys_of enc \<subseteq> keys_of (sub_to s) - set (k # ks)"
      using t(4) keys u(3) by auto
    moreover have "sub_holds p \<sigma> t \<longleftrightarrow> sub_holds p \<sigma> s" if "assigns_one \<sigma>" "encoding_holds p \<sigma> enc" for \<sigma>
      using t(5) u(4) [OF that] that lin_raw_substitution [OF assms(1) Cons.prems, of \<sigma> u]
      by (simp add: sub_holds_def substitution_apply_substitution_def)
    ultimately show ?thesis
      using t(1-3) u(1) Some by (intro exI [of _ t]) (simp add: substitution_apply_substitution_def)
  qed
qed auto

lemma decompose_value:
  assumes "hm_wf (sub_to s)"
  shows "expr_wf (snd (decompose s)) \<and> degree (snd (decompose s)) \<le> 1 \<and>
    ae_keys (snd (decompose s)) \<subseteq> insert default (keys_of (sub_to s)) \<and>
    (\<forall>p \<sigma>. assigns_one \<sigma> \<longrightarrow> aeval p \<sigma> (snd (decompose s)) = Some (lin \<sigma> (sub_to s) mod p))"
  using assms
  by (auto simp: decompose_def constant_coefficient_def Let_def lin_simps assigns_one_def split: list.splits)

lemma build_encoded_fold:
  assumes "distinct (map sub_from ss)" and "keys_of enc \<inter> sub_from ` set ss = {}"
  shows "fold (\<lambda>sub encoded. (let (from_s, to) = decompose sub in hm_insert from_s to encoded)) ss enc =
    enc @ map (\<lambda>s. (sub_from s, snd (decompose s))) ss"
  using assms
proof (induction ss arbitrary: enc)
  case (Cons s ss)
  have "(let (from_s, to) = decompose s in hm_insert from_s to enc) = enc @ [(sub_from s, snd (decompose s))]"
    using Cons.prems(2) by (simp add: decompose_def Let_def hm_insert_append hm_contains_set)
  then show ?case using Cons.IH [of "enc @ [(sub_from s, snd (decompose s))]"] Cons.prems by auto
qed simp

lemma insert_disjoint: "A \<subseteq> insert z B \<Longrightarrow> B \<inter> K = {} \<Longrightarrow> z \<notin> K \<Longrightarrow> A \<inter> K = {}"
  by blast

lemma build_encoded_ok:
  assumes "distinct (map sub_from ss)" and "\<forall>s \<in> set ss. hm_wf (sub_to s)"
    and "0 \<notin> sub_from ` set ss" and "\<forall>s \<in> set ss. keys_of (sub_to s) \<inter> sub_from ` set ss = {}"
  shows "encoding_wf (build_encoded_fast_substitutions ss) \<and>
    keys_of (build_encoded_fast_substitutions ss) = sub_from ` set ss \<and>
    (\<forall>p \<sigma>. assigns_one \<sigma> \<longrightarrow>
      (encoding_holds p \<sigma> (build_encoded_fast_substitutions ss) \<longleftrightarrow> subs_hold p \<sigma> ss))"
proof -
  have eq: "build_encoded_fast_substitutions ss = map (\<lambda>s. (sub_from s, snd (decompose s))) ss"
    using build_encoded_fold [OF assms(1), of "[]"] by (simp add: build_encoded_fast_substitutions_def)
  have keys: "keys_of (map (\<lambda>s. (sub_from s, snd (decompose s))) ss) = sub_from ` set ss"
    by (simp add: keys_of_def image_image)
  have "ae_keys (snd (decompose s)) \<inter> sub_from ` set ss = {}" if "s \<in> set ss" for s
  proof -
    have "ae_keys (snd (decompose s)) \<subseteq> insert 0 (keys_of (sub_to s))"
      using decompose_value [of s] assms(2) that by simp
    moreover have "keys_of (sub_to s) \<inter> sub_from ` set ss = {}" using assms(4) that by blast
    ultimately show ?thesis using assms(3) by (rule insert_disjoint)
  qed
  moreover have "expr_wf (snd (decompose s)) \<and> degree (snd (decompose s)) \<le> 1" if "s \<in> set ss" for s
    using decompose_value [of s] assms(2) that by simp
  moreover have "hm_wf (map (\<lambda>s. (sub_from s, snd (decompose s))) ss)"
    using assms(1) by (simp add: hm_wf_def comp_def)
  ultimately have "encoding_wf (map (\<lambda>s. (sub_from s, snd (decompose s))) ss)"
    using assms(3) keys unfolding encoding_wf_def by simp
  moreover have "encoding_holds p \<sigma> (map (\<lambda>s. (sub_from s, snd (decompose s))) ss) \<longleftrightarrow> subs_hold p \<sigma> ss"
    if "assigns_one \<sigma>" for p \<sigma>
  proof -
    have "aeval p \<sigma> (snd (decompose s)) = Some (lin \<sigma> (sub_to s) mod p)" if "s \<in> set ss" for s
      using decompose_value [of s] assms(2) that \<open>assigns_one \<sigma>\<close> by simp
    then show ?thesis by (auto simp: encoding_holds_def subs_hold_def sub_holds_def)
  qed
  ultimately show ?thesis using keys by (simp add: eq)
qed

end
