(* ===== verification/Elimination_By_Occurrences.thy ===== *)
theory Elimination_By_Occurrences
  imports Simplification_Utils
begin

text \<open>
  \<open>substitution_process_4\<close> of \<open>simplification_utils.rs\<close>, the pass that takes signals with few
  occurrences first: its counters are exact when it starts and never too small afterwards, every
  unique signal owns its constraint, and the solutions follow the order in which signals were
  deleted, which bounds the loop.
\<close>

section \<open>Lemmas: occurrences\<close>

definition occs :: "nat constraint list \<Rightarrow> nat \<Rightarrow> nat" where
  "occs cs k = length (filter (\<lambda>c. k \<in> keys_of (con_c c)) cs)"

lemma occs_simps [simp]:
  "occs [] k = 0"
  "occs (c # cs) k = (if k \<in> keys_of (con_c c) then Suc (occs cs k) else occs cs k)"
  "occs (cs @ ds) k = occs cs k + occs ds k"
  by (simp_all add: occs_def)

lemma occs_one:
  assumes "occs cs k = 1" and "i < length cs" and "k \<in> keys_of (con_c (cs ! i))"
    and "j < length cs" and "k \<in> keys_of (con_c (cs ! j))"
  shows "i = j"
proof -
  have "card {i. i < length cs \<and> k \<in> keys_of (con_c (cs ! i))} = 1"
    using assms(1) by (simp add: occs_def length_filter_conv_card)
  then obtain x where "{i. i < length cs \<and> k \<in> keys_of (con_c (cs ! i))} = {x}"
    by (rule card_1_singletonE)
  moreover have "i \<in> {i. i < length cs \<and> k \<in> keys_of (con_c (cs ! i))}"
    "j \<in> {i. i < length cs \<and> k \<in> keys_of (con_c (cs ! i))}" using assms(2-) by simp_all
  ultimately show ?thesis by simp
qed

lemma count_occurrence_fold:
  assumes "distinct ks" and "fold (count_occurrence sg pos) ks (occ, rep) = (occ', rep')"
  shows "(\<forall>k. map_of occ' k = (if k \<in> set ks - forbidden sg
        then Some (case map_of occ k of None \<Rightarrow> 1 | Some n \<Rightarrow> n + 1) else map_of occ k)) \<and>
    (\<forall>k. map_of rep' k = (if k \<in> set ks - forbidden sg \<and> map_of occ k = None
        then Some pos else map_of rep k)) \<and> (hm_wf occ \<longrightarrow> hm_wf occ')"
  using assms
proof (induction ks arbitrary: occ rep)
  case (Cons k ks)
  obtain occ1 rep1 where one: "count_occurrence sg pos k (occ, rep) = (occ1, rep1)"
    by (cases "count_occurrence sg pos k (occ, rep)")
  have o: "map_of occ1 = (if k \<in> forbidden sg then map_of occ
      else (map_of occ)(k \<mapsto> (case map_of occ k of None \<Rightarrow> 1 | Some n \<Rightarrow> n + 1)))"
    "map_of rep1 = (if k \<in> forbidden sg \<or> map_of occ k \<noteq> None then map_of rep else (map_of rep)(k \<mapsto> pos))"
    "hm_wf occ \<Longrightarrow> hm_wf occ1"
    using one by (auto simp: count_occurrence_def can_be_taken_def update_conv' split: option.splits if_splits)
  show ?case
    using Cons.IH [of occ1 rep1] Cons.prems one o by (auto split: option.splits)
qed simp

lemma count_occurrences_spec:
  assumes "\<forall>c \<in> set cs. hm_wf (con_c c)" and "count_occurrences cs sg = (occ, rep)"
  shows "(\<forall>k. map_of occ k = (if k \<in> forbidden sg \<or> occs cs k = 0 then None else Some (occs cs k))) \<and>
    (\<forall>k. k \<notin> forbidden sg \<longrightarrow> occs cs k \<noteq> 0 \<longrightarrow>
      (\<exists>i < length cs. map_of rep k = Some i \<and> k \<in> keys_of (con_c (cs ! i)))) \<and> hm_wf occ"
  using assms
proof (induction cs arbitrary: occ rep rule: rev_induct)
  case (snoc c cs)
  obtain occ1 rep1 where one: "count_occurrences cs sg = (occ1, rep1)"
    by (cases "count_occurrences cs sg")
  then have f: "fold (count_occurrence sg (length cs)) (hm_keys (con_c c)) (occ1, rep1) = (occ, rep)"
    using snoc.prems(2) by (simp add: count_occurrences_def enumerate_append_eq)
  have IH: "map_of occ1 k = (if k \<in> forbidden sg \<or> occs cs k = 0 then None else Some (occs cs k))"
    "k \<notin> forbidden sg \<Longrightarrow> occs cs k \<noteq> 0 \<Longrightarrow>
      \<exists>i < length cs. map_of rep1 k = Some i \<and> k \<in> keys_of (con_c (cs ! i))" "hm_wf occ1" for k
    using snoc.IH [OF _ one] snoc.prems(1) by auto
  have c: "map_of occ k = (if k \<in> keys_of (con_c c) - forbidden sg
        then Some (case map_of occ1 k of None \<Rightarrow> 1 | Some n \<Rightarrow> n + 1) else map_of occ1 k)"
    "map_of rep k = (if k \<in> keys_of (con_c c) - forbidden sg \<and> map_of occ1 k = None
        then Some (length cs) else map_of rep1 k)" "hm_wf occ" for k
    using count_occurrence_fold [OF _ f] snoc.prems(1) IH(3) by simp_all
  have "\<exists>i < length (cs @ [c]). map_of rep k = Some i \<and> k \<in> keys_of (con_c ((cs @ [c]) ! i))"
    if "k \<notin> forbidden sg" "occs (cs @ [c]) k \<noteq> 0" for k
  proof (cases "occs cs k = 0")
    case True
    then show ?thesis using that c(2) [of k] IH(1) [of k]
      by (intro exI [of _ "length cs"]) (simp split: if_splits)
  next
    case False
    with IH(2) [OF that(1)] obtain i where "i < length cs" "map_of rep1 k = Some i" "k \<in> keys_of (con_c (cs ! i))"
      by blast
    then show ?thesis using c(2) [of k] IH(1) [of k] False that(1)
      by (intro exI [of _ i]) (simp add: nth_append)
  qed
  moreover have "map_of occ k = (if k \<in> forbidden sg \<or> occs (cs @ [c]) k = 0 then None
      else Some (occs (cs @ [c]) k))" for k
    using c(1) [of k] IH(1) [of k] by (simp split: if_splits)
  ultimately show ?case using c(3) by blast
qed (simp add: count_occurrences_def)

lemma uniques_fold:
  assumes "hm_wf occ" and "bt_wf u" and "keys_of occ \<inter> keys_of u = {}"
  shows "bt_wf (fold (\<lambda>(k, ocu) uniques. if ocu = 1 then bt_insert k (the (map_of rep k)) uniques else uniques) occ u) \<and>
    set (fold (\<lambda>(k, ocu) uniques. if ocu = 1 then bt_insert k (the (map_of rep k)) uniques else uniques) occ u) =
      set u \<union> {(k, the (map_of rep k)) |k. (k, 1 :: nat) \<in> set occ}"
  using assms
proof (induction occ arbitrary: u)
  case (Cons e occ)
  obtain k n where e: "e = (k, n)" by (cases e)
  let ?u = "if n = 1 then bt_insert k (the (map_of rep k)) u else u"
  have "\<forall>(j, v) \<in> set u. j \<noteq> k" using Cons.prems(3) by (auto simp: e dest: in_keys_of)
  then have "set ?u = set u \<union> (if n = 1 then {(k, the (map_of rep k))} else {})"
    using set_bt_insert [OF Cons.prems(2)] by auto
  moreover have "bt_wf ?u" "keys_of occ \<inter> keys_of ?u = {}"
    using Cons.prems by (auto simp: e hm_wf_Cons)
  ultimately show ?case using Cons.IH [of ?u] Cons.prems(1) by (auto simp: e hm_wf_Cons)
qed simp

text \<open>A unique signal occurs in its constraint and in no other.\<close>

definition owns :: "nat constraint list \<Rightarrow> nat set \<Rightarrow> nat \<Rightarrow> nat \<Rightarrow> bool" where
  "owns cs F k i \<longleftrightarrow> k \<notin> F \<and> i < length cs \<and> k \<in> keys_of (con_c (cs ! i)) \<and>
     (\<forall>j < length cs. k \<in> keys_of (con_c (cs ! j)) \<longrightarrow> j = i)"

text \<open>Counts that are never too small for what is left to take from them.\<close>

definition counts_ok :: "signals_information \<Rightarrow> nat constraint list \<Rightarrow> bool" where
  "counts_ok info rem \<longleftrightarrow> (\<forall>k n. map_of info k = Some n \<longrightarrow> occs rem k \<le> n)"

lemma signals_information_new_spec:
  assumes "\<forall>c \<in> set cs. hm_wf (con_c c)" and "signals_information_new cs sg = (info, uniques)"
  shows "counts_ok info cs \<and> (\<forall>c \<in> set cs. keys_of (con_c c) - forbidden sg \<subseteq> keys_of info) \<and>
    distinct (map fst uniques) \<and> (\<forall>(k, i) \<in> set uniques. owns cs (forbidden sg) k i)"
proof -
  obtain rep where rep: "count_occurrences cs sg = (info, rep)"
    using assms(2) by (auto simp: signals_information_new_def split: prod.splits)
  note spec = count_occurrences_spec [OF assms(1) rep]
  then have m: "\<And>k. map_of info k = (if k \<in> forbidden sg \<or> occs cs k = 0 then None else Some (occs cs k))"
    and r: "\<And>k. k \<notin> forbidden sg \<Longrightarrow> occs cs k \<noteq> 0 \<Longrightarrow>
      \<exists>i < length cs. map_of rep k = Some i \<and> k \<in> keys_of (con_c (cs ! i))" and wf: "hm_wf info"
    by auto
  have u: "bt_wf uniques" "set uniques = {(k, the (map_of rep k)) |k. (k, 1) \<in> set info}"
    using uniques_fold [OF wf, of "[]" rep] assms(2) rep by (auto simp: signals_information_new_def)
  have "owns cs (forbidden sg) k (the (map_of rep k))" if "(k, 1) \<in> set info" for k
  proof -
    have "map_of info k = Some 1" using that wf by (simp add: hm_wf_def)
    then have k: "k \<notin> forbidden sg" "occs cs k = 1" using m [of k] by (auto split: if_splits)
    then obtain i where i: "i < length cs" "map_of rep k = Some i" "k \<in> keys_of (con_c (cs ! i))"
      using r [OF k(1)] by (auto simp: k(2))
    have "\<forall>j < length cs. k \<in> keys_of (con_c (cs ! j)) \<longrightarrow> j = i"
      using occs_one [OF k(2) i(1,3)] by metis
    with k(1) i(1,3) show ?thesis unfolding owns_def i(2) option.sel by blast
  qed
  moreover have "keys_of (con_c c) - forbidden sg \<subseteq> keys_of info" if "c \<in> set cs" for c
  proof
    fix k assume "k \<in> keys_of (con_c c) - forbidden sg"
    moreover then have "occs cs k \<noteq> 0" using that by (auto simp: occs_def filter_empty_conv)
    ultimately show "k \<in> keys_of info" using m [of k] by (simp add: keys_of_map_of)
  qed
  ultimately show ?thesis using u m by (auto simp: counts_ok_def bt_wf_def split: if_splits)
qed

lemma remove_constraint_total:
  assumes "hm_wf (con_c c)" and "counts_ok info (c # rem)"
  shows "\<exists>info'. remove_constraint info c sg = Some info' \<and> keys_of info' = keys_of info \<and> counts_ok info' rem"
proof -
  have "\<exists>info'. fold (\<lambda>signal acc. Option.bind acc (\<lambda>self.
         if can_be_taken sg signal then
           (case map_of self signal of
              Some ocurrences \<Rightarrow>
                if ocurrences = 0 then None else Some (hm_insert signal (ocurrences - 1) self)
            | None \<Rightarrow> Some self)
         else Some self)) ks (Some info) = Some info' \<and> keys_of info' = keys_of info \<and>
      (\<forall>k n. map_of info' k = Some n \<longrightarrow> occs rem k \<le> n)"
    if "distinct ks" "\<forall>k n. map_of info k = Some n \<longrightarrow> occs rem k + (if k \<in> set ks then 1 else 0) \<le> n" for ks
    using that
  proof (induction ks arbitrary: info)
    case (Cons k ks)
    let ?info = "if can_be_taken sg k then
           (case map_of info k of
              Some ocurrences \<Rightarrow>
                if ocurrences = 0 then None else Some (hm_insert k (ocurrences - 1) info)
            | None \<Rightarrow> Some info)
         else Some info"
    obtain info1 where i: "?info = Some info1" "keys_of info1 = keys_of info"
      "\<forall>j n. map_of info1 j = Some n \<longrightarrow> occs rem j + (if j \<in> set ks then 1 else 0) \<le> n"
    proof (cases "can_be_taken sg k \<and> map_of info k \<noteq> None")
      case True
      then obtain n where n: "map_of info k = Some n" by auto
      then have "occs rem k + 1 \<le> n" using Cons.prems(2) [rule_format, OF n] by simp
      moreover have "insert k (keys_of info) = keys_of info" using n by (auto simp: keys_of_map_of)
      moreover have "occs rem j + (if j \<in> set ks then 1 else 0) \<le> m"
        if "map_of (hm_insert k (n - 1) info) j = Some m" for j m
        using that calculation(1) Cons.prems(1) Cons.prems(2) [rule_format, of j m]
        by (auto simp: update_conv' split: if_splits)
      ultimately show ?thesis using True n by (intro that [of "hm_insert k (n - 1) info"]) auto
    next
      case False
      with Cons.prems show ?thesis by (intro that [of info]) (auto split: option.splits, fastforce+)
    qed
    from Cons.IH [OF _ i(3)] Cons.prems(1) i show ?case by simp
  qed simp
  moreover have "\<forall>k n. map_of info k = Some n \<longrightarrow>
      occs rem k + (if k \<in> set (hm_keys (con_c c)) then 1 else 0) \<le> n"
    using assms(2) unfolding counts_ok_def by (auto split: if_splits)
  ultimately show ?thesis
    using assms(1) unfolding remove_constraint_def counts_ok_def by simp
qed

section \<open>Lemmas: the second pass\<close>

text \<open>The solution of a signal mentions only signals deleted after it: those before it in the list.\<close>

fun later_only :: "sh_not_normalized \<Rightarrow> nat list \<Rightarrow> bool" where
  "later_only subs [] = True"
| "later_only subs (k # ks) \<longleftrightarrow>
     (\<forall>cs. map_of subs k = Some cs \<longrightarrow> keys_of (sub_to (snd cs)) \<inter> set (k # ks) = {}) \<and> later_only subs ks"

definition rank :: "nat list \<Rightarrow> nat \<Rightarrow> nat" where
  "rank L k = length (takeWhile (\<lambda>j. j \<noteq> k) L)"

lemma rank_Cons [simp]: "rank (a # L) k = (if a = k then 0 else Suc (rank L k))"
  by (simp add: rank_def)

lemma rank_inj: "j \<in> set L \<Longrightarrow> k \<in> set L \<Longrightarrow> rank L j = rank L k \<Longrightarrow> j = k"
  by (induction L) (auto split: if_splits)

lemma later_only_rank:
  "later_only subs L \<Longrightarrow> k \<in> set L \<Longrightarrow> map_of subs k = Some cs \<Longrightarrow> j \<in> keys_of (sub_to (snd cs)) \<Longrightarrow>
    j \<in> set L \<Longrightarrow> rank L j < rank L k"
  by (induction L; cases cs) (auto split: if_splits)

lemma later_only_insert:
  "bt_wf subs \<Longrightarrow> later_only subs L \<Longrightarrow> k \<notin> set L \<Longrightarrow> later_only (bt_insert k cs subs) L"
  by (induction L) (auto simp: map_of_bt_insert)

lemma take_signal_4_loop_cases:
  assumes "\<forall>k \<in> set ks. k \<notin> forbidden sg \<longrightarrow> k \<notin> deleted_symbols sg \<longrightarrow> k \<in> keys_of info"
  shows "\<exists>r. take_signal_4_loop sg info ks ret = Some r \<and>
    (r = None \<longrightarrow> ret = None \<and> set ks \<subseteq> forbidden sg) \<and>
    (\<forall>k. r = Some k \<longrightarrow> k \<in> set ks - forbidden sg \<inter> deleted_symbols sg \<and> k \<notin> forbidden sg \<and> k \<in> deleted_symbols sg \<or>
      (set ks - forbidden sg) \<inter> deleted_symbols sg = {} \<and>
        (map_option fst ret = Some k \<or> k \<in> set ks \<and> k \<notin> forbidden sg))"
  using assms
proof (induction ks arbitrary: ret)
  case (Cons k ks)
  consider "k \<in> forbidden sg" | "k \<notin> forbidden sg" "k \<in> deleted_symbols sg"
    | n where "k \<notin> forbidden sg" "k \<notin> deleted_symbols sg" "map_of info k = Some n"
    using Cons.prems by (auto simp: keys_of_map_of)
  then show ?case
  proof cases
    case 1
    then show ?thesis using Cons.IH [of ret] Cons.prems by (auto simp: can_be_taken_def)
  next
    case 2
    then show ?thesis by (simp add: can_be_taken_def is_deleted_def)
  next
    case 3
    define ret' where "ret' = (case ret of
                    Some (r, val_ant) \<Rightarrow>
                      if n < val_ant then Some (k, n)
                      else if n = val_ant \<and> r < k then Some (k, val_ant)
                      else Some (r, val_ant)
                  | None \<Rightarrow> Some (k, n))"
    have eq: "take_signal_4_loop sg info (k # ks) ret = take_signal_4_loop sg info ks ret'"
      using 3 by (simp add: can_be_taken_def is_deleted_def ret'_def)
    have "ret' \<noteq> None" "map_option fst ret' = Some j \<Longrightarrow> map_option fst ret = Some j \<or> j = k" for j
      by (auto simp: ret'_def split: option.splits if_splits)
    moreover obtain r where "take_signal_4_loop sg info ks ret' = Some r"
      "r = None \<longrightarrow> ret' = None \<and> set ks \<subseteq> forbidden sg"
      "\<forall>k. r = Some k \<longrightarrow> k \<in> set ks - forbidden sg \<inter> deleted_symbols sg \<and> k \<notin> forbidden sg \<and> k \<in> deleted_symbols sg \<or>
        (set ks - forbidden sg) \<inter> deleted_symbols sg = {} \<and>
          (map_option fst ret' = Some k \<or> k \<in> set ks \<and> k \<notin> forbidden sg)"
      using Cons.IH [of ret'] Cons.prems by auto
    ultimately show ?thesis unfolding eq using 3
      by (intro exI [of _ r]) auto
  qed
qed simp

text \<open>The choice on a constraint: a deleted signal if there is one.\<close>

lemma take_signal_4_cases:
  assumes "keys_of (con_c w) \<subseteq> forbidden sg \<union> keys_of info \<union> deleted_symbols sg"
    and "deleted_symbols sg \<inter> forbidden sg = {}"
  shows "(take_signal_4 sg info w = Some None \<and> keys_of (con_c w) \<subseteq> forbidden sg) \<or>
    (\<exists>k. take_signal_4 sg info w = Some (Some k) \<and> k \<in> keys_of (con_c w) \<and> k \<notin> forbidden sg \<and>
      (k \<in> deleted_symbols sg \<or> keys_of (con_c w) \<inter> deleted_symbols sg = {}))"
proof -
  have "\<forall>k \<in> set (hm_keys (con_c w)). k \<notin> forbidden sg \<longrightarrow> k \<notin> deleted_symbols sg \<longrightarrow> k \<in> keys_of info"
    using assms(1) by auto
  from take_signal_4_loop_cases [OF this, of None] obtain r where
    "take_signal_4 sg info w = Some r" "r = None \<longrightarrow> keys_of (con_c w) \<subseteq> forbidden sg"
    "\<forall>k. r = Some k \<longrightarrow> k \<in> keys_of (con_c w) \<and> k \<notin> forbidden sg \<and>
      (k \<in> deleted_symbols sg \<or> (keys_of (con_c w) - forbidden sg) \<inter> deleted_symbols sg = {})"
    unfolding take_signal_4_def by auto
  then show ?thesis using assms(2) by (cases r) auto
qed

text \<open>\<open>U\<close>: the signals of the constraints at the start.\<close>

definition inv_4 :: "int \<Rightarrow> nat set \<Rightarrow> nat set \<Rightarrow> state_4 \<Rightarrow> bool" where
  "inv_4 p F U = (\<lambda>(sg, subs, l, info). forbidden sg = F \<and> holder_inv p F subs l \<and>
     deleted_symbols sg = set (order_signals sg) \<and> keys_of subs = set (order_signals sg) \<and>
     distinct (order_signals sg) \<and> later_only subs (order_signals sg) \<and>
     U \<subseteq> F \<union> keys_of info \<union> set (order_signals sg) \<and>
     set (order_signals sg) \<subseteq> U \<and> (\<forall>(k, cs) \<in> set subs. keys_of (sub_to (snd cs)) \<subseteq> U))"

definition fewer_counts :: "signals_information \<Rightarrow> signals_information \<Rightarrow> bool" where
  "fewer_counts info' info \<longleftrightarrow> (\<forall>k n. map_of info' k = Some n \<longrightarrow> map_of info k = Some n)"

lemma fewer_counts_refl [simp]: "fewer_counts info info"
  by (simp add: fewer_counts_def)

lemma fewer_counts_remove [simp]: "fewer_counts (remove_signal info k) info"
  by (simp add: fewer_counts_def remove_signal_def delete_conv')

lemma keys_remove_signal [simp]: "keys_of (remove_signal info k) = keys_of info - {k}"
  by (simp add: remove_signal_def)

lemma inv_4_insert:
  assumes "inv_4 p F U (sg, subs, l, info)" and "entry_wf p k cs" and "k \<notin> F" and "k \<notin> set (order_signals sg)"
    and "keys_of (sub_to (snd cs)) \<inter> set (order_signals sg) = {}" and "insert k (keys_of (sub_to (snd cs))) \<subseteq> U"
  shows "inv_4 p F U (delete_signal_4 k sg, bt_insert k cs subs, l, remove_signal info k)"
proof -
  have bt: "bt_wf subs" using assms(1) by (simp add: inv_4_def holder_inv_def holder_wf_def)
  have "k \<notin> keys_of (sub_to (snd cs))" using assms(2) by (simp add: entry_wf_def)
  moreover have "\<forall>(k, cs) \<in> set (bt_insert k cs subs). keys_of (sub_to (snd cs)) \<subseteq> U"
    using assms(1,6) by (auto simp: inv_4_def set_bt_insert [OF bt])
  moreover have "set (order_signals (delete_signal_4 k sg)) \<subseteq> U"
    using assms(1,6) by (simp add: inv_4_def)
  ultimately show ?thesis
    using assms bt
    by (auto simp: inv_4_def holder_inv_insert later_only_insert map_of_bt_insert)
qed

lemma treat_constraint_4_total:
  assumes "is_field p" and "0 \<in> F" and "0 \<in> U" and "inv_4 p F U (sg, subs, l, info)"
    and "work_wf p w" and "keys_of (con_c w) \<subseteq> U"
  shows "\<exists>sg' subs' l' info'. treat_constraint_4 p w sg subs l info = Some (sg', subs', l', info') \<and>
    inv_4 p F U (sg', subs', l', info') \<and> treated p F w subs l subs' l' \<and> fewer_counts info' info"
  using assms(5,6)
proof (induction "weight (rank (order_signals sg)) (keys_of (con_c w) \<inter> set (order_signals sg))"
    arbitrary: w rule: less_induct)
  case less
  let ?L = "order_signals sg"
  have inv: "forbidden sg = F" "holder_inv p F subs l" "deleted_symbols sg = set ?L" "keys_of subs = set ?L"
    "later_only subs ?L" "U \<subseteq> F \<union> keys_of info \<union> set ?L"
    "\<forall>(k, cs) \<in> set subs. keys_of (sub_to (snd cs)) \<subseteq> U"
    using assms(4) by (simp_all add: inv_4_def)
  have disj: "set ?L \<inter> F = {}" using inv(2,4) by (simp add: holder_inv_def)
  have put: "inv_4 p F U (sg, subs, l @ [w], info)" if "keys_of (con_c w) \<subseteq> F"
    using assms(4) less.prems(1) that by (simp add: inv_4_def holder_inv_put_aside)
  consider "constraint_is_empty w"
    | "\<not> constraint_is_empty w" "take_signal_4 sg info w = Some None" "keys_of (con_c w) \<subseteq> F"
    | k where "\<not> constraint_is_empty w" "take_signal_4 sg info w = Some (Some k)" "k \<in> keys_of (con_c w)" "k \<notin> F"
        "k \<in> set ?L \<or> keys_of (con_c w) \<inter> set ?L = {}"
    using take_signal_4_cases [of w sg info, unfolded inv(1,3)]
      subset_trans [OF less.prems(2) inv(6)] disj by blast
  then show ?case
  proof cases
    case 1
    then show ?thesis
      using assms(4) inv(2) by (subst treat_constraint_4.simps) (simp add: treated_empty)
  next
    case 2
    then show ?thesis
      using inv(2) less.prems(1) put by (subst treat_constraint_4.simps) (simp add: treated_put_aside)
  next
    case 3
    obtain cs where cs: "clear_signal_from_linear_not_normalized w k p = Some cs" "sub_from (snd cs) = k"
      "keys_of (sub_to (snd cs)) = insert 0 (keys_of (con_c w) - {k})"
      and c: "case map_of subs k of
        None \<Rightarrow> treated p F w subs l (bt_insert k cs subs) l
      | Some cs' \<Rightarrow> \<exists>w'. merge_not_normalized cs cs' p = Some w' \<and> work_wf p w' \<and>
          keys_of (con_c w') \<subseteq> insert 0 ((keys_of (con_c w) - {k}) \<union> keys_of (sub_to (snd cs'))) \<and>
          (\<forall>subs'' l''. treated p F w' subs l subs'' l'' \<longrightarrow> treated p F w subs l subs'' l'')"
      using treated_round [OF assms(1,2) less.prems(1) inv(2) 3(3,4)] by blast
    have k0: "k \<noteq> 0" using 3(4) assms(2) by metis
    have ewf: "entry_wf p k cs" using clear_step [OF assms(1) less.prems(1) 3(3) k0] cs(1) by auto
    show ?thesis
    proof (cases "map_of subs k")
      case None
      then have new: "k \<notin> set ?L" using inv(4) by (metis keys_of_map_of)
      with 3(5) disj assms(2) have "keys_of (sub_to (snd cs)) \<inter> set ?L = {}" using cs(3) by auto
      moreover have "insert k (keys_of (sub_to (snd cs))) \<subseteq> U" using cs(3) less.prems(2) assms(3) 3(3) by auto
      ultimately have "inv_4 p F U (delete_signal_4 k sg, bt_insert k cs subs, l, remove_signal info k)"
        by (rule inv_4_insert [OF assms(4) ewf 3(4) new])
      then show ?thesis
        using 3(1,2) cs(1,2) None c by (subst treat_constraint_4.simps) simp
    next
      case (Some cs')
      then obtain w' where w': "merge_not_normalized cs cs' p = Some w'" "work_wf p w'"
        "keys_of (con_c w') \<subseteq> insert 0 ((keys_of (con_c w) - {k}) \<union> keys_of (sub_to (snd cs')))"
        "\<And>subs'' l''. treated p F w' subs l subs'' l'' \<Longrightarrow> treated p F w subs l subs'' l''"
        using c by auto
      have kL: "k \<in> set ?L" using Some inv(4) by (metis keys_of_map_of option.distinct(1))
      have "weight (rank ?L) (keys_of (con_c w') \<inter> set ?L) < weight (rank ?L) (keys_of (con_c w) \<inter> set ?L)"
      proof (rule weight_smaller [where k = k and B = "keys_of (sub_to (snd cs')) \<inter> set ?L"])
        show "inj_on (rank ?L) (keys_of (sub_to (snd cs')) \<inter> set ?L)"
          by (rule inj_onI) (auto dest: rank_inj)
        show "\<forall>j \<in> keys_of (sub_to (snd cs')) \<inter> set ?L. rank ?L j < rank ?L k"
          using later_only_rank [OF inv(5) kL Some] by simp
      qed (use 3(3) kL w'(3) disj assms(2) in auto)
      moreover have "keys_of (con_c w') \<subseteq> U"
        using w'(3) less.prems(2) inv(7) assms(3) map_of_SomeD [OF Some] by fastforce
      ultimately show ?thesis
        using less.hyps [of w'] w' 3(1,2) cs(1,2) Some by (subst treat_constraint_4.simps) auto
    qed
  qed
qed

lemma constraint_empty_simps [simp]:
  "con_c constraint_empty = []" "constraint_is_empty constraint_empty" "work_wf p constraint_empty"
  by (simp_all add: constraint_empty_def constraint_is_empty_def work_wf_def is_linear_def nonzero_coeffs_def)

lemma occs_update:
  "i < length vec \<Longrightarrow> occs (vec ! i # vec[i := constraint_empty]) k = occs vec k"
proof (induction vec arbitrary: i)
  case (Cons c vec)
  show ?case
  proof (cases i)
    case (Suc j)
    then show ?thesis using Cons.IH [of j] Cons.prems by (auto split: if_splits)
  qed simp
qed simp

lemma all_sat_update:
  assumes "i < length vec"
  shows "all_sat p \<sigma> vec \<longleftrightarrow> sat p \<sigma> (vec ! i) \<and> all_sat p \<sigma> (vec[i := constraint_empty])"
proof -
  have e: "sat p \<sigma> constraint_empty" by (simp add: constraint_is_empty_sat)
  have "vec = take i vec @ vec ! i # drop (Suc i) vec" using assms by (rule id_take_nth_drop)
  moreover have "vec[i := constraint_empty] = take i vec @ constraint_empty # drop (Suc i) vec"
    using assms by (simp add: upd_conv_take_nth_drop)
  ultimately show ?thesis using e by (metis all_sat_simps(2,3))
qed

text \<open>Halfway through the constraints that own a signal.\<close>

definition uniques_inv ::
    "int \<Rightarrow> nat set \<Rightarrow> nat set \<Rightarrow> nat constraint list \<Rightarrow> nat constraint list \<times> state_4 \<Rightarrow> bool" where
  "uniques_inv p F U cs = (\<lambda>(vec, sg, subs, l, info). length vec = length cs \<and>
     (\<forall>i < length cs. vec ! i = cs ! i \<or> constraint_is_empty (vec ! i)) \<and>
     inv_4 p F U (sg, subs, l, info) \<and> counts_ok info vec \<and>
     (\<forall>c \<in> set vec. work_wf p c \<and> keys_of (con_c c) \<subseteq> U) \<and>
     (\<forall>k \<in> set (order_signals sg). \<exists>i. owns cs F k i \<and> constraint_is_empty (vec ! i)) \<and>
     (\<forall>\<sigma>. assigns_one \<sigma> \<longrightarrow>
       (all_sat p \<sigma> vec \<and> holder_holds p \<sigma> subs \<and> all_sat p \<sigma> l \<longleftrightarrow> all_sat p \<sigma> cs)))"

lemma treat_unique_step:
  assumes "is_field p" and "0 \<in> F" and "0 \<in> U" and inv: "uniques_inv p F U cs (vec, sg, subs, l, info)"
    and own: "owns cs F k i" and new: "k \<notin> set (order_signals sg)" and ne: "\<not> constraint_is_empty (vec ! i)"
  shows "\<exists>info1 st. remove_constraint info (vec ! i) sg = Some info1 \<and>
    treat_unique_constraint_4 (vec ! i) k p (sg, subs, l, info1) = Some st \<and>
    uniques_inv p F U cs (vec[i := constraint_empty], st) \<and>
    order_signals (fst st) = k # order_signals sg"
proof -
  let ?w = "vec ! i"
  have i: "i < length vec" "?w = cs ! i" "k \<in> keys_of (con_c ?w)" "k \<notin> F"
  proof -
    show k: "k \<notin> F" using own by (simp add: owns_def)
    show "i < length vec" using own inv by (simp add: owns_def uniques_inv_def)
    have i: "i < length cs" "k \<in> keys_of (con_c (cs ! i))" using own by (simp_all add: owns_def)
    moreover have "\<forall>i < length cs. vec ! i = cs ! i \<or> constraint_is_empty (vec ! i)"
      using inv by (simp add: uniques_inv_def)
    ultimately show "?w = cs ! i" using ne by blast
    with i show "k \<in> keys_of (con_c ?w)" by simp
  qed
  have w: "work_wf p ?w" "keys_of (con_c ?w) \<subseteq> U"
    using inv i(1) by (auto simp: uniques_inv_def)
  have "counts_ok info (?w # vec[i := constraint_empty])"
    using inv occs_update [OF i(1)] by (simp add: uniques_inv_def counts_ok_def del: occs_simps)
  then obtain info1 where info1: "remove_constraint info ?w sg = Some info1" "keys_of info1 = keys_of info"
    "counts_ok info1 (vec[i := constraint_empty])"
    using remove_constraint_total w(1) unfolding work_wf_def by blast
  have inv4: "inv_4 p F U (sg, subs, l, info1)" using inv info1(2) by (simp add: uniques_inv_def inv_4_def)
  have h: "holder_inv p F subs l" "keys_of subs = set (order_signals sg)"
    using inv4 by (simp_all add: inv_4_def)
  have none: "map_of subs k = None" using h(2) new by (metis keys_of_map_of)
  obtain e where e: "clear_signal_from_linear_not_normalized ?w k p = Some e" "sub_from (snd e) = k"
    "keys_of (sub_to (snd e)) = insert 0 (keys_of (con_c ?w) - {k})"
    "treated p F ?w subs l (bt_insert k e subs) l"
    using treated_round [OF assms(1,2) w(1) h(1) i(3,4)] none by auto
  have k0: "k \<noteq> 0" using i(4) assms(2) by metis
  have ewf: "entry_wf p k e" using clear_step [OF assms(1) w(1) i(3) k0] e(1) by auto
  have "j \<notin> keys_of (con_c ?w)" if "j \<in> set (order_signals sg)" for j
    using inv that i(1,2) ne unfolding uniques_inv_def owns_def by auto
  moreover have "0 \<notin> set (order_signals sg)" using h assms(2) by (auto simp: holder_inv_def)
  ultimately have "keys_of (sub_to (snd e)) \<inter> set (order_signals sg) = {}" using e(3) by auto
  moreover have "insert k (keys_of (sub_to (snd e))) \<subseteq> U" using e(3) w(2) i(3) assms(3) by auto
  ultimately have inv4': "inv_4 p F U (delete_signal_4 k sg, bt_insert k e subs, l, remove_signal info1 k)"
    by (rule inv_4_insert [OF inv4 ewf i(4) new])
  have counts: "counts_ok (remove_signal info1 k) (vec[i := constraint_empty])"
    using info1(3) by (auto simp: counts_ok_def remove_signal_def delete_conv' split: if_splits)
  have sols: "all_sat p \<sigma> (vec[i := constraint_empty]) \<and> holder_holds p \<sigma> (bt_insert k e subs) \<and>
      all_sat p \<sigma> l \<longleftrightarrow> all_sat p \<sigma> cs" if "assigns_one \<sigma>" for \<sigma>
    using inv e(4) that all_sat_update [OF i(1), of p \<sigma>] unfolding uniques_inv_def treated_def by auto
  have "uniques_inv p F U cs (vec[i := constraint_empty],
      delete_signal_4 k sg, bt_insert k e subs, l, remove_signal info1 k)"
    unfolding uniques_inv_def
  proof (simp only: prod.case, intro conjI)
    show "\<forall>c \<in> set (vec[i := constraint_empty]). work_wf p c \<and> keys_of (con_c c) \<subseteq> U"
      using inv unfolding uniques_inv_def by (auto dest!: set_update_subset_insert [THEN subsetD])
    show "\<forall>j \<in> set (order_signals (delete_signal_4 k sg)).
        \<exists>i'. owns cs F j i' \<and> constraint_is_empty (vec[i := constraint_empty] ! i')"
    proof
      fix j assume "j \<in> set (order_signals (delete_signal_4 k sg))"
      then consider "j = k" | "j \<in> set (order_signals sg)" by auto
      then show "\<exists>i'. owns cs F j i' \<and> constraint_is_empty (vec[i := constraint_empty] ! i')"
      proof cases
        case 1
        then show ?thesis using own i(1) by (intro exI [of _ i]) simp
      next
        case 2
        then obtain i' where "owns cs F j i'" "constraint_is_empty (vec ! i')"
          using inv unfolding uniques_inv_def by auto
        then show ?thesis by (intro exI [of _ i']) (cases "i' = i"; simp add: i(1))
      qed
    qed
  qed (use inv inv4' counts sols i(1) in \<open>auto simp: uniques_inv_def nth_list_update\<close>)
  then show ?thesis using info1(1) e(1,2) by (simp add: treat_unique_constraint_4_def)
qed

lemma treat_uniques_4_total:
  assumes "is_field p" and "0 \<in> F" and "0 \<in> U" and "distinct (map fst uniques)"
    and "\<forall>(k, i) \<in> set uniques. owns cs F k i"
    and "uniques_inv p F U cs (vec, sg, subs, l, info)" and "keys_of uniques \<inter> set (order_signals sg) = {}"
  shows "\<exists>vec' st. treat_uniques_4 uniques p (vec, sg, subs, l, info) = Some (vec', st) \<and>
    uniques_inv p F U cs (vec', st)"
  using assms(4-)
proof (induction uniques arbitrary: vec sg subs l info)
  case Nil
  then show ?case by (cases info) (auto simp: treat_uniques_4_def)
next
  case (Cons e uniques)
  obtain k i where e: "e = (k, i)" by (cases e)
  have own: "owns cs F k i" using Cons.prems(2) by (simp add: e)
  have i: "i < length vec" using own Cons.prems(3) by (simp add: owns_def uniques_inv_def)
  show ?case
  proof (cases "constraint_is_empty (vec ! i)")
    case True
    then have "treat_uniques_4 (e # uniques) p (vec, sg, subs, l, info) =
        treat_uniques_4 uniques p (vec, sg, subs, l, info)"
      using i by (simp add: treat_uniques_4_def e)
    then show ?thesis using Cons.IH [of vec sg subs l info] Cons.prems by (auto simp: e)
  next
    case False
    have new: "k \<notin> set (order_signals sg)" using Cons.prems(4) by (simp add: e)
    obtain info1 st where st: "remove_constraint info (vec ! i) sg = Some info1"
      "treat_unique_constraint_4 (vec ! i) k p (sg, subs, l, info1) = Some st"
      "uniques_inv p F U cs (vec[i := constraint_empty], st)" "order_signals (fst st) = k # order_signals sg"
      using treat_unique_step [OF assms(1-3) Cons.prems(3) own new False] by blast
    obtain sg' subs' l' info' where s: "st = (sg', subs', l', info')" by (cases st)
    have "treat_uniques_4 (e # uniques) p (vec, sg, subs, l, info) =
        treat_uniques_4 uniques p (vec[i := constraint_empty], st)"
      using i False st(1,2) by (simp add: treat_uniques_4_def e Let_def s)
    moreover have "keys_of uniques \<inter> set (order_signals sg') = {}"
      using Cons.prems(1,4) st(4) by (auto simp: e s keys_of_def)
    ultimately show ?thesis
      using Cons.IH [of "vec[i := constraint_empty]" sg' subs' l' info'] Cons.prems(1,2) st(3) by (simp add: e s)
  qed
qed

lemma pop_constraints_4_total:
  assumes "is_field p" and "0 \<in> F" and "0 \<in> U" and "inv_4 p F U (sg, subs, l, info)"
    and "\<forall>c \<in> set cs. work_wf p c \<and> keys_of (con_c c) \<subseteq> U" and "counts_ok info cs"
  shows "\<exists>sg' subs' l' info'. pop_back_all (pop_constraint_4 p) cs (sg, subs, l, info) =
      Some (sg', subs', l', info') \<and> inv_4 p F U (sg', subs', l', info') \<and>
    (\<forall>\<sigma>. assigns_one \<sigma> \<longrightarrow> (all_sat p \<sigma> cs \<and> holder_holds p \<sigma> subs \<and> all_sat p \<sigma> l \<longleftrightarrow>
      holder_holds p \<sigma> subs' \<and> all_sat p \<sigma> l'))"
  using assms(4-)
proof (induction cs arbitrary: sg subs l info rule: rev_induct)
  case (snoc c cs)
  have c: "work_wf p c" "keys_of (con_c c) \<subseteq> U" using snoc.prems(2) by auto
  have "occs (c # cs) k = occs (cs @ [c]) k" for k by simp
  then have "counts_ok info (c # cs)" using snoc.prems(3) by (simp add: counts_ok_def del: occs_simps)
  then obtain info1 where info1: "remove_constraint info c sg = Some info1" "keys_of info1 = keys_of info"
    "counts_ok info1 cs"
    using remove_constraint_total c(1) unfolding work_wf_def by blast
  have "inv_4 p F U (sg, subs, l, info1)" using snoc.prems(1) info1(2) by (simp add: inv_4_def)
  from treat_constraint_4_total [OF assms(1-3) this c] obtain sg2 subs2 l2 info2 where
    t: "treat_constraint_4 p c sg subs l info1 = Some (sg2, subs2, l2, info2)"
      "inv_4 p F U (sg2, subs2, l2, info2)" "treated p F c subs l subs2 l2" "fewer_counts info2 info1"
    by blast
  have "counts_ok info2 cs" using t(4) info1(3) by (auto simp: counts_ok_def fewer_counts_def)
  with snoc.IH [OF t(2)] snoc.prems(2) obtain sg' subs' l' info' where
    r: "pop_back_all (pop_constraint_4 p) cs (sg2, subs2, l2, info2) = Some (sg', subs', l', info')"
      "inv_4 p F U (sg', subs', l', info')"
      "\<forall>\<sigma>. assigns_one \<sigma> \<longrightarrow> (all_sat p \<sigma> cs \<and> holder_holds p \<sigma> subs2 \<and> all_sat p \<sigma> l2 \<longleftrightarrow>
        holder_holds p \<sigma> subs' \<and> all_sat p \<sigma> l')"
    by auto
  have "pop_back_all (pop_constraint_4 p) (cs @ [c]) (sg, subs, l, info) = Some (sg', subs', l', info')"
    using info1(1) t(1) r(1) by (simp add: pop_constraint_4_def)
  with r(2,3) t(3) show ?case unfolding treated_def by auto
qed auto

end
