(* ===== verification/Full_Simplification.thy ===== *)
theory Full_Simplification
  imports Substitution_Independence Elimination_By_Occurrences
begin

text \<open>
  \<open>full_simplification\<close> of \<open>simplification_utils.rs\<close>: the composition of an elimination pass, the
  normalisation and the separation of the substitutions, with the properties of each stage and
  of the whole.
\<close>

section \<open>Lemmas: the whole simplification\<close>

text \<open>The signals of a list of constraints, with the constant.\<close>

definition signals_of :: "nat constraint list \<Rightarrow> nat set" where
  "signals_of cs = insert 0 (\<Union>c \<in> set cs. con_keys c)"

lemma signals_of_work:
  "\<forall>c \<in> set cs. work_wf p c \<Longrightarrow> 0 \<in> signals_of cs \<and> (\<forall>c \<in> set cs. keys_of (con_c c) \<subseteq> signals_of cs)"
  using work_wf_nonzero by (fastforce simp: signals_of_def)

lemma substitution_process_3_sound:
  assumes "is_field p" and "0 \<in> F" and "\<forall>c \<in> set cs. work_wf p c"
  shows "\<exists>sg' subs' l'. substitution_process_3 \<lparr>deleted_symbols = {}, forbidden = F\<rparr> cs [] p = Some (sg', subs', l') \<and>
    holder_inv p F subs' l' \<and> downward (signals_of cs) F subs' \<and>
    (\<forall>\<sigma>. assigns_one \<sigma> \<longrightarrow> (all_sat p \<sigma> cs \<longleftrightarrow> holder_holds p \<sigma> subs' \<and> all_sat p \<sigma> l'))"
  using substitution_process_3_total [of p "\<lparr>deleted_symbols = {}, forbidden = F\<rparr>" cs "[]" "[]" "signals_of cs"] assms
    signals_of_work [OF assms(3)]
  by (simp add: substitution_process_3_def holder_inv_def holder_wf_def downward_def holder_holds_def)

lemma substitution_process_4_total:
  assumes "is_field p" and "0 \<in> F" and "\<forall>c \<in> set cs. work_wf p c"
  shows "\<exists>sg' subs' l'. substitution_process_4
      \<lparr>deleted_symbols = {}, forbidden = F, order_signals = []\<rparr> cs [] p = Some (sg', subs', l') \<and>
    holder_inv p F subs' l' \<and> keys_of subs' = set (order_signals sg') \<and> distinct (order_signals sg') \<and>
    later_only subs' (order_signals sg') \<and>
    (\<forall>(k, c) \<in> set subs'. k \<in> signals_of cs \<and> keys_of (sub_to (snd c)) \<subseteq> signals_of cs) \<and>
    (\<forall>\<sigma>. assigns_one \<sigma> \<longrightarrow> (all_sat p \<sigma> cs \<longleftrightarrow> holder_holds p \<sigma> subs' \<and> all_sat p \<sigma> l'))"
proof -
  let ?sg = "\<lparr>deleted_symbols = {}, forbidden = F, order_signals = []\<rparr>"
  define U where "U = signals_of cs"
  obtain info uniques where new: "signals_information_new cs ?sg = (info, uniques)"
    by (cases "signals_information_new cs ?sg")
  have wf: "\<forall>c \<in> set cs. hm_wf (con_c c)" using assms(3) by (simp add: work_wf_def)
  have spec: "counts_ok info cs" "\<forall>c \<in> set cs. keys_of (con_c c) - F \<subseteq> keys_of info"
    "distinct (map fst uniques)" "\<forall>(k, i) \<in> set uniques. owns cs F k i"
    using signals_information_new_spec [OF wf new] by simp_all
  have "signals_of cs = insert 0 (\<Union>c \<in> set cs. keys_of (con_c c))"
    using work_wf_nonzero assms(3) by (fastforce simp: signals_of_def)
  then have U: "0 \<in> U" "U \<subseteq> F \<union> keys_of info" "\<forall>c \<in> set cs. keys_of (con_c c) \<subseteq> U"
    using spec assms(2) by (auto simp: U_def)
  have start: "uniques_inv p F U cs (cs, ?sg, [], [], info)"
    using spec assms(3) U
    by (auto simp: uniques_inv_def inv_4_def holder_inv_def holder_wf_def holder_holds_def)
  obtain vec st where u: "treat_uniques_4 uniques p (cs, ?sg, [], [], info) = Some (vec, st)"
    "uniques_inv p F U cs (vec, st)"
    using treat_uniques_4_total [OF assms(1,2) U(1) spec(3,4) start] by auto
  obtain sg subs l info2 where st: "st = (sg, subs, l, info2)" by (cases st)
  have inv: "inv_4 p F U (sg, subs, l, info2)" "\<forall>c \<in> set vec. work_wf p c \<and> keys_of (con_c c) \<subseteq> U"
    "counts_ok info2 vec"
    "\<And>\<sigma>. assigns_one \<sigma> \<Longrightarrow> all_sat p \<sigma> vec \<and> holder_holds p \<sigma> subs \<and> all_sat p \<sigma> l \<longleftrightarrow> all_sat p \<sigma> cs"
    using u(2) by (auto simp: uniques_inv_def st)
  obtain sg' subs' l' info' where pop: "pop_back_all (pop_constraint_4 p) vec (sg, subs, l, info2) =
      Some (sg', subs', l', info')" "inv_4 p F U (sg', subs', l', info')"
    "\<forall>\<sigma>. assigns_one \<sigma> \<longrightarrow> (all_sat p \<sigma> vec \<and> holder_holds p \<sigma> subs \<and> all_sat p \<sigma> l \<longleftrightarrow>
      holder_holds p \<sigma> subs' \<and> all_sat p \<sigma> l')"
    using pop_constraints_4_total [OF assms(1,2) U(1) inv(1,2,3)] by blast
  have "substitution_process_4 ?sg cs [] p = Some (sg', subs', l')"
    using new u(1) pop(1) by (simp add: substitution_process_4_def st)
  moreover have "\<forall>(k, c) \<in> set subs'. k \<in> signals_of cs \<and> keys_of (sub_to (snd c)) \<subseteq> signals_of cs"
  proof
    fix x assume x: "x \<in> set subs'"
    obtain k c where kc: "x = (k, c)" by (cases x)
    have i: "keys_of subs' \<subseteq> signals_of cs" "\<forall>(k, c) \<in> set subs'. keys_of (sub_to (snd c)) \<subseteq> signals_of cs"
      using pop(2) by (simp_all add: inv_4_def U_def)
    have "k \<in> keys_of subs'" using x by (simp add: kc in_keys_of)
    with i x show "case x of (k, c) \<Rightarrow> k \<in> signals_of cs \<and> keys_of (sub_to (snd c)) \<subseteq> signals_of cs"
      by (auto simp: kc)
  qed
  ultimately show ?thesis using pop(2,3) inv(4) by (auto simp: inv_4_def)
qed

text \<open>The two ways to make the normalised solutions independent.\<close>

lemma create_nonoverlapping_fold:
  "create_nonoverlapping_substitutions ts p = fold (nonoverlap_step p) ts []"
  by (simp add: create_nonoverlapping_substitutions_def nonoverlap_step_def)

lemma create_nonoverlapping_4_fold:
  assumes "distinct L" and "set L \<subseteq> keys_of m" and "hm_wf m"
  shows "\<exists>m'. fold (\<lambda>s acc. Option.bind acc (\<lambda>(possible_overlap, no_overlap).
           Option.bind (map_of possible_overlap s) (\<lambda>substitution.
             Some (hm_remove s possible_overlap,
               hm_insert s
                 (apply_all (take_substitutions_to_be_applied no_overlap substitution) p substitution)
                 no_overlap)))) L (Some (m, acc)) =
      Some (m', fold (nonoverlap_step p) (map (\<lambda>k. (k, the (map_of m k))) L) acc)"
  using assms
proof (induction L arbitrary: m acc)
  case (Cons k L)
  then obtain s where s: "map_of m k = Some s" by (auto simp: keys_of_map_of)
  have eq: "map (\<lambda>j. (j, the (map_of (hm_remove k m) j))) L = map (\<lambda>j. (j, the (map_of m j))) L"
    using Cons.prems(1) by (auto simp: delete_conv')
  have "set L \<subseteq> keys_of (hm_remove k m)" using Cons.prems(1,2) by auto
  then show ?case
    using Cons.IH [of "hm_remove k m" "nonoverlap_step p (k, s) acc", unfolded eq] Cons.prems s
    by (simp add: nonoverlap_step_def)
qed simp

lemma normalized_ordered_3:
  assumes "list_all2 (normalized_entry p) subs ts" and "bt_wf subs" and "downward U F subs" and "keys_of subs \<inter> F = {}"
    and "\<forall>(k, cs) \<in> set subs. entry_wf p k cs"
  shows "ordered_subs ts"
  using assms
proof (induction rule: list_all2_induct)
  case (Cons e subs t ts)
  obtain k q s k' u where e: "e = (k, q, s)" "t = (k', u)" by (cases e; cases t)
  have n: "k' = k" "keys_of (sub_to u) \<subseteq> keys_of (sub_to s)"
    using Cons.hyps(1) by (simp_all add: e normalized_entry_def)
  have ks: "keys_of ts = keys_of subs" using normalized_keys [OF Cons.hyps(2)] by (simp add: keys_of_def)
  have "j \<notin> keys_of (sub_to s)" if "j \<in> insert k (keys_of subs)" for j
  proof
    assume j: "j \<in> keys_of (sub_to s)"
    have "k \<notin> keys_of (sub_to s)" using Cons.prems(4) by (simp add: e entry_wf_def)
    with j that have "k < j" using Cons.prems(1) by (auto simp: e bt_wf_Cons)
    moreover have "j \<notin> F" using that Cons.prems(3) by (auto simp: e)
    then have "j \<in> keys_of (sub_to s) - F" using j by simp
    then have "j < k" using Cons.prems(2) by (simp add: e downward_def)
    ultimately show False by simp
  qed
  then have "keys_of (sub_to u) \<inter> insert k' (keys_of ts) = {}" using n ks by auto
  moreover have "ordered_subs ts"
    using Cons.IH Cons.prems by (auto simp: e bt_wf_Cons downward_def)
  ultimately show ?case by (simp add: e)
qed simp

lemma normalized_lookup:
  "list_all2 (normalized_entry p) subs ts \<Longrightarrow> map_of subs k = Some (q, s) \<Longrightarrow>
    \<exists>t. map_of ts k = Some t \<and> keys_of (sub_to t) \<subseteq> keys_of (sub_to s)"
  by (induction rule: list_all2_induct) (auto simp: normalized_entry_def split: if_splits)

lemma normalized_ordered_4:
  assumes "list_all2 (normalized_entry p) subs ts" and "later_only subs L" and "set L \<subseteq> keys_of subs"
  shows "ordered_subs (map (\<lambda>k. (k, the (map_of ts k))) L)"
  using assms(2,3)
proof (induction L)
  case (Cons k L)
  obtain q s where s: "map_of subs k = Some (q, s)" using Cons.prems(2) by (auto simp: keys_of_map_of)
  then obtain t where t: "map_of ts k = Some t" "keys_of (sub_to t) \<subseteq> keys_of (sub_to s)"
    using normalized_lookup [OF assms(1)] by blast
  have "keys_of (map (\<lambda>k. (k, the (map_of ts k))) L) = set L" by (auto simp: keys_of_def)
  with Cons s t show ?case by auto
qed simp

text \<open>What both strategies promise of the residual constraints and of the substitutions.\<close>

definition simplification_ok ::
    "int \<Rightarrow> nat set \<Rightarrow> nat constraint list \<Rightarrow> nat constraint list \<Rightarrow> (nat, nat substitution) hmap \<Rightarrow> bool" where
  "simplification_ok p F cs l subs \<longleftrightarrow>
     (\<forall>\<sigma>. assigns_one \<sigma> \<longrightarrow> (all_sat p \<sigma> cs \<longleftrightarrow> all_sat p \<sigma> l \<and> subs_hold p \<sigma> (map snd subs))) \<and>
     distinct (map fst subs) \<and> keys_of subs \<inter> F = {} \<and>
     (\<forall>c \<in> set l. con_keys c \<subseteq> F) \<and>
     (\<forall>(k, s) \<in> set subs. sub_from s = k \<and> keys_of (sub_to s) \<inter> keys_of subs = {}) \<and>
     (\<forall>(k, s) \<in> set subs. hm_wf (sub_to s) \<and> k \<in> signals_of cs \<and> keys_of (sub_to s) \<subseteq> signals_of cs) \<and>
     (\<forall>c \<in> set l. work_wf p c)"

lemma nonoverlap_within:
  assumes "0 \<in> U" and "\<forall>(k, s) \<in> set P. k \<in> U \<and> keys_of (sub_to s) \<subseteq> U"
    and "\<forall>(k, s) \<in> set acc. k \<in> U \<and> keys_of (sub_to s) \<subseteq> U"
  shows "\<forall>(k, s) \<in> set (fold (nonoverlap_step p) P acc). k \<in> U \<and> keys_of (sub_to s) \<subseteq> U"
  using assms(2,3)
proof (induction P arbitrary: acc)
  case (Cons e P)
  obtain k s where e: "e = (k, s)" by (cases e)
  let ?us = "take_substitutions_to_be_applied acc s"
  have "u \<in> snd ` set acc" if "u \<in> set ?us" for u
    using that by (force simp: take_substitutions_to_be_applied_def set_of_map_filter dest: map_of_SomeD)
  then have "(\<Union>u \<in> set ?us. keys_of (sub_to u)) \<subseteq> U" using Cons.prems(2) by fastforce
  moreover have "keys_of (sub_to s) \<subseteq> U" using Cons.prems(1) by (simp add: e)
  ultimately have "keys_of (sub_to (apply_all ?us p s)) \<subseteq> U"
    using apply_all_keys [of ?us p s] assms(1) by blast
  then have "\<forall>(k, s) \<in> set (nonoverlap_step p e acc). k \<in> U \<and> keys_of (sub_to s) \<subseteq> U"
    using Cons.prems
    by (auto simp: e nonoverlap_step_def dest!: hm_insert_mem)
  then show ?case using Cons.IH Cons.prems(1) by simp
qed simp

lemma normalized_within:
  "list_all2 (normalized_entry p) subs ts \<Longrightarrow> \<forall>(k, c) \<in> set subs. k \<in> U \<and> keys_of (sub_to (snd c)) \<subseteq> U \<Longrightarrow>
    \<forall>(k, s) \<in> set ts. k \<in> U \<and> keys_of (sub_to s) \<subseteq> U"
  by (induction rule: list_all2_induct) (auto simp: normalized_entry_def split: prod.splits)

lemma simplification_tail:
  assumes "0 < p" and "0 \<in> F" and "holder_inv p F subs l"
    and "\<forall>\<sigma>. assigns_one \<sigma> \<longrightarrow> (all_sat p \<sigma> cs \<longleftrightarrow> holder_holds p \<sigma> subs \<and> all_sat p \<sigma> l)"
    and "list_all2 (normalized_entry p) subs ts" and "ordered_subs P" and "hm_wf P" and "set P = set ts"
    and "\<forall>(k, c) \<in> set subs. k \<in> signals_of cs \<and> keys_of (sub_to (snd c)) \<subseteq> signals_of cs"
  shows "simplification_ok p F cs l (fold (nonoverlap_step p) P [])"
proof -
  have keys: "keys_of ts = keys_of subs" "keys_of P = keys_of subs"
  proof -
    have "set (map fst ts) = set (map fst subs)" using normalized_keys [OF assms(5)] by simp
    then show "keys_of ts = keys_of subs" by (simp add: keys_of_def)
    with assms(8) show "keys_of P = keys_of subs" by (simp add: keys_of_def)
  qed
  have "keys_of subs \<inter> F = {}" using assms(3) by (simp add: holder_inv_def)
  moreover from this have "0 \<notin> keys_of subs" using assms(2) by auto
  moreover have "\<forall>(k, s) \<in> set P. sub_from s = k \<and> hm_wf (sub_to s)"
    using normalized_keys [OF assms(5)] assms(8) by (auto simp: sub_wf_def)
  ultimately have "\<exists>ts. fold (nonoverlap_step p) P [] = [] @ ts \<and> map fst ts = map fst P \<and>
      independent (keys_of subs) ([] @ ts) \<and>
      (\<forall>\<sigma>. subs_hold p \<sigma> (map snd ([] @ ts)) \<longleftrightarrow> subs_hold p \<sigma> (map snd ([] @ P)))"
    by (intro nonoverlap_fold [OF assms(1,6,7)]) (simp_all add: keys(2) independent_def)
  then obtain us where us: "fold (nonoverlap_step p) P [] = us" "map fst us = map fst P"
    "independent (keys_of subs) us" "\<And>\<sigma>. subs_hold p \<sigma> (map snd us) \<longleftrightarrow> subs_hold p \<sigma> (map snd P)"
    by auto
  have ku: "keys_of us = keys_of subs" using us(2) keys(2) by (simp add: keys_of_def)
  have "subs_hold p \<sigma> (map snd us) \<longleftrightarrow> holder_holds p \<sigma> subs" if "assigns_one \<sigma>" for \<sigma>
    using us(4) normalized_holds [OF assms(5) that] assms(8) by (simp add: subs_hold_def)
  moreover have "con_keys c \<subseteq> F" if "c \<in> set l" for c
  proof -
    have "work_wf p c \<and> keys_of (con_c c) \<subseteq> F" using assms(3) that by (simp add: holder_inv_def)
    then show ?thesis using work_wf_nonzero [of p c] by simp
  qed
  moreover have "\<forall>(k, s) \<in> set us. k \<in> signals_of cs \<and> keys_of (sub_to s) \<subseteq> signals_of cs"
    using nonoverlap_within [of "signals_of cs" P "[]" p] normalized_within [OF assms(5,9)] assms(8) us(1)
    by (simp add: signals_of_def)
  then have "\<forall>(k, s) \<in> set us. hm_wf (sub_to s) \<and> k \<in> signals_of cs \<and> keys_of (sub_to s) \<subseteq> signals_of cs"
    using us(3) by (auto simp: independent_def)
  moreover have "\<forall>(k, s) \<in> set us. sub_from s = k \<and> keys_of (sub_to s) \<inter> keys_of us = {}"
    using us(3) ku by (auto simp: independent_def)
  moreover have "\<forall>c \<in> set l. work_wf p c" using assms(3) by (simp add: holder_inv_def)
  moreover have "all_sat p \<sigma> cs \<longleftrightarrow> all_sat p \<sigma> l \<and> subs_hold p \<sigma> (map snd us)" if "assigns_one \<sigma>" for \<sigma>
    using assms(4) us(4) normalized_holds [OF assms(5) that] assms(8) that by (auto simp: subs_hold_def)
  ultimately show ?thesis
    using assms(7) us(2) ku \<open>keys_of subs \<inter> F = {}\<close>
    unfolding simplification_ok_def us(1) by (simp add: hm_wf_def)
qed

lemma full_simplification_total:
  assumes "inverse_ok minv p" and "is_field p" and "cfg_field cfg = p" and "0 \<in> cfg_forbidden cfg"
    and "\<forall>c \<in> set (cfg_constraints cfg). work_wf p c"
  shows "\<exists>l subs. full_simplification minv cfg = Some \<lparr>simp_constraints = l,
      simp_substitutions = map snd subs, simp_removed = map fst subs\<rparr> \<and>
    simplification_ok p (cfg_forbidden cfg) (cfg_constraints cfg) l subs"
proof -
  let ?F = "cfg_forbidden cfg" and ?cs = "cfg_constraints cfg"
  have p: "0 < p" "1 < p" using assms(2) by (simp_all add: is_field_pos is_field_gt1)
  show ?thesis
  proof (cases "350 \<le> length ?cs \<and> length ?cs < 1000000 \<and> \<not> use_old_heuristics cfg")
    case False
    obtain sg subs l where three: "substitution_process_3 \<lparr>deleted_symbols = {}, forbidden = ?F\<rparr> ?cs [] p = Some (sg, subs, l)"
      "holder_inv p ?F subs l" "downward (signals_of ?cs) ?F subs"
      "\<forall>\<sigma>. assigns_one \<sigma> \<longrightarrow> (all_sat p \<sigma> ?cs \<longleftrightarrow> holder_holds p \<sigma> subs \<and> all_sat p \<sigma> l)"
      using substitution_process_3_sound [OF assms(2,4,5)] by blast
    have h: "holder_wf p subs" "keys_of subs \<inter> ?F = {}" "0 \<notin> keys_of subs"
      using three(2) assms(4) by (auto simp: holder_inv_def)
    obtain ts where ts: "normalize_substitutions minv subs p = Some ts" "list_all2 (normalized_entry p) subs ts"
      using normalize_substitutions_total [OF assms(1) p(2) h(1,3)] by blast
    have "ordered_subs ts"
      using normalized_ordered_3 [OF ts(2) _ three(3) h(2)] h(1) by (simp add: holder_wf_def)
    moreover have "hm_wf ts"
      using normalized_keys [OF ts(2)] h(1) by (simp add: holder_wf_def bt_wf_def hm_wf_def)
    moreover have "\<forall>(k, c) \<in> set subs. k \<in> signals_of ?cs \<and> keys_of (sub_to (snd c)) \<subseteq> signals_of ?cs"
      using three(3) by (auto simp: downward_def)
    ultimately have "simplification_ok p ?F ?cs l (create_nonoverlapping_substitutions ts p)"
      unfolding create_nonoverlapping_fold
      using simplification_tail [OF p(1) assms(4) three(2,4) ts(2)] by blast
    moreover have "full_simplification minv cfg = Some \<lparr>simp_constraints = l,
        simp_substitutions = map snd (create_nonoverlapping_substitutions ts p),
        simp_removed = map fst (create_nonoverlapping_substitutions ts p)\<rparr>"
      using False three(1) ts(1) assms(3) by (auto simp: full_simplification_def Let_def)
    ultimately show ?thesis by blast
  next
    case True
    obtain sg subs l where four: "substitution_process_4
        \<lparr>deleted_symbols = {}, forbidden = ?F, order_signals = []\<rparr> ?cs [] p = Some (sg, subs, l)"
      "holder_inv p ?F subs l" "keys_of subs = set (order_signals sg)" "distinct (order_signals sg)"
      "later_only subs (order_signals sg)"
      "\<forall>(k, c) \<in> set subs. k \<in> signals_of ?cs \<and> keys_of (sub_to (snd c)) \<subseteq> signals_of ?cs"
      "\<forall>\<sigma>. assigns_one \<sigma> \<longrightarrow> (all_sat p \<sigma> ?cs \<longleftrightarrow> holder_holds p \<sigma> subs \<and> all_sat p \<sigma> l)"
      using substitution_process_4_total [OF assms(2,4,5)] by blast
    have h: "holder_wf p subs" "keys_of subs \<inter> ?F = {}" "0 \<notin> keys_of subs"
      using four(2) assms(4) by (auto simp: holder_inv_def)
    obtain ts where ts: "normalize_substitutions minv subs p = Some ts" "list_all2 (normalized_entry p) subs ts"
      using normalize_substitutions_total [OF assms(1) p(2) h(1,3)] by blast
    define P where "P = map (\<lambda>k. (k, the (map_of ts k))) (order_signals sg)"
    have wf: "hm_wf ts" and keys: "keys_of ts = keys_of subs"
      using normalized_keys [OF ts(2)] h(1) by (simp_all add: holder_wf_def bt_wf_def hm_wf_def keys_of_def)
    have "set P = set ts"
    proof -
      have "set P = (\<lambda>k. (k, the (map_of ts k))) ` keys_of ts" by (simp add: P_def keys four(3))
      also have "\<dots> = set ts" using wf by (force simp: keys_of_def hm_wf_def image_image)
      finally show ?thesis .
    qed
    moreover have "ordered_subs P" using normalized_ordered_4 [OF ts(2) four(5)] four(3) by (simp add: P_def)
    moreover have "hm_wf P" using four(4) by (simp add: P_def hm_wf_def comp_def)
    ultimately have "simplification_ok p ?F ?cs l (fold (nonoverlap_step p) P [])"
      using simplification_tail [OF p(1) assms(4) four(2,7) ts(2) _ _ _ four(6)] by blast
    moreover have "create_nonoverlapping_substitutions_4 ts sg p = Some (fold (nonoverlap_step p) P [])"
      using create_nonoverlapping_4_fold [OF four(4) _ wf, of p "[]"] keys four(3)
      by (auto simp: create_nonoverlapping_substitutions_4_def P_def)
    then have "full_simplification minv cfg = Some \<lparr>simp_constraints = l,
        simp_substitutions = map snd (fold (nonoverlap_step p) P []),
        simp_removed = map fst (fold (nonoverlap_step p) P [])\<rparr>"
      using True four(1) ts(1) assms(3) by (simp add: full_simplification_def Let_def)
    ultimately show ?thesis by blast
  qed
qed

section \<open>Properties\<close>

text \<open>C7: one pass of elimination with the greatest signal first. On linear constraints with non-zero
  coefficients it ends without a panic; the scaled solutions it leaves and the residual
  constraints, which have forbidden signals only, hold for exactly the assignments that satisfy
  the constraints.\<close>

theorem substitution_process_3_correct:
  assumes "is_field p" and "0 \<in> F" and "\<forall>c \<in> set cs. work_wf p c"
  shows "\<exists>sg' subs' l'. substitution_process_3 \<lparr>deleted_symbols = {}, forbidden = F\<rparr> cs [] p = Some (sg', subs', l') \<and>
    keys_of subs' \<inter> F = {} \<and> (\<forall>c \<in> set l'. con_keys c \<subseteq> F) \<and>
    (\<forall>\<sigma>. assigns_one \<sigma> \<longrightarrow> (all_sat p \<sigma> cs \<longleftrightarrow> holder_holds p \<sigma> subs' \<and> all_sat p \<sigma> l'))"
  using substitution_process_3_sound [OF assms] work_wf_nonzero
  unfolding holder_inv_def by (metis (no_types, lifting))

theorem substitution_process_3_correct_witness:
  "substitution_process_3 \<lparr>deleted_symbols = {}, forbidden = {0, 1}\<rparr>
     [\<lparr>con_a = [], con_b = [], con_c = [(1, 1), (2, 3)]\<rparr>, \<lparr>con_a = [], con_b = [], con_c = [(2, 2), (3, 1)]\<rparr>] [] 7 =
   Some (\<lparr>deleted_symbols = {2, 3}, forbidden = {0, 1}\<rparr>,
     [(2, 4, \<lparr>sub_from = 2, sub_to = [(1, 1), (0, 0)]\<rparr>), (3, 6, \<lparr>sub_from = 3, sub_to = [(2, 2), (0, 0)]\<rparr>)], []) \<and>
   holder_holds 7 (\<lambda>k. if k = 2 then 2 else if k = 3 then 3 else 1)
     [(2, 4, \<lparr>sub_from = 2, sub_to = [(1, 1), (0, 0)]\<rparr>), (3, 6, \<lparr>sub_from = 3, sub_to = [(2, 2), (0, 0)]\<rparr>)]"
proof -
  let ?cs = "[\<lparr>con_a = [], con_b = [], con_c = [(1 :: nat, 1), (2, 3)]\<rparr>, \<lparr>con_a = [], con_b = [], con_c = [(2, 2), (3, 1)]\<rparr>]"
  let ?\<sigma> = "\<lambda>k :: nat. if k = 2 then 2 else if k = 3 then 3 else 1 :: int"
  have t: "substitution_process_3 \<lparr>deleted_symbols = {}, forbidden = {0, 1}\<rparr> ?cs [] 7 =
   Some (\<lparr>deleted_symbols = {2, 3}, forbidden = {0, 1}\<rparr>,
     [(2, 4, \<lparr>sub_from = 2, sub_to = [(1, 1), (0, 0)]\<rparr>), (3, 6, \<lparr>sub_from = 3, sub_to = [(2, 2), (0, 0)]\<rparr>)], [])"
    by code_simp
  have wf: "\<forall>c \<in> set ?cs. work_wf 7 c" by (simp add: work_wf_def is_linear_def hm_wf_def nonzero_coeffs_def)
  have "all_sat 7 ?\<sigma> ?cs" "assigns_one ?\<sigma>" by (simp_all add: sat_def lin_def assigns_one_def)
  with substitution_process_3_correct [OF is_field_7 _ wf, of "{0, 1}"] t show ?thesis by auto
qed

text \<open>C6: the pass that prefers signals with few occurrences has the same contract. Its loop ends although
  it follows deleted signals in no fixed order, its counters never underflow, and every count it
  asks for is there.\<close>

theorem substitution_process_4_correct:
  assumes "is_field p" and "0 \<in> F" and "\<forall>c \<in> set cs. work_wf p c"
  shows "\<exists>sg' subs' l'. substitution_process_4
      \<lparr>deleted_symbols = {}, forbidden = F, order_signals = []\<rparr> cs [] p = Some (sg', subs', l') \<and>
    set (order_signals sg') = keys_of subs' \<and> keys_of subs' \<inter> F = {} \<and> (\<forall>c \<in> set l'. con_keys c \<subseteq> F) \<and>
    (\<forall>\<sigma>. assigns_one \<sigma> \<longrightarrow> (all_sat p \<sigma> cs \<longleftrightarrow> holder_holds p \<sigma> subs' \<and> all_sat p \<sigma> l'))"
  using substitution_process_4_total [OF assms] work_wf_nonzero
  unfolding holder_inv_def by (metis (no_types, lifting))


theorem substitution_process_4_correct_witness:
  "\<exists>sg' subs' l'. substitution_process_4 \<lparr>deleted_symbols = {}, forbidden = {0, 1}, order_signals = []\<rparr>
     [\<lparr>con_a = [], con_b = [], con_c = [(1, 1), (2, 3)]\<rparr>, \<lparr>con_a = [], con_b = [], con_c = [(2, 2), (3, 1)]\<rparr>] [] 7 =
       Some (sg', subs', l') \<and>
   holder_holds 7 (\<lambda>k. if k = 2 then 2 else if k = 3 then 3 else 1) subs'"
proof -
  let ?cs = "[\<lparr>con_a = [], con_b = [], con_c = [(1 :: nat, 1), (2, 3)]\<rparr>, \<lparr>con_a = [], con_b = [], con_c = [(2, 2), (3, 1)]\<rparr>]"
  let ?\<sigma> = "\<lambda>k :: nat. if k = 2 then 2 else if k = 3 then 3 else 1 :: int"
  have wf: "\<forall>c \<in> set ?cs. work_wf 7 c" by (simp add: work_wf_def is_linear_def hm_wf_def nonzero_coeffs_def)
  have "all_sat 7 ?\<sigma> ?cs" "assigns_one ?\<sigma>" by (simp_all add: sat_def lin_def assigns_one_def)
  with substitution_process_4_correct [OF is_field_7 _ wf, of "{0, 1}"] show ?thesis by blast
qed

text \<open>C9: normalisation divides every solution by its coefficient with a single inversion, and none of the
  \<open>unwrap\<close>s on the way fails.\<close>

theorem normalize_substitutions_correct:
  assumes "inverse_ok minv p" and "1 < p" and "holder_wf p subs" and "0 \<notin> keys_of subs"
  shows "\<exists>ts. normalize_substitutions minv subs p = Some ts \<and> map fst ts = map fst subs \<and>
    (\<forall>\<sigma>. assigns_one \<sigma> \<longrightarrow> (subs_hold p \<sigma> (map snd ts) \<longleftrightarrow> holder_holds p \<sigma> subs))"
  using normalize_substitutions_total [OF assms] normalized_holds normalized_keys by blast


theorem normalize_substitutions_correct_witness:
  "\<exists>ts. normalize_substitutions search_inverse [(2, 4, \<lparr>sub_from = 2, sub_to = [(1, 1), (0, 0)]\<rparr>)] 7 = Some ts \<and>
    subs_hold 7 (\<lambda>k. if k = 2 then 2 else 1) (map snd ts)"
proof -
  let ?h = "[(2, 4, \<lparr>sub_from = 2, sub_to = [(1, 1), (0, 0)]\<rparr>)] :: sh_not_normalized"
  have "coprime (4 :: int) 7" using is_field_coprime [OF is_field_7, of 4] by simp
  then have "holder_wf 7 ?h" by (simp add: holder_wf_def bt_wf_def entry_wf_def hm_wf_def)
  from normalize_substitutions_correct [OF inverse_ok_search _ this]
  have "\<exists>ts. normalize_substitutions search_inverse ?h 7 = Some ts \<and>
      (\<forall>\<sigma>. assigns_one \<sigma> \<longrightarrow> subs_hold 7 \<sigma> (map snd ts) = holder_holds 7 \<sigma> ?h)" by auto
  moreover have "assigns_one (\<lambda>k :: nat. if k = 2 then 2 else 1)" by (simp add: assigns_one_def)
  moreover have "holder_holds 7 (\<lambda>k. if k = 2 then 2 else 1) ?h"
    by (simp add: holder_holds_def scaled_holds_def lin_def)
  ultimately show ?thesis by blast
qed

text \<open>C5: the whole simplification, with either strategy. It returns; the simplified system (the residual
  constraints and the substitutions) has the solutions of the constraints; no eliminated signal
  is forbidden, none occurs in a right-hand side, and the residual constraints have forbidden
  signals only.\<close>

theorem full_simplification_correct:
  assumes "inverse_ok minv p" and "is_field p" and "cfg_field cfg = p" and "0 \<in> cfg_forbidden cfg"
    and "\<forall>c \<in> set (cfg_constraints cfg). work_wf p c"
  shows "\<exists>r. full_simplification minv cfg = Some r \<and>
    (\<forall>\<sigma>. assigns_one \<sigma> \<longrightarrow> (all_sat p \<sigma> (cfg_constraints cfg) \<longleftrightarrow>
      all_sat p \<sigma> (simp_constraints r) \<and> subs_hold p \<sigma> (simp_substitutions r))) \<and>
    simp_removed r = map sub_from (simp_substitutions r) \<and> distinct (simp_removed r) \<and>
    set (simp_removed r) \<inter> cfg_forbidden cfg = {} \<and>
    (\<forall>s \<in> set (simp_substitutions r). keys_of (sub_to s) \<inter> set (simp_removed r) = {}) \<and>
    (\<forall>c \<in> set (simp_constraints r). con_keys c \<subseteq> cfg_forbidden cfg)"
proof -
  obtain l subs where f: "full_simplification minv cfg = Some \<lparr>simp_constraints = l,
      simp_substitutions = map snd subs, simp_removed = map fst subs\<rparr>"
    and ok: "simplification_ok p (cfg_forbidden cfg) (cfg_constraints cfg) l subs"
    using full_simplification_total [OF assms] by blast
  have "map fst subs = map sub_from (map snd subs)"
    using ok by (auto simp: simplification_ok_def)
  moreover have "keys_of (sub_to s) \<inter> set (map fst subs) = {}" if s: "s \<in> set (map snd subs)" for s
  proof -
    obtain k where "(k, s) \<in> set subs" using s by auto
    then have "keys_of (sub_to s) \<inter> keys_of subs = {}" using ok unfolding simplification_ok_def by blast
    then show ?thesis by (simp only: keys_of_def [of subs])
  qed
  ultimately show ?thesis
    using ok by (intro exI [of _ "\<lparr>simp_constraints = l, simp_substitutions = map snd subs,
        simp_removed = map fst subs\<rparr>"]) (simp add: f simplification_ok_def keys_of_def [of subs])
qed


theorem full_simplification_correct_witness:
  "\<exists>r. full_simplification search_inverse \<lparr>cfg_field = 7,
       cfg_constraints = [\<lparr>con_a = [], con_b = [], con_c = [(1, 1), (2, 3)]\<rparr>], cfg_forbidden = {0, 1},
       cfg_num_signals = 3, use_old_heuristics = False\<rparr> = Some r \<and>
    subs_hold 7 (\<lambda>k. if k = 2 then 2 else 1) (simp_substitutions r)"
proof -
  let ?cfg = "\<lparr>cfg_field = 7, cfg_constraints = [\<lparr>con_a = [], con_b = [], con_c = [(1, 1), (2, 3)]\<rparr>],
      cfg_forbidden = {0, 1}, cfg_num_signals = 3, use_old_heuristics = False\<rparr>"
  let ?\<sigma> = "\<lambda>k :: nat. if k = 2 then 2 else 1 :: int"
  have "\<forall>c \<in> set (cfg_constraints ?cfg). work_wf 7 c"
    by (simp add: work_wf_def is_linear_def hm_wf_def nonzero_coeffs_def)
  from full_simplification_correct [OF inverse_ok_search is_field_7 _ _ this]
  have "\<exists>r. full_simplification search_inverse ?cfg = Some r \<and>
      (\<forall>\<sigma>. assigns_one \<sigma> \<longrightarrow> (all_sat 7 \<sigma> (cfg_constraints ?cfg) \<longleftrightarrow>
        all_sat 7 \<sigma> (simp_constraints r) \<and> subs_hold 7 \<sigma> (simp_substitutions r)))" by auto
  moreover have "assigns_one ?\<sigma>" by (simp add: assigns_one_def)
  moreover have "all_sat 7 ?\<sigma> (cfg_constraints ?cfg)" by (simp add: sat_def lin_def)
  ultimately show ?thesis by blast
qed

text \<open>C8: applying encoded substitutions to a constraint. For independent substitutions the loop does not
  panic, reports whether it changed something, removes every eliminated signal, and keeps the
  solutions among the assignments that satisfy the substitutions.\<close>

theorem fast_encoded_constraint_substitution_correct:
  assumes "0 < p" and "con_wf c" and "distinct (map sub_from ss)" and "\<forall>s \<in> set ss. hm_wf (sub_to s)"
    and "0 \<notin> sub_from ` set ss" and "\<forall>s \<in> set ss. keys_of (sub_to s) \<inter> sub_from ` set ss = {}"
  shows "\<exists>d b. fast_encoded_constraint_substitution c (build_encoded_fast_substitutions ss) p = Some (d, b) \<and>
    (b \<longleftrightarrow> con_keys c \<inter> sub_from ` set ss \<noteq> {}) \<and> con_keys d \<inter> sub_from ` set ss = {} \<and>
    (\<forall>\<sigma>. assigns_one \<sigma> \<longrightarrow> subs_hold p \<sigma> ss \<longrightarrow> (sat p \<sigma> d \<longleftrightarrow> sat p \<sigma> c))"
proof -
  note enc = build_encoded_ok [OF assms(3-6)]
  have ks: "set (take_cloned_signals c) = con_keys c - {0}"
    by (auto simp: take_cloned_signals_def con_keys_def constant_coefficient_def)
  obtain d b where "fast_encoded_constraint_substitution c (build_encoded_fast_substitutions ss) p = Some (d, b)"
    "b \<longleftrightarrow> (con_keys c - {0}) \<inter> sub_from ` set ss \<noteq> {}"
    "con_keys d \<inter> sub_from ` set ss \<subseteq> con_keys c - (con_keys c - {0})"
    "\<forall>\<sigma>. assigns_one \<sigma> \<longrightarrow> encoding_holds p \<sigma> (build_encoded_fast_substitutions ss) \<longrightarrow>
      (sat p \<sigma> d \<longleftrightarrow> sat p \<sigma> c)"
    using fast_encoded_constraint_fold [OF assms(1) _ assms(2), of "build_encoded_fast_substitutions ss"
        "take_cloned_signals c" False] enc
    unfolding fast_encoded_constraint_substitution_def ks by auto
  moreover have "(con_keys c - {0}) \<inter> sub_from ` set ss = con_keys c \<inter> sub_from ` set ss"
    using assms(5) by blast
  moreover have "con_keys d \<inter> sub_from ` set ss = {}" using calculation(3) assms(5) by (rule inter_zero)
  ultimately show ?thesis using enc by (intro exI [of _ d] exI [of _ b]) simp
qed


theorem fast_encoded_constraint_substitution_correct_witness:
  "fast_encoded_constraint_substitution \<lparr>con_a = [(1, 1)], con_b = [(2, 1)], con_c = [(0, 3), (1, 5)]\<rparr>
     (build_encoded_fast_substitutions [\<lparr>sub_from = 1, sub_to = [(2, 2)]\<rparr>]) 7 =
     Some (\<lparr>con_a = [(0, 0), (2, 2)], con_b = [(2, 1), (0, 0)], con_c = [(0, 3), (2, 3)]\<rparr>, True) \<and>
   1 \<notin> con_keys \<lparr>con_a = [(0 :: nat, 0 :: int), (2, 2)], con_b = [(2, 1), (0, 0)], con_c = [(0, 3), (2, 3)]\<rparr>"
proof -
  let ?c = "\<lparr>con_a = [(1 :: nat, 1)], con_b = [(2, 1)], con_c = [(0, 3), (1, 5)]\<rparr>"
  let ?ss = "[\<lparr>sub_from = 1 :: nat, sub_to = [(2, 2)]\<rparr>]"
  have t: "fast_encoded_constraint_substitution ?c (build_encoded_fast_substitutions ?ss) 7 =
     Some (\<lparr>con_a = [(0, 0), (2, 2)], con_b = [(2, 1), (0, 0)], con_c = [(0, 3), (2, 3)]\<rparr>, True)"
    by code_simp
  have "con_wf ?c" "distinct (map sub_from ?ss)" "\<forall>s \<in> set ?ss. hm_wf (sub_to s)" "0 \<notin> sub_from ` set ?ss"
    "\<forall>s \<in> set ?ss. keys_of (sub_to s) \<inter> sub_from ` set ?ss = {}"
    by (simp_all add: con_wf_def hm_wf_def)
  from fast_encoded_constraint_substitution_correct [OF _ this, of 7] t show ?thesis by auto
qed

end
