(* ===== verification/Solution_Equivalence.thy ===== *)
theory Solution_Equivalence
  imports Full_Simplification "HOL-Library.Multiset"
begin

text \<open>
  What the phases of the simplification of \<open>constraint_list\<close> have in common: constraints in normal
  form (\<open>con_ok\<close>), the relation "one list of constraints says what another one says, but for the
  signals \<open>D\<close> that were eliminated" (\<open>eliminates\<close>), and a pass of encoded substitutions over
  constraints (\<open>substitute_all\<close>).
\<close>

section \<open>Constraints in normal form\<close>

definition reduced :: "int \<Rightarrow> 'c coefficients \<Rightarrow> bool" where
  "reduced p m \<longleftrightarrow> (\<forall>v \<in> set (map snd m). 0 \<le> v \<and> v < p)"

definition con_reduced :: "int \<Rightarrow> 'c constraint \<Rightarrow> bool" where
  "con_reduced p c \<longleftrightarrow> con_wf c \<and> reduced p (con_a c) \<and> reduced p (con_b c) \<and> reduced p (con_c c)"

definition con_ok :: "int \<Rightarrow> 'c constraint \<Rightarrow> bool" where
  "con_ok p c \<longleftrightarrow> con_reduced p c \<and>
     (\<forall>v \<in> set (map snd (con_a c) @ map snd (con_b c) @ map snd (con_c c)). v \<noteq> 0)"

text \<open>Linear up to the zero constant that a substitution leaves behind.\<close>

definition nearly_linear :: "nat constraint \<Rightarrow> bool" where
  "nearly_linear c \<longleftrightarrow> (con_a c = [] \<or> con_a c = [(0, 0)]) \<and> (con_b c = [] \<or> con_b c = [(0, 0)])"

lemma con_ok_wf: "con_ok p c \<Longrightarrow> con_wf c"
  by (simp add: con_ok_def con_reduced_def)

lemma con_ok_reduced: "con_ok p c \<Longrightarrow> con_reduced p c"
  by (simp add: con_ok_def)

lemma con_ok_empty [simp]: "con_ok p constraint_empty"
  by (simp add: con_ok_def con_reduced_def con_wf_def reduced_def constraint_empty_def)

lemma con_ok_nonzero: "con_ok p c \<Longrightarrow> nonzero_coeffs p (con_c c)"
  by (auto simp: con_ok_def con_reduced_def reduced_def nonzero_coeffs_def)

lemma con_ok_work: "con_ok p c \<Longrightarrow> is_linear c \<Longrightarrow> work_wf p c"
  using con_ok_nonzero [of p c] con_ok_wf [of p c] by (simp add: work_wf_def con_wf_def)

lemma reduced_Nil [simp]: "reduced p []"
  by (simp add: reduced_def)

lemma reduced_iff: "reduced p m \<longleftrightarrow> (\<forall>e \<in> set m. 0 \<le> snd e \<and> snd e < p)"
  by (simp add: reduced_def)

lemma reduced_insert: "reduced p m \<Longrightarrow> 0 \<le> v \<Longrightarrow> v < p \<Longrightarrow> reduced p (hm_insert k v m)"
  unfolding reduced_iff by (auto dest!: hm_insert_mem)

lemma reduced_remove: "reduced p m \<Longrightarrow> reduced p (hm_remove k m)"
  unfolding reduced_iff AList.delete_eq by simp

lemma reduced_initialize: "0 < p \<Longrightarrow> reduced p m \<Longrightarrow> reduced p (initialize_hashmap_for_expression m)"
  by (simp add: initialize_hashmap_for_expression_def hm_or_insert_def reduced_insert)

lemma reduced_add_coefficients:
  "0 < p \<Longrightarrow> reduced p m \<Longrightarrow> reduced p (add_coefficients_to_coefficients n m p)"
proof (induction n arbitrary: m)
  case (Cons e n)
  have "reduced p (add_symbol_to_coefficients (fst e) (snd e) m p)"
    using Cons.prems
    by (auto simp: add_symbol_to_coefficients_def initialize_symbol_in_coefficients_def Let_def
        intro!: reduced_insert)
  then show ?case
    using Cons by (simp add: add_coefficients_to_coefficients_def case_prod_beta)
qed (simp add: add_coefficients_to_coefficients_def)

lemma reduced_multiply: "0 < p \<Longrightarrow> reduced p (multiply_coefficients_by_constant v m p)"
  by (auto simp: reduced_def multiply_coefficients_by_constant_def)

lemma reduced_raw_substitution: "0 < p \<Longrightarrow> reduced p m \<Longrightarrow> reduced p (raw_substitution m s p)"
  by (auto simp: raw_substitution_def Let_def reduced_initialize reduced_remove reduced_add_coefficients
      split: option.split)

lemma reduced_remove_zero: "reduced p m \<Longrightarrow> reduced p (remove_zero_value_coefficients m)"
  by (auto simp: reduced_def remove_zero_value_coefficients_def)

lemma con_reduced_apply:
  "0 < p \<Longrightarrow> con_reduced p c \<Longrightarrow> con_reduced p (constraint_apply_substitution c s p)"
  by (simp add: con_reduced_def con_wf_apply constraint_apply_substitution_def reduced_raw_substitution con_wf_def)

lemma reduced_reduction:
  "0 < p \<Longrightarrow> reduced p c \<Longrightarrow> reduced p (constant_linear_linear_reduction a b c p)"
  by (simp add: constant_linear_linear_reduction_def Let_def reduced_remove_zero reduced_add_coefficients reduced_initialize)

lemma hm_wf_reduction: "hm_wf c \<Longrightarrow> hm_wf (constant_linear_linear_reduction a b c p)"
  by (simp add: constant_linear_linear_reduction_def Let_def remove_zero_value_coefficients_def)

lemma hm_wf_remove_zero_value: "hm_wf m \<Longrightarrow> hm_wf (remove_zero_value_coefficients m)"
  by (simp add: remove_zero_value_coefficients_def)

lemma con_ok_fix: "0 < p \<Longrightarrow> con_reduced p c \<Longrightarrow> con_ok p (fix_constraint c p)"
proof -
  assume p: "0 < p" "con_reduced p c"
  have "con_reduced p (fix_constraint c p)"
    using p by (auto simp: fix_constraint_def Let_def con_reduced_def con_wf_def hm_wf_remove_zero_value
        reduced_remove_zero hm_wf_reduction reduced_reduction)
  moreover have "constraint_fixed (fix_constraint c p)" by (rule fix_constraint_fixed)
  ultimately show ?thesis by (auto simp: con_ok_def constraint_fixed_def)
qed

lemma keys_reduction:
  "keys_of (constant_linear_linear_reduction a b c p) \<subseteq> insert default (keys_of b \<union> keys_of c)"
  using keys_remove_zero by (fastforce simp: constant_linear_linear_reduction_def Let_def)

lemma fix_constraint_keys:
  fixes c :: "nat constraint"
  shows "con_keys (fix_constraint c p) \<subseteq> insert 0 (con_keys c)"
proof -
  let ?z = "remove_zero_value_coefficients"
  have z: "keys_of (?z (con_a c)) \<subseteq> con_keys c" "keys_of (?z (con_b c)) \<subseteq> con_keys c" "keys_of (?z (con_c c)) \<subseteq> con_keys c"
    using keys_remove_zero by (fastforce simp: con_keys_def)+
  then have "keys_of (constant_linear_linear_reduction (?z (con_a c)) (?z (con_b c)) (?z (con_c c)) p) \<subseteq> insert 0 (con_keys c)"
    "keys_of (constant_linear_linear_reduction (?z (con_b c)) (?z (con_a c)) (?z (con_c c)) p) \<subseteq> insert 0 (con_keys c)"
    using keys_reduction [of "?z (con_a c)" "?z (con_b c)" "?z (con_c c)" p]
      keys_reduction [of "?z (con_b c)" "?z (con_a c)" "?z (con_c c)" p] by auto
  with z show ?thesis by (auto simp: fix_constraint_def Let_def con_keys_def)
qed

lemma nearly_linear_linear: "is_linear c \<Longrightarrow> nearly_linear c"
  by (simp add: is_linear_def nearly_linear_def)

lemma nearly_linear_apply:
  "nearly_linear c \<Longrightarrow> sub_from s \<noteq> 0 \<Longrightarrow> nearly_linear (constraint_apply_substitution c s p)"
  by (auto simp: nearly_linear_def constraint_apply_substitution_def raw_substitution_def constant_coefficient_def
      initialize_hashmap_for_expression_def hm_or_insert_def hm_contains_def)

lemma nearly_linear_fix: "nearly_linear c \<Longrightarrow> is_linear (fix_constraint c p)"
  by (auto simp: nearly_linear_def fix_constraint_def Let_def is_linear_def remove_zero_value_coefficients_def)

section \<open>Elimination\<close>

definition eliminates :: "int \<Rightarrow> nat set \<Rightarrow> nat constraint list \<Rightarrow> nat constraint list \<Rightarrow> bool" where
  "eliminates p D A B \<longleftrightarrow>
     (\<forall>\<sigma>. assigns_one \<sigma> \<longrightarrow> all_sat p \<sigma> A \<longrightarrow> all_sat p \<sigma> B) \<and>
     (\<forall>\<sigma>. assigns_one \<sigma> \<longrightarrow> all_sat p \<sigma> B \<longrightarrow>
       (\<exists>\<tau>. assigns_one \<tau> \<and> (\<forall>k. k \<notin> D \<longrightarrow> \<tau> k = \<sigma> k) \<and> all_sat p \<tau> A))"

lemma all_sat_append [simp]: "all_sat p \<sigma> (A @ B) \<longleftrightarrow> all_sat p \<sigma> A \<and> all_sat p \<sigma> B"
  by (auto simp: all_sat_def)

lemma all_sat_concat: "all_sat p \<sigma> (concat As) \<longleftrightarrow> (\<forall>A \<in> set As. all_sat p \<sigma> A)"
  by (auto simp: all_sat_def)

lemma all_sat_mset: "mset A = mset B \<Longrightarrow> all_sat p \<sigma> A \<longleftrightarrow> all_sat p \<sigma> B"
  by (metis all_sat_def set_mset_mset)

lemma subs_hold_append [simp]: "subs_hold p \<sigma> (A @ B) \<longleftrightarrow> subs_hold p \<sigma> A \<and> subs_hold p \<sigma> B"
  by (auto simp: subs_hold_def)

lemma eliminates_same: "(\<And>\<sigma>. assigns_one \<sigma> \<Longrightarrow> all_sat p \<sigma> A \<longleftrightarrow> all_sat p \<sigma> B) \<Longrightarrow> eliminates p {} A B"
  unfolding eliminates_def by blast

lemma eliminates_trans:
  assumes "eliminates p D A B" and "eliminates p E B C"
  shows "eliminates p (D \<union> E) A C"
proof -
  have "\<exists>\<tau>. assigns_one \<tau> \<and> (\<forall>k. k \<notin> D \<union> E \<longrightarrow> \<tau> k = \<sigma> k) \<and> all_sat p \<tau> A"
    if s: "assigns_one \<sigma>" "all_sat p \<sigma> C" for \<sigma>
  proof -
    obtain \<tau> where t: "assigns_one \<tau>" "\<forall>k. k \<notin> E \<longrightarrow> \<tau> k = \<sigma> k" "all_sat p \<tau> B"
      using assms(2) s unfolding eliminates_def by blast
    then obtain \<rho> where "assigns_one \<rho>" "\<forall>k. k \<notin> D \<longrightarrow> \<rho> k = \<tau> k" "all_sat p \<rho> A"
      using assms(1) unfolding eliminates_def by blast
    with t(2) show ?thesis by (intro exI [of _ \<rho>]) simp
  qed
  then show ?thesis using assms unfolding eliminates_def by blast
qed

lemma eliminates_mono: "eliminates p D A B \<Longrightarrow> D \<subseteq> E \<Longrightarrow> eliminates p E A B"
  unfolding eliminates_def by (meson subsetD)

text \<open>Substitutions that do not depend on each other and do not occur in the rest.\<close>

definition subs_independent :: "nat substitution list \<Rightarrow> bool" where
  "subs_independent ss \<longleftrightarrow> distinct (map sub_from ss) \<and> 0 \<notin> sub_from ` set ss \<and>
     (\<forall>s \<in> set ss. hm_wf (sub_to s) \<and> keys_of (sub_to s) \<inter> sub_from ` set ss = {})"

lemma lin_agree: "(\<And>k. k \<in> keys_of m \<Longrightarrow> \<sigma> k = \<tau> k) \<Longrightarrow> lin \<sigma> m = lin \<tau> m"
  by (induction m) (auto simp: lin_def)

lemma sat_agree: "(\<And>k. k \<in> con_keys c \<Longrightarrow> \<sigma> k = \<tau> k) \<Longrightarrow> sat p \<sigma> c \<longleftrightarrow> sat p \<tau> c"
  using lin_agree [of "con_a c" \<sigma> \<tau>] lin_agree [of "con_b c" \<sigma> \<tau>] lin_agree [of "con_c c" \<sigma> \<tau>]
  by (simp add: sat_def con_keys_def)

lemma subs_solution:
  assumes "subs_independent ss" and "assigns_one \<sigma>"
  shows "\<exists>\<tau>. assigns_one \<tau> \<and> (\<forall>k. k \<notin> sub_from ` set ss \<longrightarrow> \<tau> k = \<sigma> k) \<and> subs_hold p \<tau> ss"
proof -
  let ?m = "map_of (map (\<lambda>s. (sub_from s, lin \<sigma> (sub_to s))) ss)"
  let ?\<tau> = "\<lambda>k. case ?m k of None \<Rightarrow> \<sigma> k | Some v \<Rightarrow> v"
  have out: "?\<tau> k = \<sigma> k" if "k \<notin> sub_from ` set ss" for k
  proof -
    have "?m k = None" using that by (force simp: map_of_eq_None_iff)
    then show ?thesis by simp
  qed
  have "sub_holds p ?\<tau> s" if s: "s \<in> set ss" for s
  proof -
    have "distinct (map fst (map (\<lambda>s. (sub_from s, lin \<sigma> (sub_to s))) ss))"
      using assms(1) by (simp add: subs_independent_def comp_def)
    then have "?m (sub_from s) = Some (lin \<sigma> (sub_to s))" using s by (intro map_of_is_SomeI) auto
    moreover have "keys_of (sub_to s) \<inter> sub_from ` set ss = {}" using assms(1) s by (simp add: subs_independent_def)
    then have "lin ?\<tau> (sub_to s) = lin \<sigma> (sub_to s)" by (intro lin_agree out) blast
    ultimately show ?thesis by (simp add: sub_holds_def)
  qed
  moreover have "?\<tau> default = \<sigma> default"
    using assms(1) by (intro out) (simp add: subs_independent_def)
  then have "assigns_one ?\<tau>" using assms(2) by (simp only: assigns_one_def)
  ultimately show ?thesis using out unfolding subs_hold_def by blast
qed

lemma eliminates_subs:
  assumes "subs_independent ss"
    and "\<And>\<sigma>. assigns_one \<sigma> \<Longrightarrow> all_sat p \<sigma> A \<longleftrightarrow> subs_hold p \<sigma> ss \<and> all_sat p \<sigma> B"
    and "\<And>c. c \<in> set B \<Longrightarrow> con_keys c \<inter> sub_from ` set ss = {}"
  shows "eliminates p (sub_from ` set ss) A B"
proof -
  have "\<exists>\<tau>. assigns_one \<tau> \<and> (\<forall>k. k \<notin> sub_from ` set ss \<longrightarrow> \<tau> k = \<sigma> k) \<and> all_sat p \<tau> A"
    if s: "assigns_one \<sigma>" "all_sat p \<sigma> B" for \<sigma>
  proof -
    obtain \<tau> where t: "assigns_one \<tau>" "\<forall>k. k \<notin> sub_from ` set ss \<longrightarrow> \<tau> k = \<sigma> k" "subs_hold p \<tau> ss"
      using subs_solution [OF assms(1) s(1)] by blast
    have "sat p \<tau> c" if "c \<in> set B" for c
    proof -
      have "\<tau> k = \<sigma> k" if "k \<in> con_keys c" for k using assms(3) [OF \<open>c \<in> set B\<close>] that t(2) by blast
      then show ?thesis using sat_agree [of c \<tau> \<sigma> p] s(2) \<open>c \<in> set B\<close> by (simp add: all_sat_def)
    qed
    then have "all_sat p \<tau> B" by (simp add: all_sat_def)
    then show ?thesis using t assms(2) by blast
  qed
  then show ?thesis using assms(2) unfolding eliminates_def by blast
qed

section \<open>A pass of encoded substitutions\<close>

text \<open>
  The loop \<open>for constraint in constraints { if fast_encoded_constraint_substitution(...) {
  fix_constraint(...) } }\<close>, which \<open>simplification\<close> has four times.
\<close>

definition substitute_fixing ::
    "(nat, nat arithmetic_expression) hmap \<Rightarrow> int \<Rightarrow> nat constraint \<Rightarrow> nat constraint option" where
  "substitute_fixing substitutions field constraint =
     map_option (\<lambda>(constraint, applied). if applied then fix_constraint constraint field else constraint)
       (fast_encoded_constraint_substitution constraint substitutions field)"

definition substitute_all ::
    "nat constraint list \<Rightarrow> (nat, nat arithmetic_expression) hmap \<Rightarrow> int \<Rightarrow> nat constraint list option" where
  "substitute_all constraints substitutions field = those (map (substitute_fixing substitutions field) constraints)"

lemma encoded_fold_more:
  assumes "0 < p" and "encoding_wf enc" and "con_wf c" and "set ks \<inter> {0} = {}"
    and "con_keys c \<subseteq> insert 0 Z" and "\<forall>k \<in> set ks. \<forall>e. map_of enc k = Some e \<longrightarrow> ae_keys e \<subseteq> Z"
    and "fold (\<lambda>signal acc. Option.bind acc (\<lambda>(c, applied_substitution).
         case map_of enc signal of
           Some expr \<Rightarrow>
             map_option (\<lambda>sub. (constraint_apply_substitution c sub p, True)) (substitution_new signal expr)
         | None \<Rightarrow> Some (c, applied_substitution))) ks (Some (c, a)) = Some (d, b)"
  shows "con_wf d \<and> (con_reduced p c \<longrightarrow> con_reduced p d) \<and> con_keys d \<subseteq> insert 0 Z \<and> (nearly_linear c \<longrightarrow> nearly_linear d) \<and> (\<not> b \<longrightarrow> d = c)"
  using assms(3-)
proof (induction ks arbitrary: c a)
  case (Cons k ks)
  show ?case
  proof (cases "map_of enc k")
    case None
    then show ?thesis using Cons.IH [OF Cons.prems(1) _ Cons.prems(3), of a] Cons.prems(2,4,5) by simp
  next
    case (Some e)
    obtain s where s: "substitution_new k e = Some s" "sub_from s = k" "hm_wf (sub_to s)"
      using encoding_lookup [OF assms(2) Some] by blast
    have e: "expr_wf e" "degree e \<le> 1" "k \<notin> ae_keys e"
      using assms(2) map_of_SomeD [OF Some] in_keys_of [OF map_of_SomeD [OF Some]] by (auto simp: encoding_wf_def)
    have to: "keys_of (sub_to s) \<subseteq> insert 0 (ae_keys e)"
      using substitution_new_linear [OF e] s(1) by auto
    let ?c = "constraint_apply_substitution c s p"
    have "con_keys ?c \<subseteq> insert 0 Z"
      using constraint_apply_keys [OF Cons.prems(1), of s p]
        to Cons.prems(3,4) Some by auto
    moreover have "k \<noteq> 0" using Cons.prems(2) by simp
    ultimately have "con_wf d \<and> (con_reduced p ?c \<longrightarrow> con_reduced p d) \<and> con_keys d \<subseteq> insert 0 Z \<and> (nearly_linear ?c \<longrightarrow> nearly_linear d) \<and> (\<not> b \<longrightarrow> d = ?c)"
      using Cons.IH [OF con_wf_apply [OF Cons.prems(1)], of s p True] Cons.prems(2,4,5) Some s(1) by simp
    moreover have "b"
    proof -
      have "con_wf ?c" using Cons.prems(1) by (rule con_wf_apply)
      then obtain d' b' where "fold (\<lambda>signal acc. Option.bind acc (\<lambda>(c, applied_substitution).
         case map_of enc signal of
           Some expr \<Rightarrow>
             map_option (\<lambda>sub. (constraint_apply_substitution c sub p, True)) (substitution_new signal expr)
         | None \<Rightarrow> Some (c, applied_substitution))) ks (Some (?c, True)) = Some (d', b')" "b'"
        using fast_encoded_constraint_fold [OF assms(1,2), of ?c ks True] by blast
      then show ?thesis using Cons.prems(5) Some s(1) by simp
    qed
    ultimately show ?thesis
      using nearly_linear_apply [of c s p] con_reduced_apply [OF assms(1), of c s] \<open>k \<noteq> 0\<close> s(2) by auto
  qed
qed auto

lemma set_take_cloned: "set (take_cloned_signals c) = con_keys c - {default}"
  by (auto simp: take_cloned_signals_def con_keys_def constant_coefficient_def)

text \<open>The keys a constraint can have after the pass.\<close>

definition encoded_keys :: "(nat, nat arithmetic_expression) hmap \<Rightarrow> nat set \<Rightarrow> nat set" where
  "encoded_keys enc K = insert 0 (K \<union> (\<Union>k \<in> K. case map_of enc k of None \<Rightarrow> {} | Some e \<Rightarrow> ae_keys e))"

definition substituted ::
    "int \<Rightarrow> (nat, nat arithmetic_expression) hmap \<Rightarrow> nat constraint \<Rightarrow> nat constraint \<Rightarrow> bool" where
  "substituted p enc c d \<longleftrightarrow> con_keys d \<subseteq> encoded_keys enc (con_keys c) - keys_of enc \<and>
     (\<forall>\<sigma>. assigns_one \<sigma> \<longrightarrow> encoding_holds p \<sigma> enc \<longrightarrow> (sat p \<sigma> d \<longleftrightarrow> sat p \<sigma> c))"

lemma fast_encoded_ok:
  assumes "0 < p" and "encoding_wf enc" and "con_wf c"
  shows "\<exists>d b. fast_encoded_constraint_substitution c enc p = Some (d, b) \<and> con_wf d \<and>
    (con_reduced p c \<longrightarrow> con_reduced p d) \<and>
    substituted p enc c d \<and> (nearly_linear c \<longrightarrow> nearly_linear d) \<and> (\<not> b \<longrightarrow> d = c)"
proof -
  let ?ks = "take_cloned_signals c"
  have ks: "set ?ks = con_keys c - {0}" by (simp add: set_take_cloned)
  obtain d b where d: "fast_encoded_constraint_substitution c enc p = Some (d, b)"
    "con_keys d \<inter> keys_of enc \<subseteq> con_keys c - set ?ks"
    "\<forall>\<sigma>. assigns_one \<sigma> \<longrightarrow> encoding_holds p \<sigma> enc \<longrightarrow> (sat p \<sigma> d \<longleftrightarrow> sat p \<sigma> c)"
    using fast_encoded_constraint_fold [OF assms(1,2,3), of ?ks False]
    unfolding fast_encoded_constraint_substitution_def by blast
  let ?Z = "encoded_keys enc (con_keys c)"
  have "con_keys c \<subseteq> insert 0 ?Z" by (auto simp: encoded_keys_def)
  moreover have "\<forall>k \<in> set ?ks. \<forall>e. map_of enc k = Some e \<longrightarrow> ae_keys e \<subseteq> ?Z"
    using ks by (force simp: encoded_keys_def)
  ultimately have more: "con_wf d \<and> (con_reduced p c \<longrightarrow> con_reduced p d) \<and> con_keys d \<subseteq> insert 0 ?Z \<and>
      (nearly_linear c \<longrightarrow> nearly_linear d) \<and> (\<not> b \<longrightarrow> d = c)"
    using d(1) ks unfolding fast_encoded_constraint_substitution_def
    by (intro encoded_fold_more [OF assms]) auto
  have "0 \<notin> keys_of enc" using assms(2) by (simp add: encoding_wf_def)
  then have "con_keys d \<inter> keys_of enc = {}" using d(2) ks by auto
  then have "con_keys d \<subseteq> ?Z - keys_of enc" using more by (auto simp: encoded_keys_def)
  then show ?thesis using d more by (auto simp: substituted_def)
qed

lemma substituted_fix:
  assumes "0 < p" and "encoding_wf enc" and "con_wf d" and "substituted p enc c d"
  shows "substituted p enc c (fix_constraint d p)"
proof -
  have "0 \<notin> keys_of enc" using assms(2) by (simp add: encoding_wf_def)
  then have "con_keys (fix_constraint d p) \<subseteq> encoded_keys enc (con_keys c) - keys_of enc"
    using fix_constraint_keys [of d p] assms(4) by (auto simp: substituted_def encoded_keys_def)
  then show ?thesis
    using assms(4) fix_constraint_same_solutions [OF assms(1,3)] by (auto simp: substituted_def)
qed

lemma con_wf_fix: "con_wf c \<Longrightarrow> con_wf (fix_constraint c p)"
  by (simp add: fix_constraint_def Let_def con_wf_def hm_wf_remove_zero_value hm_wf_reduction)

definition passed :: "int \<Rightarrow> (nat, nat arithmetic_expression) hmap \<Rightarrow> nat constraint \<Rightarrow> nat constraint \<Rightarrow> bool" where
  "passed p enc c d \<longleftrightarrow> con_wf d \<and> (con_ok p c \<longrightarrow> con_ok p d) \<and> substituted p enc c d \<and> (is_linear c \<longrightarrow> is_linear d)"

lemma substitute_fixing_ok:
  assumes "0 < p" and "encoding_wf enc" and "con_wf c"
  shows "\<exists>d. substitute_fixing enc p c = Some d \<and> passed p enc c d"
proof -
  obtain d b where d: "fast_encoded_constraint_substitution c enc p = Some (d, b)" "con_wf d"
    "con_reduced p c \<longrightarrow> con_reduced p d"
    "substituted p enc c d" "nearly_linear c \<longrightarrow> nearly_linear d" "\<not> b \<longrightarrow> d = c"
    using fast_encoded_ok [OF assms] by blast
  show ?thesis
  proof (cases b)
    case False
    then show ?thesis using d assms(3) by (auto simp: substitute_fixing_def passed_def)
  next
    case True
    have "con_ok p c \<longrightarrow> con_ok p (fix_constraint d p)"
      using con_ok_fix [OF assms(1)] d(3) con_ok_reduced by blast
    moreover have "is_linear c \<longrightarrow> is_linear (fix_constraint d p)"
      using d(5) nearly_linear_linear [of c] nearly_linear_fix [of d p] by blast
    ultimately show ?thesis
      using d(1,2) True substituted_fix [OF assms(1,2) d(2,4)] con_wf_fix [OF d(2)]
      by (simp add: substitute_fixing_def passed_def)
  qed
qed

lemma substitute_all_ok:
  assumes "0 < p" and "encoding_wf enc" and "\<forall>c \<in> set cs. con_wf c"
  shows "\<exists>ds. substitute_all cs enc p = Some ds \<and> list_all2 (passed p enc) cs ds"
  using assms(3)
proof (induction cs)
  case (Cons c cs)
  obtain d where "substitute_fixing enc p c = Some d" "passed p enc c d"
    using substitute_fixing_ok [OF assms(1,2), of c] Cons.prems by auto
  moreover obtain ds where "substitute_all cs enc p = Some ds" "list_all2 (passed p enc) cs ds"
    using Cons by auto
  ultimately show ?case by (auto simp: substitute_all_def)
qed (simp add: substitute_all_def)

lemma substituted_all_sat:
  "list_all2 (passed p enc) cs ds \<Longrightarrow> assigns_one \<sigma> \<Longrightarrow>
    encoding_holds p \<sigma> enc \<Longrightarrow> all_sat p \<sigma> ds \<longleftrightarrow> all_sat p \<sigma> cs"
  by (induction rule: list_all2_induct) (auto simp: passed_def substituted_def all_sat_def)

lemma list_all2_right: "list_all2 R xs ys \<Longrightarrow> y \<in> set ys \<Longrightarrow> \<exists>x \<in> set xs. R x y"
  by (induction rule: list_all2_induct) auto

text \<open>Dropping substitutions from an encoding.\<close>

lemma encoding_wf_filter:
  assumes "encoding_wf enc"
  shows "encoding_wf (filter P enc) \<and> keys_of (filter P enc) \<subseteq> keys_of enc \<and>
    (encoding_holds p \<sigma> enc \<longrightarrow> encoding_holds p \<sigma> (filter P enc))"
proof -
  have k: "keys_of (filter P enc) \<subseteq> keys_of enc" by (rule keys_of_filter_subset)
  then show ?thesis using assms unfolding encoding_wf_def encoding_holds_def
    by (auto simp del: keys_of_Cons) (blast+)?
qed

end
