(* ===== verification/Clusters.thy ===== *)
theory Clusters
  imports Constraint_Algebra "HOL-Library.Multiset"
begin

text \<open>
  The clusters of \<open>constraint_list/src/constraint_simplification.rs\<close>: constraints that share a
  signal, directly or through others, are simplified together. \<open>build_clusters\<close> is a union-find
  over the constraints in the order they come: \<open>c_to_c\<close> holds the forest, \<open>arena\<close> the clusters at
  its roots, \<open>signal_to_cluster\<close> the last constraint that used a signal. The newest constraint is
  always a root, so every pointer goes to a later constraint, which is why looking for a root
  ends.

  An index out of range, and the subtraction in \<open>merge\<close> below zero, are \<open>None\<close>.
\<close>

section \<open>Clusters\<close>

record cluster =
  cl_constraints :: "nat constraint list"
  cl_num_signals :: nat

definition cluster_default :: cluster where
  "cluster_default = \<lparr>cl_constraints = [], cl_num_signals = 0\<rparr>"

definition cluster_new :: "nat constraint \<Rightarrow> nat \<Rightarrow> cluster" where
  "cluster_new constraint num_signals =
     \<lparr>cl_constraints = cl_constraints cluster_default @ [constraint], cl_num_signals = num_signals\<rparr>"

definition cluster_merge :: "cluster \<Rightarrow> cluster \<Rightarrow> cluster option" where
  "cluster_merge c0 c1 =
     (if cl_num_signals c0 + cl_num_signals c1 = 0 then None
      else Some \<lparr>cl_constraints = cl_constraints c0 @ cl_constraints c1,
                 cl_num_signals = cl_num_signals c0 + cl_num_signals c1 - 1\<rparr>)"

definition cluster_size :: "cluster \<Rightarrow> nat" where
  "cluster_size self = length (cl_constraints self)"

section \<open>Building them\<close>

partial_function (option) find_jumps :: "nat list \<Rightarrow> nat \<Rightarrow> nat list \<Rightarrow> (nat \<times> nat list) option" where
  "find_jumps c_to_c current jumps =
     (if current < length c_to_c then
        if current \<noteq> c_to_c ! current then find_jumps c_to_c (c_to_c ! current) (jumps @ [current])
        else Some (current, jumps)
      else None)"

declare find_jumps.simps [code]

definition shrink_jumps_and_find :: "nat list \<Rightarrow> nat \<Rightarrow> (nat \<times> nat list) option" where
  "shrink_jumps_and_find c_to_c org =
     map_option (\<lambda>(current, jumps).
         (current, fold (\<lambda>redirect c_to_c. c_to_c[redirect := current]) (rev jumps) c_to_c))
       (find_jumps c_to_c org [])"

definition arena_merge ::
    "cluster option list \<times> nat list \<Rightarrow> nat \<Rightarrow> nat \<Rightarrow> (cluster option list \<times> nat list) option" where
  "arena_merge = (\<lambda>(arena, c_to_c) src dest.
     Option.bind (shrink_jumps_and_find c_to_c dest) (\<lambda>(current_dest, c_to_c).
     Option.bind (shrink_jumps_and_find c_to_c src) (\<lambda>(current_src, c_to_c).
       if current_dest < length arena \<and> current_src < length arena then
         (let c0 = (case arena ! current_dest of None \<Rightarrow> cluster_default | Some c \<Rightarrow> c);
              arena = arena[current_dest := None];
              c1 = (case arena ! current_src of None \<Rightarrow> cluster_default | Some c \<Rightarrow> c);
              arena = arena[current_src := None]
          in map_option (\<lambda>merged. (arena[current_dest := Some merged], c_to_c[current_src := current_dest]))
               (cluster_merge c0 c1))
       else None)))"

type_synonym cluster_state = "cluster option list \<times> nat list \<times> nat list"

definition visit_signal :: "nat \<Rightarrow> nat \<Rightarrow> nat \<Rightarrow> cluster_state \<Rightarrow> cluster_state option" where
  "visit_signal no_linear dest signal = (\<lambda>(arena, cluster_to_current, signal_to_cluster).
     if signal < length signal_to_cluster then
       (let prev = signal_to_cluster ! signal;
            signal_to_cluster = signal_to_cluster[signal := dest]
        in if prev < no_linear then
             map_option (\<lambda>(arena, cluster_to_current). (arena, cluster_to_current, signal_to_cluster))
               (arena_merge (arena, cluster_to_current) prev dest)
           else Some (arena, cluster_to_current, signal_to_cluster))
     else None)"

definition visit_constraint :: "nat \<Rightarrow> nat constraint \<Rightarrow> cluster_state \<Rightarrow> cluster_state option" where
  "visit_constraint no_linear constraint = (\<lambda>(arena, cluster_to_current, signal_to_cluster).
     if \<not> constraint_is_empty constraint then
       (let signals = take_cloned_signals constraint;
            dest = length arena;
            arena = arena @ [Some (cluster_new constraint (length signals))];
            cluster_to_current = cluster_to_current @ [dest]
        in fold (\<lambda>signal acc. Option.bind acc (visit_signal no_linear dest signal)) signals
             (Some (arena, cluster_to_current, signal_to_cluster)))
     else Some (arena, cluster_to_current, signal_to_cluster))"

definition build_clusters :: "nat constraint list \<Rightarrow> nat \<Rightarrow> cluster list option" where
  "build_clusters linear no_vars =
     (let no_linear = length linear
      in map_option (\<lambda>(arena, _, _).
           filter (\<lambda>c. cluster_size c \<noteq> 0) (List.map_filter (\<lambda>c. c) arena))
         (fold (\<lambda>constraint acc. Option.bind acc (visit_constraint no_linear constraint)) linear
           (Some ([], [], replicate no_vars no_linear))))"

section \<open>Lemmas: the forest\<close>

definition forest :: "nat list \<Rightarrow> bool" where
  "forest c \<longleftrightarrow> (\<forall>i < length c. i \<le> c ! i \<and> c ! i < length c)"

function root :: "nat list \<Rightarrow> nat \<Rightarrow> nat" where
  "root c i = (if i < c ! i \<and> c ! i < length c then root c (c ! i) else i)"
  by pat_completeness auto
termination by (relation "measure (\<lambda>(c, i). length c - i)") auto

declare root.simps [simp del]

lemma root_step: "forest c \<Longrightarrow> i < length c \<Longrightarrow> root c i = (if c ! i = i then i else root c (c ! i))"
  by (subst root.simps) (auto simp: forest_def order.strict_iff_order)

lemma root_bounds: "forest c \<Longrightarrow> i < length c \<Longrightarrow> i \<le> root c i \<and> root c i < length c \<and> c ! root c i = root c i"
proof (induction c i rule: root.induct)
  case (1 c i)
  show ?case
  proof (cases "c ! i = i")
    case True
    then show ?thesis using 1(2,3) by (simp add: root_step)
  next
    case False
    then have "i < c ! i" "c ! i < length c" using 1(2,3) by (auto simp: forest_def order.strict_iff_order)
    then show ?thesis using 1 False root_step [of c i] by auto
  qed
qed

lemma root_root: "forest c \<Longrightarrow> c ! i = i \<Longrightarrow> i < length c \<Longrightarrow> root c i = i"
  by (simp add: root_step)

lemma find_jumps_root:
  "forest c \<Longrightarrow> i < length c \<Longrightarrow> \<exists>js. find_jumps c i acc = Some (root c i, acc @ js) \<and>
    (\<forall>j \<in> set js. j < length c \<and> root c j = root c i)"
proof (induction c i arbitrary: acc rule: root.induct)
  case (1 c i)
  show ?case
  proof (cases "c ! i = i")
    case True
    then show ?thesis using 1(2,3) by (subst find_jumps.simps) (simp add: root_step)
  next
    case False
    then have b: "i < c ! i" "c ! i < length c" using 1(2,3) by (auto simp: forest_def order.strict_iff_order)
    obtain js where "find_jumps c (c ! i) (acc @ [i]) = Some (root c (c ! i), (acc @ [i]) @ js)"
      "\<forall>j \<in> set js. j < length c \<and> root c j = root c (c ! i)"
      using 1(1) [OF conjI [OF b] 1(2) b(2), of "acc @ [i]"] by blast
    then show ?thesis
      using False 1(2,3) by (subst find_jumps.simps) (auto simp: root_step [of c i] intro!: exI [of _ "i # js"])
  qed
qed

text \<open>Redirecting a node to its root changes no root.\<close>

lemma forest_update: "forest c \<Longrightarrow> j \<le> r \<Longrightarrow> r < length c \<Longrightarrow> forest (c[j := r])"
  by (auto simp: forest_def nth_list_update)

lemma root_redirect:
  assumes "forest c" and "j < length c" and "i < length c"
  shows "root (c[j := root c j]) i = root c i"
  using assms
proof (induction c i rule: root.induct)
  case (1 c i)
  let ?d = "c[j := root c j]"
  note rb = root_bounds [OF 1(2)]
  have d: "forest ?d" using 1(2,3) rb [OF 1(3)] by (intro forest_update) auto
  have rfix: "?d ! root c j = root c j" using rb [OF 1(3)] by (cases "j = root c j") (auto simp: nth_list_update)
  show ?case
  proof (cases "i = j")
    case True
    have "root ?d i = (if ?d ! i = i then i else root ?d (?d ! i))" using d 1(4) by (simp add: root_step)
    also have "\<dots> = root c j"
      using True 1(3) root_root [OF d rfix] rb [OF 1(3)] by auto
    finally show ?thesis using True by simp
  next
    case False
    then have di: "?d ! i = c ! i" by simp
    show ?thesis
    proof (cases "c ! i = i")
      case True
      then show ?thesis using di d 1(2,4) root_root [of ?d i] root_root [of c i] by simp
    next
      case no: False
      then have b: "i < c ! i \<and> c ! i < length c" using 1(2,4) by (auto simp: forest_def order.strict_iff_order)
      then have "root ?d (c ! i) = root c (c ! i)" using 1 by auto
      then show ?thesis using no di d 1(2,4) root_step [of ?d i] root_step [of c i] by simp
    qed
  qed
qed

lemma redirect_all:
  assumes "forest c" and "\<forall>j \<in> set js. j < length c \<and> root c j = r"
  shows "forest (fold (\<lambda>j c. c[j := r]) js c) \<and> length (fold (\<lambda>j c. c[j := r]) js c) = length c \<and>
    (\<forall>i < length c. root (fold (\<lambda>j c. c[j := r]) js c) i = root c i)"
  using assms
proof (induction js arbitrary: c)
  case (Cons j js)
  have j: "j < length c" "root c j = r" using Cons.prems(2) by auto
  have rr: "\<forall>i < length c. root (c[j := r]) i = root c i"
    using root_redirect [OF Cons.prems(1) j(1)] j(2) by simp
  moreover have "forest (c[j := r])"
    using Cons.prems(1) j root_bounds [OF Cons.prems(1) j(1)] by (intro forest_update) auto
  ultimately show ?case using Cons.IH [of "c[j := r]"] Cons.prems(2) by simp
qed simp

lemma shrink_jumps_and_find_root:
  assumes "forest c" and "i < length c"
  shows "\<exists>c'. shrink_jumps_and_find c i = Some (root c i, c') \<and> forest c' \<and> length c' = length c \<and>
    (\<forall>j < length c. root c' j = root c j)"
proof -
  obtain js where js: "find_jumps c i [] = Some (root c i, js)"
    "\<forall>j \<in> set js. j < length c \<and> root c j = root c i"
    using find_jumps_root [OF assms, of "[]"] by auto
  then show ?thesis
    using redirect_all [OF assms(1), of "rev js" "root c i"] by (simp add: shrink_jumps_and_find_def)
qed

text \<open>Linking two roots.\<close>

lemma root_link:
  assumes "forest c" and "c ! s = s" and "c ! d = d" and "s \<le> d" and "d < length c" and "i < length c"
  shows "root (c[s := d]) i = (if root c i = s then d else root c i)"
  using assms
proof (induction c i rule: root.induct)
  case (1 c i)
  let ?d = "c[s := d]"
  have f: "forest ?d" using 1(2,5,6) by (intro forest_update) auto
  have d: "?d ! d = d" using 1(4,6) by (cases "s = d") auto
  show ?case
  proof (cases "i = s")
    case True
    then have "?d ! i = d" using 1(7) by simp
    then have "root ?d i = d" using root_step [OF f, of i] root_root [OF f d] 1(6,7) by auto
    then show ?thesis using True root_root [OF 1(2)] 1(3,7) by simp
  next
    case False
    then have di: "?d ! i = c ! i" by simp
    show ?thesis
    proof (cases "c ! i = i")
      case True
      then show ?thesis using False di f 1(2,7) root_root [of ?d i] root_root [of c i] by simp
    next
      case no: False
      then have b: "i < c ! i \<and> c ! i < length c" using 1(2,7) by (auto simp: forest_def order.strict_iff_order)
      then have "root ?d (c ! i) = (if root c (c ! i) = s then d else root c (c ! i))" using 1 by auto
      then show ?thesis using no di f 1(2,7) root_step [of ?d i] root_step [of c i] by simp
    qed
  qed
qed


lemma root_fix:
  assumes "forest c" and "i < length c"
  shows "root c i = i \<longleftrightarrow> c ! i = i"

proof
  assume "root c i = i"
  then show "c ! i = i" using root_bounds [OF assms] by simp
qed (simp add: root_root assms)

section \<open>Lemmas: the state of the construction\<close>

definition sigs :: "nat constraint \<Rightarrow> nat set" where
  "sigs c = set (take_cloned_signals c)"

definition shares :: "nat constraint \<Rightarrow> nat constraint \<Rightarrow> bool" where
  "shares c d \<longleftrightarrow> sigs c \<inter> sigs d \<noteq> {}"

text \<open>Any two constraints of the list are linked by a chain of constraints that share a signal.\<close>

definition connected :: "nat constraint list \<Rightarrow> bool" where
  "connected cs \<longleftrightarrow> (\<forall>c \<in> set cs. \<forall>d \<in> set cs.
     (c, d) \<in> {(a, b). a \<in> set cs \<and> b \<in> set cs \<and> shares a b}\<^sup>*)"

lemma connected_append:
  assumes "connected xs" and "connected ys" and "a \<in> set xs" and "b \<in> set ys" and "shares a b"
  shows "connected (xs @ ys)"
proof -
  let ?R = "\<lambda>zs. {(a, b). a \<in> set zs \<and> b \<in> set zs \<and> shares a b}"
  have mono: "(?R xs)\<^sup>* \<subseteq> (?R (xs @ ys))\<^sup>*" "(?R ys)\<^sup>* \<subseteq> (?R (xs @ ys))\<^sup>*"
    by (rule rtrancl_mono; auto)+
  have ab: "(a, b) \<in> (?R (xs @ ys))\<^sup>*" "(b, a) \<in> (?R (xs @ ys))\<^sup>*"
    using assms(3-5) by (auto simp: shares_def Int_commute intro!: r_into_rtrancl)
  have to_a: "(c, a) \<in> (?R (xs @ ys))\<^sup>* \<and> (a, c) \<in> (?R (xs @ ys))\<^sup>*" if "c \<in> set (xs @ ys)" for c
  proof (cases "c \<in> set xs")
    case True
    then show ?thesis using assms(1,3) mono(1) unfolding connected_def by blast
  next
    case False
    then have "(c, b) \<in> (?R (xs @ ys))\<^sup>*" "(b, c) \<in> (?R (xs @ ys))\<^sup>*"
      using that assms(2,4) mono(2) unfolding connected_def by auto
    then show ?thesis using ab by (meson rtrancl_trans)
  qed
  show ?thesis unfolding connected_def using to_a by (meson rtrancl_trans)
qed

text \<open>The constraints of the clusters, without the number of signals.\<close>

abbreviation contents :: "cluster option list \<Rightarrow> nat constraint list option list" where
  "contents \<equiv> map (map_option cl_constraints)"

definition content :: "nat constraint list option \<Rightarrow> nat constraint list" where
  "content c = (case c of None \<Rightarrow> [] | Some cs \<Rightarrow> cs)"

lemma content_simps [simp]: "content None = []" "content (Some cs) = cs"
  by (simp_all add: content_def)

lemma mset_content_update:
  "i < length A \<Longrightarrow>
    mset (concat (map content (A[i := x]))) + mset (content (A ! i)) =
    mset (concat (map content A)) + mset (content x)"
proof (induction A arbitrary: i)
  case (Cons a A)
  show ?case
  proof (cases i)
    case 0
    then show ?thesis by simp
  next
    case (Suc k)
    then have "mset (concat (map content (A[k := x]))) + mset (content (A ! k)) =
      mset (concat (map content A)) + mset (content x)" using Cons by simp
    then show ?thesis using Suc by (simp add: add.assoc)
  qed
qed simp

text \<open>\<open>P\<close>: the signals of the newest constraint that are still to be visited.\<close>

definition cluster_inv ::
    "nat \<Rightarrow> nat set \<Rightarrow> nat constraint list \<Rightarrow> nat constraint list option list \<Rightarrow> nat list \<Rightarrow> nat list \<Rightarrow> bool" where
  "cluster_inv N P seen A c s2c \<longleftrightarrow> forest c \<and> length A = length c \<and> length c \<le> N \<and>
     (\<forall>i < length c. A ! i \<noteq> None \<longleftrightarrow> root c i = i) \<and>
     mset (concat (map content A)) = mset seen \<and>
     (\<forall>i cs. i < length c \<longrightarrow> A ! i = Some cs \<longrightarrow> cs \<noteq> [] \<and> connected cs) \<and>
     (\<forall>s < length s2c. s2c ! s = N \<or> s2c ! s < length c \<and>
       (\<exists>cs d. A ! root c (s2c ! s) = Some cs \<and> d \<in> set cs \<and> s \<in> sigs d)) \<and>
     (\<forall>i cs d s. i < length c \<longrightarrow> A ! i = Some cs \<longrightarrow> d \<in> set cs \<longrightarrow> s \<in> sigs d \<longrightarrow>
       \<not> (Suc i = length c \<and> s \<in> P) \<longrightarrow> s2c ! s < length c \<and> root c (s2c ! s) = i)"

definition newest :: "nat constraint \<Rightarrow> nat \<Rightarrow> cluster option list \<Rightarrow> nat list \<Rightarrow> bool" where
  "newest d n arena c \<longleftrightarrow> c \<noteq> [] \<and> root c (length c - 1) = length c - 1 \<and>
     (\<exists>cl. arena ! (length c - 1) = Some cl \<and> d \<in> set (cl_constraints cl) \<and> n \<le> cl_num_signals cl)"

lemma arena_merge_newest:
  assumes inv: "forest c" "length arena = length c" and "prev < length c" and "dest = length c - 1" and "c \<noteq> []"
    and "root c dest = dest" and "arena ! dest = Some cl" and "0 < cl_num_signals cl"
    and "arena ! root c prev = Some src"
  shows "\<exists>arena' c' num. arena_merge (arena, c) prev dest = Some (arena', c') \<and> forest c' \<and> length c' = length c \<and>
    (\<forall>i < length c. root c' i = (if root c i = root c prev then dest else root c i)) \<and>
    cl_num_signals cl - 1 \<le> num \<and>
    arena' = (if root c prev = dest then arena[dest := Some \<lparr>cl_constraints = cl_constraints cl, cl_num_signals = num\<rparr>]
      else arena[root c prev := None,
        dest := Some \<lparr>cl_constraints = cl_constraints cl @ cl_constraints src, cl_num_signals = num\<rparr>])"
proof -
  have dest: "dest < length c" using assms(4,5) by (cases c) auto
  obtain c1 where c1: "shrink_jumps_and_find c dest = Some (dest, c1)" "forest c1" "length c1 = length c"
    "\<forall>j < length c. root c1 j = root c j"
    using shrink_jumps_and_find_root [OF inv(1) dest] assms(6) by auto
  obtain c2 where c2: "shrink_jumps_and_find c1 prev = Some (root c prev, c2)" "forest c2" "length c2 = length c"
    "\<forall>j < length c. root c2 j = root c j"
    using shrink_jumps_and_find_root [OF c1(2), of prev] c1(3,4) assms(3) by auto
  let ?r = "root c prev"
  have r: "?r < length c" "c ! ?r = ?r" using root_bounds [OF inv(1) assms(3)] by auto
  have fixed: "c2 ! ?r = ?r" "c2 ! dest = dest"
    using root_fix [OF c2(2)] root_fix [OF inv(1)] r dest c2(3,4) assms(6) by metis+
  have link: "\<forall>i < length c. root (c2[?r := dest]) i = (if root c i = ?r then dest else root c i)"
    using root_link [OF c2(2) fixed] r(1) dest c2(3,4) assms(4) by auto
  have f: "forest (c2[?r := dest])" using c2(2,3) r(1) dest assms(4) by (intro forest_update) auto
  show ?thesis
  proof (cases "?r = dest")
    case True
    then have "arena_merge (arena, c) prev dest = Some (arena[dest := Some \<lparr>cl_constraints = cl_constraints cl,
        cl_num_signals = cl_num_signals cl - 1\<rparr>], c2[?r := dest])"
      using c1(1) c2(1) dest inv(2) assms(7,8)
      by (simp add: arena_merge_def Let_def cluster_merge_def cluster_default_def)
    then show ?thesis using True f c2(3) link
      by - (rule exI, rule exI [of _ "c2[?r := dest]"], rule exI [of _ "cl_num_signals cl - 1"], rule conjI, assumption, simp)
  next
    case False
    then have "arena_merge (arena, c) prev dest = Some (arena[?r := None, dest := Some
        \<lparr>cl_constraints = cl_constraints cl @ cl_constraints src,
         cl_num_signals = cl_num_signals cl + cl_num_signals src - 1\<rparr>], c2[?r := dest])"
      using c1(1) c2(1) dest inv(2) assms(7,8,9) r(1)
      by (simp add: arena_merge_def Let_def cluster_merge_def list_update_swap [of dest ?r])
    then show ?thesis using False f c2(3) link
      by - (rule exI, rule exI [of _ "c2[?r := dest]"],
          rule exI [of _ "cl_num_signals cl + cl_num_signals src - 1"], rule conjI, assumption, simp)
  qed
qed


lemma cluster_invI:
  assumes "forest c" and "length A = length c" and "length c \<le> N"
    and "\<And>i. i < length c \<Longrightarrow> A ! i \<noteq> None \<longleftrightarrow> root c i = i"
    and "mset (concat (map content A)) = mset seen"
    and "\<And>i cs. i < length c \<Longrightarrow> A ! i = Some cs \<Longrightarrow> cs \<noteq> [] \<and> connected cs"
    and "\<And>s. s < length s2c \<Longrightarrow> s2c ! s = N \<or> s2c ! s < length c \<and>
       (\<exists>cs d. A ! root c (s2c ! s) = Some cs \<and> d \<in> set cs \<and> s \<in> sigs d)"
    and "\<And>i cs d s. i < length c \<Longrightarrow> A ! i = Some cs \<Longrightarrow> d \<in> set cs \<Longrightarrow> s \<in> sigs d \<Longrightarrow>
       \<not> (Suc i = length c \<and> s \<in> P) \<Longrightarrow> s2c ! s < length c \<and> root c (s2c ! s) = i"
  shows "cluster_inv N P seen A c s2c"
  unfolding cluster_inv_def using assms by simp

lemma cluster_invD:
  assumes "cluster_inv N P seen A c s2c"
  shows "forest c" "length A = length c" "length c \<le> N"
    "i < length c \<Longrightarrow> A ! i \<noteq> None \<longleftrightarrow> root c i = i"
    "mset (concat (map content A)) = mset seen"
    "i < length c \<Longrightarrow> A ! i = Some cs \<Longrightarrow> cs \<noteq> [] \<and> connected cs"
    "s < length s2c \<Longrightarrow> s2c ! s = N \<or> s2c ! s < length c \<and>
       (\<exists>cs d. A ! root c (s2c ! s) = Some cs \<and> d \<in> set cs \<and> s \<in> sigs d)"
    "i < length c \<Longrightarrow> A ! i = Some cs \<Longrightarrow> d \<in> set cs \<Longrightarrow> s \<in> sigs d \<Longrightarrow>
       \<not> (Suc i = length c \<and> s \<in> P) \<Longrightarrow> s2c ! s < length c \<and> root c (s2c ! s) = i"
  using assms unfolding cluster_inv_def by metis+

text \<open>A signal seen for the first time, or last seen in the newest cluster itself.\<close>

lemma visit_same:
  assumes inv: "cluster_inv N P seen A c s2c"
    and dest: "Suc dest = length c" "root c dest = dest"
    and new: "A ! dest = Some ds" "d \<in> set ds"
    and s: "s < length s2c" "s \<in> sigs d"
    and prev: "s2c ! s = N \<or> root c (s2c ! s) = dest"
    and c': "forest c'" "length c' = length c" "\<forall>i < length c. root c' i = root c i"
  shows "cluster_inv N (P - {s}) seen A c' (s2c[s := dest])"
proof (rule cluster_invI)
  note I = cluster_invD [OF inv]
  show "forest c'" "length A = length c'" "length c' \<le> N" using c' I by auto
  show "mset (concat (map content A)) = mset seen" by (rule I(5))
  fix i assume i: "i < length c'"
  then have i': "i < length c" using c' by simp
  show "(A ! i \<noteq> None) = (root c' i = i)" using i' c' I(4) by simp
  fix cs assume a: "A ! i = Some cs"
  show "cs \<noteq> [] \<and> connected cs" by (rule I(6) [OF i' a])
  fix e t assume e: "e \<in> set cs" "t \<in> sigs e" and "\<not> (Suc i = length c' \<and> t \<in> P - {s})"
  then have nt: "t = s \<or> \<not> (Suc i = length c \<and> t \<in> P)" using c' by auto
  show "s2c[s := dest] ! t < length c' \<and> root c' (s2c[s := dest] ! t) = i"
  proof (cases "t = s")
    case False
    then have "s2c ! t < length c \<and> root c (s2c ! t) = i" using I(8) [OF i' a e] nt by blast
    then show ?thesis using c' False by simp
  next
    case True
    have "i = dest"
    proof (cases "Suc i = length c")
      case False
      then have "s2c ! s < length c \<and> root c (s2c ! s) = i" using I(8) [OF i' a e] True by blast
      then show ?thesis using prev I(3) by auto
    qed (use dest in simp)
    then show ?thesis using True s(1) c' dest i' by simp
  qed
next
  note I = cluster_invD [OF inv]
  fix t assume t: "t < length (s2c[s := dest])"
  show "s2c[s := dest] ! t = N \<or> s2c[s := dest] ! t < length c' \<and>
      (\<exists>cs e. A ! root c' (s2c[s := dest] ! t) = Some cs \<and> e \<in> set cs \<and> t \<in> sigs e)"
  proof (cases "t = s")
    case True
    then show ?thesis using s dest new c' by auto
  next
    case False
    then have "s2c ! t = N \<or> s2c ! t < length c \<and>
       (\<exists>cs d. A ! root c (s2c ! t) = Some cs \<and> d \<in> set cs \<and> t \<in> sigs d)"
      using I(7) t by simp
    then show ?thesis using False c' by auto
  qed
qed

text \<open>A signal last seen in another cluster \<open>r\<close>, which is merged into the newest.\<close>

lemma visit_merge:
  assumes inv: "cluster_inv N P seen A c s2c"
    and dest: "Suc dest = length c" "root c dest = dest"
    and new: "A ! dest = Some ds" "d \<in> set ds"
    and s: "s < length s2c" "s \<in> sigs d"
    and prev: "s2c ! s < length c" "r = root c (s2c ! s)" "r \<noteq> dest"
    and src: "A ! r = Some rs" "e \<in> set rs" "s \<in> sigs e"
    and c': "forest c'" "length c' = length c" "\<forall>i < length c. root c' i = (if root c i = r then dest else root c i)"
  shows "cluster_inv N (P - {s}) seen (A[r := None, dest := Some (ds @ rs)]) c' (s2c[s := dest])"
proof (rule cluster_invI)
  let ?A = "A[r := None, dest := Some (ds @ rs)]"
  note I = cluster_invD [OF inv]
  have r: "r < length c" "root c r = r" using root_bounds [OF I(1) prev(1)] root_root [OF I(1)] prev(2) by auto
  have dl: "dest < length c" using dest by simp
  show "forest c'" "length ?A = length c'" "length c' \<le> N" using c' I by auto
  have "mset (concat (map content ?A)) + mset ds = mset (concat (map content (A[r := None]))) + mset (ds @ rs)"
    using mset_content_update [of dest "A[r := None]" "Some (ds @ rs)"] dl I(2) new prev(3) by simp
  moreover have "mset (concat (map content (A[r := None]))) + mset rs = mset (concat (map content A))"
    using mset_content_update [of r A None] r I(2) src by simp
  ultimately show "mset (concat (map content ?A)) = mset seen" using I(5) by (simp add: ac_simps)
  fix i assume i: "i < length c'"
  then have i': "i < length c" using c' by simp
  show "(?A ! i \<noteq> None) = (root c' i = i)"
    using i' c' I(2) I(4) [OF i'] dl r prev(3) dest(2) by (auto simp: nth_list_update)
  fix cs assume a: "?A ! i = Some cs"
  have conn: "ds \<noteq> [] \<and> connected ds" "connected rs" using I(6) [OF dl new(1)] I(6) [OF r(1) src(1)] by auto
  have "connected (ds @ rs)"
    using s(2) src(3) by (intro connected_append [OF conn(1) [THEN conjunct2] conn(2) new(2) src(2)]) (auto simp: shares_def)
  then show "cs \<noteq> [] \<and> connected cs"
    using a i' I(2) I(6) [OF i'] conn dl r(1) by (cases "i = dest"; cases "i = r") auto
  fix f t assume f: "f \<in> set cs" "t \<in> sigs f" and "\<not> (Suc i = length c' \<and> t \<in> P - {s})"
  then have nt: "t = s \<or> \<not> (Suc i = length c \<and> t \<in> P)" using c' by auto
  show "s2c[s := dest] ! t < length c' \<and> root c' (s2c[s := dest] ! t) = i"
  proof (cases "i = dest")
    case True
    then have cs: "cs = ds @ rs" using a I(2) dl by simp
    show ?thesis
    proof (cases "t = s")
      case False
      then have tp: "t \<notin> P" using nt True dest(1) by simp
      have "s2c ! t < length c \<and> (root c (s2c ! t) = dest \<or> root c (s2c ! t) = r)"
      proof (cases "f \<in> set ds")
        case True
        then show ?thesis using I(8) [OF dl new(1) True f(2)] tp by simp
      next
        case no: False
        then have "f \<in> set rs" using f cs by simp
        then show ?thesis using I(8) [OF r(1) src(1) _ f(2)] tp by simp
      qed
      then show ?thesis using c' False True by auto
    qed (use s(1) c' dest dl True prev(3) in simp)
  next
    case False
    then have ai: "A ! i = Some cs" "i \<noteq> r" using a I(2) i' by (cases "i = r"; simp)+
    have "s2c ! t < length c \<and> root c (s2c ! t) = i"
      using I(8) [OF i' ai(1) f] False dest(1) by auto
    then show ?thesis using c' ai(2) prev(2) by (cases "t = s") auto
  qed
next
  note I = cluster_invD [OF inv]
  let ?A = "A[r := None, dest := Some (ds @ rs)]"
  have dl: "dest < length c" using dest by simp
  fix t assume t: "t < length (s2c[s := dest])"
  show "s2c[s := dest] ! t = N \<or> s2c[s := dest] ! t < length c' \<and>
      (\<exists>cs e. ?A ! root c' (s2c[s := dest] ! t) = Some cs \<and> e \<in> set cs \<and> t \<in> sigs e)"
  proof (cases "t = s")
    case True
    then show ?thesis using s dest new c' prev(3) dl I(2) by auto
  next
    case False
    then have "s2c ! t = N \<or> s2c ! t < length c \<and>
       (\<exists>cs d. A ! root c (s2c ! t) = Some cs \<and> d \<in> set cs \<and> t \<in> sigs d)"
      using I(7) t by simp
    then show ?thesis
    proof (elim disjE conjE exE)
      fix cs g assume g: "s2c ! t < length c" "A ! root c (s2c ! t) = Some cs" "g \<in> set cs" "t \<in> sigs g"
      have rb: "root c (s2c ! t) < length c" using root_bounds [OF I(1) g(1)] by simp
      consider "root c (s2c ! t) = r" | "root c (s2c ! t) = dest" | "root c (s2c ! t) \<noteq> r" "root c (s2c ! t) \<noteq> dest" by blast
      then show ?thesis
      proof cases
        case 1
        then show ?thesis using g False c' dl I(2) src(1) by auto
      next
        case 2
        then show ?thesis using g False c' dl I(2) new(1) by auto
      next
        case 3
        then show ?thesis using g False c' dl I(2) by auto
      qed
    qed (use False in simp)
  qed
qed


lemma arena_same:
  assumes "contents arena ! i = Some cs" and "i < length arena"
  obtains cl where "arena ! i = Some cl" and "cl_constraints cl = cs"
  using assms by (cases "arena ! i") auto

lemma visit_signal_inv:
  assumes inv: "cluster_inv N P seen (contents arena) c s2c" and new: "newest d n arena c"
    and dest: "dest = length c - 1" and s: "s < length s2c" "s \<in> sigs d" "0 < n"
  shows "\<exists>arena' c'. visit_signal N dest s (arena, c, s2c) = Some (arena', c', s2c[s := dest]) \<and>
    cluster_inv N (P - {s}) seen (contents arena') c' (s2c[s := dest]) \<and> newest d (n - 1) arena' c' \<and>
    length c' = length c"
proof -
  note I = cluster_invD [OF inv]
  obtain cl where cl: "arena ! dest = Some cl" "d \<in> set (cl_constraints cl)" "n \<le> cl_num_signals cl"
    and D: "Suc dest = length c" "root c dest = dest" "c \<noteq> []"
    using new dest unfolding newest_def by (cases c) auto
  have al: "length arena = length c" "dest < length arena" using I(2) D(1) by simp_all
  have C: "contents arena ! dest = Some (cl_constraints cl)" using cl(1) al by simp
  show ?thesis
  proof (cases "s2c ! s < N")
    case False
    then have N: "s2c ! s = N" using I(3) I(7) [OF s(1)] by auto
    have "cluster_inv N (P - {s}) seen (contents arena) c (s2c[s := dest])"
      using I(1) N by (intro visit_same [OF inv D(1,2) C cl(2) s(1,2)]) simp_all
    moreover have "newest d (n - 1) arena c" using new unfolding newest_def by force
    ultimately show ?thesis using False s(1) by (simp add: visit_signal_def)
  next
    case True
    then obtain rs e where pr: "s2c ! s < length c" "contents arena ! root c (s2c ! s) = Some rs" "e \<in> set rs" "s \<in> sigs e"
      using I(7) [OF s(1)] by auto
    let ?r = "root c (s2c ! s)"
    have r: "?r < length arena" using root_bounds [OF I(1) pr(1)] al by simp
    obtain src where src: "arena ! ?r = Some src" "cl_constraints src = rs" by (rule arena_same [OF pr(2) r])
    obtain arena' c' num where m: "arena_merge (arena, c) (s2c ! s) dest = Some (arena', c')" "forest c'"
      "length c' = length c" "\<forall>i < length c. root c' i = (if root c i = ?r then dest else root c i)"
      "cl_num_signals cl - 1 \<le> num"
      "arena' = (if ?r = dest then arena[dest := Some \<lparr>cl_constraints = cl_constraints cl, cl_num_signals = num\<rparr>]
        else arena[?r := None,
          dest := Some \<lparr>cl_constraints = cl_constraints cl @ cl_constraints src, cl_num_signals = num\<rparr>])"
      using arena_merge_newest [OF I(1) al(1) pr(1) dest D(3,2) cl(1) _ src(1)] s(3) cl(3) by auto
    have step: "visit_signal N dest s (arena, c, s2c) = Some (arena', c', s2c[s := dest])"
      using True s(1) m(1) by (simp add: visit_signal_def)
    have rd: "root c' dest = dest" using m(4) D by auto
    show ?thesis
    proof (cases "?r = dest")
      case same: True
      have "contents arena' = contents arena"
        using m(6) same C al by (simp add: map_update list_update_id) (metis C list_update_id)
      moreover have "cluster_inv N (P - {s}) seen (contents arena) c' (s2c[s := dest])"
        using same m by (intro visit_same [OF inv D(1,2) C cl(2) s(1,2)]) auto
      moreover have "newest d (n - 1) arena' c'"
        using m(3,5,6) same al cl rd D dest unfolding newest_def by auto
      ultimately show ?thesis using step m(3) by auto
    next
      case False
      have "contents arena' = (contents arena)[?r := None, dest := Some (cl_constraints cl @ rs)]"
        using m(6) False src by (simp add: map_update)
      moreover have "cluster_inv N (P - {s}) seen ((contents arena)[?r := None, dest := Some (cl_constraints cl @ rs)]) c' (s2c[s := dest])"
        using False m by (intro visit_merge [OF inv D(1,2) C cl(2) s(1,2) pr(1) refl False pr(2-4)]) auto
      moreover have "newest d (n - 1) arena' c'"
        using m(3,5,6) False al cl rd D dest unfolding newest_def by auto
      ultimately show ?thesis using step m(3) by auto
    qed
  qed
qed

lemma visit_signals_inv:
  assumes "cluster_inv N P seen (contents arena) c s2c" and "newest d (length ss) arena c"
    and "dest = length c - 1" and "\<forall>s \<in> set ss. s < length s2c \<and> s \<in> sigs d"
  shows "\<exists>arena' c' s2c'. fold (\<lambda>signal acc. Option.bind acc (visit_signal N dest signal)) ss (Some (arena, c, s2c)) =
      Some (arena', c', s2c') \<and>
    cluster_inv N (P - set ss) seen (contents arena') c' s2c' \<and> length c' = length c \<and> length s2c' = length s2c"
  using assms
proof (induction ss arbitrary: P arena c s2c)
  case (Cons s ss)
  obtain arena' c' where s: "visit_signal N dest s (arena, c, s2c) = Some (arena', c', s2c[s := dest])"
    "cluster_inv N (P - {s}) seen (contents arena') c' (s2c[s := dest])" "newest d (length ss) arena' c'"
    "length c' = length c"
    using visit_signal_inv [OF Cons.prems(1,2,3), of s] Cons.prems(4) by auto
  have "P - {s} - set ss = P - set (s # ss)" by auto
  then show ?case using Cons.IH [OF s(2,3)] s(1,4) Cons.prems(3,4) by (simp del: set_simps) auto
qed auto

section \<open>Lemmas: all the constraints\<close>

lemma forest_snoc: "forest c \<Longrightarrow> forest (c @ [length c])"
  by (auto simp: forest_def nth_append less_Suc_eq)

lemma root_snoc: "forest c \<Longrightarrow> i < length c \<Longrightarrow> root (c @ [length c]) i = root c i"
proof (induction c i rule: root.induct)
  case (1 c i)
  show ?case
  proof (cases "c ! i = i")
    case True
    then show ?thesis using 1(2,3) forest_snoc [OF 1(2)] by (simp add: root_root nth_append)
  next
    case False
    then have b: "i < c ! i \<and> c ! i < length c" using 1(2,3) by (auto simp: forest_def order.strict_iff_order)
    then have "root (c @ [length c]) (c ! i) = root c (c ! i)" using 1 by auto
    then show ?thesis
      using False 1(2,3) forest_snoc [OF 1(2)] root_step [of "c @ [length c]" i] root_step [of c i]
      by (simp add: nth_append)
  qed
qed

lemma root_last: "forest c \<Longrightarrow> root (c @ [length c]) (length c) = length c"
  by (rule root_root) (simp_all add: forest_snoc nth_append)

lemma connected_single: "connected [d]"
  by (simp add: connected_def)

lemma push_inv:
  assumes inv: "cluster_inv N {} seen A c s2c" and "length c < N"
  shows "cluster_inv N (sigs d) (seen @ [d]) (A @ [Some [d]]) (c @ [length c]) s2c"
proof (rule cluster_invI)
  note I = cluster_invD [OF inv] and f = forest_snoc [OF cluster_invD(1) [OF inv]]
  show "forest (c @ [length c])" by (rule f)
  show "length (A @ [Some [d]]) = length (c @ [length c])" "length (c @ [length c]) \<le> N" using I(2) assms(2) by auto
  show "mset (concat (map content (A @ [Some [d]]))) = mset (seen @ [d])" using I(5) by simp
  fix i assume i: "i < length (c @ [length c])"
  show "((A @ [Some [d]]) ! i \<noteq> None) = (root (c @ [length c]) i = i)"
    using i I(2) I(4) [of i] root_snoc [OF I(1), of i] root_last [OF I(1)] by (auto simp: nth_append less_Suc_eq)
  fix cs assume a: "(A @ [Some [d]]) ! i = Some cs"
  show "cs \<noteq> [] \<and> connected cs"
    using a i I(2) I(6) [of i cs] connected_single by (auto simp: nth_append less_Suc_eq split: if_splits)
  fix e t assume e: "e \<in> set cs" "t \<in> sigs e" "\<not> (Suc i = length (c @ [length c]) \<and> t \<in> sigs d)"
  have i': "i < length c" using e a i I(2) by (auto simp: nth_append less_Suc_eq split: if_splits)
  then have "A ! i = Some cs" using a I(2) by (simp add: nth_append)
  then show "s2c ! t < length (c @ [length c]) \<and> root (c @ [length c]) (s2c ! t) = i"
    using I(8) [OF i' _ e(1,2)] root_snoc [OF I(1)] by auto
next
  note I = cluster_invD [OF inv]
  fix s assume "s < length s2c"
  then show "s2c ! s = N \<or> s2c ! s < length (c @ [length c]) \<and>
      (\<exists>cs e. (A @ [Some [d]]) ! root (c @ [length c]) (s2c ! s) = Some cs \<and> e \<in> set cs \<and> s \<in> sigs e)"
    using I(7) [of s] root_snoc [OF I(1)] root_bounds [OF I(1)] I(2) by (auto simp: nth_append)
qed

lemma visit_constraint_inv:
  assumes inv: "cluster_inv N {} seen (contents arena) c s2c" and "length c < N" and "\<forall>s \<in> sigs d. s < length s2c"
  shows "\<exists>arena' c' s2c'. visit_constraint N d (arena, c, s2c) = Some (arena', c', s2c') \<and>
    cluster_inv N {} (if constraint_is_empty d then seen else seen @ [d]) (contents arena') c' s2c' \<and>
    length c' \<le> Suc (length c) \<and> length s2c' = length s2c"
proof (cases "constraint_is_empty d")
  case False
  let ?arena = "arena @ [Some (cluster_new d (length (take_cloned_signals d)))]"
  note I = cluster_invD [OF inv]
  have al: "length arena = length c" using I(2) by simp
  have "contents ?arena = contents arena @ [Some [d]]" by (simp add: cluster_new_def cluster_default_def)
  then have p: "cluster_inv N (sigs d) (seen @ [d]) (contents ?arena) (c @ [length c]) s2c"
    using push_inv [OF inv assms(2)] by simp
  have n: "newest d (length (take_cloned_signals d)) ?arena (c @ [length c])"
    using root_last [OF I(1)] al by (simp add: newest_def nth_append cluster_new_def cluster_default_def)
  have "sigs d - set (take_cloned_signals d) = {}" by (simp add: sigs_def)
  then show ?thesis
    using visit_signals_inv [OF p n, of "length c"] assms(3) False al by (auto simp: visit_constraint_def sigs_def Let_def)
qed (use assms in \<open>auto simp: visit_constraint_def\<close>)

lemma visit_constraints_inv:
  assumes "cluster_inv N {} seen (contents arena) c s2c" and "length c + length ds \<le> N"
    and "\<forall>d \<in> set ds. \<forall>s \<in> sigs d. s < length s2c"
  shows "\<exists>arena' c' s2c'. fold (\<lambda>d acc. Option.bind acc (visit_constraint N d)) ds (Some (arena, c, s2c)) =
      Some (arena', c', s2c') \<and>
    cluster_inv N {} (seen @ filter (\<lambda>d. \<not> constraint_is_empty d) ds) (contents arena') c' s2c'"
  using assms
proof (induction ds arbitrary: seen arena c s2c)
  case (Cons d ds)
  obtain arena' c' s2c' where s: "visit_constraint N d (arena, c, s2c) = Some (arena', c', s2c')"
    "cluster_inv N {} (if constraint_is_empty d then seen else seen @ [d]) (contents arena') c' s2c'"
    "length c' \<le> Suc (length c)" "length s2c' = length s2c"
    using visit_constraint_inv [OF Cons.prems(1), of d] Cons.prems(2,3) by auto
  show ?case using Cons.IH [OF s(2)] s(1,3,4) Cons.prems(2,3) by (auto split: if_splits)
qed auto

definition cluster_sigs :: "cluster \<Rightarrow> nat set" where
  "cluster_sigs cl = (\<Union>d \<in> set (cl_constraints cl). sigs d)"

lemma arena_clusters: "List.map_filter (\<lambda>c. c) xs = map the (filter (\<lambda>c. c \<noteq> None) xs)"
  by (induction xs) (auto simp: List.map_filter_def)

lemma concat_contents: "concat (map content (contents xs)) = concat (map cl_constraints (map the (filter (\<lambda>c. c \<noteq> None) xs)))"
  by (induction xs) auto

lemma clusters_disjoint:
  assumes "cluster_inv N {} seen (contents arena) c s2c"
  shows "sorted_wrt (\<lambda>a b. a \<noteq> None \<longrightarrow> b \<noteq> None \<longrightarrow> cluster_sigs (the a) \<inter> cluster_sigs (the b) = {}) arena"
proof -
  note I = cluster_invD [OF assms]
  have "cluster_sigs a \<inter> cluster_sigs b = {}"
    if "i < j" "j < length arena" "arena ! i = Some a" "arena ! j = Some b" for i j a b
  proof (rule ccontr)
    assume "\<not> ?thesis"
    then obtain s d e where s: "d \<in> set (cl_constraints a)" "s \<in> sigs d" "e \<in> set (cl_constraints b)" "s \<in> sigs e"
      by (auto simp: cluster_sigs_def)
    have "root c (s2c ! s) = i" using I(8) [of i "cl_constraints a" d s] s that I(2) by simp
    moreover have "root c (s2c ! s) = j" using I(8) [of j "cl_constraints b" e s] s that I(2) by simp
    ultimately show False using that(1) by simp
  qed
  then show ?thesis by (auto simp: sorted_wrt_iff_nth_less)
qed

lemma build_clusters_total:
  assumes "\<forall>d \<in> set linear. \<forall>s \<in> sigs d. s < no_vars"
  shows "\<exists>clusters. build_clusters linear no_vars = Some clusters \<and>
    mset (concat (map cl_constraints clusters)) = mset (filter (\<lambda>d. \<not> constraint_is_empty d) linear) \<and>
    (\<forall>cl \<in> set clusters. cl_constraints cl \<noteq> [] \<and> connected (cl_constraints cl)) \<and>
    sorted_wrt (\<lambda>a b. cluster_sigs a \<inter> cluster_sigs b = {}) clusters"
proof -
  let ?N = "length linear"
  have "cluster_inv ?N {} [] (contents []) [] (replicate no_vars ?N)"
    by (rule cluster_invI) (simp_all add: forest_def)
  then obtain arena c s2c where f: "fold (\<lambda>d acc. Option.bind acc (visit_constraint ?N d)) linear
      (Some ([], [], replicate no_vars ?N)) = Some (arena, c, s2c)"
    "cluster_inv ?N {} (filter (\<lambda>d. \<not> constraint_is_empty d) linear) (contents arena) c s2c"
    using visit_constraints_inv [of ?N "[]" "[]" "[]" "replicate no_vars ?N" linear] assms by auto
  note I = cluster_invD [OF f(2)]
  let ?cs = "map the (filter (\<lambda>c. c \<noteq> None) arena)"
  have ne: "cl_constraints cl \<noteq> [] \<and> connected (cl_constraints cl)" if "cl \<in> set ?cs" for cl
  proof -
    obtain i where "i < length arena" "arena ! i = Some cl" using \<open>cl \<in> set ?cs\<close> by (auto simp: in_set_conv_nth)
    then show ?thesis using I(2) I(6) [of i "cl_constraints cl"] by simp
  qed
  then have "filter (\<lambda>c. cluster_size c \<noteq> 0) ?cs = ?cs" by (intro filter_True) (simp add: cluster_size_def)
  then have "build_clusters linear no_vars = Some ?cs" using f(1) by (simp add: build_clusters_def arena_clusters)
  moreover have "sorted_wrt (\<lambda>a b. cluster_sigs a \<inter> cluster_sigs b = {}) ?cs"
    using clusters_disjoint [OF f(2)] unfolding sorted_wrt_map
    by (rule sorted_wrt_mono_rel [rotated, OF sorted_wrt_filter]) auto
  ultimately show ?thesis using ne I(5) concat_contents [of arena] by metis
qed


section \<open>Properties\<close>

text \<open>C10: \<open>build_clusters\<close> returns for every list of constraints over signals below \<open>no_vars\<close>: no index
  is out of range, no search for a root runs forever and the count of signals never goes below
  zero. The clusters hold the constraints that are not empty, each as often as the list does; the
  constraints of one cluster are linked by shared signals, and two clusters share none, so they can
  be simplified apart.\<close>

theorem build_clusters_correct:
  assumes "\<forall>d \<in> set linear. \<forall>s \<in> sigs d. s < no_vars"
  shows "\<exists>clusters. build_clusters linear no_vars = Some clusters \<and>
    mset (concat (map cl_constraints clusters)) = mset (filter (\<lambda>d. \<not> constraint_is_empty d) linear) \<and>
    (\<forall>cl \<in> set clusters. cl_constraints cl \<noteq> [] \<and> connected (cl_constraints cl)) \<and>
    sorted_wrt (\<lambda>a b. cluster_sigs a \<inter> cluster_sigs b = {}) clusters"
  using assms by (rule build_clusters_total)

definition three_equalities :: "nat constraint list" where
  "three_equalities = [
     \<lparr>con_a = [], con_b = [], con_c = [(1, 1), (2, 6)]\<rparr>,
     constraint_empty,
     \<lparr>con_a = [], con_b = [], con_c = [(3, 1), (4, 6)]\<rparr>,
     \<lparr>con_a = [], con_b = [], con_c = [(5, 1), (2, 6)]\<rparr>]"

theorem build_clusters_correct_witness:
  "(\<exists>clusters. build_clusters three_equalities 6 = Some clusters \<and>
      mset (concat (map cl_constraints clusters)) = mset (filter (\<lambda>d. \<not> constraint_is_empty d) three_equalities)) \<and>
    map_option (map cluster_size) (build_clusters three_equalities 6) = Some [1, 2]"
proof -
  have "\<forall>d \<in> set three_equalities. \<forall>s \<in> sigs d. s < 6" by code_simp
  moreover have "map_option (map cluster_size) (build_clusters three_equalities 6) = Some [1, 2]" by code_simp
  ultimately show ?thesis using build_clusters_correct [of three_equalities 6] by blast
qed

end
