(* ===== verification/Simplification_Phases.thy ===== *)
theory Simplification_Phases
  imports Solution_Equivalence Clusters
begin

text \<open>
  The phases of \<open>constraint_list/src/constraint_simplification.rs\<close> that work on linear constraints:
  \<open>eq_simplification\<close> for equalities of signals, \<open>constant_eq_simplification\<close> for equalities of a
  signal and a constant, \<open>linear_simplification\<close> for the rest. Clusters of more than one constraint
  are simplified by a thread pool and their results arrive in any order: the function
  \<open>arrivals\<close> puts the numbers of the clusters handed to the pool in the order in which they
  arrive. A panic, in a thread too, is
  \<open>None\<close>; the log of substitutions is left out.
\<close>

section \<open>Equalities\<close>

text \<open>\<open>BTreeSet::insert\<close> and \<open>HashSet::insert\<close> of sets that are iterated.\<close>

definition hs_insert :: "nat \<Rightarrow> nat list \<Rightarrow> nat list" where
  "hs_insert x xs = (if x \<in> set xs then xs else xs @ [x])"

definition bs_insert :: "nat \<Rightarrow> nat list \<Rightarrow> nat list" where
  "bs_insert x xs = (if x \<in> set xs then xs else insort x xs)"

definition update_min :: "nat \<Rightarrow> nat option \<Rightarrow> nat option" where
  "update_min signal m = Some (case m of None \<Rightarrow> signal | Some s \<Rightarrow> min s signal)"

type_synonym eq_sets = "(nat list \<times> nat option) \<times> (nat list \<times> nat option)"

definition collect_eq_signal :: "nat set \<Rightarrow> nat \<Rightarrow> eq_sets \<Rightarrow> eq_sets" where
  "collect_eq_signal forbid signal = (\<lambda>((remains, min_remains), (remove, min_remove)).
     if signal \<in> forbid then
       ((bs_insert signal remains, update_min signal min_remains), (remove, min_remove))
     else ((remains, min_remains), (hs_insert signal remove, update_min signal min_remove)))"

definition eq_cluster_simplification ::
    "cluster \<Rightarrow> nat set \<Rightarrow> int \<Rightarrow> (nat substitution list \<times> nat constraint list) option" where
  "eq_cluster_simplification cluster forbid field =
     (if cluster_size cluster = 1 then
        (let constraint = last (cl_constraints cluster);
             signals = take_cloned_signals_ordered constraint
         in if length signals < 2 then None else
            (let s_0 = signals ! 0; s_1 = signals ! 1
             in if s_0 \<in> forbid \<and> s_1 \<in> forbid then Some ([], [constraint])
                else if s_0 \<in> forbid then
                  map_option (\<lambda>sub. ([sub], [])) (substitution_new s_1 (Signal s_0))
                else if s_1 \<in> forbid then
                  map_option (\<lambda>sub. ([sub], [])) (substitution_new s_0 (Signal s_1))
                else
                  (let (l, r) = (if s_0 > s_1 then (s_0, s_1) else (s_1, s_0))
                   in map_option (\<lambda>sub. ([sub], [])) (substitution_new l (Signal r)))))
      else
        (let ((remains, min_remains), (remove, min_remove)) =
               fold (\<lambda>c sets. fold (collect_eq_signal forbid) (take_cloned_signals_ordered c) sets)
                 (cl_constraints cluster) (([], None), ([], None))
         in Option.bind
              (case min_remains of
                 Some signal \<Rightarrow> Some (signal, remove1 signal remains, remove)
               | None \<Rightarrow> map_option (\<lambda>signal. (signal, remains, remove1 signal remove)) min_remove)
              (\<lambda>(rh_signal, remains, remove).
            Option.bind (those (map (\<lambda>signal.
                Option.bind (ae_sub (Signal signal) (Signal rh_signal) field) (\<lambda>expr.
                  transform_expression_to_constraint_form expr field)) remains)) (\<lambda>cons.
            Option.bind (those (map (\<lambda>signal. substitution_new signal (Signal rh_signal)) remove)) (\<lambda>subs.
              Some (subs, cons))))))"

definition eq_simplification ::
    "(nat list \<Rightarrow> nat list) \<Rightarrow> nat constraint list \<Rightarrow> nat set \<Rightarrow> nat \<Rightarrow> int \<Rightarrow>
      (nat substitution list \<times> nat constraint list) option" where
  "eq_simplification arrivals equalities forbid no_vars field =
     Option.bind (build_clusters equalities no_vars) (\<lambda>clusters.
     Option.bind (those (map (\<lambda>cluster. eq_cluster_simplification cluster forbid field) clusters)) (\<lambda>results.
       (let single = filter (\<lambda>i. cluster_size (clusters ! i) = 1) [0..<length clusters];
            pool = filter (\<lambda>i. cluster_size (clusters ! i) \<noteq> 1) [0..<length clusters];
            substitutions = concat (map (\<lambda>i. fst (results ! i)) (single @ arrivals pool));
            constraints = concat (map snd results)
        in Some (substitutions, constraints))))"

section \<open>Constants and linear constraints\<close>

definition constant_eq_step ::
    "inverse_fn \<Rightarrow> nat set \<Rightarrow> int \<Rightarrow> nat constraint \<Rightarrow> nat substitution list \<times> nat constraint list \<Rightarrow>
      (nat substitution list \<times> nat constraint list) option" where
  "constant_eq_step minv forbid field constraint = (\<lambda>(subs, cons).
     (let signals = take_cloned_signals_ordered constraint
      in if signals = [] then None else
         (let signal = last signals
          in if signal \<in> forbid then Some (subs, cons @ [constraint])
             else map_option (\<lambda>sub. (subs @ [sub], cons)) (clear_signal_from_linear minv constraint signal field))))"

definition constant_eq_simplification ::
    "inverse_fn \<Rightarrow> nat constraint list \<Rightarrow> nat set \<Rightarrow> int \<Rightarrow> (nat substitution list \<times> nat constraint list) option" where
  "constant_eq_simplification minv c_eq forbid field =
     fold (\<lambda>constraint acc. Option.bind acc (constant_eq_step minv forbid field constraint)) c_eq (Some ([], []))"

definition linear_simplification ::
    "inverse_fn \<Rightarrow> (nat list \<Rightarrow> nat list) \<Rightarrow> nat constraint list \<Rightarrow> nat set \<Rightarrow> nat \<Rightarrow> int \<Rightarrow> bool \<Rightarrow>
      (nat substitution list \<times> nat constraint list) option" where
  "linear_simplification minv arrivals linear forbid no_labels field old_heuristics =
     Option.bind (build_clusters linear no_labels) (\<lambda>clusters.
     Option.bind (those (map (\<lambda>cluster. full_simplification minv
         \<lparr>cfg_field = field, cfg_constraints = cl_constraints cluster, cfg_forbidden = forbid,
          cfg_num_signals = cl_num_signals cluster, use_old_heuristics = old_heuristics\<rparr>) clusters)) (\<lambda>results.
       (let pool = [0..<length clusters]
        in Some (concat (map (\<lambda>i. simp_substitutions (results ! i)) (arrivals pool)),
                 concat (map (\<lambda>i. simp_constraints (results ! i)) (arrivals pool))))))"

section \<open>Lemmas: what a phase promises\<close>

definition phase_ok :: "int \<Rightarrow> nat set \<Rightarrow> nat constraint list \<Rightarrow> nat substitution list \<Rightarrow> nat constraint list \<Rightarrow> bool" where
  "phase_ok p F cs subs cons \<longleftrightarrow>
     (\<forall>\<sigma>. assigns_one \<sigma> \<longrightarrow> (all_sat p \<sigma> cs \<longleftrightarrow> subs_hold p \<sigma> subs \<and> all_sat p \<sigma> cons)) \<and>
     subs_independent subs \<and> sub_from ` set subs \<inter> F = {} \<and> sub_from ` set subs \<subseteq> signals_of cs \<and>
     (\<forall>s \<in> set subs. keys_of (sub_to s) \<subseteq> signals_of cs) \<and>
     (\<forall>c \<in> set cons. con_wf c \<and> con_keys c \<subseteq> F)"

lemma phase_okI:
  assumes "\<And>\<sigma>. assigns_one \<sigma> \<Longrightarrow> all_sat p \<sigma> cs \<longleftrightarrow> subs_hold p \<sigma> subs \<and> all_sat p \<sigma> cons"
    and "subs_independent subs" and "sub_from ` set subs \<inter> F = {}" and "sub_from ` set subs \<subseteq> signals_of cs"
    and "\<And>s. s \<in> set subs \<Longrightarrow> keys_of (sub_to s) \<subseteq> signals_of cs"
    and "\<And>c. c \<in> set cons \<Longrightarrow> con_wf c \<and> con_keys c \<subseteq> F"
  shows "phase_ok p F cs subs cons"
  unfolding phase_ok_def by (intro conjI allI ballI impI; (rule assms)?) (use assms(6) in auto)

lemma phase_okD:
  assumes "phase_ok p F cs subs cons"
  shows "assigns_one \<sigma> \<Longrightarrow> all_sat p \<sigma> cs \<longleftrightarrow> subs_hold p \<sigma> subs \<and> all_sat p \<sigma> cons"
    "subs_independent subs" "sub_from ` set subs \<inter> F = {}" "sub_from ` set subs \<subseteq> signals_of cs"
    "s \<in> set subs \<Longrightarrow> keys_of (sub_to s) \<subseteq> signals_of cs"
    "c \<in> set cons \<Longrightarrow> con_wf c \<and> con_keys c \<subseteq> F"
  using assms unfolding phase_ok_def by (elim conjE, simp)+

lemma phase_ok_Nil: "phase_ok p F [] [] []"
  by (rule phase_okI) (simp_all add: subs_hold_def subs_independent_def)

lemma subs_hold_mset: "mset A = mset B \<Longrightarrow> subs_hold p \<sigma> A \<longleftrightarrow> subs_hold p \<sigma> B"
  by (metis subs_hold_def set_mset_mset)

lemma subs_independent_mset:
  assumes "mset A = mset B"
  shows "subs_independent A \<longleftrightarrow> subs_independent B"
proof -
  have "mset (map sub_from A) = mset (map sub_from B)" using assms by simp
  then have "distinct (map sub_from A) \<longleftrightarrow> distinct (map sub_from B)" by (rule mset_eq_imp_distinct_iff)
  moreover have "set A = set B" using assms by (rule mset_eq_setD)
  ultimately show ?thesis by (simp add: subs_independent_def)
qed

lemma phase_ok_change:
  assumes "phase_ok p F cs subs cons" and "\<And>\<sigma>. all_sat p \<sigma> cs' \<longleftrightarrow> all_sat p \<sigma> cs"
    and "signals_of cs \<subseteq> signals_of cs'" and "mset subs' = mset subs" and "mset cons' = mset cons"
  shows "phase_ok p F cs' subs' cons'"
proof (rule phase_okI)
  note D = phase_okD [OF assms(1)]
  have e: "set subs' = set subs" "set cons' = set cons" using assms(4,5) by (auto dest: mset_eq_setD)
  show "subs_independent subs'" using D(2) subs_independent_mset [OF assms(4)] by simp
  show "sub_from ` set subs' \<inter> F = {}" "sub_from ` set subs' \<subseteq> signals_of cs'"
    using D(3,4) assms(3) e by auto
  show "\<And>\<sigma>. assigns_one \<sigma> \<Longrightarrow> all_sat p \<sigma> cs' \<longleftrightarrow> subs_hold p \<sigma> subs' \<and> all_sat p \<sigma> cons'"
    using D(1) assms(2) subs_hold_mset [OF assms(4)] all_sat_mset [OF assms(5)] by simp
  show "\<And>s. s \<in> set subs' \<Longrightarrow> keys_of (sub_to s) \<subseteq> signals_of cs'" using D(5) assms(3) e by blast
  show "\<And>c. c \<in> set cons' \<Longrightarrow> con_wf c \<and> con_keys c \<subseteq> F" using D(6) e by blast
qed

lemma signals_of_append [simp]: "signals_of (A @ B) = signals_of A \<union> signals_of B"
  by (auto simp: signals_of_def)

lemma meet_outside: "X \<inter> Y \<subseteq> {z} \<Longrightarrow> A \<subseteq> X \<Longrightarrow> B \<subseteq> Y \<Longrightarrow> z \<notin> B \<Longrightarrow> A \<inter> B = {}"
  by blast

lemma subs_independent_append:
  assumes "subs_independent A" and "subs_independent B" and "X \<inter> Y \<subseteq> {0}"
    and "sub_from ` set A \<subseteq> X" and "sub_from ` set B \<subseteq> Y"
    and "\<And>s. s \<in> set A \<Longrightarrow> keys_of (sub_to s) \<subseteq> X" and "\<And>s. s \<in> set B \<Longrightarrow> keys_of (sub_to s) \<subseteq> Y"
  shows "subs_independent (A @ B)"
proof -
  have z: "0 \<notin> sub_from ` set A" "0 \<notin> sub_from ` set B"
    and own: "\<And>s. s \<in> set A \<Longrightarrow> hm_wf (sub_to s) \<and> keys_of (sub_to s) \<inter> sub_from ` set A = {}"
      "\<And>s. s \<in> set B \<Longrightarrow> hm_wf (sub_to s) \<and> keys_of (sub_to s) \<inter> sub_from ` set B = {}"
    and d: "distinct (map sub_from A)" "distinct (map sub_from B)"
    using assms(1,2) by (simp_all add: subs_independent_def)
  have disj: "sub_from ` set A \<inter> sub_from ` set B = {}"
    by (rule meet_outside [OF assms(3,4,5) z(2)])
  have a: "keys_of (sub_to s) \<inter> sub_from ` set B = {}" if "s \<in> set A" for s
    by (rule meet_outside [OF assms(3) assms(6) [OF that] assms(5) z(2)])
  have yx: "Y \<inter> X \<subseteq> {0}" using assms(3) by (simp only: Int_commute)
  have b: "keys_of (sub_to s) \<inter> sub_from ` set A = {}" if "s \<in> set B" for s
    by (rule meet_outside [OF yx assms(7) [OF that] assms(4) z(1)])
  have un: "sub_from ` set (A @ B) = sub_from ` set A \<union> sub_from ` set B" by (simp add: image_Un)
  have "hm_wf (sub_to s) \<and> keys_of (sub_to s) \<inter> sub_from ` set (A @ B) = {}" if s: "s \<in> set (A @ B)" for s
  proof (cases "s \<in> set A")
    case True
    then show ?thesis using own(1) [OF True] a [OF True] unfolding un by blast
  next
    case False
    then have "s \<in> set B" using s by simp
    then show ?thesis using own(2) b unfolding un by blast
  qed
  moreover have "distinct (map sub_from (A @ B))" using d disj by simp
  moreover have "0 \<notin> sub_from ` set (A @ B)" using z unfolding un by blast
  ultimately show ?thesis unfolding subs_independent_def by blast
qed

lemma phase_ok_append:
  assumes "phase_ok p F cs subs cons" and "phase_ok p F ds subt cont" and "signals_of cs \<inter> signals_of ds \<subseteq> {0}"
  shows "phase_ok p F (cs @ ds) (subs @ subt) (cons @ cont)"
proof (rule phase_okI)
  note D = phase_okD [OF assms(1)] and E = phase_okD [OF assms(2)]
  show "subs_independent (subs @ subt)"
    by (rule subs_independent_append [OF D(2) E(2) assms(3) D(4) E(4) D(5) E(5)])
  show "sub_from ` set (subs @ subt) \<inter> F = {}" using D(3) E(3) by auto
  show "sub_from ` set (subs @ subt) \<subseteq> signals_of (cs @ ds)" using D(4) E(4) by auto
  show "all_sat p \<sigma> (cs @ ds) \<longleftrightarrow> subs_hold p \<sigma> (subs @ subt) \<and> all_sat p \<sigma> (cons @ cont)" if "assigns_one \<sigma>" for \<sigma>
    using D(1) [OF that] E(1) [OF that] by auto
  show "keys_of (sub_to s) \<subseteq> signals_of (cs @ ds)" if "s \<in> set (subs @ subt)" for s
    using D(5) [of s] E(5) [of s] that by auto
  show "con_wf c \<and> con_keys c \<subseteq> F" if "c \<in> set (cons @ cont)" for c
    using D(6) [of c] E(6) [of c] that by auto
qed

lemma signals_of_concat: "signals_of (concat Cs) \<subseteq> insert 0 (\<Union>cs \<in> set Cs. signals_of cs)"
  by (auto simp: signals_of_def)

lemma phase_ok_concat:
  assumes "list_all2 (\<lambda>cs r. phase_ok p F cs (fst r) (snd r)) Cs rs"
    and "sorted_wrt (\<lambda>cs ds. signals_of cs \<inter> signals_of ds \<subseteq> {0}) Cs"
  shows "phase_ok p F (concat Cs) (concat (map fst rs)) (concat (map snd rs))"
  using assms
proof (induction rule: list_all2_induct)
  case Nil
  then show ?case using phase_ok_Nil by simp
next
  case (Cons cs Cs r rs)
  have "signals_of cs \<inter> signals_of (concat Cs) \<subseteq> {0}"
    using Cons.prems signals_of_concat [of Cs] by fastforce
  then show ?case using phase_ok_append [OF Cons.hyps(1)] Cons.IH Cons.prems by simp
qed

lemma full_simplification_phase:
  assumes "inverse_ok minv p" and "is_field p" and "cfg_field cfg = p" and "0 \<in> cfg_forbidden cfg"
    and "\<forall>c \<in> set (cfg_constraints cfg). work_wf p c"
  shows "\<exists>r. full_simplification minv cfg = Some r \<and>
    phase_ok p (cfg_forbidden cfg) (cfg_constraints cfg) (simp_substitutions r) (simp_constraints r)"
proof -
  obtain l subs where r: "full_simplification minv cfg = Some \<lparr>simp_constraints = l,
      simp_substitutions = map snd subs, simp_removed = map fst subs\<rparr>"
    and ok: "simplification_ok p (cfg_forbidden cfg) (cfg_constraints cfg) l subs"
    using full_simplification_total [OF assms] by blast
  have froms: "map sub_from (map snd subs) = map fst subs" using ok by (auto simp: simplification_ok_def)
  have "set (map sub_from (map snd subs)) = keys_of subs" unfolding froms by (simp add: keys_of_def)
  then have from_keys: "sub_from ` set (map snd subs) = keys_of subs" by (simp only: set_map image_image)
  have each: "sub_from s \<in> signals_of (cfg_constraints cfg)" "keys_of (sub_to s) \<subseteq> signals_of (cfg_constraints cfg)"
    "hm_wf (sub_to s)" "keys_of (sub_to s) \<inter> keys_of subs = {}" if m: "s \<in> set (map snd subs)" for s
  proof -
    obtain e where "e \<in> set subs" "s = snd e" using m by auto
    then have m': "(fst e, s) \<in> set subs" by simp
    have all: "\<forall>(k, s) \<in> set subs. sub_from s = k \<and> keys_of (sub_to s) \<inter> keys_of subs = {}"
      "\<forall>(k, s) \<in> set subs. hm_wf (sub_to s) \<and> k \<in> signals_of (cfg_constraints cfg) \<and>
        keys_of (sub_to s) \<subseteq> signals_of (cfg_constraints cfg)"
      using ok by (simp_all add: simplification_ok_def)
    show "sub_from s \<in> signals_of (cfg_constraints cfg)" "keys_of (sub_to s) \<subseteq> signals_of (cfg_constraints cfg)"
    "hm_wf (sub_to s)" "keys_of (sub_to s) \<inter> keys_of subs = {}"
        using bspec [OF all(1) m'] bspec [OF all(2) m'] by simp_all
  qed
  have F: "keys_of subs \<inter> cfg_forbidden cfg = {}" using ok by (simp add: simplification_ok_def)
  have "distinct (map sub_from (map snd subs))" using ok unfolding froms by (simp add: simplification_ok_def)
  moreover have "0 \<notin> sub_from ` set (map snd subs)" using F assms(4) unfolding from_keys by blast
  moreover have "\<forall>s \<in> set (map snd subs). hm_wf (sub_to s) \<and> keys_of (sub_to s) \<inter> sub_from ` set (map snd subs) = {}"
    unfolding from_keys using each by blast
  ultimately have ind: "subs_independent (map snd subs)" unfolding subs_independent_def by blast
  have "phase_ok p (cfg_forbidden cfg) (cfg_constraints cfg) (map snd subs) l"
  proof (rule phase_okI [OF _ ind])
    show "sub_from ` set (map snd subs) \<inter> cfg_forbidden cfg = {}" unfolding from_keys by (rule F)
    show "sub_from ` set (map snd subs) \<subseteq> signals_of (cfg_constraints cfg)" using each(1) by blast
    show "\<And>s. s \<in> set (map snd subs) \<Longrightarrow> keys_of (sub_to s) \<subseteq> signals_of (cfg_constraints cfg)" by (rule each(2))
    show "all_sat p \<sigma> (cfg_constraints cfg) \<longleftrightarrow> subs_hold p \<sigma> (map snd subs) \<and> all_sat p \<sigma> l" if "assigns_one \<sigma>" for \<sigma>
      using ok that by (auto simp: simplification_ok_def)
    show "con_wf c \<and> con_keys c \<subseteq> cfg_forbidden cfg" if "c \<in> set l" for c
      using ok that by (auto simp: simplification_ok_def work_wf_def is_linear_def con_wf_def)
  qed
  then show ?thesis using r by simp
qed

section \<open>Lemmas: the linear phase\<close>

lemma those_all2: "those (map f xs) = Some ys \<Longrightarrow> list_all2 (\<lambda>x y. f x = Some y) xs ys"
proof (induction xs arbitrary: ys)
  case (Cons x xs)
  then obtain y ys' where "f x = Some y" "those (map f xs) = Some ys'" "ys = y # ys'"
    by (auto split: option.splits)
  then show ?case using Cons.IH by simp
qed simp

lemma those_total_all2:
  assumes "\<And>x. x \<in> set xs \<Longrightarrow> \<exists>y. f x = Some y \<and> Q x y"
  shows "\<exists>ys. those (map f xs) = Some ys \<and> list_all2 Q xs ys"
  using assms
proof (induction xs)
  case (Cons x xs)
  obtain y where "f x = Some y" "Q x y" using Cons.prems by auto
  moreover obtain ys where "those (map f xs) = Some ys" "list_all2 Q xs ys" using Cons by auto
  ultimately show ?case by auto
qed simp

lemma signals_of_cluster: "signals_of (cl_constraints cl) = insert 0 (cluster_sigs cl)"
  by (auto simp: signals_of_def cluster_sigs_def sigs_def set_take_cloned)

lemma all_sat_nonempty: "all_sat p \<sigma> (filter (\<lambda>d. \<not> constraint_is_empty d) cs) \<longleftrightarrow> all_sat p \<sigma> cs"
  using constraint_is_empty_sat by (auto simp: all_sat_def)

text \<open>Results taken in any order in which they arrive.\<close>

definition arrives :: "(nat list \<Rightarrow> nat list) \<Rightarrow> bool" where
  "arrives arrivals \<longleftrightarrow> (\<forall>pool. mset (arrivals pool) = mset pool)"

lemma mset_concat_map_sum: "mset (concat (map f xs)) = (\<Sum>x\<in>#mset xs. mset (f x))"
  by (induction xs) auto

lemma arrived:
  assumes "mset arrivals = mset [0..<length rs]"
  shows "mset (concat (map (\<lambda>i. f (rs ! i)) arrivals)) = mset (concat (map f rs))"
proof -
  have "map (\<lambda>i. f (rs ! i)) [0..<length rs] = map f rs" by (rule nth_equalityI) auto
  then have "mset (concat (map f rs)) = mset (concat (map (\<lambda>i. f (rs ! i)) [0..<length rs]))" by simp
  then show ?thesis unfolding mset_concat_map_sum assms by simp
qed

lemma clusters_apart:
  "sorted_wrt (\<lambda>a b. cluster_sigs a \<inter> cluster_sigs b = {}) clusters \<Longrightarrow>
    sorted_wrt (\<lambda>cs ds. signals_of cs \<inter> signals_of ds \<subseteq> {0}) (map cl_constraints clusters)"
  unfolding sorted_wrt_map signals_of_cluster by (erule sorted_wrt_mono_rel [rotated]) auto

text \<open>Simplifying cluster by cluster, each in its own phase.\<close>

lemma phase_by_cluster:
  assumes clusters: "mset (concat (map cl_constraints clusters)) = mset (filter (\<lambda>d. \<not> constraint_is_empty d) cs)"
      "sorted_wrt (\<lambda>a b. cluster_sigs a \<inter> cluster_sigs b = {}) clusters"
    and each: "list_all2 (\<lambda>cl r. phase_ok p F (cl_constraints cl) (fst r) (snd r)) clusters rs"
    and subs: "mset subs = mset (concat (map fst rs))" and cons: "mset cons = mset (concat (map snd rs))"
  shows "phase_ok p F cs subs cons"
proof -
  have "list_all2 (\<lambda>cs r. phase_ok p F cs (fst r) (snd r)) (map cl_constraints clusters) rs"
    using each by (simp add: list.rel_map)
  then have "phase_ok p F (concat (map cl_constraints clusters)) (concat (map fst rs)) (concat (map snd rs))"
    using clusters_apart [OF clusters(2)] by (rule phase_ok_concat)
  then show ?thesis
  proof (rule phase_ok_change [OF _ _ _ subs cons])
    show "all_sat p \<sigma> cs \<longleftrightarrow> all_sat p \<sigma> (concat (map cl_constraints clusters))" for \<sigma>
      using all_sat_mset [OF clusters(1), of p \<sigma>] all_sat_nonempty [of p \<sigma> cs] by simp
    have "set (concat (map cl_constraints clusters)) = set (filter (\<lambda>d. \<not> constraint_is_empty d) cs)"
      by (rule mset_eq_setD [OF clusters(1)])
    then show "signals_of (concat (map cl_constraints clusters)) \<subseteq> signals_of cs"
      unfolding signals_of_def by auto
  qed
qed

lemma linear_simplification_ok:
  assumes "inverse_ok minv p" and "is_field p" and "0 \<in> F" and "\<forall>c \<in> set cs. work_wf p c"
    and "\<forall>c \<in> set cs. \<forall>s \<in> con_keys c. s < n \<or> s = 0"
    and "arrives arrivals"
  shows "\<exists>subs cons. linear_simplification minv arrivals cs F n p old = Some (subs, cons) \<and> phase_ok p F cs subs cons"
proof -
  have "\<forall>d \<in> set cs. \<forall>s \<in> sigs d. s < n" using assms(5) by (auto simp: sigs_def set_take_cloned)
  from build_clusters_total [OF this] obtain clusters where b: "build_clusters cs n = Some clusters"
    and cl: "mset (concat (map cl_constraints clusters)) = mset (filter (\<lambda>d. \<not> constraint_is_empty d) cs)"
      "sorted_wrt (\<lambda>a b. cluster_sigs a \<inter> cluster_sigs b = {}) clusters"
    by blast
  let ?cfg = "\<lambda>cluster. \<lparr>cfg_field = p, cfg_constraints = cl_constraints cluster, cfg_forbidden = F,
      cfg_num_signals = cl_num_signals cluster, use_old_heuristics = old\<rparr>"
  have work: "work_wf p c" if "cl \<in> set clusters" "c \<in> set (cl_constraints cl)" for cl c
    using mset_eq_setD [OF cl(1)] that assms(4) by auto
  have "\<exists>r. full_simplification minv (?cfg cl) = Some r \<and>
      phase_ok p F (cl_constraints cl) (simp_substitutions r) (simp_constraints r)" if "cl \<in> set clusters" for cl
    using full_simplification_phase [OF assms(1,2), of "?cfg cl"] assms(3) work [OF that] by simp
  then obtain rs where rs: "those (map (\<lambda>cl. full_simplification minv (?cfg cl)) clusters) = Some rs"
    "list_all2 (\<lambda>cl r. phase_ok p F (cl_constraints cl) (simp_substitutions r) (simp_constraints r)) clusters rs"
    using those_total_all2 [of clusters "\<lambda>cl. full_simplification minv (?cfg cl)"
      "\<lambda>cl r. phase_ok p F (cl_constraints cl) (simp_substitutions r) (simp_constraints r)"] by blast
  let ?order = "arrivals [0..<length clusters]"
  have arr: "mset ?order = mset [0..<length rs]"
    using assms(6) list_all2_lengthD [OF rs(2)] by (simp add: arrives_def)
  have "phase_ok p F cs (concat (map (\<lambda>i. simp_substitutions (rs ! i)) ?order))
      (concat (map (\<lambda>i. simp_constraints (rs ! i)) ?order))"
  proof (rule phase_by_cluster [OF cl])
    show "list_all2 (\<lambda>cl r. phase_ok p F (cl_constraints cl) (fst r) (snd r)) clusters
        (map (\<lambda>r. (simp_substitutions r, simp_constraints r)) rs)"
      using rs(2) by (simp add: list.rel_map)
  qed (use arrived [OF arr, of simp_substitutions] arrived [OF arr, of simp_constraints] in \<open>simp_all add: comp_def\<close>)
  then show ?thesis using b rs(1) by (simp add: linear_simplification_def Let_def)
qed

section \<open>Lemmas: equalities\<close>

definition equality_ok :: "int \<Rightarrow> nat constraint \<Rightarrow> bool" where
  "equality_ok p c \<longleftrightarrow> con_ok p c \<and> is_equality c p"

lemma equality_ok_pair:
  assumes "is_field p" and "equality_ok p c"
  shows "\<exists>x y. x < y \<and> 0 < x \<and> take_cloned_signals_ordered c = [x, y] \<and> con_keys c = {x, y} \<and>
    (\<forall>\<sigma>. sat p \<sigma> c \<longleftrightarrow> eqm p (\<sigma> x) (\<sigma> y))"
proof -
  have "con_wf c" "nonzero_coeffs p (con_c c)" "is_equality c p"
    using assms(2) con_ok_wf con_ok_nonzero by (auto simp: equality_ok_def)
  then obtain u v where uv: "con_keys c = {u, v}" "u \<noteq> v" "default \<notin> {u, v}" "\<forall>\<sigma>. sat p \<sigma> c \<longleftrightarrow> eqm p (\<sigma> u) (\<sigma> v)"
    using equality_classified [OF assms(1)] by blast
  have pos: "0 < u" "0 < v" using uv(3) by simp_all
  have "\<exists>x y. x < y \<and> 0 < x \<and> {u, v} = {x, y} \<and> (\<forall>\<sigma>. sat p \<sigma> c \<longleftrightarrow> eqm p (\<sigma> x) (\<sigma> y))"
  proof (cases "u < v")
    case True
    then show ?thesis using pos uv(4) by (intro exI [of _ u] exI [of _ v]) simp
  next
    case False
    then have "v < u" using uv(2) by simp
    then show ?thesis using pos uv(4) by (intro exI [of _ v] exI [of _ u]) (simp add: eq_commute insert_commute)
  qed
  then obtain x y where xy: "x < y" "0 < x" "{u, v} = {x, y}" "\<forall>\<sigma>. sat p \<sigma> c \<longleftrightarrow> eqm p (\<sigma> x) (\<sigma> y)"
    by blast
  have "set (take_cloned_signals_ordered c) = {x, y}"
    using xy(1,2) unfolding take_cloned_signals_ordered_def set_sort set_take_cloned uv(1) xy(3) by simp
  moreover have "distinct (take_cloned_signals_ordered c)" "sorted (take_cloned_signals_ordered c)"
    by (simp_all add: take_cloned_signals_ordered_def take_cloned_signals_def distinct_removeAll)
  ultimately have "take_cloned_signals_ordered c = [x, y]"
    using xy(1) by (intro sorted_distinct_set_unique) auto
  then show ?thesis using xy(1,2,4) uv(1) xy(3) by (intro exI [of _ x] exI [of _ y]) simp
qed

lemma set_bs_insert [simp]: "set (bs_insert x xs) = insert x (set xs)"
  by (auto simp: bs_insert_def set_insort_key)

lemma set_hs_insert [simp]: "set (hs_insert x xs) = insert x (set xs)"
  by (auto simp: hs_insert_def)

lemma distinct_bs_insert [simp]: "distinct xs \<Longrightarrow> distinct (bs_insert x xs)"
  by (simp add: bs_insert_def distinct_insort)

lemma distinct_hs_insert [simp]: "distinct xs \<Longrightarrow> distinct (hs_insert x xs)"
  by (simp add: hs_insert_def)

definition minimum :: "nat list \<Rightarrow> nat option \<Rightarrow> bool" where
  "minimum xs m \<longleftrightarrow> m = (if xs = [] then None else Some (Min (set xs)))"

lemma minimum_insert:
  "minimum xs m \<Longrightarrow> set ys = insert x (set xs) \<Longrightarrow> minimum ys (update_min x m)"
  by (cases "xs = []") (auto simp: minimum_def update_min_def min.commute)

lemma minimum_in: "minimum xs (Some x) \<Longrightarrow> x \<in> set xs"
  by (auto simp: minimum_def split: if_splits)

text \<open>The two sets hold the forbidden signals and the others.\<close>

definition collected :: "nat set \<Rightarrow> nat set \<Rightarrow> eq_sets \<Rightarrow> bool" where
  "collected F S = (\<lambda>((remains, min_remains), (remove, min_remove)).
     set remains = S \<inter> F \<and> distinct remains \<and> minimum remains min_remains \<and>
     set remove = S - F \<and> distinct remove \<and> minimum remove min_remove)"

lemma collect_step: "collected F S st \<Longrightarrow> collected F (insert s S) (collect_eq_signal F s st)"
proof -
  assume c: "collected F S st"
  obtain a b d e where st: "st = ((a, b), (d, e))" by (cases st) auto
  have C: "set a = S \<inter> F" "distinct a" "minimum a b" "set d = S - F" "distinct d" "minimum d e"
    using c by (simp_all add: collected_def st)
  show ?thesis
  proof (cases "s \<in> F")
    case True
    have "minimum (bs_insert s a) (update_min s b)" by (rule minimum_insert [OF C(3)]) simp
    then show ?thesis using True C by (simp add: collected_def collect_eq_signal_def st)
  next
    case False
    have "minimum (hs_insert s d) (update_min s e)" by (rule minimum_insert [OF C(6)]) simp
    then show ?thesis using False C by (simp add: collected_def collect_eq_signal_def st)  blast
  qed
qed

lemma collect_fold: "collected F S st \<Longrightarrow> collected F (S \<union> set ss) (fold (collect_eq_signal F) ss st)"
proof (induction ss arbitrary: S st)
  case (Cons s ss)
  have "insert s S \<union> set ss = S \<union> set (s # ss)" by auto
  then show ?case using Cons.IH [OF collect_step [OF Cons.prems, of s]] by simp
qed simp

lemma collect_all:
  "collected F S st \<Longrightarrow> collected F (S \<union> (\<Union>c \<in> set cs. sigs c))
    (fold (\<lambda>c sets. fold (collect_eq_signal F) (take_cloned_signals_ordered c) sets) cs st)"
proof (induction cs arbitrary: S st)
  case (Cons c cs)
  have "set (take_cloned_signals_ordered c) = sigs c" by (simp add: take_cloned_signals_ordered_def sigs_def)
  then have "collected F (S \<union> sigs c) (fold (collect_eq_signal F) (take_cloned_signals_ordered c) st)"
    using collect_fold [OF Cons.prems, of "take_cloned_signals_ordered c"] by simp
  from Cons.IH [OF this] show ?case by (simp add: Un_assoc)
qed simp

text \<open>A connected cluster of equalities makes all its signals equal.\<close>

lemma equality_sigs:
  assumes "is_field p" and "equality_ok p c" and "sat p \<sigma> c" and "x \<in> sigs c" and "y \<in> sigs c"
  shows "eqm p (\<sigma> x) (\<sigma> y)"
  using equality_ok_pair [OF assms(1,2)] assms(3-5) by (auto simp: sigs_def set_take_cloned)

lemma connected_equal:
  assumes "is_field p" and "\<forall>c \<in> set cs. equality_ok p c" and "connected cs" and "all_sat p \<sigma> cs"
    and "x \<in> cluster_sigs \<lparr>cl_constraints = cs, cl_num_signals = n\<rparr>"
    and "y \<in> cluster_sigs \<lparr>cl_constraints = cs, cl_num_signals = n\<rparr>"
  shows "eqm p (\<sigma> x) (\<sigma> y)"
proof -
  obtain c d where cd: "c \<in> set cs" "x \<in> sigs c" "d \<in> set cs" "y \<in> sigs d"
    using assms(5,6) by (auto simp: cluster_sigs_def)
  have "(c, d) \<in> {(a, b). a \<in> set cs \<and> b \<in> set cs \<and> shares a b}\<^sup>*"
    using assms(3) cd(1,3) by (simp add: connected_def)
  then have "\<forall>z \<in> sigs d. eqm p (\<sigma> x) (\<sigma> z)"
  proof (induction rule: rtrancl_induct)
    case base
    have "sat p \<sigma> c" using assms(4) cd(1) by (simp add: all_sat_def)
    then show ?case using equality_sigs [OF assms(1) _ _ cd(2)] assms(2) cd(1) by blast
  next
    case (step e f)
    then have ef: "e \<in> set cs" "f \<in> set cs" and "shares e f" by auto
    then obtain w where w: "w \<in> sigs e" "w \<in> sigs f" by (auto simp: shares_def)
    have "sat p \<sigma> f" using assms(4) ef(2) by (simp add: all_sat_def)
    then have "\<forall>z \<in> sigs f. eqm p (\<sigma> w) (\<sigma> z)" using equality_sigs [OF assms(1) _ _ w(2)] assms(2) ef(2) by blast
    then show ?case using step.IH w(1) by metis
  qed
  then show ?thesis using cd(4) by blast
qed

lemma equality_cluster_iff:
  assumes "is_field p" and "\<forall>c \<in> set cs. equality_ok p c" and "connected cs"
    and "S = (\<Union>c \<in> set cs. sigs c)" and "r \<in> S"
  shows "all_sat p \<sigma> cs \<longleftrightarrow> (\<forall>x \<in> S. eqm p (\<sigma> x) (\<sigma> r))"
proof
  assume all: "all_sat p \<sigma> cs"
  show "\<forall>x \<in> S. eqm p (\<sigma> x) (\<sigma> r)"
  proof
    fix x assume "x \<in> S"
    then show "eqm p (\<sigma> x) (\<sigma> r)"
      using assms(4,5) by (intro connected_equal [OF assms(1-3) all]) (simp_all add: cluster_sigs_def)
  qed
next
  assume eq: "\<forall>x \<in> S. eqm p (\<sigma> x) (\<sigma> r)"
  have "sat p \<sigma> c" if c: "c \<in> set cs" for c
  proof -
    obtain x y where xy: "con_keys c = {x, y}" "0 < x" "x < y" "\<forall>\<sigma>. sat p \<sigma> c \<longleftrightarrow> eqm p (\<sigma> x) (\<sigma> y)"
      using equality_ok_pair [OF assms(1)] assms(2) c by blast
    then have "x \<in> S" "y \<in> S" using c assms(4) by (auto simp: sigs_def set_take_cloned)
    then show ?thesis using eq xy(4) by metis
  qed
  then show "all_sat p \<sigma> cs" by (simp add: all_sat_def)
qed

abbreviation renames :: "nat \<Rightarrow> nat \<Rightarrow> nat substitution" where
  "renames r s \<equiv> \<lparr>sub_from = s, sub_to = [(r, 1)]\<rparr>"

lemma difference_constraint:
  fixes s r :: nat
  assumes "0 < p"
  shows "\<exists>c. Option.bind (ae_sub (Signal s) (Signal r) p) (\<lambda>expr. transform_expression_to_constraint_form expr p) = Some c \<and>
    con_wf c \<and> con_keys c \<subseteq> {0, s, r} \<and> (\<forall>\<sigma>. assigns_one \<sigma> \<longrightarrow> (sat p \<sigma> c \<longleftrightarrow> eqm p (\<sigma> s) (\<sigma> r)))"
proof -
  have one: "assigns_one (\<lambda>_ :: nat. 1)" by (simp add: assigns_one_def)
  obtain e where e: "ae_sub (Signal s) (Signal r) p = Some e" "expr_wf e"
    using ae_sub_wf [OF assms _ _ one, of "Signal s" "Signal r"] by auto
  have neg: "degree (ae_mul (Number (-1)) (Signal r) p) \<le> 1"
    "ae_keys (ae_mul (Number (-1)) (Signal r) p) \<subseteq> insert default (ae_keys (Signal r))"
    using ae_mul_number [of "Signal r" "-1" p] by simp_all
  have ed: "degree e \<le> 1" "ae_keys e \<subseteq> {0, s, r}"
    using ae_add_degree1 [OF _ neg(1), of "Signal s" p e] neg(2) e(1) by (auto simp: ae_sub_def)
  obtain c where c: "transform_expression_to_constraint_form e p = Some c" using ed(1) by (cases e) auto
  have "con_wf c \<and> con_keys c \<subseteq> {0, s, r}"
    using c e(2) ed by (cases e) (auto simp: con_wf_def con_keys_def coeffs_wf_def constant_coefficient_def)
  moreover have "sat p \<sigma> c \<longleftrightarrow> eqm p (\<sigma> s) (\<sigma> r)" if "assigns_one \<sigma>" for \<sigma>
  proof -
    have "aeval p \<sigma> e = Some ((\<sigma> s mod p - \<sigma> r mod p) mod p)"
      using ae_sub_wf [OF assms _ _ that, of "Signal s" "Signal r"] e(1) by auto
    then have "sat p \<sigma> c \<longleftrightarrow> (\<sigma> s - \<sigma> r) mod p = 0"
      using constraint_form_iff [OF assms that, of e] c by (simp add: mod_simps)
    then show ?thesis by (simp add: mod_eq_dvd_iff dvd_eq_mod_eq_0)
  qed
  ultimately show ?thesis using c e(1) by auto
qed

lemma renames_holds: "sub_holds p \<sigma> (renames r s) \<longleftrightarrow> eqm p (\<sigma> s) (\<sigma> r)"
  by (simp add: sub_holds_def lin_simps)

lemma renames_independent:
  assumes "distinct removed" and "r \<notin> set removed" and "0 \<notin> set removed"
  shows "subs_independent (map (renames r) removed)"
proof -
  have "sub_from ` set (map (renames r) removed) = set removed" by (simp add: image_image)
  moreover have "map sub_from (map (renames r) removed) = removed" by (simp add: comp_def)
  moreover have "hm_wf (sub_to s) \<and> keys_of (sub_to s) = {r}" if "s \<in> set (map (renames r) removed)" for s
    using that by (auto simp: hm_wf_def)
  ultimately show ?thesis unfolding subs_independent_def using assms by auto
qed

text \<open>The signals \<open>S\<close> are all equal to \<open>r\<close>: some by renaming, the others by a constraint that stays.\<close>

lemma renaming_phase:
  assumes "\<And>\<sigma>. assigns_one \<sigma> \<Longrightarrow> all_sat p \<sigma> cs \<longleftrightarrow> (\<forall>x \<in> S. eqm p (\<sigma> x) (\<sigma> r))"
    and "S = insert r (set removed \<union> set remains)" and "S \<subseteq> signals_of cs" and "0 \<notin> S"
    and "distinct removed" and "r \<notin> set removed" and "set removed \<inter> F = {}"
    and "list_all2 (\<lambda>s c. con_wf c \<and> con_keys c \<subseteq> F \<and> (\<forall>\<sigma>. assigns_one \<sigma> \<longrightarrow> (sat p \<sigma> c \<longleftrightarrow> eqm p (\<sigma> s) (\<sigma> r))))
      remains cons"
  shows "phase_ok p F cs (map (renames r) removed) cons"
proof (rule phase_okI)
  show "subs_independent (map (renames r) removed)"
    using assms(2,4-6) by (intro renames_independent) auto
  show "sub_from ` set (map (renames r) removed) \<inter> F = {}" using assms(7) by (simp add: image_image)
  show "sub_from ` set (map (renames r) removed) \<subseteq> signals_of cs" using assms(2,3) by (simp add: image_image)
  show "\<And>s. s \<in> set (map (renames r) removed) \<Longrightarrow> keys_of (sub_to s) \<subseteq> signals_of cs" using assms(2,3) by auto
  show "\<And>c. c \<in> set cons \<Longrightarrow> con_wf c \<and> con_keys c \<subseteq> F" using list_all2_right [OF assms(8)] by blast
  fix \<sigma> :: "nat \<Rightarrow> int" assume one: "assigns_one \<sigma>"
  have "all_sat p \<sigma> cons \<longleftrightarrow> (\<forall>x \<in> set remains. eqm p (\<sigma> x) (\<sigma> r))"
    using assms(8) one by (induction rule: list_all2_induct) auto
  moreover have "subs_hold p \<sigma> (map (renames r) removed) \<longleftrightarrow> (\<forall>x \<in> set removed. eqm p (\<sigma> x) (\<sigma> r))"
    by (simp add: subs_hold_def renames_holds)
  ultimately show "all_sat p \<sigma> cs \<longleftrightarrow> subs_hold p \<sigma> (map (renames r) removed) \<and> all_sat p \<sigma> cons"
    using assms(1) [OF one] assms(2) by auto
qed

lemma eq_cluster_single:
  assumes "is_field p" and "cl_constraints cl = [c]" and "equality_ok p c"
  shows "\<exists>subs cons. eq_cluster_simplification cl F p = Some (subs, cons) \<and> phase_ok p F (cl_constraints cl) subs cons"
proof -
  obtain x y where xy: "x < y" "0 < x" "take_cloned_signals_ordered c = [x, y]" "con_keys c = {x, y}"
    "\<forall>\<sigma>. sat p \<sigma> c \<longleftrightarrow> eqm p (\<sigma> x) (\<sigma> y)"
    using equality_ok_pair [OF assms(1,3)] by blast
  have sig: "{x, y} \<subseteq> signals_of [c]" by (simp add: signals_of_def xy(4))
  have one: "phase_ok p F [c] [renames r s] []" if rs: "r = x \<and> s = y \<or> r = y \<and> s = x" "s \<notin> F" for r s
  proof -
    have "phase_ok p F [c] (map (renames r) [s]) []"
    proof (rule renaming_phase [where S = "{r, s}" and remains = "[]"])
      show "all_sat p \<sigma> [c] \<longleftrightarrow> (\<forall>x \<in> {r, s}. eqm p (\<sigma> x) (\<sigma> r))" for \<sigma>
        using rs(1) by (elim disjE conjE) (simp_all add: xy(5) eq_commute)
      show "r \<notin> set [s]" using rs(1) xy(1) by auto
      show "0 \<notin> {r, s}" using rs(1) xy(1,2) by auto
      show "{r, s} \<subseteq> signals_of [c]" using sig rs(1) by auto
    qed (use rs(2) in simp_all)
    then show ?thesis by simp
  qed
  have size: "cluster_size cl = 1" by (simp add: cluster_size_def assms(2))
  consider "x \<in> F" "y \<in> F" | "x \<in> F" "y \<notin> F" | "x \<notin> F" "y \<in> F" | "x \<notin> F" "y \<notin> F" by blast
  then show ?thesis
  proof cases
    case 1
    have "con_wf c" using assms(3) con_ok_wf [of p c] by (simp add: equality_ok_def)
    then have "phase_ok p F [c] [] [c]"
      using 1 xy(4) by (intro phase_okI) (simp_all add: subs_hold_def subs_independent_def)
    then show ?thesis using 1 xy(3) size by (simp add: eq_cluster_simplification_def assms(2))
  next
    case 2
    then show ?thesis using one [of x y] xy(3) size by (simp add: eq_cluster_simplification_def assms(2))
  next
    case 3
    then show ?thesis
      using one [of y x] xy(3) size by (simp add: eq_cluster_simplification_def assms(2) insert_commute)
  next
    case 4
    then show ?thesis using one [of x y] xy(1,3) size by (simp add: eq_cluster_simplification_def assms(2))
  qed
qed

lemma those_map_Some: "those (map (\<lambda>x. Some (f x)) xs) = Some (map f xs)"
  by (induction xs) auto

lemma eq_cluster_many:
  assumes "is_field p" and "0 \<in> F" and "\<forall>c \<in> set (cl_constraints cl). equality_ok p c" and "cl_constraints cl \<noteq> []"
    and "connected (cl_constraints cl)" and "cluster_size cl \<noteq> 1"
  shows "\<exists>subs cons. eq_cluster_simplification cl F p = Some (subs, cons) \<and> phase_ok p F (cl_constraints cl) subs cons"
proof -
  let ?cs = "cl_constraints cl"
  define S where "S = (\<Union>c \<in> set ?cs. sigs c)"
  obtain remains min_remains remove min_remove where f:
    "fold (\<lambda>c sets. fold (collect_eq_signal F) (take_cloned_signals_ordered c) sets) ?cs (([], None), ([], None)) =
      ((remains, min_remains), (remove, min_remove))"
    by (metis surj_pair)
  have "collected F {} (([], None), ([], None))" by (simp add: collected_def minimum_def)
  from collect_all [OF this, of ?cs] have col: "set remains = S \<inter> F" "distinct remains" "minimum remains min_remains"
    "set remove = S - F" "distinct remove" "minimum remove min_remove"
    unfolding f by (simp_all add: collected_def S_def)
  have S0: "0 \<notin> S" by (auto simp: S_def sigs_def set_take_cloned)
  have Sne: "S \<noteq> {}"
  proof -
    obtain c where "c \<in> set ?cs" using assms(4) by (cases ?cs) auto
    moreover then obtain x y where "take_cloned_signals_ordered c = [x, y]"
      using equality_ok_pair [OF assms(1)] assms(3) by blast
    then have "x \<in> sigs c" by (simp add: sigs_def) (metis list.set_intros(1) set_sort take_cloned_signals_ordered_def)
    ultimately show ?thesis by (auto simp: S_def)
  qed
  have Ssig: "S \<subseteq> signals_of ?cs" by (auto simp: S_def signals_of_def sigs_def set_take_cloned)
  let ?diff = "\<lambda>r s. Option.bind (ae_sub (Signal s) (Signal r) p) (\<lambda>expr. transform_expression_to_constraint_form expr p)"
  have main: "phase_ok p F ?cs (map (renames r) removed) cons \<and> those (map (?diff r) rem) = Some cons" 
    if r: "r \<in> S" and sets: "S = insert r (set removed \<union> set rem)" "distinct removed" "r \<notin> set removed"
      "set removed \<inter> F = {}" "set rem \<subseteq> F" "rem = [] \<or> r \<in> F" and cons: "cons = map (\<lambda>s. the (?diff r s)) rem" for r removed rem cons
  proof -
    have p: "0 < p" using assms(1) by (rule is_field_pos)
    have d: "?diff r s = Some (the (?diff r s)) \<and> con_wf (the (?diff r s)) \<and> con_keys (the (?diff r s)) \<subseteq> F \<and>
        (\<forall>\<sigma>. assigns_one \<sigma> \<longrightarrow> (sat p \<sigma> (the (?diff r s)) \<longleftrightarrow> eqm p (\<sigma> s) (\<sigma> r)))" if s: "s \<in> set rem" for s
    proof -
      have "r \<in> F" "s \<in> F" using s sets(5,6) by auto
      then have "{0, s, r} \<subseteq> F" using assms(2) by simp
      then show ?thesis using difference_constraint [OF p, of s r] by fastforce
    qed
    have "those (map (?diff r) rem) = those (map (\<lambda>s. Some (the (?diff r s))) rem)"
      using d by (intro arg_cong [where f = those] map_cong refl) blast
    moreover have "phase_ok p F ?cs (map (renames r) removed) cons"
    proof (rule renaming_phase [OF _ sets(1) Ssig S0 sets(2-4)])
      show "all_sat p \<sigma> ?cs \<longleftrightarrow> (\<forall>x \<in> S. eqm p (\<sigma> x) (\<sigma> r))" for \<sigma>
        by (rule equality_cluster_iff [OF assms(1,3,5) S_def r])
      show "list_all2 (\<lambda>s c. con_wf c \<and> con_keys c \<subseteq> F \<and> (\<forall>\<sigma>. assigns_one \<sigma> \<longrightarrow> (sat p \<sigma> c \<longleftrightarrow> eqm p (\<sigma> s) (\<sigma> r)))) rem cons"
        unfolding cons by (simp add: list_all2_conv_all_nth) (use d nth_mem in blast)
    qed
    ultimately show ?thesis by (simp add: those_map_Some cons)
  qed
  have subs: "those (map (\<lambda>signal. substitution_new signal (Signal r)) xs) = Some (map (renames r) xs)" for r xs
    using those_map_Some [of "renames r" xs] by simp
  show ?thesis
  proof (cases min_remains)
    case (Some r)
    have r: "r \<in> set remains" using col(3) unfolding Some by (rule minimum_in)
    have "set (remove1 r remains) = set remains - {r}" using col(2) by (rule set_remove1_eq)
    then have s: "S = insert r (set remove \<union> set (remove1 r remains))" "r \<in> S" "r \<in> F"
      "r \<notin> set remove" "set remove \<inter> F = {}" "set (remove1 r remains) \<subseteq> F"
      using r col(1,4) by auto
    from main [OF s(2,1) col(5) s(4,5,6) _ refl] s(3) show ?thesis
      using f assms(6) Some subs by (simp add: eq_cluster_simplification_def)
  next
    case None
    then have e: "remains = []" using col(3) by (simp add: minimum_def split: if_splits)
    then have "set remove = S" using col(1,4) by auto
    then have "remove \<noteq> []" using Sne by auto
    then obtain r where m: "min_remove = Some r" using col(6) by (simp add: minimum_def)
    have r: "r \<in> set remove" using col(6) unfolding m by (rule minimum_in)
    have "set (remove1 r remove) = set remove - {r}" using col(5) by (rule set_remove1_eq)
    then have s: "S = insert r (set (remove1 r remove) \<union> set [])" "r \<in> S" "r \<notin> set (remove1 r remove)"
      "set (remove1 r remove) \<inter> F = {}" "distinct (remove1 r remove)"
      using r \<open>set remove = S\<close> col(4,5) by auto
    from main [OF s(2,1,5,3,4) _ _ refl] show ?thesis
      using f assms(6) None m subs e by (simp add: eq_cluster_simplification_def)
  qed
qed

lemma mset_partition_filter: "mset (filter P xs) + mset (filter (\<lambda>x. \<not> P x) xs) = mset xs"
  by (induction xs) auto

lemma eq_simplification_ok:
  assumes "is_field p" and "0 \<in> F" and "\<forall>c \<in> set cs. equality_ok p c"
    and "\<forall>c \<in> set cs. \<forall>s \<in> con_keys c. s < n"
    and "arrives arrivals"
  shows "\<exists>subs cons. eq_simplification arrivals cs F n p = Some (subs, cons) \<and> phase_ok p F cs subs cons"
proof -
  have "\<forall>d \<in> set cs. \<forall>s \<in> sigs d. s < n" using assms(4) by (auto simp: sigs_def set_take_cloned)
  from build_clusters_total [OF this] obtain clusters where b: "build_clusters cs n = Some clusters"
    and cl: "mset (concat (map cl_constraints clusters)) = mset (filter (\<lambda>d. \<not> constraint_is_empty d) cs)"
      "sorted_wrt (\<lambda>a b. cluster_sigs a \<inter> cluster_sigs b = {}) clusters"
    and conn: "\<forall>cl \<in> set clusters. cl_constraints cl \<noteq> [] \<and> connected (cl_constraints cl)"
    by blast
  have eqs: "\<forall>c \<in> set (cl_constraints cl). equality_ok p c" if "cl \<in> set clusters" for cl
    using mset_eq_setD [OF cl(1)] that assms(3) by auto
  have "\<exists>r. eq_cluster_simplification cl F p = Some r \<and> phase_ok p F (cl_constraints cl) (fst r) (snd r)"
    if c: "cl \<in> set clusters" for cl
  proof (cases "cluster_size cl = 1")
    case True
    then obtain d where d: "cl_constraints cl = [d]" by (auto simp: cluster_size_def length_Suc_conv)
    then show ?thesis using eq_cluster_single [OF assms(1) d, of F] eqs [OF c] by auto
  next
    case False
    then show ?thesis using eq_cluster_many [OF assms(1,2) eqs [OF c]] conn c by auto
  qed
  then obtain rs where rs: "those (map (\<lambda>cl. eq_cluster_simplification cl F p) clusters) = Some rs"
    "list_all2 (\<lambda>cl r. phase_ok p F (cl_constraints cl) (fst r) (snd r)) clusters rs"
    using those_total_all2 [of clusters "\<lambda>cl. eq_cluster_simplification cl F p"
      "\<lambda>cl r. phase_ok p F (cl_constraints cl) (fst r) (snd r)"] by blast
  let ?single = "filter (\<lambda>i. cluster_size (clusters ! i) = 1) [0..<length clusters]"
  let ?order = "arrivals (filter (\<lambda>i. cluster_size (clusters ! i) \<noteq> 1) [0..<length clusters])"
  have "mset (?single @ ?order) = mset [0..<length rs]"
    using assms(5) list_all2_lengthD [OF rs(2)] unfolding arrives_def mset_append
    by (simp only: mset_partition_filter)
  from arrived [OF this, of fst] have "phase_ok p F cs (concat (map (\<lambda>i. fst (rs ! i)) (?single @ ?order))) (concat (map snd rs))"
    by (intro phase_by_cluster [OF cl rs(2)]) simp_all
  then show ?thesis using b rs(1) by (simp add: eq_simplification_def Let_def)
qed

section \<open>Lemmas: constants\<close>

definition constant_ok :: "int \<Rightarrow> nat constraint \<Rightarrow> bool" where
  "constant_ok p c \<longleftrightarrow> con_ok p c \<and> is_linear c \<and> (\<exists>x. con_keys c - {0} = {x})"

lemma constant_equality_ok:
  assumes "is_field p" and "con_ok p c" and "is_constant_equality c"
  shows "constant_ok p c"
  using equality_classified [OF assms(1) con_ok_wf [OF assms(2)] con_ok_nonzero [OF assms(2)]] assms(2,3)
  by (simp add: constant_ok_def)

text \<open>A substitution by a constant.\<close>

definition constant_sub :: "nat substitution \<Rightarrow> bool" where
  "constant_sub s \<longleftrightarrow> hm_wf (sub_to s) \<and> keys_of (sub_to s) \<subseteq> {0} \<and> sub_from s \<noteq> 0"

lemma constant_solution:
  assumes "inverse_ok minv p" and "is_field p" and "constant_ok p c"
  shows "\<exists>x s. con_keys c - {0} = {x} \<and> take_cloned_signals_ordered c = [x] \<and>
    clear_signal_from_linear minv c x p = Some s \<and> sub_from s = x \<and> constant_sub s \<and>
    (\<forall>\<sigma>. sat p \<sigma> c \<longleftrightarrow> sub_holds p \<sigma> s)"
proof -
  obtain x where x: "con_keys c - {0} = {x}" using assms(3) by (auto simp: constant_ok_def)
  have lin: "con_a c = []" "con_b c = []" using assms(3) by (simp_all add: constant_ok_def is_linear_def)
  then have keys: "con_keys c = keys_of (con_c c)" by (simp add: con_keys_def)
  have ok: "con_ok p c" using assms(3) by (simp add: constant_ok_def)
  have wf: "hm_wf (con_c c)" "nonzero_coeffs p (con_c c)" using con_ok_wf [OF ok] con_ok_nonzero [OF ok] by (simp_all add: con_wf_def)
  have xk: "x \<in> keys_of (con_c c)" "x \<noteq> 0" using x keys by auto
  have "set (take_cloned_signals_ordered c) = {x}" "distinct (take_cloned_signals_ordered c)"
    using x by (simp_all add: take_cloned_signals_ordered_def set_take_cloned)
      (simp add: take_cloned_signals_def distinct_removeAll)
  then have t: "take_cloned_signals_ordered c = [x]"
    by (cases "take_cloned_signals_ordered c") (auto simp: subset_singleton_iff)
  obtain m where m: "clear_signal minv (con_c c) x p = Some m"
    using clear_signal_total [OF assms(1,2) wf(2) xk(1)] by blast
  note spec = clear_signal_Some [OF assms(1) is_field_gt1 [OF assms(2)] wf(1) m]
  let ?s = "\<lparr>sub_from = x, sub_to = m\<rparr>"
  have "constant_sub ?s" using spec xk(2) x keys by (auto simp: constant_sub_def)
  moreover have "sat p \<sigma> c \<longleftrightarrow> sub_holds p \<sigma> ?s" for \<sigma>
    using spec lin by (simp add: sat_def sub_holds_def lin_simps)
  moreover have "clear_signal_from_linear minv c x p = Some ?s" using m by (simp add: clear_signal_from_linear_def)
  ultimately show ?thesis using x t by (intro exI [of _ x] exI [of _ ?s]) simp
qed

definition constants_ok ::
    "int \<Rightarrow> nat set \<Rightarrow> nat constraint list \<Rightarrow> nat substitution list \<Rightarrow> nat constraint list \<Rightarrow> bool" where
  "constants_ok p F cs subs cons \<longleftrightarrow>
     (\<forall>s \<in> set subs. constant_sub s \<and> sub_from s \<notin> F \<and> sub_from s \<in> signals_of cs) \<and>
     (\<forall>c \<in> set cons. con_ok p c \<and> con_keys c \<subseteq> F) \<and>
     (\<forall>\<sigma>. all_sat p \<sigma> cs \<longleftrightarrow> subs_hold p \<sigma> subs \<and> all_sat p \<sigma> cons)"

lemma constants_ok_keep:
  assumes "constants_ok p F cs subs cons" and "con_ok p c" and "con_keys c \<subseteq> F"
  shows "constants_ok p F (c # cs) subs (c # cons)"
proof -
  have "signals_of cs \<subseteq> signals_of (c # cs)" by (auto simp: signals_of_def)
  then have "\<forall>s \<in> set subs. constant_sub s \<and> sub_from s \<notin> F \<and> sub_from s \<in> signals_of (c # cs)"
    using assms(1) unfolding constants_ok_def by blast
  moreover have "all_sat p \<sigma> (c # cs) \<longleftrightarrow> subs_hold p \<sigma> subs \<and> all_sat p \<sigma> (c # cons)" for \<sigma>
  proof -
    have "all_sat p \<sigma> cs \<longleftrightarrow> subs_hold p \<sigma> subs \<and> all_sat p \<sigma> cons" using assms(1) by (simp add: constants_ok_def)
    then show ?thesis by auto
  qed
  moreover have "\<forall>d \<in> set (c # cons). con_ok p d \<and> con_keys d \<subseteq> F" using assms by (simp add: constants_ok_def)
  ultimately show ?thesis unfolding constants_ok_def by blast
qed

lemma constants_ok_solve:
  assumes "constants_ok p F cs subs cons" and "constant_sub s" and "sub_from s \<notin> F" and "sub_from s \<in> con_keys c"
    and "\<forall>\<sigma>. sat p \<sigma> c \<longleftrightarrow> sub_holds p \<sigma> s"
  shows "constants_ok p F (c # cs) (s # subs) cons"
proof -
  have sig: "signals_of cs \<subseteq> signals_of (c # cs)" "sub_from s \<in> signals_of (c # cs)"
    using assms(4) by (auto simp: signals_of_def)
  then have "\<forall>t \<in> set subs. constant_sub t \<and> sub_from t \<notin> F \<and> sub_from t \<in> signals_of (c # cs)"
    using assms(1) unfolding constants_ok_def by blast
  moreover have "all_sat p \<sigma> (c # cs) \<longleftrightarrow> subs_hold p \<sigma> (s # subs) \<and> all_sat p \<sigma> cons" for \<sigma>
  proof -
    have "all_sat p \<sigma> cs \<longleftrightarrow> subs_hold p \<sigma> subs \<and> all_sat p \<sigma> cons" using assms(1) by (simp add: constants_ok_def)
    then show ?thesis using assms(5) by (simp add: subs_hold_def)
  qed
  moreover have "\<forall>d \<in> set cons. con_ok p d \<and> con_keys d \<subseteq> F" using assms(1) by (simp add: constants_ok_def)
  moreover have "\<forall>t \<in> set (s # subs). constant_sub t \<and> sub_from t \<notin> F \<and> sub_from t \<in> signals_of (c # cs)"
    using calculation(1) assms(2,3) sig(2) by simp
  ultimately show ?thesis unfolding constants_ok_def by blast
qed

lemma only_signal: "A - {z} = {x} \<Longrightarrow> x \<in> F \<Longrightarrow> z \<in> F \<Longrightarrow> A \<subseteq> F"
proof -
  assume a: "A - {z} = {x}" "x \<in> F" "z \<in> F"
  have "A \<subseteq> insert z (A - {z})" by blast
  also have "\<dots> \<subseteq> F" using a by simp
  finally show ?thesis .
qed

lemma constant_eq_fold:
  assumes "inverse_ok minv p" and "is_field p" and "0 \<in> F" and "\<forall>c \<in> set cs. constant_ok p c"
  shows "\<exists>subs cons. fold (\<lambda>constraint acc. Option.bind acc (constant_eq_step minv F p constraint)) cs
        (Some (subs0, cons0)) = Some (subs0 @ subs, cons0 @ cons) \<and> constants_ok p F cs subs cons"
  using assms(4)
proof (induction cs arbitrary: subs0 cons0)
  case Nil
  have "constants_ok p F [] [] []" by (simp add: constants_ok_def subs_hold_def)
  then show ?case by (intro exI [of _ "[]"]) simp
next
  case (Cons c cs)
  have ok: "\<forall>c \<in> set cs. constant_ok p c" "con_ok p c" "constant_ok p c"
    using Cons.prems by (simp_all add: constant_ok_def [of p c])
  obtain x s where c: "con_keys c - {0} = {x}" "take_cloned_signals_ordered c = [x]"
    "clear_signal_from_linear minv c x p = Some s" "sub_from s = x" "constant_sub s"
    "\<forall>\<sigma>. sat p \<sigma> c \<longleftrightarrow> sub_holds p \<sigma> s"
    using constant_solution [OF assms(1,2) ok(3)] by (elim exE conjE) (rule that)
  show ?case
  proof (cases "x \<in> F")
    case True
    have keys: "con_keys c \<subseteq> F" by (rule only_signal [OF c(1) True assms(3)])
    obtain subs cons where IH: "fold (\<lambda>constraint acc. Option.bind acc (constant_eq_step minv F p constraint)) cs
        (Some (subs0, cons0 @ [c])) = Some (subs0 @ subs, (cons0 @ [c]) @ cons)" "constants_ok p F cs subs cons"
      using Cons.IH [OF ok(1), of subs0 "cons0 @ [c]"] by (elim exE conjE) (rule that)
    have "constant_eq_step minv F p c (subs0, cons0) = Some (subs0, cons0 @ [c])"
      using True c(2) by (simp add: constant_eq_step_def)
    then show ?thesis
      using IH(1) constants_ok_keep [OF IH(2) ok(2) keys] by (intro exI [of _ subs] exI [of _ "c # cons"]) simp
  next
    case False
    obtain subs cons where IH: "fold (\<lambda>constraint acc. Option.bind acc (constant_eq_step minv F p constraint)) cs
        (Some (subs0 @ [s], cons0)) = Some ((subs0 @ [s]) @ subs, cons0 @ cons)" "constants_ok p F cs subs cons"
      using Cons.IH [OF ok(1), of "subs0 @ [s]" cons0] by (elim exE conjE) (rule that)
    have "constant_eq_step minv F p c (subs0, cons0) = Some (subs0 @ [s], cons0)"
      using False c(2,3) by (simp add: constant_eq_step_def)
    moreover have "sub_from s \<notin> F" "sub_from s \<in> con_keys c" using c(1,4) False by blast+
    ultimately show ?thesis
      using IH(1) constants_ok_solve [OF IH(2) c(5) _ _ c(6)]
      by (intro exI [of _ "s # subs"] exI [of _ cons]) simp
  qed
qed

lemma constant_eq_simplification_ok:
  assumes "inverse_ok minv p" and "is_field p" and "0 \<in> F" and "\<forall>c \<in> set cs. constant_ok p c"
  shows "\<exists>subs cons. constant_eq_simplification minv cs F p = Some (subs, cons) \<and> constants_ok p F cs subs cons"
  using constant_eq_fold [OF assms, of "[]" "[]"] by (simp add: constant_eq_simplification_def)

section \<open>Lemmas: encoding constants\<close>

lemma constant_to:
  assumes "constant_sub s"
  shows "sub_to s = [] \<or> (\<exists>v. sub_to s = [(0, v)])"
proof (cases "sub_to s")
  case (Cons e m)
  have "fst e = 0" "keys_of m \<subseteq> {0}" "0 \<notin> keys_of m"
    using assms by (auto simp: constant_sub_def Cons hm_wf_Cons)
  then have "m = []" by (cases m) auto
  then show ?thesis using Cons \<open>fst e = 0\<close> by (cases e) auto
qed simp

lemma constant_lin: "constant_sub s \<Longrightarrow> assigns_one \<sigma> \<Longrightarrow> assigns_one \<tau> \<Longrightarrow> lin \<sigma> (sub_to s) = lin \<tau> (sub_to s)"
  using constant_to [of s] by (auto simp: lin_simps assigns_one_def)

lemma constant_decompose:
  assumes "constant_sub s"
  shows "expr_wf (snd (decompose s)) \<and> degree (snd (decompose s)) \<le> 1 \<and> ae_keys (snd (decompose s)) \<subseteq> {0} \<and>
    (\<forall>p \<sigma>. assigns_one \<sigma> \<longrightarrow> aeval p \<sigma> (snd (decompose s)) = Some (lin \<sigma> (sub_to s) mod p))"
  using decompose_value [of s] assms by (auto simp: constant_sub_def)

lemma build_encoded_entries:
  "keys_of (build_encoded_fast_substitutions ss) = sub_from ` set ss \<and> hm_wf (build_encoded_fast_substitutions ss) \<and>
    (\<forall>(k, e) \<in> set (build_encoded_fast_substitutions ss). \<exists>s \<in> set ss. sub_from s = k \<and> e = snd (decompose s))"
proof -
  let ?f = "\<lambda>sub encoded. (let (from_s, to) = decompose sub in hm_insert from_s to encoded)"
  have f: "?f s enc = hm_insert (sub_from s) (snd (decompose s)) enc" for s :: "nat substitution" and enc
    by (simp add: decompose_def Let_def)
  have "keys_of (fold ?f ss enc) = sub_from ` set ss \<union> keys_of enc \<and> (hm_wf enc \<longrightarrow> hm_wf (fold ?f ss enc)) \<and>
    (\<forall>x \<in> set (fold ?f ss enc). x \<in> set enc \<or> (\<exists>s \<in> set ss. sub_from s = fst x \<and> snd x = snd (decompose s)))" for enc
  proof (induction ss arbitrary: enc)
    case (Cons s ss)
    let ?e = "hm_insert (sub_from s) (snd (decompose s)) enc"
    have IH: "keys_of (fold ?f ss ?e) = sub_from ` set ss \<union> keys_of ?e" "hm_wf ?e \<longrightarrow> hm_wf (fold ?f ss ?e)"
      "\<forall>x \<in> set (fold ?f ss ?e). x \<in> set ?e \<or> (\<exists>s \<in> set ss. sub_from s = fst x \<and> snd x = snd (decompose s))"
      using Cons by blast+
    have "x \<in> set enc \<or> (\<exists>t \<in> set (s # ss). sub_from t = fst x \<and> snd x = snd (decompose t))"
      if "x \<in> set (fold ?f ss ?e)" for x
    proof -
      have "x \<in> set ?e \<or> (\<exists>s \<in> set ss. sub_from s = fst x \<and> snd x = snd (decompose s))"
        using IH(3) that by blast
      moreover have "x = (sub_from s, snd (decompose s)) \<or> x \<in> set enc" if "x \<in> set ?e"
        using that by (rule hm_insert_mem)
      ultimately show ?thesis by auto
    qed
    then show ?case using IH(1,2) by (simp add: f del: set_simps) auto
  qed simp
  from this [of "[]"] show ?thesis
    unfolding build_encoded_fast_substitutions_def by (auto simp: case_prod_beta)
qed

lemma build_encoded_constants:
  assumes "\<forall>s \<in> set ss. constant_sub s"
  shows "encoding_wf (build_encoded_fast_substitutions ss) \<and>
    (\<forall>(k, e) \<in> set (build_encoded_fast_substitutions ss). ae_keys e \<subseteq> {0}) \<and>
    (\<forall>p \<sigma>. assigns_one \<sigma> \<longrightarrow> subs_hold p \<sigma> ss \<longrightarrow> encoding_holds p \<sigma> (build_encoded_fast_substitutions ss)) \<and>
    (\<forall>p \<sigma> \<tau>. assigns_one \<sigma> \<longrightarrow> assigns_one \<tau> \<longrightarrow> subs_hold p \<tau> ss \<longrightarrow>
      encoding_holds p \<sigma> (build_encoded_fast_substitutions ss) \<longrightarrow> subs_hold p \<sigma> ss)"
proof -
  let ?enc = "build_encoded_fast_substitutions ss"
  have b: "keys_of ?enc = sub_from ` set ss" "hm_wf ?enc"
    "\<And>k e. (k, e) \<in> set ?enc \<Longrightarrow> \<exists>s \<in> set ss. sub_from s = k \<and> e = snd (decompose s)"
    using build_encoded_entries [of ss] by auto
  have zero: "0 \<notin> sub_from ` set ss" using assms by (auto simp: constant_sub_def)
  have each: "expr_wf e \<and> degree e \<le> 1 \<and> ae_keys e \<subseteq> {0}" if e: "(k, e) \<in> set ?enc" for k e
    using b(3) [OF e] constant_decompose assms by blast
  have wf: "encoding_wf ?enc"
    unfolding encoding_wf_def b(1) using b(2) zero each by fastforce
  have one: "encoding_holds p \<sigma> ?enc" if h: "assigns_one \<sigma>" "subs_hold p \<sigma> ss" for p \<sigma>
  proof -
    have "aeval p \<sigma> e = Some (\<sigma> k mod p)" if e: "(k, e) \<in> set ?enc" for k e
    proof -
      obtain s where s: "s \<in> set ss" "sub_from s = k" "e = snd (decompose s)" using b(3) [OF e] by blast
      have "sub_holds p \<sigma> s" using h(2) s(1) by (simp add: subs_hold_def)
      then show ?thesis using constant_decompose [of s] assms s h(1) by (simp add: sub_holds_def)
    qed
    then show ?thesis by (auto simp: encoding_holds_def)
  qed
  have two: "subs_hold p \<sigma> ss"
    if h: "assigns_one \<sigma>" "assigns_one \<tau>" "subs_hold p \<tau> ss" "encoding_holds p \<sigma> ?enc" for p \<sigma> \<tau>
  proof -
    have "sub_holds p \<sigma> s" if s: "s \<in> set ss" for s
    proof -
      have "sub_from s \<in> keys_of ?enc" using s b(1) by simp
      then obtain e where e: "(sub_from s, e) \<in> set ?enc" by (metis keys_of_map_of map_of_SomeD not_None_eq)
      then obtain t where t: "t \<in> set ss" "sub_from t = sub_from s" "e = snd (decompose t)" using b(3) by blast
      have "eqm p (\<sigma> (sub_from s)) (lin \<sigma> (sub_to t))"
        using h(1,4) e constant_decompose [of t] assms t by (auto simp: encoding_holds_def)
      also have "lin \<sigma> (sub_to t) = lin \<tau> (sub_to t)" using constant_lin assms t(1) h(1,2) by blast
      also have "eqm p (lin \<tau> (sub_to t)) (\<tau> (sub_from s))"
        using h(3) t(1,2) by (auto simp: subs_hold_def sub_holds_def)
      also have "eqm p (\<tau> (sub_from s)) (lin \<tau> (sub_to s))" using h(3) s by (auto simp: subs_hold_def sub_holds_def)
      also have "lin \<tau> (sub_to s) = lin \<sigma> (sub_to s)" using constant_lin assms s h(1,2) by blast
      finally show ?thesis by (simp add: sub_holds_def)
    qed
    then show ?thesis by (simp add: subs_hold_def)
  qed
  show ?thesis using wf each one two by blast
qed

end
