(* ===== verification/Witness_Map.thy ===== *)
theory Witness_Map
  imports Prelude
begin

text \<open>
  The numbering of the witness: \<open>rebuild_witness\<close> of
  \<open>constraint_list/src/constraint_simplification.rs\<close> gives the signals that stay consecutive
  positions, reusing the places of the deleted ones in order; \<open>get_witness_as_vec\<close> and
  \<open>IteratorSignal::new\<close> of \<open>constraint_list/src/lib.rs\<close> read the numbering. The set of deleted
  signals is only tested and extended here, so it is a set; the map of the non-linear
  constraints is only asked for its keys.
\<close>

section \<open>The numbering\<close>

type_synonym signal_map = "(nat, nat) hmap"

definition rebuild_step ::
    "nat set \<Rightarrow> (nat, nat list) hmap \<Rightarrow> bool \<Rightarrow> nat \<Rightarrow> nat set \<times> nat list \<times> signal_map \<Rightarrow>
      nat set \<times> nat list \<times> signal_map" where
  "rebuild_step forbidden non_linear_map remove_unused signal = (\<lambda>(deleted, free, wmap).
     if signal \<in> deleted then (deleted, free @ [signal], wmap)
     else if remove_unused \<and> signal \<notin> forbidden \<and> \<not> hm_contains non_linear_map signal then
       (insert signal deleted, free @ [signal], wmap)
     else case free of
         new_pos # free \<Rightarrow> (deleted, free @ [signal], hm_insert signal new_pos wmap)
       | [] \<Rightarrow> (deleted, [], hm_insert signal signal wmap))"

definition rebuild_witness ::
    "nat \<Rightarrow> nat set \<Rightarrow> nat set \<Rightarrow> (nat, nat list) hmap \<Rightarrow> bool \<Rightarrow> signal_map \<times> nat set" where
  "rebuild_witness max_signal deleted forbidden non_linear_map remove_unused =
     (let (deleted, _, wmap) = fold (rebuild_step forbidden non_linear_map remove_unused)
            [0..<max_signal] (deleted, [], [])
      in (wmap, deleted))"

text \<open>\<open>no_wires\<close> is the length of the map; a position past it is a panic.\<close>

definition no_wires :: "signal_map \<Rightarrow> nat" where
  "no_wires signal_map = length signal_map"

definition get_witness_as_vec :: "signal_map \<Rightarrow> nat list option" where
  "get_witness_as_vec signal_map =
     fold (\<lambda>(k, v) acc. Option.bind acc (\<lambda>witness.
         if v < length witness then Some (witness[v := k]) else None))
       signal_map (Some (replicate (no_wires signal_map) 0))"

record iterator_signal =
  is_name :: string
  is_original :: nat
  is_witness :: nat

definition iterator_signal_new :: "string \<times> nat \<Rightarrow> signal_map \<Rightarrow> iterator_signal" where
  "iterator_signal_new signal signal_map =
     (let original = snd signal; name = fst signal;
          witness = (case map_of signal_map original of None \<Rightarrow> length signal_map | Some s \<Rightarrow> s)
      in \<lparr>is_name = name, is_original = original, is_witness = witness\<rparr>)"

section \<open>Lemmas\<close>

definition stays :: "nat set \<Rightarrow> nat set \<Rightarrow> (nat, nat list) hmap \<Rightarrow> bool \<Rightarrow> nat \<Rightarrow> bool" where
  "stays deleted forbidden non_linear_map remove_unused s \<longleftrightarrow>
     s \<notin> deleted \<and> (remove_unused \<longrightarrow> s \<in> forbidden \<or> hm_contains non_linear_map s)"

text \<open>The signals that stay, in order, each with its position among them.\<close>

definition numbered :: "(nat \<Rightarrow> bool) \<Rightarrow> nat \<Rightarrow> signal_map" where
  "numbered P n = zip (filter P [0..<n]) [0..<length (filter P [0..<n])]"

lemma length_filter_upt: "length (filter P [0..<n]) \<le> n"
  by (metis diff_zero length_filter_le length_upt)

lemma numbered_Suc:
  "numbered P (Suc n) = (if P n then numbered P n @ [(n, length (filter P [0..<n]))] else numbered P n)"
  by (simp add: numbered_def)

lemma keys_numbered: "keys_of (numbered P n) = {s. s < n \<and> P s}"
  by (auto simp: keys_of_def numbered_def)

lemma rebuild_fold:
  assumes "\<And>s. P s \<longleftrightarrow> stays deleted forbidden nlm remove_unused s"
  shows "fold (rebuild_step forbidden nlm remove_unused) [0..<n] (deleted, [], []) =
    (deleted \<union> {s. s < n \<and> \<not> P s}, [length (filter P [0..<n])..<n], numbered P n)"
proof (induction n)
  case (Suc n)
  let ?m = "length (filter P [0..<n])" and ?D = "deleted \<union> {s. s < n \<and> \<not> P s}"
  have m: "?m \<le> n" by (rule length_filter_upt)
  have nk: "\<not> hm_contains (numbered P n) n" by (simp add: hm_contains_set keys_numbered)
  have "rebuild_step forbidden nlm remove_unused n (?D, [?m..<n], numbered P n) =
    (deleted \<union> {s. s < Suc n \<and> \<not> P s}, [length (filter P [0..<Suc n])..<Suc n], numbered P (Suc n))"
  proof (cases "P n")
    case False
    have D: "deleted \<union> {s. s < Suc n \<and> \<not> P s} = insert n ?D" using False by (auto simp: less_Suc_eq)
    show ?thesis
      using False m assms [of n] by (auto simp: rebuild_step_def stays_def numbered_Suc D)
  next
    case True
    then have n: "n \<notin> ?D" "\<not> (remove_unused \<and> n \<notin> forbidden \<and> \<not> hm_contains nlm n)"
      using assms [of n] by (auto simp: stays_def)
    have D: "deleted \<union> {s. s < Suc n \<and> \<not> P s} = ?D" using True by (auto simp: less_Suc_eq)
    have ins: "hm_insert n ?m (numbered P n) = numbered P (Suc n)"
      using True nk by (simp add: numbered_Suc hm_insert_append)
    show ?thesis
    proof (cases "?m = n")
      case eq: True
      then have "[?m..<n] = []" by simp
      then show ?thesis using n True eq ins D by (simp add: rebuild_step_def)
    next
      case False
      then have "?m < n" using m by simp
      then have "[?m..<n] = ?m # [Suc ?m..<n]" by (rule upt_conv_Cons)
      then show ?thesis using n True False m ins D by (simp add: rebuild_step_def)
    qed
  qed
  then show ?case using Suc by simp
qed (simp add: numbered_def)

lemma rebuild_witness_numbered:
  "rebuild_witness n deleted forbidden nlm remove_unused =
    (numbered (stays deleted forbidden nlm remove_unused) n,
     deleted \<union> {s. s < n \<and> \<not> stays deleted forbidden nlm remove_unused s})"
  using rebuild_fold [of "stays deleted forbidden nlm remove_unused"] by (simp add: rebuild_witness_def)

lemma witness_vec_prefix:
  "length xs + length pre = length w \<Longrightarrow>
    fold (\<lambda>(k, v) acc. Option.bind acc (\<lambda>witness. if v < length witness then Some (witness[v := k]) else None))
      (zip xs [length pre..<length w]) (Some (pre @ drop (length pre) w)) = Some (pre @ xs)"
proof (induction xs arbitrary: pre)
  case (Cons x xs)
  have l: "length pre < length w" using Cons.prems by simp
  then have u: "[length pre..<length w] = length pre # [length (pre @ [x])..<length w]"
    by (simp add: upt_conv_Cons)
  have "(pre @ drop (length pre) w)[length pre := x] = (pre @ [x]) @ drop (length (pre @ [x])) w"
    using l by (simp add: list_update_append Cons_nth_drop_Suc [symmetric])
  then show ?case using Cons.IH [of "pre @ [x]"] Cons.prems l by (simp add: u del: upt_Suc)
qed simp

lemma get_witness_numbered: "get_witness_as_vec (numbered P n) = Some (filter P [0..<n])"
  using witness_vec_prefix [of "filter P [0..<n]" "[]" "replicate (length (filter P [0..<n])) 0"]
  by (simp add: get_witness_as_vec_def no_wires_def numbered_def)

section \<open>Properties\<close>

text \<open>C14: the numbering of the witness. The map has exactly the signals below \<open>max_signal\<close> that are not
  deleted and, when unused signals are removed, are forbidden or occur in the map of the
  constraints; written out as a vector it is these signals in increasing order, so positions
  are consecutive from zero and keep the order of the signals. The unused ones are deleted.\<close>

theorem rebuild_witness_numbers:
  "let (signal_map, deleted') = rebuild_witness max_signal deleted forbidden non_linear_map remove_unused;
       kept = filter (stays deleted forbidden non_linear_map remove_unused) [0..<max_signal]
   in get_witness_as_vec signal_map = Some kept \<and> no_wires signal_map = length kept \<and>
      map fst signal_map = kept \<and> map snd signal_map = [0..<length kept] \<and>
      deleted' = deleted \<union> ({..<max_signal} - set kept)"
proof -
  let ?P = "stays deleted forbidden non_linear_map remove_unused"
  have "map fst (numbered ?P max_signal) = filter ?P [0..<max_signal]"
    "map snd (numbered ?P max_signal) = [0..<length (filter ?P [0..<max_signal])]"
    by (simp_all add: numbered_def)
  moreover have "length (numbered ?P max_signal) = length (filter ?P [0..<max_signal])"
    by (simp add: numbered_def)
  ultimately show ?thesis
    by (auto simp: rebuild_witness_numbered get_witness_numbered no_wires_def Let_def)
qed

end
