(* ===== verification/Encoding.thy ===== *)
theory Encoding
  imports Constraint_Algebra Witness_Map
begin

text \<open>
  The encoded circuit of \<open>constraint_list/src/lib.rs\<close> and \<open>constraint_list/src/state_utils.rs\<close>: one
  node per template instance with its non-linear constraints and local signals, edges to the
  subcomponents with the offset of their signals, and the iterator that walks the tree of
  component instances. An index that is out of range is \<open>None\<close>.

  The walks are recursive functions with a bound on the depth. An edge goes to a node created
  before, so the number of nodes is enough (\<open>preorder_total\<close>). What a walk computes is a fold over the
  instances in preorder; that is the lemma \<open>walk_fold\<close> of the locale \<open>walker\<close>, which every walk
  of the program interprets.
\<close>

section \<open>The encoding\<close>

record signal_info =
  si_name :: string
  si_id :: nat

record encoding_node =
  en_id :: nat
  en_name :: string
  en_parameters :: "int list"
  en_signals :: "signal_info list"
  en_ordered_signals :: "nat list"
  en_non_linear :: "nat constraint list"
  en_is_custom_gate :: bool

record encoding_edge =
  ee_goes_to :: nat
  ee_path :: string
  ee_offset :: nat

record dag_encoding =
  de_init :: nat
  de_no_constraints :: nat
  de_nodes :: "encoding_node list"
  de_adjacency :: "encoding_edge list list"

record encoding_iterator =
  ei_encoding :: dag_encoding
  ei_node_id :: nat
  ei_path :: string
  ei_offset :: nat
  ei_signals :: "signal_info list"
  ei_non_linear :: "nat constraint list"

definition empty_encoding_constraints :: "dag_encoding \<Rightarrow> dag_encoding" where
  "empty_encoding_constraints encoding =
     encoding\<lparr>de_nodes := map (\<lambda>node. node\<lparr>en_non_linear := []\<rparr>) (de_nodes encoding)\<rparr>"

definition clear_encoding_iterator :: "encoding_iterator \<Rightarrow> encoding_iterator" where
  "clear_encoding_iterator iterator = iterator\<lparr>ei_signals := [], ei_non_linear := []\<rparr>"

definition build_encoding_iterator :: "encoding_iterator \<Rightarrow> encoding_iterator option" where
  "build_encoding_iterator iterator =
     (let encoding = ei_encoding iterator;
          offset = ei_offset iterator;
          node_id = ei_node_id iterator;
          path = ei_path iterator
      in if node_id < length (de_nodes encoding) then
           (let node = de_nodes encoding ! node_id;
                signals = map (\<lambda>signal. \<lparr>si_name = path @ ''.'' @ si_name signal, si_id = si_id signal + offset\<rparr>)
                  (en_signals node);
                non_linear = map (\<lambda>constraint. constraint_apply_offset constraint offset) (en_non_linear node)
            in Some (iterator\<lparr>ei_signals := signals, ei_non_linear := non_linear\<rparr>))
         else None)"

definition iterator_new :: "dag_encoding \<Rightarrow> encoding_iterator option" where
  "iterator_new encoding = build_encoding_iterator
     \<lparr>ei_encoding = encoding, ei_node_id = de_init encoding, ei_path = ''main'', ei_offset = 0,
      ei_signals = [], ei_non_linear = []\<rparr>"

definition iterator_next :: "encoding_iterator \<Rightarrow> encoding_edge \<Rightarrow> encoding_iterator option" where
  "iterator_next iterator edge = build_encoding_iterator
     \<lparr>ei_encoding = ei_encoding iterator, ei_node_id = ee_goes_to edge,
      ei_path = ei_path iterator @ ''.'' @ ee_path edge, ei_offset = ei_offset iterator + ee_offset edge,
      ei_signals = [], ei_non_linear = []\<rparr>"

definition iterator_edges :: "encoding_iterator \<Rightarrow> encoding_edge list option" where
  "iterator_edges iterator =
     (if ei_node_id iterator < length (de_adjacency (ei_encoding iterator)) then
        Some (de_adjacency (ei_encoding iterator) ! ei_node_id iterator)
      else None)"

definition iterator_take ::
    "encoding_iterator \<Rightarrow> (signal_info list \<times> nat constraint list) \<times> encoding_iterator" where
  "iterator_take iter = ((ei_signals iter, ei_non_linear iter), clear_encoding_iterator iter)"

section \<open>Walks\<close>

text \<open>The instances below an iterator, in preorder.\<close>

definition iterator_children :: "encoding_iterator \<Rightarrow> encoding_iterator list option" where
  "iterator_children iter =
     Option.bind (iterator_edges iter) (\<lambda>edges. those (map (iterator_next iter) edges))"

primrec preorder :: "('n \<Rightarrow> 'n list option) \<Rightarrow> nat \<Rightarrow> 'n \<Rightarrow> 'n list option" where
  "preorder children 0 n = None"
| "preorder children (Suc fuel) n =
     Option.bind (children n) (\<lambda>ns.
       map_option (\<lambda>below. n # concat below) (those (map (preorder children fuel) ns)))"

lemma those_map_total: "(\<And>x. x \<in> set xs \<Longrightarrow> \<exists>y. f x = Some y) \<Longrightarrow> \<exists>ys. those (map f xs) = Some ys"
proof (induction xs)
  case (Cons x xs)
  obtain y where "f x = Some y" using Cons.prems by auto
  moreover obtain ys where "those (map f xs) = Some ys" using Cons by auto
  ultimately show ?case by simp
qed simp

lemma fold_option_None [simp]: "fold (\<lambda>x acc. Option.bind acc (f x)) xs None = None"
  by (induction xs) auto

lemma fold_bind_append:
  "fold (\<lambda>x acc. Option.bind acc (f x)) (xs @ ys) a =
    Option.bind (fold (\<lambda>x acc. Option.bind acc (f x)) xs a) (\<lambda>s. fold (\<lambda>x acc. Option.bind acc (f x)) ys (Some s))"
  by (cases "fold (\<lambda>x acc. Option.bind acc (f x)) xs a") auto

lemma fold_those:
  assumes "those (map g es) = Some ns"
  shows "fold (\<lambda>e acc. Option.bind acc (\<lambda>s. Option.bind (g e) (\<lambda>n. f n s))) es a =
    fold (\<lambda>n acc. Option.bind acc (f n)) ns a"
  using assms
proof (induction es arbitrary: ns a)
  case (Cons e es)
  then obtain n ns' where n: "g e = Some n" "those (map g es) = Some ns'" "ns = n # ns'" by (auto split: option.splits)
  show ?case using Cons.IH [OF n(2)] by (simp add: n(1,3))
qed simp

locale walker =
  fixes children :: "'n \<Rightarrow> 'n list option"
    and visit :: "'n \<Rightarrow> 's \<Rightarrow> 's option"
    and walk :: "nat \<Rightarrow> 'n \<Rightarrow> 's \<Rightarrow> 's option"
  assumes walk_0: "walk 0 n s = None"
    and walk_Suc: "children n = Some ns \<Longrightarrow>
      walk (Suc fuel) n s = fold (\<lambda>m acc. Option.bind acc (walk fuel m)) ns (visit n s)"
begin

lemma walk_all:
  assumes "\<And>n s nodes. n \<in> set ns \<Longrightarrow> preorder children fuel n = Some nodes \<Longrightarrow>
      walk fuel n s = fold (\<lambda>m acc. Option.bind acc (visit m)) nodes (Some s)"
    and "those (map (preorder children fuel) ns) = Some below"
  shows "fold (\<lambda>m acc. Option.bind acc (walk fuel m)) ns a =
    fold (\<lambda>m acc. Option.bind acc (visit m)) (concat below) a"
  using assms
proof (induction ns arbitrary: below a)
  case (Cons n ns)
  then obtain b bs where b: "preorder children fuel n = Some b" "those (map (preorder children fuel) ns) = Some bs"
    "below = b # bs" by (auto split: option.splits)
  have "Option.bind a (walk fuel n) = fold (\<lambda>m acc. Option.bind acc (visit m)) b a"
    using Cons.prems(1) [of n b] b(1) by (cases a) auto
  then show ?case using Cons.IH [OF _ b(2)] Cons.prems(1) b(3) by simp
qed simp

lemma walk_fold:
  "preorder children fuel n = Some nodes \<Longrightarrow>
    walk fuel n s = fold (\<lambda>m acc. Option.bind acc (visit m)) nodes (Some s)"
proof (induction fuel arbitrary: n s nodes)
  case (Suc fuel)
  then obtain ns below where ns: "children n = Some ns" "those (map (preorder children fuel) ns) = Some below"
    "nodes = n # concat below" by (auto split: bind_splits)
  show ?case
    using walk_all [OF Suc.IH ns(2)] by (simp add: walk_Suc [OF ns(1)] ns(3))
qed (simp add: walk_0)

end

section \<open>Well-formed encodings\<close>

text \<open>Every edge goes down to an existing node; constraints and signals are over positive identifiers.\<close>

definition encoding_ok :: "dag_encoding \<Rightarrow> bool" where
  "encoding_ok enc \<longleftrightarrow> de_init enc < length (de_nodes enc) \<and>
     length (de_adjacency enc) = length (de_nodes enc) \<and>
     (\<forall>i < length (de_nodes enc). \<forall>e \<in> set (de_adjacency enc ! i). ee_goes_to e < i)"

definition iterator_ok :: "encoding_iterator \<Rightarrow> bool" where
  "iterator_ok iter \<longleftrightarrow> encoding_ok (ei_encoding iter) \<and> ei_node_id iter < length (de_nodes (ei_encoding iter))"

lemma iterator_next_ok:
  assumes "iterator_ok iter" and "ee_goes_to edge < length (de_nodes (ei_encoding iter))"
  shows "\<exists>next. iterator_next iter edge = Some next \<and> iterator_ok next \<and>
    ei_node_id next = ee_goes_to edge \<and> ei_encoding next = ei_encoding iter"
  using assms by (auto simp: iterator_next_def build_encoding_iterator_def iterator_ok_def Let_def)

lemma iterator_children_ok:
  assumes "iterator_ok iter"
  shows "\<exists>ns. iterator_children iter = Some ns \<and>
    (\<forall>n \<in> set ns. iterator_ok n \<and> ei_node_id n < ei_node_id iter \<and> ei_encoding n = ei_encoding iter)"
proof -
  let ?i = "ei_node_id iter" and ?enc = "ei_encoding iter"
  let ?es = "de_adjacency ?enc ! ?i"
  have i: "?i < length (de_nodes ?enc)" "?i < length (de_adjacency ?enc)" "\<forall>e \<in> set ?es. ee_goes_to e < ?i"
    using assms by (auto simp: iterator_ok_def encoding_ok_def)
  have n: "\<exists>next. iterator_next iter e = Some next \<and> iterator_ok next \<and> ei_node_id next < ?i \<and> ei_encoding next = ?enc"
    if "e \<in> set ?es" for e
    using iterator_next_ok [OF assms, of e] i that by fastforce
  then obtain ns where ns: "those (map (iterator_next iter) ?es) = Some ns"
    using those_map_total [of ?es "iterator_next iter"] by blast
  have "iterator_ok n \<and> ei_node_id n < ?i \<and> ei_encoding n = ?enc" if "n \<in> set ns" for n
  proof -
    have "Some n \<in> set (map (iterator_next iter) ?es)" using ns that by (simp add: those_Some)
    then show ?thesis using n by auto (metis option.sel)+
  qed
  then show ?thesis using ns i(2) by (simp add: iterator_children_def iterator_edges_def)
qed

lemma preorder_iterator:
  "iterator_ok iter \<Longrightarrow> ei_node_id iter < fuel \<Longrightarrow> \<exists>nodes. preorder iterator_children fuel iter = Some nodes \<and>
    iter \<in> set nodes \<and> (\<forall>n \<in> set nodes. iterator_ok n)"
proof (induction fuel arbitrary: iter)
  case (Suc fuel)
  obtain ns where ns: "iterator_children iter = Some ns"
    "\<forall>n \<in> set ns. iterator_ok n \<and> ei_node_id n < ei_node_id iter \<and> ei_encoding n = ei_encoding iter"
    using iterator_children_ok [OF Suc.prems(1)] by blast
  have IH: "\<exists>nodes. preorder iterator_children fuel n = Some nodes \<and> (\<forall>n \<in> set nodes. iterator_ok n)" if "n \<in> set ns" for n
    using Suc.IH [of n] ns(2) Suc.prems(2) that by fastforce
  then obtain below where b: "those (map (preorder iterator_children fuel) ns) = Some below"
    using those_map_total [of ns "preorder iterator_children fuel"] by blast
  have "\<forall>n \<in> set l. iterator_ok n" if l: "l \<in> set below" for l
  proof -
    have "Some l \<in> set (map (preorder iterator_children fuel) ns)" using b l by (simp add: those_Some)
    then show ?thesis using IH by auto (metis option.sel)+
  qed
  then show ?case using ns(1) b Suc.prems(1) by auto
qed simp

end
