(* ===== verification/Constraint_Storage.thy ===== *)
theory Constraint_Storage
  imports Constant_Tracking Constraint_Algebra
begin

text \<open>
  \<open>circom_algebra/src/constraint_storage\<close>: the constraints that stay are kept compressed, as
  lists of pairs of a constant number and a signal, with the constants in a tracker. The bytes of
  a coefficient come from the bignum library (\<open>to_signed_bytes_le\<close>, \<open>from_signed_bytes_le\<close>); they
  are the parameters \<open>to_raw\<close> and \<open>of_raw\<close>, of which the code needs that the second undoes the
  first (\<open>raw_ok\<close>).

  The storage implements a list of constraints: \<open>stored st cs\<close> relates the two, and each operation
  is the list operation of its name.
\<close>

section \<open>Compression\<close>

type_synonym compressed_expr = "(nat \<times> nat) list"
type_synonym compressed_constraint = "compressed_expr \<times> compressed_expr \<times> compressed_expr"

definition raw_ok :: "(int \<Rightarrow> 'r) \<Rightarrow> ('r \<Rightarrow> int) \<Rightarrow> bool" where
  "raw_ok to_raw of_raw \<longleftrightarrow> (\<forall>x. of_raw (to_raw x) = x)"

definition code_expression ::
    "(int \<Rightarrow> 'r) \<Rightarrow> nat coefficients \<Rightarrow> 'r constant_tracker \<Rightarrow> compressed_expr \<times> 'r constant_tracker" where
  "code_expression to_raw expr tracker =
     fold (\<lambda>(var, coeff) (c_expr, tracker).
         (let raw_coeff = to_raw coeff;
              (coeff_id, tracker) = ct_insert raw_coeff tracker
          in (c_expr @ [(coeff_id, var)], tracker)))
       expr ([], tracker)"

definition code_constraint ::
    "(int \<Rightarrow> 'r) \<Rightarrow> nat constraint \<Rightarrow> 'r constant_tracker \<Rightarrow> compressed_constraint \<times> 'r constant_tracker" where
  "code_constraint to_raw constraint tracker =
     (let (a, tracker) = code_expression to_raw (con_a constraint) tracker;
          (b, tracker) = code_expression to_raw (con_b constraint) tracker;
          (c, tracker) = code_expression to_raw (con_c constraint) tracker
      in ((a, b, c), tracker))"

definition decode_expr ::
    "('r \<Rightarrow> int) \<Rightarrow> compressed_expr \<Rightarrow> 'r constant_tracker \<Rightarrow> nat coefficients option" where
  "decode_expr of_raw c_expr tracker =
     fold (\<lambda>(coeff_id, var) acc. Option.bind acc (\<lambda>decoded_expr.
         Option.bind (ct_get_constant tracker coeff_id) (\<lambda>raw_coeff.
           Some (hm_insert var (of_raw raw_coeff) decoded_expr))))
       c_expr (Some [])"

definition decode_constraint ::
    "('r \<Rightarrow> int) \<Rightarrow> compressed_constraint \<Rightarrow> 'r constant_tracker \<Rightarrow> nat constraint option" where
  "decode_constraint of_raw = (\<lambda>(a, b, c) tracker.
     Option.bind (decode_expr of_raw a tracker) (\<lambda>a.
     Option.bind (decode_expr of_raw b tracker) (\<lambda>b.
     Option.bind (decode_expr of_raw c tracker) (\<lambda>c.
       Some \<lparr>con_a = a, con_b = b, con_c = c\<rparr>))))"

section \<open>The storage\<close>

record 'r constraint_storage =
  field_tracker :: "'r constant_tracker"
  cs_constraints :: "compressed_constraint list"

definition storage_new :: "'r constraint_storage" where
  "storage_new = \<lparr>field_tracker = ct_new, cs_constraints = []\<rparr>"

definition add_constraint ::
    "(int \<Rightarrow> 'r) \<Rightarrow> nat constraint \<Rightarrow> 'r constraint_storage \<Rightarrow> nat \<times> 'r constraint_storage" where
  "add_constraint to_raw constraint self =
     (let new_id = length (cs_constraints self);
          (compressed, tracker) = code_constraint to_raw constraint (field_tracker self)
      in (new_id, \<lparr>field_tracker = tracker, cs_constraints = cs_constraints self @ [compressed]\<rparr>))"

text \<open>The outer \<open>None\<close> is the panic of the decoder, the inner one the \<open>None\<close> of the source.\<close>

definition read_constraint ::
    "('r \<Rightarrow> int) \<Rightarrow> 'r constraint_storage \<Rightarrow> nat \<Rightarrow> nat constraint option option" where
  "read_constraint of_raw self cid =
     (if cid < length (cs_constraints self) then
        map_option Some (decode_constraint of_raw (cs_constraints self ! cid) (field_tracker self))
      else Some None)"

definition storage_replace ::
    "(int \<Rightarrow> 'r) \<Rightarrow> nat \<Rightarrow> nat constraint \<Rightarrow> 'r constraint_storage \<Rightarrow> 'r constraint_storage" where
  "storage_replace to_raw cid new self =
     (if cid < length (cs_constraints self) then
        (let (compressed, tracker) = code_constraint to_raw new (field_tracker self)
         in \<lparr>field_tracker = tracker, cs_constraints = (cs_constraints self)[cid := compressed]\<rparr>)
      else self)"

definition extract_with ::
    "('r \<Rightarrow> int) \<Rightarrow> (nat constraint \<Rightarrow> bool) \<Rightarrow> 'r constraint_storage \<Rightarrow>
      (nat constraint list \<times> 'r constraint_storage) option" where
  "extract_with of_raw selected self =
     map_option (\<lambda>(removed, kept). (removed, self\<lparr>cs_constraints := kept\<rparr>))
       (fold (\<lambda>c acc. Option.bind acc (\<lambda>(removed, kept).
           Option.bind (decode_constraint of_raw c (field_tracker self)) (\<lambda>decoded.
             if selected decoded then Some (removed @ [decoded], kept)
             else Some (removed, kept @ [c]))))
         (cs_constraints self) (Some ([], [])))"

definition get_ids :: "'r constraint_storage \<Rightarrow> nat list" where
  "get_ids self = [0..<length (cs_constraints self)]"

definition no_constants :: "'r constraint_storage \<Rightarrow> nat" where
  "no_constants self = ct_next_id (field_tracker self)"

section \<open>Lemmas: compression\<close>

definition codes :: "('r \<Rightarrow> int) \<Rightarrow> 'r constant_tracker \<Rightarrow> compressed_constraint \<Rightarrow> nat constraint \<Rightarrow> bool" where
  "codes of_raw t cc c \<longleftrightarrow> decode_constraint of_raw cc t = Some c"

lemma code_expression_intern:
  "code_expression to_raw expr t = ct.intern_all (map (\<lambda>(var, coeff). (var, to_raw coeff)) expr) t"
proof -
  have "fold (\<lambda>(var, coeff) (c_expr, tracker).
         (let raw_coeff = to_raw coeff; (coeff_id, tracker) = ct_insert raw_coeff tracker
          in (c_expr @ [(coeff_id, var)], tracker))) expr acc =
      fold (\<lambda>(k, c) (ids, t). case ct_insert c t of (i, t') \<Rightarrow> (ids @ [(i, k)], t'))
        (map (\<lambda>(var, coeff). (var, to_raw coeff)) expr) acc" for acc
    by (induction expr arbitrary: acc) (auto simp: case_prod_beta Let_def)
  then show ?thesis by (simp add: code_expression_def ct.intern_all_def)
qed

text \<open>Decoding a list of numbered coefficients, whatever was decoded before.\<close>

lemma decode_fold:
  assumes "raw_ok to_raw of_raw"
    and "list_all2 (\<lambda>(i, k) (k', r). k = k' \<and> ct_get_constant t i = Some r) ids
      (map (\<lambda>(var, coeff). (var, to_raw coeff)) expr)"
    and "hm_wf (acc @ expr)"
  shows "fold (\<lambda>(coeff_id, var) acc. Option.bind acc (\<lambda>decoded_expr.
         Option.bind (ct_get_constant t coeff_id) (\<lambda>raw_coeff.
           Some (hm_insert var (of_raw raw_coeff) decoded_expr)))) ids (Some acc) = Some (acc @ expr)"
  using assms(2,3)
proof (induction expr arbitrary: ids acc)
  case (Cons e expr)
  obtain k v where e: "e = (k, v)" by (cases e)
  from Cons.prems(1) obtain i ids' where ids: "ids = (i, k) # ids'" "ct_get_constant t i = Some (to_raw v)"
    "list_all2 (\<lambda>(i, k) (k', r). k = k' \<and> ct_get_constant t i = Some r) ids'
      (map (\<lambda>(var, coeff). (var, to_raw coeff)) expr)"
    by (auto simp: e list_all2_Cons2)
  have "hm_insert k v acc = acc @ [(k, v)]"
    using Cons.prems(2) by (intro hm_insert_append) (auto simp: e hm_wf_def hm_contains_def)
  then show ?case
    using Cons.IH [OF ids(3), of "acc @ [(k, v)]"] Cons.prems(2) ids(1,2) assms(1)
    by (simp add: e raw_ok_def)
qed simp

lemma decode_stable:
  assumes "\<forall>j d. ct_get_constant t j = Some d \<longrightarrow> ct_get_constant t' j = Some d"
    and "decode_expr of_raw ce t = Some e"
  shows "decode_expr of_raw ce t' = Some e"
proof -
  have "fold (\<lambda>(coeff_id, var) acc. Option.bind acc (\<lambda>decoded_expr.
         Option.bind (ct_get_constant t coeff_id) (\<lambda>raw_coeff.
           Some (hm_insert var (of_raw raw_coeff) decoded_expr)))) ce (Some acc) = Some e \<Longrightarrow>
      fold (\<lambda>(coeff_id, var) acc. Option.bind acc (\<lambda>decoded_expr.
         Option.bind (ct_get_constant t' coeff_id) (\<lambda>raw_coeff.
           Some (hm_insert var (of_raw raw_coeff) decoded_expr)))) ce (Some acc) = Some e" for acc
  proof (induction ce arbitrary: acc)
    case (Cons x ce)
    obtain i k where x: "x = (i, k)" by (cases x)
    show ?case
    proof (cases "ct_get_constant t i")
      case None
      then show ?thesis using Cons.prems by (simp add: x fold_bind_None)
    next
      case (Some r)
      then show ?thesis using Cons assms(1) by (simp add: x)
    qed
  qed simp
  then show ?thesis using assms(2) by (simp add: decode_expr_def)
qed

lemma code_expression_roundtrip:
  assumes "raw_ok to_raw of_raw" and "ct_wf t" and "hm_wf expr" and "code_expression to_raw expr t = (ce, t')"
  shows "ct_wf t' \<and> (\<forall>j d. ct_get_constant t j = Some d \<longrightarrow> ct_get_constant t' j = Some d) \<and>
    decode_expr of_raw ce t' = Some expr"
proof -
  have "ct_wf t' \<and> (\<forall>j d. ct_get_constant t j = Some d \<longrightarrow> ct_get_constant t' j = Some d) \<and>
    list_all2 (\<lambda>(i, k) (k', c). k = k' \<and> ct_get_constant t' i = Some c) ce
      (map (\<lambda>(var, coeff). (var, to_raw coeff)) expr)"
    using ct.intern_all_spec [OF assms(2)] assms(4) by (simp add: code_expression_intern)
  with decode_fold [OF assms(1), of t' ce expr "[]"] assms(3) show ?thesis by (simp add: decode_expr_def)
qed

lemma codes_stable:
  "\<forall>j d. ct_get_constant t j = Some d \<longrightarrow> ct_get_constant t' j = Some d \<Longrightarrow> codes of_raw t cc c \<Longrightarrow>
    codes of_raw t' cc c"
  by (cases cc) (auto simp: codes_def decode_constraint_def bind_eq_Some_conv dest: decode_stable)

lemma code_constraint_codes:
  assumes "raw_ok to_raw of_raw" and "ct_wf t" and "con_wf c" and "code_constraint to_raw c t = (cc, t')"
  shows "ct_wf t' \<and> (\<forall>j d. ct_get_constant t j = Some d \<longrightarrow> ct_get_constant t' j = Some d) \<and> codes of_raw t' cc c"
proof -
  obtain a t1 where 1: "code_expression to_raw (con_a c) t = (a, t1)"
    by (cases "code_expression to_raw (con_a c) t")
  obtain b t2 where 2: "code_expression to_raw (con_b c) t1 = (b, t2)"
    by (cases "code_expression to_raw (con_b c) t1")
  obtain d t3 where 3: "code_expression to_raw (con_c c) t2 = (d, t3)"
    by (cases "code_expression to_raw (con_c c) t2")
  have wf: "hm_wf (con_a c)" "hm_wf (con_b c)" "hm_wf (con_c c)" using assms(3) by (simp_all add: con_wf_def)
  note r1 = code_expression_roundtrip [OF assms(1,2) wf(1) 1]
  note r2 = code_expression_roundtrip [OF assms(1) _ wf(2) 2]
  note r3 = code_expression_roundtrip [OF assms(1) _ wf(3) 3]
  have t: "cc = (a, b, d)" "t' = t3" using assms(4) 1 2 3 by (simp_all add: code_constraint_def)
  have "decode_expr of_raw a t3 = Some (con_a c)" "decode_expr of_raw b t3 = Some (con_b c)"
    using r1 r2 r3 decode_stable [where t = t1] decode_stable [where t = t2] by metis+
  then show ?thesis using r1 r2 r3 by (simp add: t codes_def decode_constraint_def)
qed

section \<open>The storage as a list of constraints\<close>

definition stored :: "('r \<Rightarrow> int) \<Rightarrow> 'r constraint_storage \<Rightarrow> nat constraint list \<Rightarrow> bool" where
  "stored of_raw st cs \<longleftrightarrow> ct_wf (field_tracker st) \<and> list_all2 (codes of_raw (field_tracker st)) (cs_constraints st) cs"

lemma stored_new [simp]: "stored of_raw storage_new []"
  by (simp add: stored_def storage_new_def)

lemma stored_length: "stored of_raw st cs \<Longrightarrow> length (cs_constraints st) = length cs"
  by (auto simp: stored_def dest: list_all2_lengthD)

lemma stored_mono:
  assumes "list_all2 (codes of_raw t) ccs cs" and "\<forall>j d. ct_get_constant t j = Some d \<longrightarrow> ct_get_constant t' j = Some d"
  shows "list_all2 (codes of_raw t') ccs cs"
  using assms(1) codes_stable [OF assms(2)] by (rule list_all2_mono)

lemma stored_add:
  assumes "raw_ok to_raw of_raw" and "stored of_raw st cs" and "con_wf c"
  shows "\<exists>st'. add_constraint to_raw c st = (length cs, st') \<and> stored of_raw st' (cs @ [c])"
proof -
  obtain cc t' where cc: "code_constraint to_raw c (field_tracker st) = (cc, t')"
    by (cases "code_constraint to_raw c (field_tracker st)")
  have st: "ct_wf (field_tracker st)" "list_all2 (codes of_raw (field_tracker st)) (cs_constraints st) cs"
    using assms(2) by (simp_all add: stored_def)
  note new = code_constraint_codes [OF assms(1) st(1) assms(3) cc]
  have "list_all2 (codes of_raw t') (cs_constraints st @ [cc]) (cs @ [c])"
    using new stored_mono [OF st(2)] by (intro list_all2_appendI) simp_all
  with new cc stored_length [OF assms(2)] show ?thesis by (simp add: add_constraint_def stored_def)
qed

lemma stored_read:
  "stored of_raw st cs \<Longrightarrow> read_constraint of_raw st i = Some (if i < length cs then Some (cs ! i) else None)"
  using stored_length [of of_raw st cs]
  by (auto simp: read_constraint_def stored_def codes_def dest: list_all2_nthD)

lemma stored_replace:
  assumes "raw_ok to_raw of_raw" and "stored of_raw st cs" and "con_wf c"
  shows "stored of_raw (storage_replace to_raw i c st) (cs[i := c])"
proof (cases "i < length cs")
  case True
  obtain cc t' where cc: "code_constraint to_raw c (field_tracker st) = (cc, t')"
    by (cases "code_constraint to_raw c (field_tracker st)")
  have st: "ct_wf (field_tracker st)" "list_all2 (codes of_raw (field_tracker st)) (cs_constraints st) cs"
    using assms(2) by (simp_all add: stored_def)
  note new = code_constraint_codes [OF assms(1) st(1) assms(3) cc]
  have "list_all2 (codes of_raw t') ((cs_constraints st)[i := cc]) (cs[i := c])"
    using new stored_mono [OF st(2)] by (intro list_all2_update_cong) simp_all
  with new cc True stored_length [OF assms(2)] show ?thesis by (simp add: storage_replace_def stored_def)
next
  case False
  then show ?thesis
    using assms(2) stored_length [OF assms(2)] by (simp add: storage_replace_def not_less list_update_beyond)
qed

lemma extract_fold:
  assumes "list_all2 (codes of_raw t) ccs cs"
  shows "\<exists>kept. fold (\<lambda>c acc. Option.bind acc (\<lambda>(removed, kept).
           Option.bind (decode_constraint of_raw c t) (\<lambda>decoded.
             if selected decoded then Some (removed @ [decoded], kept)
             else Some (removed, kept @ [c])))) ccs (Some (r, k)) = Some (r @ filter selected cs, k @ kept) \<and>
      list_all2 (codes of_raw t) kept (filter (\<lambda>c. \<not> selected c) cs)"
  using assms
proof (induction ccs cs arbitrary: r k rule: list_all2_induct)
  case (Cons cc ccs c cs)
  have d: "decode_constraint of_raw cc t = Some c" using Cons.hyps(1) by (simp add: codes_def)
  show ?case
  proof (cases "selected c")
    case True
    then show ?thesis using Cons.IH [of "r @ [c]" k] d by simp
  next
    case False
    obtain kept where "fold (\<lambda>c acc. Option.bind acc (\<lambda>(removed, kept).
           Option.bind (decode_constraint of_raw c t) (\<lambda>decoded.
             if selected decoded then Some (removed @ [decoded], kept)
             else Some (removed, kept @ [c])))) ccs (Some (r, k @ [cc])) =
        Some (r @ filter selected cs, (k @ [cc]) @ kept)"
      "list_all2 (codes of_raw t) kept (filter (\<lambda>c. \<not> selected c) cs)"
      using Cons.IH [of r "k @ [cc]"] by blast
    then show ?thesis using False d Cons.hyps(1) by (intro exI [of _ "cc # kept"]) simp
  qed
qed simp

lemma stored_extract:
  assumes "stored of_raw st cs"
  shows "\<exists>st'. extract_with of_raw selected st = Some (filter selected cs, st') \<and>
    stored of_raw st' (filter (\<lambda>c. \<not> selected c) cs)"
proof -
  obtain kept where "fold (\<lambda>c acc. Option.bind acc (\<lambda>(removed, kept).
           Option.bind (decode_constraint of_raw c (field_tracker st)) (\<lambda>decoded.
             if selected decoded then Some (removed @ [decoded], kept)
             else Some (removed, kept @ [c])))) (cs_constraints st) (Some ([], [])) =
        Some ([] @ filter selected cs, [] @ kept)"
      "list_all2 (codes of_raw (field_tracker st)) kept (filter (\<lambda>c. \<not> selected c) cs)"
    using extract_fold [of of_raw "field_tracker st" "cs_constraints st" cs selected "[]" "[]"] assms
    unfolding stored_def by blast
  then show ?thesis using assms by (simp add: extract_with_def stored_def)
qed

section \<open>Properties\<close>

text \<open>C34: the storage is a list of constraints. Under the law of the byte encoding no operation panics, and
  adding, reading, replacing and extracting are appending, indexing, updating and partitioning
  of the list it stands for.\<close>

theorem constraint_storage_refines_list:
  assumes "raw_ok to_raw of_raw" and "stored of_raw st cs" and "con_wf c"
  shows "(\<exists>st'. add_constraint to_raw c st = (length cs, st') \<and> stored of_raw st' (cs @ [c])) \<and>
    read_constraint of_raw st i = Some (if i < length cs then Some (cs ! i) else None) \<and>
    stored of_raw (storage_replace to_raw i c st) (cs[i := c]) \<and>
    (\<exists>st'. extract_with of_raw selected st = Some (filter selected cs, st') \<and>
      stored of_raw st' (filter (\<lambda>c. \<not> selected c) cs)) \<and>
    get_ids st = [0..<length cs]"
  using stored_add [OF assms] stored_read [OF assms(2)] stored_replace [OF assms] stored_extract [OF assms(2)]
    stored_length [OF assms(2)]
  by (simp add: get_ids_def)

theorem constraint_storage_refines_list_witness:
  "\<exists>st'. add_constraint (\<lambda>x. [x]) \<lparr>con_a = [], con_b = [], con_c = [(0, 3), (1, 5), (2, 3)]\<rparr> storage_new = (0, st') \<and>
     read_constraint hd st' 0 = Some (Some \<lparr>con_a = [], con_b = [], con_c = [(0, 3), (1, 5), (2, 3)]\<rparr>)"
proof -
  let ?c = "\<lparr>con_a = [], con_b = [], con_c = [(0 :: nat, 3), (1, 5), (2, 3)]\<rparr>"
  have ok: "raw_ok (\<lambda>x :: int. [x]) hd" by (simp add: raw_ok_def)
  have wf: "con_wf ?c" by (simp add: con_wf_def hm_wf_def)
  from constraint_storage_refines_list [OF ok stored_new wf] obtain st' where
    st': "add_constraint (\<lambda>x. [x]) ?c storage_new = (0, st')" "stored hd st' [?c]" by auto
  from constraint_storage_refines_list [OF ok st'(2) wf, of 0] st'(1) show ?thesis by simp
qed

end
