(* ===== verification/Non_Linear.thy ===== *)
theory Non_Linear
  imports Solution_Equivalence Encoding Constraint_Storage
begin

text \<open>
  The non-linear constraints in the simplification: collecting them from the encoding into the
  storage (\<open>constraint_list/src/non_linear_utils.rs\<close>), the relevant signals, and the map from signals
  to the constraints of the storage with the substitutions that go through it
  (\<open>constraint_list/src/constraint_simplification.rs\<close>). The storage stands for a list of constraints
  (\<open>stored\<close>), and the lemmas speak of that list. An \<open>unwrap\<close> of nothing is \<open>None\<close>.
\<close>

section \<open>The map from signals to constraints\<close>

type_synonym signal_to_constraints = "(nat, nat list) hmap"

text \<open>\<open>if let Some(list) = map.get_mut(&signal) { list.push_back(c_id) } else { ... }\<close>\<close>

definition push_id :: "nat \<Rightarrow> nat \<Rightarrow> signal_to_constraints \<Rightarrow> signal_to_constraints" where
  "push_id c_id signal m =
     (case map_of m signal of
        Some ids \<Rightarrow> hm_insert signal (ids @ [c_id]) m
      | None \<Rightarrow> hm_insert signal [c_id] m)"

definition read_unwrap :: "('r \<Rightarrow> int) \<Rightarrow> 'r constraint_storage \<Rightarrow> nat \<Rightarrow> nat constraint option" where
  "read_unwrap of_raw st c_id = Option.bind (read_constraint of_raw st c_id) (\<lambda>r. r)"

definition build_non_linear_signal_map ::
    "('r \<Rightarrow> int) \<Rightarrow> 'r constraint_storage \<Rightarrow> signal_to_constraints option" where
  "build_non_linear_signal_map of_raw non_linear =
     fold (\<lambda>c_id acc. Option.bind acc (\<lambda>m.
         map_option (\<lambda>constraint. fold (push_id c_id) (take_cloned_signals constraint) m)
           (read_unwrap of_raw non_linear c_id)))
       (get_ids non_linear) (Some [])"

type_synonym 'r map_state = "'r constraint_storage \<times> signal_to_constraints \<times> nat list"

definition process_constraint ::
    "(int \<Rightarrow> 'r) \<Rightarrow> ('r \<Rightarrow> int) \<Rightarrow> nat substitution \<Rightarrow> int \<Rightarrow> nat \<Rightarrow> 'r map_state \<Rightarrow> 'r map_state option" where
  "process_constraint to_raw of_raw substitution field c_id = (\<lambda>(storage, m, linear).
     map_option (\<lambda>constraint.
         (let constraint = constraint_apply_substitution constraint substitution field;
              constraint = fix_constraint constraint field
          in (storage_replace to_raw c_id constraint storage,
              fold (push_id c_id) (hm_keys (sub_to substitution)) m,
              if is_linear constraint then linear @ [c_id] else linear)))
       (read_unwrap of_raw storage c_id))"

definition constraint_processing ::
    "(int \<Rightarrow> 'r) \<Rightarrow> ('r \<Rightarrow> int) \<Rightarrow> nat list \<Rightarrow> nat substitution \<Rightarrow> int \<Rightarrow> 'r map_state \<Rightarrow> 'r map_state option" where
  "constraint_processing to_raw of_raw c_ids substitution field st =
     fold (\<lambda>c_id acc. Option.bind acc (process_constraint to_raw of_raw substitution field c_id)) c_ids (Some st)"

definition substitute_in_map ::
    "(int \<Rightarrow> 'r) \<Rightarrow> ('r \<Rightarrow> int) \<Rightarrow> int \<Rightarrow> nat substitution \<Rightarrow> 'r map_state \<Rightarrow> 'r map_state option" where
  "substitute_in_map to_raw of_raw field substitution = (\<lambda>(storage, m, linear_id).
     case map_of m (sub_from substitution) of
       Some c_ids \<Rightarrow> constraint_processing to_raw of_raw c_ids substitution field (storage, m, linear_id)
     | None \<Rightarrow> Some (storage, m, linear_id))"

text \<open>Taking the constraints that became linear out of the storage.\<close>

definition take_linear ::
    "(int \<Rightarrow> 'r) \<Rightarrow> ('r \<Rightarrow> int) \<Rightarrow> nat \<Rightarrow> 'r constraint_storage \<times> nat constraint list \<Rightarrow>
      ('r constraint_storage \<times> nat constraint list) option" where
  "take_linear to_raw of_raw c_id = (\<lambda>(storage, linear).
     map_option (\<lambda>constraint. (storage_replace to_raw c_id constraint_empty storage, linear @ [constraint]))
       (read_unwrap of_raw storage c_id))"

definition apply_substitution_to_map ::
    "(int \<Rightarrow> 'r) \<Rightarrow> ('r \<Rightarrow> int) \<Rightarrow> 'r constraint_storage \<Rightarrow> signal_to_constraints \<Rightarrow> nat substitution list \<Rightarrow> int \<Rightarrow>
      ('r constraint_storage \<times> signal_to_constraints \<times> nat constraint list) option" where
  "apply_substitution_to_map to_raw of_raw storage m substitutions field =
     Option.bind
       (fold (\<lambda>substitution acc. Option.bind acc (substitute_in_map to_raw of_raw field substitution)) substitutions
         (Some (storage, m, [])))
       (\<lambda>(storage, m, linear_id).
         map_option (\<lambda>(storage, linear). (storage, m, linear))
           (fold (\<lambda>c_id acc. Option.bind acc (take_linear to_raw of_raw c_id)) linear_id (Some (storage, []))))"

section \<open>The relevant signals\<close>

definition unwrapped_signal :: "(nat, nat arithmetic_expression) hmap \<Rightarrow> nat \<Rightarrow> nat option" where
  "unwrapped_signal m signal =
     (case map_of m signal of Some (Signal symbol) \<Rightarrow> Some symbol | _ \<Rightarrow> None)"

definition mark_relevant ::
    "(nat, nat arithmetic_expression) hmap \<Rightarrow> (nat, nat arithmetic_expression) hmap \<Rightarrow> nat constraint \<Rightarrow>
      nat set \<Rightarrow> nat set" where
  "mark_relevant renaming deletes c relevant =
     fold (\<lambda>signal relevant.
         (let signal = (case unwrapped_signal renaming signal of Some s \<Rightarrow> s | None \<Rightarrow> signal)
          in if hm_contains deletes signal then relevant else insert signal relevant))
       (take_cloned_signals c) relevant"

primrec build_relevant_set ::
    "nat \<Rightarrow> encoding_iterator \<Rightarrow> nat set \<Rightarrow> (nat, nat arithmetic_expression) hmap \<Rightarrow>
      (nat, nat arithmetic_expression) hmap \<Rightarrow> nat set option" where
  "build_relevant_set 0 iter relevant renaming deletes = None"
| "build_relevant_set (Suc fuel) iter relevant renaming deletes =
     (let ((_, non_linear), iter) = iterator_take iter;
          relevant = fold (mark_relevant renaming deletes) non_linear relevant
      in Option.bind (iterator_edges iter) (\<lambda>edges.
           fold (\<lambda>edge acc. Option.bind acc (\<lambda>relevant.
               Option.bind (iterator_next iter edge) (\<lambda>next.
                 build_relevant_set fuel next relevant renaming deletes)))
             edges (Some relevant)))"

definition remove_not_relevant ::
    "(nat, nat arithmetic_expression) hmap \<Rightarrow> nat set \<Rightarrow> (nat, nat arithmetic_expression) hmap" where
  "remove_not_relevant substitutions relevant =
     fold (\<lambda>signal substitutions. if signal \<notin> relevant then hm_remove signal substitutions else substitutions)
       (hm_keys substitutions) substitutions"

section \<open>Collecting the non-linear constraints\<close>

definition through_frames ::
    "(nat, nat arithmetic_expression) hmap list \<Rightarrow> int \<Rightarrow> nat constraint \<Rightarrow> nat constraint option" where
  "through_frames frames field constraint =
     fold (\<lambda>frame acc. Option.bind acc (\<lambda>constraint.
         map_option fst (fast_encoded_constraint_substitution constraint frame field)))
       frames (Some constraint)"

definition place_constraint ::
    "(int \<Rightarrow> 'r) \<Rightarrow> (nat, nat arithmetic_expression) hmap list \<Rightarrow> int \<Rightarrow> nat constraint \<Rightarrow>
      nat constraint list \<times> 'r constraint_storage \<Rightarrow> (nat constraint list \<times> 'r constraint_storage) option" where
  "place_constraint to_raw frames field constraint = (\<lambda>(linear, storage).
     map_option (\<lambda>constraint.
         (let constraint = fix_constraint constraint field
          in if is_linear constraint then (linear @ [constraint], storage)
             else (linear, snd (add_constraint to_raw constraint storage))))
       (through_frames frames field constraint))"

primrec obtain_and_simplify_non_linear ::
    "(int \<Rightarrow> 'r) \<Rightarrow> nat \<Rightarrow> encoding_iterator \<Rightarrow> 'r constraint_storage \<Rightarrow> (nat, nat arithmetic_expression) hmap list \<Rightarrow>
      int \<Rightarrow> (nat constraint list \<times> 'r constraint_storage) option" where
  "obtain_and_simplify_non_linear to_raw 0 iter storage frames field = None"
| "obtain_and_simplify_non_linear to_raw (Suc fuel) iter storage frames field =
     (let ((_, non_linear), iter) = iterator_take iter
      in Option.bind
           (fold (\<lambda>constraint acc. Option.bind acc (place_constraint to_raw frames field constraint)) non_linear
             (Some ([], storage)))
           (\<lambda>(linear, storage).
         Option.bind (iterator_edges iter) (\<lambda>edges.
           fold (\<lambda>edge acc. Option.bind acc (\<lambda>(linear, storage).
               Option.bind (iterator_next iter edge) (\<lambda>next.
                 map_option (\<lambda>(linear_in_next, storage). (linear @ linear_in_next, storage))
                   (obtain_and_simplify_non_linear to_raw fuel next storage frames field))))
             edges (Some (linear, storage)))))"

section \<open>Lemmas: walking the encoding\<close>

lemma clear_keeps [simp]:
  "iterator_edges (clear_encoding_iterator iter) = iterator_edges iter"
  "iterator_next (clear_encoding_iterator iter) edge = iterator_next iter edge"
  by (simp_all add: clear_encoding_iterator_def iterator_edges_def iterator_next_def)

text \<open>Going down one edge after the other is going to the children.\<close>

lemma edges_children:
  assumes "iterator_children iter = Some ns"
  shows "\<exists>edges. iterator_edges iter = Some edges \<and>
    (\<forall>f a. fold (\<lambda>edge acc. Option.bind acc (\<lambda>s. Option.bind (iterator_next iter edge) (\<lambda>next. f next s))) edges a =
      fold (\<lambda>n acc. Option.bind acc (f n)) ns a)"
proof -
  obtain edges where e: "iterator_edges iter = Some edges" "those (map (iterator_next iter) edges) = Some ns"
    using assms by (auto simp: iterator_children_def bind_eq_Some_conv)
  then show ?thesis using fold_those [OF e(2)] by blast
qed

interpretation relevant: walker iterator_children
    "\<lambda>iter relevant. Some (fold (mark_relevant renaming deletes) (ei_non_linear iter) relevant)"
    "\<lambda>fuel iter relevant. build_relevant_set fuel iter relevant renaming deletes"
  for renaming deletes
proof unfold_locales
  fix n ns fuel s
  assume c: "iterator_children n = Some ns"
  obtain edges where e: "iterator_edges n = Some edges"
    "\<And>f a. fold (\<lambda>edge acc. Option.bind acc (\<lambda>s. Option.bind (iterator_next n edge) (\<lambda>next. f next s))) edges a =
      fold (\<lambda>n acc. Option.bind acc (f n)) ns (a :: nat set option)"
    using edges_children [OF c] by blast
  show "build_relevant_set (Suc fuel) n s renaming deletes =
      fold (\<lambda>m acc. Option.bind acc (\<lambda>s. build_relevant_set fuel m s renaming deletes)) ns
        (Some (fold (mark_relevant renaming deletes) (ei_non_linear n) s))"
    using e(2) [of "\<lambda>next s. build_relevant_set fuel next s renaming deletes"]
    by (simp add: iterator_take_def e(1) Let_def)
qed simp

lemma place_fold_prefix:
  "fold (\<lambda>constraint acc. Option.bind acc (place_constraint to_raw frames p constraint)) cs (Some (acc @ lin0, st)) =
    map_option (\<lambda>(l, st). (acc @ l, st))
      (fold (\<lambda>constraint acc. Option.bind acc (place_constraint to_raw frames p constraint)) cs (Some (lin0, st)))"
proof (induction cs arbitrary: lin0 st)
  case (Cons c cs)
  show ?case
  proof (cases "through_frames frames p c")
    case (Some d)
    then show ?thesis
      using Cons.IH [of "lin0 @ [fix_constraint d p]" st] Cons.IH [of lin0 "snd (add_constraint to_raw (fix_constraint d p) st)"]
      by (simp add: place_constraint_def Let_def)
  qed (simp add: place_constraint_def)
qed simp

definition obtained :: "(int \<Rightarrow> 'r) \<Rightarrow> (nat, nat arithmetic_expression) hmap list \<Rightarrow> int \<Rightarrow> nat \<Rightarrow> encoding_iterator \<Rightarrow>
    nat constraint list \<times> 'r constraint_storage \<Rightarrow> (nat constraint list \<times> 'r constraint_storage) option" where
  "obtained to_raw frames p fuel iter = (\<lambda>(linear, storage).
     map_option (\<lambda>(l, storage). (linear @ l, storage))
       (obtain_and_simplify_non_linear to_raw fuel iter storage frames p))"

lemma obtained_children_prefix:
  "fold (\<lambda>n acc. Option.bind acc (obtained to_raw frames p fuel n)) ns (Some (acc @ lin0, st)) =
    map_option (\<lambda>(l, st). (acc @ l, st))
      (fold (\<lambda>n acc. Option.bind acc (obtained to_raw frames p fuel n)) ns (Some (lin0, st)))"
proof (induction ns arbitrary: lin0 st)
  case (Cons n ns)
  show ?case
  proof (cases "obtain_and_simplify_non_linear to_raw fuel n st frames p")
    case (Some r)
    then show ?thesis using Cons.IH [of "lin0 @ fst r" "snd r"] by (cases r) (simp add: obtained_def)
  qed (simp add: obtained_def)
qed simp

interpretation non_linear: walker iterator_children
    "\<lambda>iter st. fold (\<lambda>constraint acc. Option.bind acc (place_constraint to_raw frames p constraint))
       (ei_non_linear iter) (Some st)"
    "obtained to_raw frames p"
  for to_raw frames p
proof unfold_locales
  fix n and s :: "nat constraint list \<times> 'a constraint_storage"
  show "obtained to_raw frames p 0 n s = None" by (cases s) (simp add: obtained_def)
next
  fix n ns fuel and s :: "nat constraint list \<times> 'a constraint_storage"
  assume c: "iterator_children n = Some ns"
  obtain edges where e: "iterator_edges n = Some edges"
    "\<And>f a. fold (\<lambda>edge acc. Option.bind acc (\<lambda>s. Option.bind (iterator_next n edge) (\<lambda>next. f next s))) edges a =
      fold (\<lambda>n acc. Option.bind acc (f n)) ns (a :: (nat constraint list \<times> 'a constraint_storage) option)"
    using edges_children [OF c] by blast
  obtain lin0 st where s: "s = (lin0, st)" by (cases s)
  let ?own = "fold (\<lambda>constraint acc. Option.bind acc (place_constraint to_raw frames p constraint)) (ei_non_linear n)"
  have o: "(\<lambda>edge acc. Option.bind acc (\<lambda>(linear, storage). Option.bind (iterator_next n edge) (\<lambda>next.
            map_option (\<lambda>(l, storage). (linear @ l, storage))
              (obtain_and_simplify_non_linear to_raw fuel next storage frames p)))) =
      (\<lambda>edge acc. Option.bind acc (\<lambda>s. Option.bind (iterator_next n edge) (\<lambda>next. obtained to_raw frames p fuel next s)))"
    by (simp add: obtained_def split_def)
  have "obtain_and_simplify_non_linear to_raw (Suc fuel) n st frames p =
      Option.bind (?own (Some ([], st))) (\<lambda>s. fold (\<lambda>n acc. Option.bind acc (obtained to_raw frames p fuel n)) ns (Some s))"
    by (cases "?own (Some ([], st))") (auto simp: iterator_take_def Let_def e(1) o e(2))
  moreover have "?own (Some (lin0, st)) = map_option (\<lambda>(l, st). (lin0 @ l, st)) (?own (Some ([], st)))"
    using place_fold_prefix [of to_raw frames p "ei_non_linear n" lin0 "[]" st] by simp
  moreover have "fold (\<lambda>n acc. Option.bind acc (obtained to_raw frames p fuel n)) ns (Some (lin0 @ l, st')) =
      map_option (\<lambda>(l, st). (lin0 @ l, st)) (fold (\<lambda>n acc. Option.bind acc (obtained to_raw frames p fuel n)) ns (Some (l, st')))"
    for l st' by (rule obtained_children_prefix)
  ultimately show "obtained to_raw frames p (Suc fuel) n s =
      fold (\<lambda>m acc. Option.bind acc (obtained to_raw frames p fuel m)) ns (?own (Some s))"
    by (cases "?own (Some ([], st))") (auto simp: obtained_def [of to_raw frames p "Suc fuel"] s)
qed

text \<open>The constraints of all the instances below an iterator.\<close>

definition instance_constraints :: "encoding_iterator list \<Rightarrow> nat constraint list" where
  "instance_constraints nodes = concat (map ei_non_linear nodes)"

definition final_signal :: "(nat, nat arithmetic_expression) hmap \<Rightarrow> nat \<Rightarrow> nat" where
  "final_signal renaming s = (case unwrapped_signal renaming s of Some t \<Rightarrow> t | None \<Rightarrow> s)"

lemma mark_relevant_set:
  "mark_relevant renaming deletes c relevant =
    relevant \<union> (final_signal renaming ` (con_keys c - {0}) - keys_of deletes)"
proof -
  have "fold (\<lambda>signal relevant.
         (let signal = (case unwrapped_signal renaming signal of Some s \<Rightarrow> s | None \<Rightarrow> signal)
          in if hm_contains deletes signal then relevant else insert signal relevant)) ks relevant =
      relevant \<union> (final_signal renaming ` set ks - keys_of deletes)" for ks
    by (induction ks arbitrary: relevant) (auto simp: final_signal_def hm_contains_set Let_def)
  then show ?thesis by (simp add: mark_relevant_def set_take_cloned)
qed

lemma mark_all_set:
  "fold (mark_relevant renaming deletes) cs relevant =
    relevant \<union> (final_signal renaming ` ((\<Union>c \<in> set cs. con_keys c) - {0}) - keys_of deletes)"
  by (induction cs arbitrary: relevant) (auto simp: mark_relevant_set)

lemma build_relevant_set_total:
  assumes "preorder iterator_children fuel iter = Some nodes"
  shows "build_relevant_set fuel iter {} renaming deletes =
    Some (final_signal renaming ` ((\<Union>c \<in> set (instance_constraints nodes). con_keys c) - {0}) - keys_of deletes)"
proof -
  have "fold (\<lambda>m acc. Option.bind acc (\<lambda>relevant. Some (fold (mark_relevant renaming deletes) (ei_non_linear m) relevant)))
      nodes (Some r) = Some (fold (mark_relevant renaming deletes) (instance_constraints nodes) r)" for r
    by (induction nodes arbitrary: r) (auto simp: instance_constraints_def)
  then show ?thesis using relevant.walk_fold [OF assms] by (simp add: mark_all_set)
qed

lemma remove_not_relevant_filter:
  "hm_wf enc \<Longrightarrow> remove_not_relevant enc relevant = filter (\<lambda>e. fst e \<in> relevant) enc"
proof -
  have "fold (\<lambda>signal substitutions. if signal \<notin> relevant then hm_remove signal substitutions else substitutions) ks m =
      filter (\<lambda>e. fst e \<in> set ks \<longrightarrow> fst e \<in> relevant) m" for ks and m :: "(nat, nat arithmetic_expression) hmap"
  proof (induction ks arbitrary: m)
    case (Cons k ks)
    have "hm_remove k m = filter (\<lambda>e. fst e \<noteq> k) m" by (auto simp: AList.delete_eq intro!: filter_cong)
    then show ?case using Cons by (auto intro!: filter_cong)
  qed simp
  then show ?thesis by (auto simp: remove_not_relevant_def hm_keys_def intro!: filter_cong)
qed

section \<open>Lemmas: constraints through the frames\<close>

fun through :: "int \<Rightarrow> (nat, nat arithmetic_expression) hmap list \<Rightarrow> nat constraint \<Rightarrow> nat constraint \<Rightarrow> bool" where
  "through p [] c d \<longleftrightarrow> d = c"
| "through p (frame # frames) c d \<longleftrightarrow> (\<exists>e. substituted p frame c e \<and> con_wf e \<and> through p frames e d)"

lemma through_frames_ok:
  assumes "0 < p" and "\<forall>frame \<in> set frames. encoding_wf frame" and "con_wf c"
  shows "\<exists>d. through_frames frames p c = Some d \<and> through p frames c d \<and> con_wf d \<and> (con_reduced p c \<longrightarrow> con_reduced p d)"
  using assms(2,3)
proof (induction frames arbitrary: c)
  case Nil
  then show ?case by (simp add: through_frames_def)
next
  case (Cons frame frames)
  obtain e b where e: "fast_encoded_constraint_substitution c frame p = Some (e, b)" "con_wf e"
    "con_reduced p c \<longrightarrow> con_reduced p e" "substituted p frame c e"
    using fast_encoded_ok [OF assms(1) _ Cons.prems(2), of frame] Cons.prems(1) by auto
  obtain d where "through_frames frames p e = Some d" "through p frames e d" "con_wf d" "con_reduced p e \<longrightarrow> con_reduced p d"
    using Cons.IH [OF _ e(2)] Cons.prems(1) by auto
  then show ?case using e by (auto simp: through_frames_def)
qed

definition placed :: "int \<Rightarrow> (nat, nat arithmetic_expression) hmap list \<Rightarrow> nat constraint \<Rightarrow> nat constraint \<Rightarrow> bool" where
  "placed p frames c d \<longleftrightarrow> (\<exists>e. through p frames c e \<and> con_wf e \<and> d = fix_constraint e p \<and> con_ok p d)"

lemma place_constraint_ok:
  assumes "0 < p" and "\<forall>frame \<in> set frames. encoding_wf frame" and "con_reduced p c" and "raw_ok to_raw of_raw"
    and "stored of_raw st cs"
  shows "\<exists>d st'. placed p frames c d \<and>
    place_constraint to_raw frames p c (lin0, st) = Some (lin0 @ filter is_linear [d], st') \<and>
    stored of_raw st' (cs @ filter (\<lambda>d. \<not> is_linear d) [d])"
proof -
  have wf: "con_wf c" using assms(3) by (simp add: con_reduced_def)
  obtain e where e: "through_frames frames p c = Some e" "through p frames c e" "con_wf e" "con_reduced p e"
    using through_frames_ok [OF assms(1,2) wf] assms(3) by auto
  have d: "con_ok p (fix_constraint e p)" by (rule con_ok_fix [OF assms(1) e(4)])
  then have "placed p frames c (fix_constraint e p)" using e(2,3) by (auto simp: placed_def)
  moreover obtain st' where "add_constraint to_raw (fix_constraint e p) st = (length cs, st')"
    "stored of_raw st' (cs @ [fix_constraint e p])"
    using stored_add [OF assms(4,5) con_ok_wf [OF d]] by blast
  ultimately show ?thesis using e(1) assms(5)
    by (intro exI [of _ "fix_constraint e p"]) (auto simp: place_constraint_def Let_def)
qed

lemma place_all_ok:
  assumes "0 < p" and "\<forall>frame \<in> set frames. encoding_wf frame" and "raw_ok to_raw of_raw"
    and "\<forall>c \<in> set ns. con_reduced p c" and "stored of_raw st cs"
  shows "\<exists>ds st'. list_all2 (placed p frames) ns ds \<and>
    fold (\<lambda>c acc. Option.bind acc (place_constraint to_raw frames p c)) ns (Some (lin0, st)) =
      Some (lin0 @ filter is_linear ds, st') \<and>
    stored of_raw st' (cs @ filter (\<lambda>d. \<not> is_linear d) ds)"
  using assms(4,5)
proof (induction ns arbitrary: lin0 st cs)
  case (Cons c ns)
  obtain d st1 where d: "placed p frames c d"
    "place_constraint to_raw frames p c (lin0, st) = Some (lin0 @ filter is_linear [d], st1)"
    "stored of_raw st1 (cs @ filter (\<lambda>d. \<not> is_linear d) [d])"
    using place_constraint_ok [OF assms(1,2) _ assms(3) Cons.prems(2), of c lin0] Cons.prems(1) by auto
  obtain ds st' where "list_all2 (placed p frames) ns ds"
    "fold (\<lambda>c acc. Option.bind acc (place_constraint to_raw frames p c)) ns (Some (lin0 @ filter is_linear [d], st1)) =
      Some ((lin0 @ filter is_linear [d]) @ filter is_linear ds, st')"
    "stored of_raw st' ((cs @ filter (\<lambda>d. \<not> is_linear d) [d]) @ filter (\<lambda>d. \<not> is_linear d) ds)"
    using Cons.IH [OF _ d(3), of "lin0 @ filter is_linear [d]"] Cons.prems(1) by auto
  then show ?case using d(1,2) by (intro exI [of _ "d # ds"]) (auto split: if_splits)
qed auto

lemma obtain_and_simplify_ok:
  assumes "0 < p" and "\<forall>frame \<in> set frames. encoding_wf frame" and "raw_ok to_raw of_raw"
    and "preorder iterator_children fuel iter = Some nodes" and "\<forall>c \<in> set (instance_constraints nodes). con_reduced p c"
  shows "\<exists>ds st. list_all2 (placed p frames) (instance_constraints nodes) ds \<and>
    obtain_and_simplify_non_linear to_raw fuel iter storage_new frames p = Some (filter is_linear ds, st) \<and>
    stored of_raw st (filter (\<lambda>d. \<not> is_linear d) ds)"
proof -
  have walk: "fold (\<lambda>m acc. Option.bind acc (\<lambda>st. fold (\<lambda>c acc. Option.bind acc (place_constraint to_raw frames p c))
        (ei_non_linear m) (Some st))) nodes a =
      fold (\<lambda>c acc. Option.bind acc (place_constraint to_raw frames p c)) (instance_constraints nodes) a" for a
  proof (induction nodes arbitrary: a)
    case (Cons n nodes)
    then show ?case by (cases a) (simp_all add: instance_constraints_def)
  qed (simp add: instance_constraints_def)
  obtain ds st where "list_all2 (placed p frames) (instance_constraints nodes) ds"
    "fold (\<lambda>c acc. Option.bind acc (place_constraint to_raw frames p c)) (instance_constraints nodes)
      (Some ([], storage_new)) = Some ([] @ filter is_linear ds, st)"
    "stored of_raw st ([] @ filter (\<lambda>d. \<not> is_linear d) ds)"
    using place_all_ok [OF assms(1-3,5) stored_new, of "[]"] by blast
  moreover have "obtained to_raw frames p fuel iter ([], storage_new) =
      obtain_and_simplify_non_linear to_raw fuel iter storage_new frames p"
    by (cases "obtain_and_simplify_non_linear to_raw fuel iter storage_new frames p") (auto simp: obtained_def)
  ultimately show ?thesis
    using non_linear.walk_fold [OF assms(4), of to_raw frames p "([], storage_new)"] walk [of "Some ([], storage_new)"]
    by (intro exI [of _ ds] exI [of _ st]) simp
qed

section \<open>Lemmas: the map from signals to constraints\<close>

definition ids_of :: "signal_to_constraints \<Rightarrow> nat \<Rightarrow> nat list" where
  "ids_of m s = (case map_of m s of None \<Rightarrow> [] | Some ids \<Rightarrow> ids)"

lemma ids_of_push: "ids_of (push_id i s m) t = (if t = s then ids_of m s @ [i] else ids_of m t)"
  by (simp add: ids_of_def push_id_def update_conv' split: option.splits)

lemma ids_of_push_all:
  "set (ids_of (fold (push_id i) ks m) s) = set (ids_of m s) \<union> (if s \<in> set ks then {i} else {})"
  by (induction ks arbitrary: m) (auto simp: ids_of_push)

lemma keys_push_all: "keys_of (fold (push_id i) ks m) = keys_of m \<union> set ks"
  by (induction ks arbitrary: m) (auto simp: push_id_def split: option.splits)

text \<open>Every constraint is listed under each of its signals, and only constraints are listed.\<close>

definition covers :: "signal_to_constraints \<Rightarrow> nat constraint list \<Rightarrow> bool" where
  "covers m cs \<longleftrightarrow> (\<forall>i < length cs. \<forall>s \<in> con_keys (cs ! i) - {0}. i \<in> set (ids_of m s)) \<and>
     (\<forall>s. \<forall>i \<in> set (ids_of m s). i < length cs)"

lemma covers_key:
  assumes "covers m cs" and "c \<in> set cs" and "s \<in> con_keys c" and "s \<noteq> 0"
  shows "s \<in> keys_of m"
proof -
  obtain i where "i < length cs" "cs ! i = c" using assms(2) by (auto simp: in_set_conv_nth)
  then have "i \<in> set (ids_of m s)" using assms(1,3,4) by (auto simp: covers_def)
  then show ?thesis by (cases "map_of m s") (auto simp: ids_of_def keys_of_map_of)
qed

lemma covers_snoc:
  assumes "covers m cs"
  shows "covers (fold (push_id (length cs)) (take_cloned_signals c) m) (cs @ [c])"
  unfolding covers_def
proof (intro conjI allI impI ballI)
  let ?m = "fold (push_id (length cs)) (take_cloned_signals c) m"
  fix i s assume i: "i < length (cs @ [c])" and s: "s \<in> con_keys ((cs @ [c]) ! i) - {0}"
  show "i \<in> set (ids_of ?m s)"
  proof (cases "i < length cs")
    case True
    then have "i \<in> set (ids_of m s)" using assms s by (auto simp: covers_def nth_append)
    then show ?thesis by (simp add: ids_of_push_all)
  next
    case False
    then have "i = length cs" using i by simp
    then show ?thesis using s by (simp add: ids_of_push_all set_take_cloned)
  qed
next
  fix s i assume "i \<in> set (ids_of (fold (push_id (length cs)) (take_cloned_signals c) m) s)"
  then have "i \<in> set (ids_of m s) \<or> i = length cs" by (auto simp: ids_of_push_all split: if_splits)
  moreover have "i < length cs" if "i \<in> set (ids_of m s)" using assms that by (simp add: covers_def)
  ultimately show "i < length (cs @ [c])" by fastforce
qed

lemma covers_Nil: "covers [] []"
  by (simp add: covers_def ids_of_def)

lemma read_unwrap_stored: "stored of_raw st cs \<Longrightarrow> i < length cs \<Longrightarrow> read_unwrap of_raw st i = Some (cs ! i)"
  by (simp add: read_unwrap_def stored_read)

lemma build_non_linear_signal_map_ok:
  assumes "stored of_raw st cs"
  shows "\<exists>m. build_non_linear_signal_map of_raw st = Some m \<and> covers m cs"
proof -
  have "\<exists>m. fold (\<lambda>c_id acc. Option.bind acc (\<lambda>m.
         map_option (\<lambda>constraint. fold (push_id c_id) (take_cloned_signals constraint) m)
           (read_unwrap of_raw st c_id))) [0..<n] (Some []) = Some m \<and> covers m (take n cs)" if "n \<le> length cs" for n
    using that
  proof (induction n)
    case 0
    then show ?case using covers_Nil by simp
  next
    case (Suc n)
    then obtain m where m: "fold (\<lambda>c_id acc. Option.bind acc (\<lambda>m.
         map_option (\<lambda>constraint. fold (push_id c_id) (take_cloned_signals constraint) m)
           (read_unwrap of_raw st c_id))) [0..<n] (Some []) = Some m" "covers m (take n cs)" by auto
    have "covers (fold (push_id n) (take_cloned_signals (cs ! n)) m) (take (Suc n) cs)"
      using covers_snoc [OF m(2), of "cs ! n"] Suc.prems by (simp add: take_Suc_conv_app_nth)
    then show ?case using m(1) Suc.prems read_unwrap_stored [OF assms, of n] by simp
  qed
  from this [of "length cs"] show ?thesis
    using stored_length [OF assms] by (simp add: build_non_linear_signal_map_def get_ids_def)
qed

section \<open>Lemmas: substituting through the map\<close>

definition rewritten :: "int \<Rightarrow> nat substitution \<Rightarrow> nat constraint \<Rightarrow> nat constraint \<Rightarrow> bool" where
  "rewritten p s c d \<longleftrightarrow> con_ok p d \<and> (is_linear c \<longrightarrow> is_linear d) \<and>
     con_keys d \<subseteq> insert 0 ((con_keys c - {sub_from s}) \<union> keys_of (sub_to s)) \<and>
     (\<forall>\<sigma>. assigns_one \<sigma> \<longrightarrow> sub_holds p \<sigma> s \<longrightarrow> (sat p \<sigma> d \<longleftrightarrow> sat p \<sigma> c))"

lemma rewritten_step:
  assumes "0 < p" and "con_ok p c" and "sub_from s \<noteq> 0"
  shows "rewritten p s c (fix_constraint (constraint_apply_substitution c s p) p)"
proof -
  let ?c = "constraint_apply_substitution c s p"
  have wf: "con_wf c" "con_wf ?c" using con_ok_wf [OF assms(2)] con_wf_apply by auto
  have "con_ok p (fix_constraint ?c p)"
    using con_ok_fix [OF assms(1) con_reduced_apply [OF assms(1) con_ok_reduced [OF assms(2)]]] .
  moreover have "is_linear c \<longrightarrow> is_linear (fix_constraint ?c p)"
    using nearly_linear_linear [of c] nearly_linear_apply [OF _ assms(3), of c p] nearly_linear_fix [of ?c p] by blast
  moreover have "con_keys (fix_constraint ?c p) \<subseteq> insert 0 ((con_keys c - {sub_from s}) \<union> keys_of (sub_to s))"
    using order_trans [OF fix_constraint_keys [of ?c p]] constraint_apply_keys [OF wf(1), of s p] by (simp add: subset_insertI2)
  moreover have "sat p \<sigma> (fix_constraint ?c p) \<longleftrightarrow> sat p \<sigma> c" if "assigns_one \<sigma>" "sub_holds p \<sigma> s" for \<sigma>
    using fix_constraint_same_solutions [OF assms(1) wf(2) that(1)]
      constraint_apply_substitution_iff [OF assms(1) wf(1) that(2)] by blast
  ultimately show ?thesis by (simp add: rewritten_def)
qed

lemma rewritten_trans:
  assumes "rewritten p s c d" and "rewritten p s d e"
  shows "rewritten p s c e"
proof -
  have "con_keys e \<subseteq> insert 0 ((con_keys c - {sub_from s}) \<union> keys_of (sub_to s))"
    using assms unfolding rewritten_def by (elim conjE) (rule order_trans, assumption, auto)
  then show ?thesis using assms unfolding rewritten_def by simp
qed

lemma rewritten_same: "con_ok p c \<Longrightarrow> sub_from s \<notin> con_keys c \<Longrightarrow> rewritten p s c c"
  by (auto simp: rewritten_def)

text \<open>The state while the constraints \<open>cs0\<close> of one signal are rewritten.\<close>

definition processing ::
    "('r \<Rightarrow> int) \<Rightarrow> int \<Rightarrow> nat substitution \<Rightarrow> nat constraint list \<Rightarrow> nat set \<Rightarrow> nat constraint list \<Rightarrow> 'r map_state \<Rightarrow> bool" where
  "processing of_raw p s cs0 seen cs = (\<lambda>(st, m, lin_ids). stored of_raw st cs \<and> length cs = length cs0 \<and>
     (\<forall>c \<in> set cs. con_ok p c) \<and> covers m cs \<and> (\<forall>i \<in> set lin_ids. i < length cs \<and> is_linear (cs ! i)) \<and>
     (\<forall>i < length cs. if i \<in> seen then rewritten p s (cs0 ! i) (cs ! i) else cs ! i = cs0 ! i))"


lemma covers_update:
  assumes "covers m cs" and "i < length cs" and "con_keys d - {0} \<subseteq> con_keys (cs ! i) \<union> set ks"
  shows "covers (fold (push_id i) ks m) (cs[i := d])"
  unfolding covers_def
proof (intro conjI allI impI ballI)
  fix j s assume j: "j < length (cs[i := d])" and s: "s \<in> con_keys (cs[i := d] ! j) - {0}"
  show "j \<in> set (ids_of (fold (push_id i) ks m) s)"
  proof (cases "j = i")
    case True
    then have "s \<in> con_keys (cs ! i) - {0} \<or> s \<in> set ks" using s assms(2,3) by auto
    then show ?thesis using assms(1,2) True by (auto simp: covers_def ids_of_push_all)
  next
    case False
    then have "s \<in> con_keys (cs ! j) - {0}" using s by simp
    then show ?thesis using assms(1) j by (simp add: covers_def ids_of_push_all)
  qed
next
  fix s j assume "j \<in> set (ids_of (fold (push_id i) ks m) s)"
  then have "j \<in> set (ids_of m s) \<or> j = i" by (auto simp: ids_of_push_all split: if_splits)
  then show "j < length (cs[i := d])" using assms(1,2) by (auto simp: covers_def)
qed

lemma process_constraint_ok:
  assumes "0 < p" and "raw_ok to_raw of_raw" and "sub_from s \<noteq> 0"
    and "processing of_raw p s cs0 seen cs (st, m, lin_ids)" and "i < length cs0"
  shows "\<exists>st' cs'. process_constraint to_raw of_raw s p i (st, m, lin_ids) = Some st' \<and>
    processing of_raw p s cs0 (insert i seen) cs' st'"
proof -
  let ?d = "fix_constraint (constraint_apply_substitution (cs ! i) s p) p"
  let ?m = "fold (push_id i) (hm_keys (sub_to s)) m"
  have st: "stored of_raw st cs" "length cs = length cs0" "\<forall>c \<in> set cs. con_ok p c" "covers m cs"
    "\<forall>j \<in> set lin_ids. j < length cs \<and> is_linear (cs ! j)"
    "\<forall>j < length cs. if j \<in> seen then rewritten p s (cs0 ! j) (cs ! j) else cs ! j = cs0 ! j"
    using assms(4) by (auto simp: processing_def)
  have i: "i < length cs" using assms(5) st(2) by simp
  then have ok: "con_ok p (cs ! i)" using st(3) by simp
  note step = rewritten_step [OF assms(1) ok assms(3)]
  have d: "con_ok p ?d" "is_linear (cs ! i) \<longrightarrow> is_linear ?d"
    "con_keys ?d \<subseteq> insert 0 ((con_keys (cs ! i) - {sub_from s}) \<union> keys_of (sub_to s))"
    using step by (simp_all add: rewritten_def)
  have "stored of_raw (storage_replace to_raw i ?d st) (cs[i := ?d])"
    by (rule stored_replace [OF assms(2) st(1) con_ok_wf [OF d(1)]])
  moreover have "\<forall>c \<in> set (cs[i := ?d]). con_ok p c"
    using st(3) d(1) set_update_subset_insert [of cs i ?d] by auto
  moreover have "covers ?m (cs[i := ?d])"
  proof (rule covers_update [OF st(4) i])
    have "set (hm_keys (sub_to s)) = keys_of (sub_to s)" by (simp add: hm_keys_def keys_of_def)
    then show "con_keys ?d - {0} \<subseteq> con_keys (cs ! i) \<union> set (hm_keys (sub_to s))" using d(3) by blast
  qed
  moreover have "\<forall>j \<in> set (if is_linear ?d then lin_ids @ [i] else lin_ids). j < length cs \<and> is_linear (cs[i := ?d] ! j)"
    using st(5) i d(2) by (auto simp: nth_list_update)
  moreover have "\<forall>j < length cs. if j \<in> insert i seen then rewritten p s (cs0 ! j) (cs[i := ?d] ! j)
      else cs[i := ?d] ! j = cs0 ! j"
  proof (intro allI impI)
    fix j assume j: "j < length cs"
    show "if j \<in> insert i seen then rewritten p s (cs0 ! j) (cs[i := ?d] ! j) else cs[i := ?d] ! j = cs0 ! j"
    proof (cases "j = i")
      case True
      have "rewritten p s (cs0 ! i) ?d"
      proof (cases "i \<in> seen")
        case True
        then show ?thesis using st(6) i rewritten_trans step by (metis (full_types))
      next
        case False
        then show ?thesis using st(6) i step by simp
      qed
      then show ?thesis using True i by simp
    next
      case False
      then show ?thesis using st(6) j by simp
    qed
  qed
  ultimately have "processing of_raw p s cs0 (insert i seen) (cs[i := ?d])
      (storage_replace to_raw i ?d st, ?m, if is_linear ?d then lin_ids @ [i] else lin_ids)"
    using st(2) by (simp add: processing_def)
  then show ?thesis
    using read_unwrap_stored [OF st(1) i] by (auto simp: process_constraint_def Let_def)
qed

lemma constraint_processing_ok:
  assumes "0 < p" and "raw_ok to_raw of_raw" and "sub_from s \<noteq> 0" and "\<forall>i \<in> set ids. i < length cs0"
    and "processing of_raw p s cs0 seen cs st"
  shows "\<exists>st' cs'. constraint_processing to_raw of_raw ids s p st = Some st' \<and>
    processing of_raw p s cs0 (set ids \<union> seen) cs' st'"
  using assms(4,5)
proof (induction ids arbitrary: seen cs st)
  case (Cons i ids)
  obtain a b c where s: "st = (a, b, c)" by (cases st)
  obtain st1 cs1 where st1: "process_constraint to_raw of_raw s p i st = Some st1"
    "processing of_raw p s cs0 (insert i seen) cs1 st1"
    using process_constraint_ok [OF assms(1-3), of cs0 seen cs a b c i] Cons.prems s by auto
  then show ?case using Cons.IH [OF _ st1(2)] Cons.prems(1) by (auto simp: constraint_processing_def)
qed (auto simp: constraint_processing_def)

text \<open>The state between substitutions.\<close>

definition map_state_ok :: "('r \<Rightarrow> int) \<Rightarrow> int \<Rightarrow> nat constraint list \<Rightarrow> 'r map_state \<Rightarrow> bool" where
  "map_state_ok of_raw p cs = (\<lambda>(st, m, lin_ids). stored of_raw st cs \<and> (\<forall>c \<in> set cs. con_ok p c) \<and>
     covers m cs \<and> (\<forall>i \<in> set lin_ids. i < length cs \<and> is_linear (cs ! i)))"

lemma substitute_in_map_ok:
  assumes "0 < p" and "raw_ok to_raw of_raw" and "sub_from s \<noteq> 0" and "map_state_ok of_raw p cs st"
  shows "\<exists>st' cs'. substitute_in_map to_raw of_raw p s st = Some st' \<and> map_state_ok of_raw p cs' st' \<and>
    list_all2 (rewritten p s) cs cs'"
proof -
  obtain storage m lin_ids where st: "st = (storage, m, lin_ids)" by (cases st)
  have ok: "\<forall>c \<in> set cs. con_ok p c" and cov: "covers m cs" using assms(4) by (simp_all add: map_state_ok_def st)
  have unlisted: "rewritten p s (cs ! i) (cs ! i)" if i: "i < length cs" "i \<notin> set (ids_of m (sub_from s))" for i
  proof (rule rewritten_same)
    show "con_ok p (cs ! i)" using ok i(1) by simp
    show "sub_from s \<notin> con_keys (cs ! i)" using cov i assms(3) by (auto simp: covers_def)
  qed
  have start: "processing of_raw p s cs {} cs st"
    using assms(4) by (simp add: processing_def map_state_ok_def st)
  show ?thesis
  proof (cases "map_of m (sub_from s)")
    case None
    then have "list_all2 (rewritten p s) cs cs" using unlisted by (simp add: list_all2_conv_all_nth ids_of_def)
    then show ?thesis using None assms(4) by (auto simp: substitute_in_map_def st)
  next
    case (Some ids)
    have "ids_of m (sub_from s) = ids" using Some by (simp add: ids_of_def)
    then have "\<forall>i \<in> set ids. i < length cs" using cov by (auto simp: covers_def)
    then obtain st' cs' where r: "constraint_processing to_raw of_raw ids s p st = Some st'"
      "processing of_raw p s cs (set ids) cs' st'"
      using constraint_processing_ok [OF assms(1-3) _ start, of ids] by auto
    then have "map_state_ok of_raw p cs' st'" by (auto simp: processing_def map_state_ok_def)
    moreover have "list_all2 (rewritten p s) cs cs'"
      unfolding list_all2_conv_all_nth
    proof (intro conjI allI impI)
      show "length cs = length cs'" using r(2) by (auto simp: processing_def)
      fix i assume i: "i < length cs"
      show "rewritten p s (cs ! i) (cs' ! i)"
        using r(2) i unlisted [OF i] Some by (auto simp: processing_def ids_of_def split: if_splits)
    qed
    ultimately show ?thesis using r(1) Some by (auto simp: substitute_in_map_def st)
  qed
qed

text \<open>What a list of substitutions makes of a constraint.\<close>

definition rewritten_all :: "int \<Rightarrow> nat substitution list \<Rightarrow> nat constraint \<Rightarrow> nat constraint \<Rightarrow> bool" where
  "rewritten_all p ss c d \<longleftrightarrow> con_ok p d \<and> (is_linear c \<longrightarrow> is_linear d) \<and>
     con_keys d \<subseteq> insert 0 ((con_keys c - sub_from ` set ss) \<union> (\<Union>s \<in> set ss. keys_of (sub_to s))) \<and>
     (\<forall>\<sigma>. assigns_one \<sigma> \<longrightarrow> subs_hold p \<sigma> ss \<longrightarrow> (sat p \<sigma> d \<longleftrightarrow> sat p \<sigma> c))"

lemma rewritten_all_Nil: "con_ok p c \<Longrightarrow> rewritten_all p [] c c"
  by (auto simp: rewritten_all_def)

lemma rewritten_all_Cons:
  assumes "0 \<notin> sub_from ` set ss" and "rewritten p s c d" and "rewritten_all p ss d e"
  shows "rewritten_all p (s # ss) c e"
proof -
  let ?T = "\<Union>s \<in> set ss. keys_of (sub_to s)"
  have d: "con_keys d \<subseteq> insert 0 ((con_keys c - {sub_from s}) \<union> keys_of (sub_to s))"
    and e: "con_keys e \<subseteq> insert 0 ((con_keys d - sub_from ` set ss) \<union> ?T)"
    using assms(2,3) by (simp_all add: rewritten_def rewritten_all_def)
  have "con_keys e \<subseteq> insert 0 ((con_keys c - sub_from ` set (s # ss)) \<union> (\<Union>s \<in> set (s # ss). keys_of (sub_to s)))"
  proof
    fix k assume "k \<in> con_keys e"
    then have "k = 0 \<or> k \<in> con_keys d - sub_from ` set ss \<or> k \<in> ?T" using e by auto
    moreover have "k = 0 \<or> k \<in> con_keys c - {sub_from s} \<or> k \<in> keys_of (sub_to s)" if "k \<in> con_keys d"
      using d that by auto
    ultimately show "k \<in> insert 0 ((con_keys c - sub_from ` set (s # ss)) \<union> (\<Union>s \<in> set (s # ss). keys_of (sub_to s)))"
      by auto
  qed
  moreover have "subs_hold p \<sigma> (s # ss) \<longleftrightarrow> sub_holds p \<sigma> s \<and> subs_hold p \<sigma> ss" for \<sigma>
    by (auto simp: subs_hold_def)
  ultimately show ?thesis using assms(2,3) by (simp add: rewritten_def rewritten_all_def)
qed

lemma substitute_all_in_map_ok:
  assumes "0 < p" and "raw_ok to_raw of_raw" and "0 \<notin> sub_from ` set ss" and "map_state_ok of_raw p cs st"
  shows "\<exists>st' cs'. fold (\<lambda>s acc. Option.bind acc (substitute_in_map to_raw of_raw p s)) ss (Some st) = Some st' \<and>
    map_state_ok of_raw p cs' st' \<and> list_all2 (rewritten_all p ss) cs cs'"
  using assms(3,4)
proof (induction ss arbitrary: cs st)
  case Nil
  have "list_all2 (rewritten_all p []) cs cs"
    using Nil.prems(2) rewritten_all_Nil by (auto simp: map_state_ok_def list_all2_same)
  then show ?case using Nil by auto
next
  case (Cons s ss)
  have z: "sub_from s \<noteq> 0" "0 \<notin> sub_from ` set ss" using Cons.prems(1) by auto
  obtain st1 cs1 where one: "substitute_in_map to_raw of_raw p s st = Some st1" "map_state_ok of_raw p cs1 st1"
    "list_all2 (rewritten p s) cs cs1"
    using substitute_in_map_ok [OF assms(1,2) z(1) Cons.prems(2)] by blast
  obtain st2 cs2 where two: "fold (\<lambda>s acc. Option.bind acc (substitute_in_map to_raw of_raw p s)) ss (Some st1) = Some st2"
    "map_state_ok of_raw p cs2 st2" "list_all2 (rewritten_all p ss) cs1 cs2"
    using Cons.IH [OF z(2) one(2)] by blast
  have "list_all2 (rewritten_all p (s # ss)) cs cs2"
    by (rule list_all2_trans [OF _ one(3) two(3)]) (rule rewritten_all_Cons [OF z(2)])
  then show ?case using one(1) two by auto
qed

text \<open>Taking the linear constraints out.\<close>

definition taken_out :: "int \<Rightarrow> signal_to_constraints \<Rightarrow> nat constraint list \<Rightarrow> nat constraint list \<Rightarrow> nat constraint list \<Rightarrow> bool" where
  "taken_out p m cs cs' L \<longleftrightarrow> covers m cs' \<and> set cs' \<subseteq> insert constraint_empty (set cs) \<and>
     set L \<subseteq> insert constraint_empty (set cs) \<and> (\<forall>c \<in> set L. is_linear c) \<and>
     (\<forall>\<sigma>. all_sat p \<sigma> (cs' @ L) \<longleftrightarrow> all_sat p \<sigma> cs)"

lemma sat_empty [simp]: "sat p \<sigma> constraint_empty"
  by (simp add: sat_def constraint_empty_def lin_def)

lemma is_linear_empty [simp]: "is_linear constraint_empty"
  by (simp add: is_linear_def constraint_empty_def)

lemma con_keys_empty [simp]: "con_keys constraint_empty = {}"
  by (simp add: con_keys_def constraint_empty_def)

lemma all_sat_update_empty:
  assumes "i < length cs"
  shows "all_sat p \<sigma> (cs[i := constraint_empty] @ [cs ! i]) \<longleftrightarrow> all_sat p \<sigma> cs"
proof -
  have cs: "cs = take i cs @ cs ! i # drop (Suc i) cs" using assms by (rule id_take_nth_drop)
  have "all_sat p \<sigma> (cs[i := constraint_empty] @ [cs ! i]) \<longleftrightarrow>
      all_sat p \<sigma> (take i cs @ constraint_empty # drop (Suc i) cs) \<and> sat p \<sigma> (cs ! i)"
    using assms by (simp add: upd_conv_take_nth_drop all_sat_def conj_commute)
  also have "\<dots> \<longleftrightarrow> all_sat p \<sigma> (take i cs @ cs ! i # drop (Suc i) cs)"
    by (auto simp: all_sat_def)
  finally show ?thesis using cs by simp
qed

lemma take_linear_ok:
  assumes "raw_ok to_raw of_raw" and "stored of_raw st cs" and "covers m cs"
    and "\<forall>i \<in> set lin_ids. i < length cs \<and> is_linear (cs ! i)"
  shows "\<exists>st' cs' L. fold (\<lambda>i acc. Option.bind acc (take_linear to_raw of_raw i)) lin_ids (Some (st, l0)) = Some (st', l0 @ L) \<and>
    stored of_raw st' cs' \<and> taken_out p m cs cs' L"
  using assms(2-4)
proof (induction lin_ids arbitrary: st cs l0)
  case Nil
  then show ?case by (intro exI [of _ st] exI [of _ cs] exI [of _ "[]"]) (auto simp: taken_out_def)
next
  case (Cons i ids)
  let ?cs = "cs[i := constraint_empty]"
  have i: "i < length cs" "is_linear (cs ! i)" using Cons.prems(3) by auto
  have "con_wf constraint_empty" by (simp add: con_wf_def constraint_empty_def)
  then have st1: "stored of_raw (storage_replace to_raw i constraint_empty st) ?cs"
    by (rule stored_replace [OF assms(1) Cons.prems(1)])
  have cov: "covers m ?cs" using covers_update [OF Cons.prems(2) i(1), of constraint_empty "[]"] by simp
  have "\<forall>j \<in> set ids. j < length ?cs \<and> is_linear (?cs ! j)"
    using Cons.prems(3) by (auto simp: nth_list_update)
  then obtain st' cs' L where r: "fold (\<lambda>i acc. Option.bind acc (take_linear to_raw of_raw i)) ids
      (Some (storage_replace to_raw i constraint_empty st, l0 @ [cs ! i])) = Some (st', (l0 @ [cs ! i]) @ L)"
    "stored of_raw st' cs'" "taken_out p m ?cs cs' L"
    using Cons.IH [OF st1 cov, of "l0 @ [cs ! i]"] by blast
  have sub: "set ?cs \<subseteq> insert constraint_empty (set cs)" by (rule set_update_subset_insert)
  have "all_sat p \<sigma> (cs' @ (cs ! i # L)) \<longleftrightarrow> all_sat p \<sigma> cs" for \<sigma>
  proof -
    have "all_sat p \<sigma> (cs' @ L) \<longleftrightarrow> all_sat p \<sigma> ?cs" using r(3) by (simp add: taken_out_def)
    then have "all_sat p \<sigma> (cs' @ (cs ! i # L)) \<longleftrightarrow> all_sat p \<sigma> (?cs @ [cs ! i])" by (auto simp: all_sat_def)
    then show ?thesis using all_sat_update_empty [OF i(1)] by simp
  qed
  then have "taken_out p m cs cs' (cs ! i # L)"
    using r(3) sub i by (auto simp: taken_out_def)
  then show ?case
    using r(1,2) read_unwrap_stored [OF Cons.prems(1) i(1)]
    by (intro exI [of _ st'] exI [of _ cs'] exI [of _ "cs ! i # L"]) (simp add: take_linear_def)
qed

text \<open>One round: the substitutions go through the storage, and the constraints that became linear
  leave it.\<close>

definition map_round :: "int \<Rightarrow> nat substitution list \<Rightarrow> nat constraint list \<Rightarrow> nat constraint list \<Rightarrow> nat constraint list \<Rightarrow> bool" where
  "map_round p ss cs cs' L \<longleftrightarrow> (\<forall>c \<in> set (cs' @ L). con_ok p c) \<and> (\<forall>c \<in> set L. is_linear c) \<and>
     (\<Union>c \<in> set (cs' @ L). con_keys c) \<inter> sub_from ` set ss = {} \<and>
     (\<Union>c \<in> set (cs' @ L). con_keys c) \<subseteq>
       insert 0 ((\<Union>c \<in> set cs. con_keys c) \<union> (\<Union>s \<in> set ss. keys_of (sub_to s))) \<and>
     (\<forall>\<sigma>. assigns_one \<sigma> \<longrightarrow> subs_hold p \<sigma> ss \<longrightarrow> (all_sat p \<sigma> (cs' @ L) \<longleftrightarrow> all_sat p \<sigma> cs))"

lemma set_scope:
  assumes "K \<subseteq> insert z ((A - F) \<union> T)" and "z \<notin> F" and "T \<inter> F = {}"
  shows "K \<inter> F = {}" and "K \<subseteq> insert z (A \<union> T)"
  using assms by blast+

lemma apply_substitution_to_map_ok:
  assumes "0 < p" and "raw_ok to_raw of_raw" and "subs_independent ss" and "stored of_raw st cs"
    and "\<forall>c \<in> set cs. con_ok p c" and "covers m cs"
  shows "\<exists>st' m' cs' L. apply_substitution_to_map to_raw of_raw st m ss p = Some (st', m', L) \<and>
    stored of_raw st' cs' \<and> covers m' cs' \<and> map_round p ss cs cs' L"
proof -
  let ?F = "sub_from ` set ss" and ?T = "\<Union>s \<in> set ss. keys_of (sub_to s)"
  have z: "0 \<notin> ?F" and T: "?T \<inter> ?F = {}" using assms(3) by (auto simp: subs_independent_def)
  have "map_state_ok of_raw p cs (st, m, [])" using assms(4-6) by (simp add: map_state_ok_def)
  then obtain st1 m1 lin_ids cs1 where one:
    "fold (\<lambda>s acc. Option.bind acc (substitute_in_map to_raw of_raw p s)) ss (Some (st, m, [])) = Some (st1, m1, lin_ids)"
    "map_state_ok of_raw p cs1 (st1, m1, lin_ids)" "list_all2 (rewritten_all p ss) cs cs1"
    using substitute_all_in_map_ok [OF assms(1,2) z] by (metis prod_cases3)
  have st1: "stored of_raw st1 cs1" "\<forall>c \<in> set cs1. con_ok p c" "covers m1 cs1"
    "\<forall>i \<in> set lin_ids. i < length cs1 \<and> is_linear (cs1 ! i)" using one(2) by (simp_all add: map_state_ok_def)
  obtain st' cs' L where two: "fold (\<lambda>i acc. Option.bind acc (take_linear to_raw of_raw i)) lin_ids (Some (st1, [])) = Some (st', L)"
    "stored of_raw st' cs'" "taken_out p m1 cs1 cs' L"
    using take_linear_ok [OF assms(2) st1(1,3,4), of "[]" p] by auto
  have sub: "set (cs' @ L) \<subseteq> insert constraint_empty (set cs1)" using two(3) by (auto simp: taken_out_def)
  have keys1: "con_keys d \<subseteq> insert 0 (((\<Union>c \<in> set cs. con_keys c) - ?F) \<union> ?T)" if "d \<in> set cs1" for d
  proof -
    have "\<exists>c \<in> set cs. rewritten_all p ss c d" by (rule list_all2_right [OF one(3) that])
    then obtain c where c: "c \<in> set cs" "rewritten_all p ss c d" by blast
    have "con_keys d \<subseteq> insert 0 ((con_keys c - ?F) \<union> ?T)" using c(2) unfolding rewritten_all_def by (elim conjE)
    moreover have "con_keys c \<subseteq> (\<Union>c \<in> set cs. con_keys c)" using c(1) by (rule UN_upper)
    ultimately show ?thesis by (meson Diff_mono Un_mono insert_mono order_refl order_trans)
  qed
  have keys: "(\<Union>c \<in> set (cs' @ L). con_keys c) \<subseteq> insert 0 (((\<Union>c \<in> set cs. con_keys c) - ?F) \<union> ?T)"
  proof (rule UN_least)
    fix d assume "d \<in> set (cs' @ L)"
    then have "d = constraint_empty \<or> d \<in> set cs1" using sub by blast
    then show "con_keys d \<subseteq> insert 0 (((\<Union>c \<in> set cs. con_keys c) - ?F) \<union> ?T)"
    proof (rule disjE)
      assume "d = constraint_empty"
      then show ?thesis by simp
    qed (rule keys1)
  qed
  have "all_sat p \<sigma> (cs' @ L) \<longleftrightarrow> all_sat p \<sigma> cs" if s: "assigns_one \<sigma>" "subs_hold p \<sigma> ss" for \<sigma>
  proof -
    have "list_all2 (\<lambda>c d. sat p \<sigma> d \<longleftrightarrow> sat p \<sigma> c) cs cs1"
      using one(3) by (rule list_all2_mono) (use s in \<open>simp add: rewritten_all_def\<close>)
    then have "all_sat p \<sigma> cs1 \<longleftrightarrow> all_sat p \<sigma> cs"
      by (induction rule: list_all2_induct) (auto simp: all_sat_def)
    then show ?thesis using two(3) by (simp add: taken_out_def)
  qed
  moreover have "\<forall>c \<in> set (cs' @ L). con_ok p c" using sub st1(2) by (auto dest: subsetD)
  moreover have "\<forall>c \<in> set L. is_linear c" using two(3) by (simp add: taken_out_def)
  moreover have "(\<Union>c \<in> set (cs' @ L). con_keys c) \<inter> ?F = {}"
    by (rule set_scope(1) [OF keys z T])
  moreover have "(\<Union>c \<in> set (cs' @ L). con_keys c) \<subseteq> insert 0 ((\<Union>c \<in> set cs. con_keys c) \<union> ?T)"
    by (rule set_scope(2) [OF keys z T])
  ultimately have "map_round p ss cs cs' L" by (simp add: map_round_def)
  then show ?thesis using one(1) two(1,2) two(3) by (auto simp: apply_substitution_to_map_def taken_out_def)
qed

end
