(* ===== verification/Simplification.thy ===== *)
theory Simplification
  imports Simplification_Phases Non_Linear
begin

text \<open>
  The driver of the simplification: \<open>simplification\<close> of
  \<open>constraint_list/src/constraint_simplification.rs\<close>, one definition per block of its body, and
  \<open>Simplifier\<close> and \<open>ConstraintList\<close> of \<open>constraint_list/src/lib.rs\<close>. The order in which the threads
  of a phase deliver is the argument \<open>schedule\<close>; the log of substitutions and the timing are left
  out. The set of deleted signals is only tested, extended and counted.
\<close>

section \<open>Definitions\<close>

record simplifier =
  sm_field :: int
  sm_dag_encoding :: dag_encoding
  sm_no_public_inputs :: nat
  sm_no_public_outputs :: nat
  sm_no_private_inputs :: nat
  sm_forbidden :: "nat set"
  sm_cons_equalities :: "nat constraint list"
  sm_equalities :: "nat constraint list"
  sm_linear :: "nat constraint list"
  sm_max_signal :: nat
  sm_no_rounds :: nat
  sm_flag_s :: bool
  sm_flag_old_heuristics :: bool

record 'r constraint_list =
  cn_field :: int
  cn_dag_encoding :: dag_encoding
  cn_no_public_inputs :: nat
  cn_no_public_outputs :: nat
  cn_no_private_inputs :: nat
  cn_no_private_inputs_witness :: nat
  cn_constraints :: "'r constraint_storage"
  cn_no_labels :: nat
  cn_signal_map :: signal_map

text \<open>The order in which clusters arrive in \<open>eq_simplification\<close>, in the first
  \<open>linear_simplification\<close>, and in the round with so many rounds left.\<close>

record schedule =
  sched_eq :: "nat list \<Rightarrow> nat list"
  sched_linear :: "nat list \<Rightarrow> nat list"
  sched_round :: "nat \<Rightarrow> nat list \<Rightarrow> nat list"

definition simplifier_no_labels :: "simplifier \<Rightarrow> nat" where
  "simplifier_no_labels smp = sm_max_signal smp"

definition relevant_signals ::
    "nat \<Rightarrow> simplifier \<Rightarrow> (nat, nat arithmetic_expression) hmap \<Rightarrow> (nat, nat arithmetic_expression) hmap \<Rightarrow>
      nat set option" where
  "relevant_signals fuel smp s_sub c_sub =
     Option.bind (iterator_new (sm_dag_encoding smp)) (\<lambda>iter. build_relevant_set fuel iter {} s_sub c_sub)"

text \<open>The lists and sets that the blocks share: the constraints with only forbidden signals, the
  deleted signals.\<close>

definition single_assignment ::
    "schedule \<Rightarrow> simplifier \<Rightarrow> nat set \<Rightarrow>
      ((nat, nat arithmetic_expression) hmap \<times> nat constraint list \<times> nat constraint list \<times>
       nat constraint list \<times> nat set) option" where
  "single_assignment sched smp relevant =
     Option.bind (eq_simplification (sched_eq sched) (sm_equalities smp) (sm_forbidden smp)
         (simplifier_no_labels smp) (sm_field smp)) (\<lambda>(subs, lconst).
       (let substitutions = build_encoded_fast_substitutions subs
        in Option.bind (substitute_all (sm_linear smp) substitutions (sm_field smp)) (\<lambda>linear.
           Option.bind (substitute_all (sm_cons_equalities smp) substitutions (sm_field smp)) (\<lambda>cons_equalities.
             Some (remove_not_relevant substitutions relevant, linear, cons_equalities, lconst,
                   set (hm_keys substitutions))))))"

definition constant_assignment ::
    "inverse_fn \<Rightarrow> simplifier \<Rightarrow> nat constraint list \<Rightarrow> nat constraint list \<Rightarrow> nat constraint list \<Rightarrow> nat set \<Rightarrow>
      ((nat, nat arithmetic_expression) hmap \<times> nat constraint list \<times> nat constraint list \<times> nat set) option" where
  "constant_assignment minv smp cons_equalities linear lconst deleted =
     Option.bind (constant_eq_simplification minv cons_equalities (sm_forbidden smp) (sm_field smp)) (\<lambda>(subs, cons).
       (let substitutions = build_encoded_fast_substitutions subs
        in Option.bind (substitute_all linear substitutions (sm_field smp)) (\<lambda>linear.
             Some (substitutions, linear, lconst @ cons, deleted \<union> set (hm_keys substitutions)))))"

definition keep_relevant ::
    "nat set \<Rightarrow> nat substitution \<Rightarrow> nat set \<times> nat substitution list \<Rightarrow> nat set \<times> nat substitution list" where
  "keep_relevant relevant substitution = (\<lambda>(deleted, only_relevant).
     (insert (sub_from substitution) deleted,
      if sub_from substitution \<in> relevant then only_relevant @ [substitution] else only_relevant))"

definition linear_assignment ::
    "inverse_fn \<Rightarrow> schedule \<Rightarrow> simplifier \<Rightarrow> nat set \<Rightarrow> nat constraint list \<Rightarrow> nat constraint list \<Rightarrow> nat set \<Rightarrow>
      ((nat, nat arithmetic_expression) hmap \<times> nat constraint list \<times> nat set) option" where
  "linear_assignment minv sched smp relevant linear lconst deleted =
     (if \<not> sm_flag_s smp then
        Option.bind (linear_simplification minv (sched_linear sched) linear (sm_forbidden smp)
            (simplifier_no_labels smp) (sm_field smp) (sm_flag_old_heuristics smp)) (\<lambda>(subs, cons).
          (let (deleted, only_relevant) = fold (keep_relevant relevant) subs (deleted, []);
               substitutions = build_encoded_fast_substitutions only_relevant
           in Option.bind (substitute_all (lconst @ cons) substitutions (sm_field smp)) (\<lambda>lconst.
                Some (substitutions, lconst, deleted))))
      else Some ([], lconst @ linear, deleted))"

text \<open>The rounds: \<open>no_rounds\<close> counts down, and a round without linear constraints is the last.\<close>

type_synonym 'r round_state =
  "'r constraint_storage \<times> signal_to_constraints \<times> nat constraint list \<times> nat constraint list \<times> nat set"

definition apply_round_to :: "nat substitution list \<Rightarrow> int \<Rightarrow> nat constraint \<Rightarrow> nat constraint" where
  "apply_round_to substitutions field constraint =
     fix_constraint (fold (\<lambda>substitution constraint. constraint_apply_substitution constraint substitution field)
       substitutions constraint) field"

primrec simplification_rounds ::
    "inverse_fn \<Rightarrow> (int \<Rightarrow> 'r) \<Rightarrow> ('r \<Rightarrow> int) \<Rightarrow> schedule \<Rightarrow> simplifier \<Rightarrow> nat \<Rightarrow> 'r round_state \<Rightarrow> 'r round_state option" where
  "simplification_rounds minv to_raw of_raw sched smp 0 st = Some st"
| "simplification_rounds minv to_raw of_raw sched smp (Suc no_rounds) st =
     (let (storage, non_linear_map, linear, lconst, deleted) = st
      in if linear = [] then Some st
         else Option.bind (linear_simplification minv (sched_round sched (Suc no_rounds)) linear (sm_forbidden smp)
            (simplifier_no_labels smp) (sm_field smp) (sm_flag_old_heuristics smp)) (\<lambda>(substitutions, constants).
          (let deleted = fold (\<lambda>sub. insert (sub_from sub)) substitutions deleted;
               lconst = map (apply_round_to substitutions (sm_field smp)) (lconst @ constants)
           in Option.bind (apply_substitution_to_map to_raw of_raw storage non_linear_map substitutions (sm_field smp))
                (\<lambda>(storage, non_linear_map, linear).
                  simplification_rounds minv to_raw of_raw sched smp no_rounds
                    (storage, non_linear_map, linear, lconst, deleted)))))"

text \<open>Adding a constraint to the storage and its signals to the map.\<close>

definition remove_unused :: bool where
  "remove_unused = True"

definition store_constraint ::
    "(int \<Rightarrow> 'r) \<Rightarrow> nat constraint \<Rightarrow> 'r constraint_storage \<times> signal_to_constraints \<Rightarrow>
      'r constraint_storage \<times> signal_to_constraints" where
  "store_constraint to_raw constraint = (\<lambda>(storage, non_linear_map).
     (if remove_unused then
        (let signals = take_cloned_signals constraint;
             (c_id, storage) = add_constraint to_raw constraint storage
         in (storage, fold (push_id c_id) signals non_linear_map))
      else (snd (add_constraint to_raw constraint storage), non_linear_map)))"

definition non_linear_simplify :: "'r constraint_storage \<Rightarrow> nat set \<Rightarrow> int \<Rightarrow> nat list" where
  "non_linear_simplify storage forbid field = []"

text \<open>What is left once the rounds are over.\<close>

definition finish_simplification ::
    "(int \<Rightarrow> 'r) \<Rightarrow> ('r \<Rightarrow> int) \<Rightarrow> simplifier \<Rightarrow> 'r round_state \<Rightarrow> ('r constraint_storage \<times> signal_map \<times> nat) option" where
  "finish_simplification to_raw of_raw smp = (\<lambda>(storage, non_linear_map, linear, lconst, deleted).
     (let (storage, non_linear_map) = fold (store_constraint to_raw) linear (storage, non_linear_map);
          (storage, non_linear_map) = fold (\<lambda>constraint. store_constraint to_raw (fix_constraint constraint (sm_field smp)))
            lconst (storage, non_linear_map);
          erased = non_linear_simplify storage (sm_forbidden smp) (sm_field smp);
          deleted = deleted \<union> set erased
      in Option.bind (extract_with of_raw constraint_is_empty storage) (\<lambda>(_, storage).
           (let (signal_map, deleted) =
                  rebuild_witness (sm_max_signal smp) deleted (sm_forbidden smp) non_linear_map remove_unused;
                max_value_input = sm_no_public_outputs smp + sm_no_public_inputs smp + sm_no_private_inputs smp;
                deleted_inputs = card {signal \<in> deleted. sm_no_public_outputs smp + 1 \<le> signal \<and> signal \<le> max_value_input}
            in if deleted_inputs \<le> sm_no_private_inputs smp
               then Some (storage, signal_map, sm_no_private_inputs smp - deleted_inputs)
               else None))))"

definition simplification ::
    "inverse_fn \<Rightarrow> (int \<Rightarrow> 'r) \<Rightarrow> ('r \<Rightarrow> int) \<Rightarrow> schedule \<Rightarrow> nat \<Rightarrow> simplifier \<Rightarrow>
      ('r constraint_storage \<times> signal_map \<times> nat) option" where
  "simplification minv to_raw of_raw sched fuel smp =
     Option.bind (relevant_signals fuel smp [] []) (\<lambda>relevant.
     Option.bind (single_assignment sched smp relevant)
       (\<lambda>(single_substitutions, linear, cons_equalities, lconst, deleted).
     Option.bind (constant_assignment minv smp cons_equalities linear lconst deleted)
       (\<lambda>(cons_substitutions, linear, lconst, deleted).
     Option.bind (relevant_signals fuel smp single_substitutions cons_substitutions) (\<lambda>relevant.
     Option.bind (linear_assignment minv sched smp relevant linear lconst deleted)
       (\<lambda>(linear_substitutions, lconst, deleted).
     Option.bind (iterator_new (sm_dag_encoding smp)) (\<lambda>iter.
     Option.bind (obtain_and_simplify_non_linear to_raw fuel iter storage_new
         [single_substitutions, cons_substitutions, linear_substitutions] (sm_field smp))
       (\<lambda>(linear, storage).
     Option.bind (build_non_linear_signal_map of_raw storage) (\<lambda>non_linear_map.
       (let no_rounds = (if sm_flag_s smp then 0 else sm_no_rounds smp - 1)
        in Option.bind (simplification_rounds minv to_raw of_raw sched smp no_rounds
               (storage, non_linear_map, linear, lconst, deleted))
             (finish_simplification to_raw of_raw smp))))))))))"

definition simplify_constraints ::
    "inverse_fn \<Rightarrow> (int \<Rightarrow> 'r) \<Rightarrow> ('r \<Rightarrow> int) \<Rightarrow> schedule \<Rightarrow> nat \<Rightarrow> simplifier \<Rightarrow> 'r constraint_list option" where
  "simplify_constraints minv to_raw of_raw sched fuel smp =
     map_option (\<lambda>(portable, wmap, private_inputs_witness).
         \<lparr>cn_field = sm_field smp, cn_dag_encoding = empty_encoding_constraints (sm_dag_encoding smp),
          cn_no_public_inputs = sm_no_public_inputs smp, cn_no_public_outputs = sm_no_public_outputs smp,
          cn_no_private_inputs = sm_no_private_inputs smp, cn_no_private_inputs_witness = private_inputs_witness,
          cn_constraints = portable, cn_no_labels = sm_max_signal smp, cn_signal_map = wmap\<rparr>)
       (simplification minv to_raw of_raw sched fuel smp)"

end
