(* ===== verification/Simplification_Rounds.thy ===== *)
theory Simplification_Rounds
  imports Simplification
begin

text \<open>
  The rounds of \<open>simplification\<close> and what follows them. A round keeps the solutions but for the
  signals it deletes (\<open>round_step\<close>, \<open>rounds_ok\<close>); storing the last constraints and numbering the
  witness keeps them too, and every signal of a final constraint gets a number (\<open>finish_ok\<close>).
\<close>

section \<open>Lemmas: the rounds\<close>

lemma raw_substitution_absent:
  "s \<notin> keys_of m \<Longrightarrow> s \<noteq> default \<Longrightarrow> sub_from sub = s \<Longrightarrow>
    raw_substitution m sub p = initialize_hashmap_for_expression m"
proof -
  assume s: "s \<notin> keys_of m" "s \<noteq> default" "sub_from sub = s"
  then have "s \<notin> keys_of (initialize_hashmap_for_expression m)" by simp
  then have "map_of (initialize_hashmap_for_expression m) s = None" by (simp add: keys_of_def map_of_eq_None_iff)
  then show ?thesis using s(3) by (simp add: raw_substitution_def)
qed

lemma substitution_absent:
  fixes c :: "nat constraint"
  assumes "con_wf c" and "sub_from s \<notin> con_keys c" and "sub_from s \<noteq> 0"
  shows "con_wf (constraint_apply_substitution c s p) \<and>
    con_keys (constraint_apply_substitution c s p) \<subseteq> insert 0 (con_keys c) \<and>
    (sat p \<sigma> (constraint_apply_substitution c s p) \<longleftrightarrow> sat p \<sigma> c)"
proof -
  have k: "sub_from s \<notin> keys_of (con_a c)" "sub_from s \<notin> keys_of (con_b c)" "sub_from s \<notin> keys_of (con_c c)"
    using assms(2) by (auto simp: con_keys_def)
  have d: "sub_from s \<noteq> default" using assms(3) by simp
  note a = raw_substitution_absent [OF k(1) d refl, of p] raw_substitution_absent [OF k(2) d refl, of p]
    raw_substitution_absent [OF k(3) d refl, of p]
  have "con_wf (constraint_apply_substitution c s p)" using assms(1) by (rule con_wf_apply)
  then show ?thesis
    by (auto simp: constraint_apply_substitution_def a con_keys_def sat_def lin_initialize)
qed

lemma substitutions_absent:
  fixes c :: "nat constraint"
  assumes "con_wf c" and "con_keys c \<inter> sub_from ` set ss = {}" and "0 \<notin> sub_from ` set ss"
  shows "con_wf (fold (\<lambda>s c. constraint_apply_substitution c s p) ss c) \<and>
    con_keys (fold (\<lambda>s c. constraint_apply_substitution c s p) ss c) \<subseteq> insert 0 (con_keys c) \<and>
    (sat p \<sigma> (fold (\<lambda>s c. constraint_apply_substitution c s p) ss c) \<longleftrightarrow> sat p \<sigma> c)"
  using assms
proof (induction ss arbitrary: c)
  case (Cons s ss)
  have "sub_from s \<notin> con_keys c" "sub_from s \<noteq> 0" using Cons.prems(2,3) by auto
  note one = substitution_absent [OF Cons.prems(1) this, of p \<sigma>]
  have "con_keys (constraint_apply_substitution c s p) \<inter> sub_from ` set ss = {}"
    using one Cons.prems(2,3) by fastforce
  moreover have "0 \<notin> sub_from ` set ss" using Cons.prems(3) by simp
  ultimately show ?case using Cons.IH [of "constraint_apply_substitution c s p"] one by auto
qed auto

lemma apply_round_to_ok:
  fixes c :: "nat constraint"
  assumes "0 < p" and "con_wf c" and "con_keys c \<inter> sub_from ` set ss = {}" and "0 \<notin> sub_from ` set ss"
  shows "con_wf (apply_round_to ss p c)" and "con_keys (apply_round_to ss p c) \<subseteq> insert 0 (con_keys c)"
    and "assigns_one \<sigma> \<Longrightarrow> sat p \<sigma> (apply_round_to ss p c) \<longleftrightarrow> sat p \<sigma> c"
proof -
  let ?d = "fold (\<lambda>s c. constraint_apply_substitution c s p) ss c"
  note d = substitutions_absent [OF assms(2-4), of p]
  show "con_wf (apply_round_to ss p c)" unfolding apply_round_to_def by (rule con_wf_fix) (use d in blast)
  show "con_keys (apply_round_to ss p c) \<subseteq> insert 0 (con_keys c)"
    using d fix_constraint_keys [of ?d p] by (auto simp: apply_round_to_def)
  show "sat p \<sigma> (apply_round_to ss p c) \<longleftrightarrow> sat p \<sigma> c" if "assigns_one \<sigma>"
    using d fix_constraint_same_solutions [OF assms(1) _ that, of ?d] by (simp add: apply_round_to_def)
qed

text \<open>The constraints between two rounds: those in the storage, the linear ones, and those over
  forbidden signals.\<close>

definition round_lists ::
    "int \<Rightarrow> nat set \<Rightarrow> nat \<Rightarrow> nat set \<Rightarrow> nat constraint list \<Rightarrow> nat constraint list \<Rightarrow> nat constraint list \<Rightarrow> bool" where
  "round_lists p F n D cs ls fs \<longleftrightarrow>
     (\<forall>c \<in> set cs. con_ok p c) \<and> (\<forall>c \<in> set ls. con_ok p c \<and> is_linear c) \<and>
     (\<forall>c \<in> set fs. con_wf c) \<and>
     signals_of (cs @ ls @ fs) \<inter> D = {} \<and> signals_of (cs @ ls @ fs) \<subseteq> insert 0 {..<n} \<and> D \<inter> F = {}"

lemma signals_of_subset: "(\<And>c. c \<in> set cs \<Longrightarrow> con_keys c \<subseteq> K) \<Longrightarrow> 0 \<in> K \<Longrightarrow> signals_of cs \<subseteq> K"
  by (auto simp: signals_of_def)

lemma signals_of_keys: "c \<in> set cs \<Longrightarrow> con_keys c \<subseteq> signals_of cs"
  by (auto simp: signals_of_def)

lemma zero_signals [simp]: "0 \<in> signals_of cs"
  by (simp add: signals_of_def)

lemma outside_forbidden: "K \<subseteq> F \<Longrightarrow> S \<inter> F = {} \<Longrightarrow> K \<inter> S = {}"
  by blast

lemma fresh_step:
  assumes "K \<subseteq> A \<union> B" and "A \<inter> D = {}" and "B \<inter> D = {}" and "K \<inter> E = {}"
  shows "K \<inter> (D \<union> E) = {}"
  using assms by blast

lemma round_step:
  assumes "0 < p" and "0 \<in> F" and "round_lists p F n D cs ls fs" and "\<forall>c \<in> set fs. con_keys c \<subseteq> F"
    and "phase_ok p F ls subs cons" and "map_round p subs cs cs' L"
    and "fs' = map (apply_round_to subs p) (fs @ cons)" and "F \<subseteq> {..<n}"
  shows "round_lists p F n (D \<union> sub_from ` set subs) cs' L fs'"
    and "\<forall>c \<in> set fs'. con_keys c \<subseteq> F"
    and "eliminates p (sub_from ` set subs) (cs @ ls @ fs) (cs' @ L @ fs')"
proof -
  let ?E = "sub_from ` set subs"
  note P = phase_okD [OF assms(5)]
  have indep: "0 \<notin> ?E" using P(2) by (simp add: subs_independent_def)
  have m: "\<forall>c \<in> set (cs' @ L). con_ok p c" "\<forall>c \<in> set L. is_linear c"
    "(\<Union>c \<in> set (cs' @ L). con_keys c) \<inter> ?E = {}"
    "(\<Union>c \<in> set (cs' @ L). con_keys c) \<subseteq> insert 0 ((\<Union>c \<in> set cs. con_keys c) \<union> (\<Union>s \<in> set subs. keys_of (sub_to s)))"
    "\<And>\<sigma>. assigns_one \<sigma> \<Longrightarrow> subs_hold p \<sigma> subs \<Longrightarrow> all_sat p \<sigma> (cs' @ L) \<longleftrightarrow> all_sat p \<sigma> cs"
    using assms(6) unfolding map_round_def by (elim conjE, blast)+
  have fwf: "con_wf c" and fkeys: "con_keys c \<subseteq> F" if "c \<in> set (fs @ cons)" for c
    using that assms(3,4) P(6) [of c] by (auto simp: round_lists_def)
  have f: "con_wf (apply_round_to subs p c)" "con_keys (apply_round_to subs p c) \<subseteq> F"
    "\<And>\<sigma>. assigns_one \<sigma> \<Longrightarrow> sat p \<sigma> (apply_round_to subs p c) \<longleftrightarrow> sat p \<sigma> c" if c: "c \<in> set (fs @ cons)" for c
  proof -
    have "con_keys c \<inter> ?E = {}" by (rule outside_forbidden [OF fkeys [OF c] P(3)])
    note ok = apply_round_to_ok [OF assms(1) fwf [OF c] this indep]
    show "con_wf (apply_round_to subs p c)" by (rule ok(1))
    show "con_keys (apply_round_to subs p c) \<subseteq> F"
      by (rule order_trans [OF ok(2)]) (simp add: assms(2) fkeys [OF c])
    show "sat p \<sigma> (apply_round_to subs p c) \<longleftrightarrow> sat p \<sigma> c" if "assigns_one \<sigma>" for \<sigma> by (rule ok(3) [OF that])
  qed
  show F': "\<forall>c \<in> set fs'. con_keys c \<subseteq> F" using f(2) by (auto simp: assms(7))
  have sig_ls: "signals_of ls \<subseteq> signals_of (cs @ ls @ fs)" "signals_of cs \<subseteq> signals_of (cs @ ls @ fs)" by auto
  have D: "signals_of (cs @ ls @ fs) \<inter> D = {}" "signals_of (cs @ ls @ fs) \<subseteq> insert 0 {..<n}" "D \<inter> F = {}"
    using assms(3) by (simp_all only: round_lists_def)
  have new: "signals_of (cs' @ L) \<subseteq> signals_of (cs @ ls @ fs)"
  proof (rule signals_of_subset)
    fix c assume "c \<in> set (cs' @ L)"
    then have "con_keys c \<subseteq> insert 0 ((\<Union>c \<in> set cs. con_keys c) \<union> (\<Union>s \<in> set subs. keys_of (sub_to s)))"
      using m(4) by blast
    moreover have "(\<Union>c \<in> set cs. con_keys c) \<subseteq> signals_of cs" by (auto simp: signals_of_def)
    moreover have "(\<Union>s \<in> set subs. keys_of (sub_to s)) \<subseteq> signals_of ls" using P(5) by blast
    ultimately show "con_keys c \<subseteq> signals_of (cs @ ls @ fs)" using sig_ls zero_signals [of "cs @ ls @ fs"] by blast
  qed simp
  have E: "signals_of (cs' @ L) \<inter> ?E = {}" using m(3) indep unfolding signals_of_def by blast
  have fs_keys: "signals_of fs' \<subseteq> F" by (rule signals_of_subset) (use F' assms(2) in auto)
  have fs_E: "signals_of fs' \<inter> (D \<union> ?E) = {}" using fs_keys D(3) P(3) by blast
  show "round_lists p F n (D \<union> ?E) cs' L fs'"
    unfolding round_lists_def
  proof (intro conjI)
    show "\<forall>c \<in> set cs'. con_ok p c" "\<forall>c \<in> set L. con_ok p c \<and> is_linear c" using m(1,2) by auto
    show "\<forall>c \<in> set fs'. con_wf c" using f(1) by (auto simp: assms(7))
    have split: "signals_of (cs' @ L @ fs') = signals_of (cs' @ L) \<union> signals_of fs'" by (simp add: Un_assoc)
    have "signals_of (cs' @ L) \<inter> (D \<union> ?E) = {}"
      using new D(1) E by blast
    then show "signals_of (cs' @ L @ fs') \<inter> (D \<union> ?E) = {}" using fs_E unfolding split by blast
    show "signals_of (cs' @ L @ fs') \<subseteq> insert 0 {..<n}"
      unfolding split using new D(2) fs_keys assms(8) by blast
    show "(D \<union> ?E) \<inter> F = {}" using D(3) P(3) by blast
  qed
  show "eliminates p ?E (cs @ ls @ fs) (cs' @ L @ fs')"
  proof (rule eliminates_subs [OF P(2)])
    fix \<sigma> :: "nat \<Rightarrow> int" assume one: "assigns_one \<sigma>"
    have ff: "all_sat p \<sigma> fs' \<longleftrightarrow> all_sat p \<sigma> (fs @ cons)"
      using f(3) [OF _ one] by (auto simp: assms(7) all_sat_def)
    show "all_sat p \<sigma> (cs @ ls @ fs) \<longleftrightarrow> subs_hold p \<sigma> subs \<and> all_sat p \<sigma> (cs' @ L @ fs')"
      using m(5) [OF one] P(1) [OF one] ff by auto
  next
    fix c assume "c \<in> set (cs' @ L @ fs')"
    then have "c \<in> set (cs' @ L) \<or> c \<in> set fs'" by auto
    then show "con_keys c \<inter> ?E = {}"
      using signals_of_keys [of c "cs' @ L"] signals_of_keys [of c fs'] E fs_E by blast
  qed
qed


definition round_ok ::
    "('r \<Rightarrow> int) \<Rightarrow> int \<Rightarrow> nat set \<Rightarrow> nat \<Rightarrow> nat constraint list \<Rightarrow> 'r round_state \<Rightarrow> bool" where
  "round_ok of_raw p F n cs = (\<lambda>(storage, m, ls, fs, deleted).
     stored of_raw storage cs \<and> covers m cs \<and> round_lists p F n deleted cs ls fs)"

lemma insert_all: "fold (\<lambda>sub. insert (sub_from sub)) subs D = D \<union> sub_from ` set subs"
  by (induction subs arbitrary: D) auto

lemma rounds_ok:
  assumes "inverse_ok minv p" and "is_field p" and "raw_ok to_raw of_raw" and "\<forall>k. arrives (sched_round sched k)"
    and "sm_field smp = p" and "sm_forbidden smp = F" and "0 \<in> F" and "F \<subseteq> {..<n}" and "sm_max_signal smp = n"
    and "round_ok of_raw p F n cs (storage, m, ls, fs, D)" and "\<forall>c \<in> set fs. con_keys c \<subseteq> F"
  shows "\<exists>storage' m' ls' fs' D' cs'.
    simplification_rounds minv to_raw of_raw sched smp k (storage, m, ls, fs, D) = Some (storage', m', ls', fs', D') \<and>
    round_ok of_raw p F n cs' (storage', m', ls', fs', D') \<and> D \<subseteq> D' \<and>
    eliminates p D' (cs @ ls @ fs) (cs' @ ls' @ fs')"
  using assms(10,11)
proof (induction k arbitrary: storage m ls fs D cs)
  case 0
  have "eliminates p {} (cs @ ls @ fs) (cs @ ls @ fs)" by (rule eliminates_same) simp
  then have "eliminates p D (cs @ ls @ fs) (cs @ ls @ fs)" by (rule eliminates_mono) simp
  then show ?case using 0 by auto
next
  case (Suc k)
  show ?case
  proof (cases "ls = []")
    case True
    have "eliminates p {} (cs @ ls @ fs) (cs @ ls @ fs)" by (rule eliminates_same) simp
    then have "eliminates p D (cs @ ls @ fs) (cs @ ls @ fs)" by (rule eliminates_mono) simp
    then show ?thesis using Suc.prems True by (auto simp: Let_def)
  next
    case False
    have p: "0 < p" by (rule is_field_pos [OF assms(2)])
    have st: "stored of_raw storage cs" "covers m cs" "round_lists p F n D cs ls fs"
      using Suc.prems(1) by (simp_all add: round_ok_def)
    have cs: "\<forall>c \<in> set cs. con_ok p c" using st(3) by (simp add: round_lists_def)
    have ls: "\<forall>c \<in> set ls. work_wf p c" using st(3) con_ok_work by (auto simp: round_lists_def)
    have "signals_of (cs @ ls @ fs) \<subseteq> insert 0 {..<n}" using st(3) by (simp add: round_lists_def)
    then have "signals_of ls \<subseteq> insert 0 {..<n}" by simp
    then have bound: "\<forall>c \<in> set ls. \<forall>s \<in> con_keys c. s < n \<or> s = 0" using signals_of_keys [of _ ls] by fastforce
    obtain subs cons where l: "linear_simplification minv (sched_round sched (Suc k)) ls F n p (sm_flag_old_heuristics smp) = Some (subs, cons)"
      "phase_ok p F ls subs cons"
      using linear_simplification_ok [OF assms(1,2,7) ls bound, of "sched_round sched (Suc k)"] assms(4) by blast
    obtain storage1 m1 cs1 L where map1: "apply_substitution_to_map to_raw of_raw storage m subs p = Some (storage1, m1, L)"
      "stored of_raw storage1 cs1" "covers m1 cs1" "map_round p subs cs cs1 L"
      using apply_substitution_to_map_ok [OF p assms(3) phase_okD(2) [OF l(2)] st(1) cs st(2)] by blast
    let ?fs = "map (apply_round_to subs p) (fs @ cons)"
    note step = round_step [OF p assms(7) st(3) Suc.prems(2) l(2) map1(4) refl assms(8)]
    have ok1: "round_ok of_raw p F n cs1 (storage1, m1, L, ?fs, D \<union> sub_from ` set subs)"
      using map1(2,3) step(1) by (simp add: round_ok_def)
    from Suc.IH [OF ok1 step(2)] obtain storage' m' ls' fs' D' cs' where r:
      "simplification_rounds minv to_raw of_raw sched smp k (storage1, m1, L, ?fs, D \<union> sub_from ` set subs) = Some (storage', m', ls', fs', D')"
      "round_ok of_raw p F n cs' (storage', m', ls', fs', D')" "D \<union> sub_from ` set subs \<subseteq> D'"
      "eliminates p D' (cs1 @ L @ ?fs) (cs' @ ls' @ fs')"
      by (elim exE conjE) (rule that)
    have D: "D \<subseteq> D'" using r(3) by simp
    have "eliminates p (sub_from ` set subs \<union> D') (cs @ ls @ fs) (cs' @ ls' @ fs')"
      by (rule eliminates_trans [OF step(3) r(4)])
    moreover have "sub_from ` set subs \<union> D' \<subseteq> D'" using r(3) by simp
    ultimately have e: "eliminates p D' (cs @ ls @ fs) (cs' @ ls' @ fs')" by (rule eliminates_mono)
    have "simplification_rounds minv to_raw of_raw sched smp (Suc k) (storage, m, ls, fs, D) = Some (storage', m', ls', fs', D')"
      using False l(1) map1(1) r(1) assms(5,6,9)
      by (simp add: Let_def simplifier_no_labels_def insert_all)
    then show ?thesis using r(2) D e by (intro exI conjI)
  qed
qed

section \<open>Lemmas: the end\<close>

lemma store_ok:
  assumes "raw_ok to_raw of_raw" and "stored of_raw st cs" and "covers m cs" and "con_wf c"
  shows "\<exists>st' m'. store_constraint to_raw c (st, m) = (st', m') \<and> stored of_raw st' (cs @ [c]) \<and> covers m' (cs @ [c])"
proof -
  obtain st' where "add_constraint to_raw c st = (length cs, st')" "stored of_raw st' (cs @ [c])"
    using stored_add [OF assms(1,2,4)] by blast
  then show ?thesis using covers_snoc [OF assms(3), of c]
    by (simp add: store_constraint_def remove_unused_def Let_def)
qed

lemma store_all_ok:
  assumes "raw_ok to_raw of_raw" and "stored of_raw st cs" and "covers m cs" and "\<forall>c \<in> set ds. con_wf (f c)"
  shows "\<exists>st' m'. fold (\<lambda>c. store_constraint to_raw (f c)) ds (st, m) = (st', m') \<and>
    stored of_raw st' (cs @ map f ds) \<and> covers m' (cs @ map f ds)"
  using assms(2-4)
proof (induction ds arbitrary: st m cs)
  case (Cons d ds)
  obtain st1 m1 where one: "store_constraint to_raw (f d) (st, m) = (st1, m1)" "stored of_raw st1 (cs @ [f d])"
    "covers m1 (cs @ [f d])"
    using store_ok [OF assms(1) Cons.prems(1,2), of "f d"] Cons.prems(3) by auto
  then show ?case using Cons.IH [OF one(2,3)] Cons.prems(3) by simp
qed simp

lemma card_interval_le: "S \<subseteq> {a + 1..a + b} \<Longrightarrow> card S \<le> (b :: nat)"
  using card_mono [of "{a + 1..a + b}" S] by simp

lemma card_rest:
  assumes "A \<subseteq> {a + 1..a + b}"
  shows "b - card A = card ({a + 1..a + b} - A)"
  using card_Diff_subset [of A "{a + 1..a + b}"] assms finite_subset [OF assms] by simp

lemma finish_ok:
  assumes "is_field p" and "raw_ok to_raw of_raw" and "sm_field smp = p" and "sm_forbidden smp = F" and "0 \<in> F"
    and "F \<subseteq> {..<n}" and "sm_max_signal smp = n" and "round_ok of_raw p F n cs (storage, m, ls, fs, D)"
    and "{sm_no_public_outputs smp + 1..sm_no_public_outputs smp + sm_no_public_inputs smp} \<subseteq> F"
    and "sm_no_public_outputs smp + sm_no_public_inputs smp + sm_no_private_inputs smp < n"
  shows "\<exists>storage' wmap ds. finish_simplification to_raw of_raw smp (storage, m, ls, fs, D) =
      Some (storage', wmap, card {s \<in> keys_of wmap. sm_no_public_outputs smp + sm_no_public_inputs smp < s \<and>
        s \<le> sm_no_public_outputs smp + sm_no_public_inputs smp + sm_no_private_inputs smp}) \<and>
    stored of_raw storage' ds \<and> (\<forall>\<sigma>. assigns_one \<sigma> \<longrightarrow> (all_sat p \<sigma> ds \<longleftrightarrow> all_sat p \<sigma> (cs @ ls @ fs))) \<and>
    signals_of ds \<subseteq> keys_of wmap \<and> F \<subseteq> keys_of wmap \<and> keys_of wmap \<inter> D = {}"
proof -
  have p: "0 < p" by (rule is_field_pos [OF assms(1)])
  have st: "stored of_raw storage cs" "covers m cs" "round_lists p F n D cs ls fs"
    using assms(8) by (simp_all add: round_ok_def)
  have ls: "\<forall>c \<in> set ls. con_wf c" and fs: "\<forall>c \<in> set fs. con_wf c"
    and sig: "signals_of (cs @ ls @ fs) \<inter> D = {}" "signals_of (cs @ ls @ fs) \<subseteq> insert 0 {..<n}" "D \<inter> F = {}"
    using st(3) con_ok_wf by (auto simp only: round_lists_def)
  let ?fix = "\<lambda>c. fix_constraint c p"
  obtain st1 m1 where one: "fold (store_constraint to_raw) ls (storage, m) = (st1, m1)"
    "stored of_raw st1 (cs @ ls)" "covers m1 (cs @ ls)"
    using store_all_ok [OF assms(2) st(1,2), of ls "\<lambda>c. c"] ls by auto
  let ?all = "(cs @ ls) @ map ?fix fs"
  have "\<forall>c \<in> set fs. con_wf (?fix c)" using fs con_wf_fix by blast
  then obtain st2 m2 where two: "fold (\<lambda>c. store_constraint to_raw (?fix c)) fs (st1, m1) = (st2, m2)"
    "stored of_raw st2 ?all" "covers m2 ?all"
    using store_all_ok [OF assms(2) one(2,3), of fs ?fix] by auto
  let ?ds = "filter (\<lambda>c. \<not> constraint_is_empty c) ?all"
  obtain st3 where three: "extract_with of_raw constraint_is_empty st2 = Some (filter constraint_is_empty ?all, st3)"
    "stored of_raw st3 ?ds"
    using stored_extract [OF two(2)] by blast
  let ?P = "stays D F m2 True" and ?w = "numbered (stays D F m2 True) n"
  let ?D = "D \<union> {s. s < n \<and> \<not> ?P s}"
  have w: "rebuild_witness n D F m2 True = (?w, ?D)" by (rule rebuild_witness_numbered)
  have kw: "keys_of ?w = {s. s < n \<and> ?P s}" by (rule keys_numbered)
  have FP: "?P s" if "s \<in> F" for s using that sig(3) by (auto simp: stays_def)
  then have F: "F \<subseteq> keys_of ?w" using assms(6) kw by auto
  have D: "keys_of ?w \<inter> D = {}" by (auto simp: kw stays_def)
  have sat: "all_sat p \<sigma> ?ds \<longleftrightarrow> all_sat p \<sigma> (cs @ ls @ fs)" if "assigns_one \<sigma>" for \<sigma>
  proof -
    have "sat p \<sigma> (?fix c) \<longleftrightarrow> sat p \<sigma> c" if "c \<in> set fs" for c
      using fix_constraint_same_solutions [OF p _ \<open>assigns_one \<sigma>\<close>, of c] fs that by blast
    then have "all_sat p \<sigma> (map ?fix fs) \<longleftrightarrow> all_sat p \<sigma> fs" by (simp add: all_sat_def)
    then show ?thesis unfolding all_sat_nonempty by simp
  qed
  have keys: "signals_of ?ds \<subseteq> keys_of ?w"
  proof (rule signals_of_subset)
    show "0 \<in> keys_of ?w" using F assms(5) by blast
    fix c assume "c \<in> set ?ds"
    then have c: "c \<in> set ?all" by auto
    have "con_keys c \<subseteq> signals_of (cs @ ls @ fs)"
    proof (cases "c \<in> set (cs @ ls)")
      case True
      then show ?thesis using signals_of_keys [of c "cs @ ls @ fs"] by auto
    next
      case False
      then obtain f where "f \<in> set fs" "c = ?fix f" using c by auto
      then show ?thesis using fix_constraint_keys [of f p] signals_of_keys [of f "cs @ ls @ fs"] zero_signals [of "cs @ ls @ fs"]
        by auto
    qed
    then have k: "con_keys c \<inter> D = {}" "con_keys c \<subseteq> insert 0 {..<n}" using sig(1,2) by blast+
    show "con_keys c \<subseteq> keys_of ?w"
    proof
      fix s assume s: "s \<in> con_keys c"
      show "s \<in> keys_of ?w"
      proof (cases "s = 0")
        case True
        then show ?thesis using F assms(5) by blast
      next
        case False
        then have "s < n" "s \<notin> D" "s \<in> keys_of m2" using k s covers_key [OF two(3) c s] by auto
        then show ?thesis by (simp add: kw stays_def hm_contains_set)
      qed
    qed
  qed
  let ?a = "sm_no_public_outputs smp + sm_no_public_inputs smp" and ?b = "sm_no_private_inputs smp"
  let ?gone = "{s \<in> ?D. sm_no_public_outputs smp + 1 \<le> s \<and> s \<le> ?a + ?b}"
  have gone_F: "?D \<inter> F = {}" using sig(3) FP by blast
  have gone: "?gone \<subseteq> {?a + 1..?a + ?b}"
  proof
    fix s assume s: "s \<in> ?gone"
    then have "s \<notin> F" using gone_F by blast
    then have "s \<notin> {sm_no_public_outputs smp + 1..?a}" using assms(9) by blast
    then show "s \<in> {?a + 1..?a + ?b}" using s by auto
  qed
  have le: "card ?gone \<le> ?b" by (rule card_interval_le [OF gone])
  have "{?a + 1..?a + ?b} - ?gone = {s \<in> keys_of ?w. ?a < s \<and> s \<le> ?a + ?b}"
  proof (rule set_eqI)
    fix s
    show "s \<in> {?a + 1..?a + ?b} - ?gone \<longleftrightarrow> s \<in> {s \<in> keys_of ?w. ?a < s \<and> s \<le> ?a + ?b}"
    proof (cases "?a < s \<and> s \<le> ?a + ?b")
      case True
      then have "s < n" using assms(10) by linarith
      then have "s \<in> keys_of ?w \<longleftrightarrow> s \<notin> ?D" by (auto simp: kw stays_def)
      then show ?thesis using True by auto
    qed auto
  qed
  then have priv: "?b - card ?gone = card {s \<in> keys_of ?w. ?a < s \<and> s \<le> ?a + ?b}"
    using card_rest [OF gone] by simp
  have "finish_simplification to_raw of_raw smp (storage, m, ls, fs, D) =
      Some (st3, ?w, card {s \<in> keys_of ?w. ?a < s \<and> s \<le> ?a + ?b})"
    using one(1) two(1) three(1) w le priv
    by (simp add: finish_simplification_def Let_def assms(3,4,7) non_linear_simplify_def remove_unused_def)
  then show ?thesis using three(2) sat keys F D by blast
qed

end
