(* ===== verification/Simplification_Correct.thy ===== *)
theory Simplification_Correct
  imports Simplification_Rounds
begin

text \<open>
  The correctness of \<open>simplification\<close>: the phases before the rounds (\<open>single_assignment_ok\<close>,
  \<open>constant_assignment_ok\<close>, \<open>linear_assignment_ok\<close>), the constraints collected through them
  (\<open>collect_ok\<close>: only the relevant substitutions are applied, and still no eliminated signal is
  left), and their composition with the rounds.
\<close>

section \<open>Lemmas: substitutions of one signal by another\<close>

lemma bind_SomeE: "Option.bind f g = Some x \<Longrightarrow> (\<And>y. f = Some y \<Longrightarrow> g y = Some x \<Longrightarrow> thesis) \<Longrightarrow> thesis"
  by (cases f) auto

lemma new_renames: "substitution_new s (Signal r) = Some sub \<Longrightarrow> sub = renames r s"
  by (auto simp: substitution_new.simps split: if_splits)

lemma those_mem: "those xs = Some ys \<Longrightarrow> y \<in> set ys \<Longrightarrow> Some y \<in> set xs"
  by (simp add: those_Some)

lemma eq_cluster_renames:
  assumes "eq_cluster_simplification cl F p = Some (subs, cons)" and "s \<in> set subs"
  shows "\<exists>r. s = renames r (sub_from s)"
proof (cases "cluster_size cl = 1")
  case True
  then show ?thesis using assms new_renames
    by (auto simp: eq_cluster_simplification_def Let_def split: if_splits)
next
  case False
  obtain a b c d where f: "fold (\<lambda>c sets. fold (collect_eq_signal F) (take_cloned_signals_ordered c) sets)
      (cl_constraints cl) (([], None), ([], None)) = ((a, b), (c, d))" by (metis prod.exhaust)
  let ?sel = "case b of Some signal \<Rightarrow> Some (signal, remove1 signal a, c)
      | None \<Rightarrow> map_option (\<lambda>signal. (signal, a, remove1 signal c)) d"
  have "eq_cluster_simplification cl F p = Option.bind ?sel (\<lambda>(rh, remains, remove).
      Option.bind (those (map (\<lambda>signal. Option.bind (ae_sub (Signal signal) (Signal rh) p) (\<lambda>expr.
        transform_expression_to_constraint_form expr p)) remains)) (\<lambda>cons.
      Option.bind (those (map (\<lambda>signal. substitution_new signal (Signal rh)) remove)) (\<lambda>subs. Some (subs, cons))))"
    unfolding eq_cluster_simplification_def if_not_P [OF False] Let_def f by simp
  then have "Option.bind ?sel (\<lambda>(rh, remains, remove).
      Option.bind (those (map (\<lambda>signal. Option.bind (ae_sub (Signal signal) (Signal rh) p) (\<lambda>expr.
        transform_expression_to_constraint_form expr p)) remains)) (\<lambda>cons.
      Option.bind (those (map (\<lambda>signal. substitution_new signal (Signal rh)) remove)) (\<lambda>subs. Some (subs, cons)))) =
      Some (subs, cons)" using assms(1) by simp
  then obtain rh remove where "those (map (\<lambda>signal. substitution_new signal (Signal rh)) remove) = Some subs"
  proof (elim bind_SomeE)
    fix y assume t: "(\<And>rh remove. those (map (\<lambda>signal. substitution_new signal (Signal rh)) remove) = Some subs \<Longrightarrow> thesis)"
      and g: "(case y of (rh, remains, remove) \<Rightarrow> Option.bind (those (map (\<lambda>signal. Option.bind (ae_sub (Signal signal) (Signal rh) p) (\<lambda>expr.
          transform_expression_to_constraint_form expr p)) remains)) (\<lambda>cons.
        Option.bind (those (map (\<lambda>signal. substitution_new signal (Signal rh)) remove)) (\<lambda>subs. Some (subs, cons)))) =
        Some (subs, cons)"
    obtain rh remains remove where y: "y = (rh, remains, remove)" by (cases y)
    show thesis using g unfolding y prod.case by (elim bind_SomeE) (rule t [of rh remove], simp)
  qed
  from those_mem [OF this assms(2)] obtain x where "substitution_new x (Signal rh) = Some s"
    by (auto simp del: substitution_new.simps)
  then have "s = renames rh x" by (rule new_renames)
  then show ?thesis by simp
qed

lemma eq_simplification_renames:
  assumes "eq_simplification arrivals cs F n p = Some (subs, cons)" and "s \<in> set subs"
    and "arrives arrivals"
  shows "\<exists>r. s = renames r (sub_from s)"
proof -
  obtain clusters results where c: "build_clusters cs n = Some clusters"
    "those (map (\<lambda>cl. eq_cluster_simplification cl F p) clusters) = Some results"
    "subs = concat (map (\<lambda>i. fst (results ! i)) (filter (\<lambda>i. cluster_size (clusters ! i) = 1) [0..<length clusters] @
      arrivals (filter (\<lambda>i. cluster_size (clusters ! i) \<noteq> 1) [0..<length clusters])))"
    using assms(1) by (auto simp: eq_simplification_def Let_def split: bind_splits)
  have "set (arrivals pool) = set pool" for pool using assms(3) by (auto simp: arrives_def dest: mset_eq_setD)
  then obtain i where i: "i < length clusters" "s \<in> set (fst (results ! i))"
    using assms(2) c(3) by auto
  have "length results = length clusters" using c(2) by (metis those_Some length_map)
  then have "results ! i \<in> set results" using i(1) by simp
  from those_mem [OF c(2) this] obtain cl where "eq_cluster_simplification cl F p = Some (results ! i)" by auto
  then show ?thesis using i(2) eq_cluster_renames [of cl F p "fst (results ! i)" "snd (results ! i)"] by simp
qed

lemma decompose_renames: "r \<noteq> 0 \<Longrightarrow> decompose (renames r s) = (s, Signal r)"
  by (simp add: decompose_def constant_coefficient_def)

lemma encoded_rename:
  assumes "is_field p" and "\<forall>c \<in> set cs. equality_ok p c" and "phase_ok p F cs subs cons"
    and "\<And>s. s \<in> set subs \<Longrightarrow> \<exists>r. s = renames r (sub_from s)"
    and "map_of (build_encoded_fast_substitutions subs) k = Some e"
  shows "\<exists>r. e = Signal r \<and> r \<noteq> 0 \<and> renames r k \<in> set subs"
proof -
  have "(k, e) \<in> set (build_encoded_fast_substitutions subs)" using assms(5) by (rule map_of_SomeD)
  then obtain s where s: "s \<in> set subs" "sub_from s = k" "e = snd (decompose s)"
    using build_encoded_entries [of subs] by blast
  obtain r where r: "s = renames r (sub_from s)" using assms(4) [OF s(1)] by blast
  let ?\<sigma> = "\<lambda>k :: nat. if k = 0 then 1 else 0 :: int"
  have one: "assigns_one ?\<sigma>" by (simp add: assigns_one_def)
  have "sat p ?\<sigma> c" if "c \<in> set cs" for c
  proof -
    have "equality_ok p c" using assms(2) that by blast
    from equality_ok_pair [OF assms(1) this] show ?thesis
    proof (elim exE conjE)
      fix x y assume xy: "0 < x" "x < y" and all: "\<forall>\<sigma>. sat p \<sigma> c \<longleftrightarrow> eqm p (\<sigma> x) (\<sigma> y)"
      have "x \<noteq> 0" "y \<noteq> 0" using xy by simp_all
      then have "eqm p (?\<sigma> x) (?\<sigma> y)" by (simp only: if_False)
      then show ?thesis by (rule all [THEN spec, THEN iffD2])
    qed
  qed
  then have "all_sat p ?\<sigma> cs" by (simp add: all_sat_def)
  then have "subs_hold p ?\<sigma> subs" using phase_okD(1) [OF assms(3) one] by simp
  then have h: "sub_holds p ?\<sigma> s" using s(1) by (simp add: subs_hold_def)
  have "sub_from s \<in> sub_from ` set subs" using s(1) by simp
  then have z: "sub_from s \<noteq> 0" using phase_okD(2) [OF assms(3)] by (metis subs_independent_def)
  have "r \<noteq> 0"
  proof
    assume "r = 0"
    then have "s = renames 0 (sub_from s)" using r by simp
    then have "eqm p (?\<sigma> (sub_from s)) (?\<sigma> 0)" using h renames_holds [of p ?\<sigma> "sub_from s" 0] by simp
    then show False using z is_field_gt1 [OF assms(1)] by simp
  qed
  moreover have "e = Signal r" using decompose_renames [OF \<open>r \<noteq> 0\<close>, of "sub_from s"] r s(3) by simp
  ultimately show ?thesis using r s(1,2) by auto
qed

definition renaming :: "(nat, nat arithmetic_expression) hmap \<Rightarrow> bool" where
  "renaming enc \<longleftrightarrow> encoding_wf enc \<and> (\<forall>k e. map_of enc k = Some e \<longrightarrow> (\<exists>r. e = Signal r \<and> r \<noteq> 0))"

lemma renamed_key:
  assumes "renaming enc" and "k \<in> encoded_keys enc K" and "k \<noteq> 0"
  shows "\<exists>j \<in> K. k = j \<or> map_of enc j = Some (Signal k)"
proof -
  from assms(2,3) consider "k \<in> K" | j where "j \<in> K" "k \<in> (case map_of enc j of None \<Rightarrow> {} | Some e \<Rightarrow> ae_keys e)"
    by (auto simp: encoded_keys_def)
  then show ?thesis
  proof cases
    case 2
    then obtain e where e: "map_of enc j = Some e" "k \<in> ae_keys e" by (cases "map_of enc j") auto
    then obtain r where "e = Signal r" using assms(1) by (auto simp: renaming_def)
    then show ?thesis using e 2(1) assms(3) by (intro bexI [of _ j]) auto
  qed auto
qed

lemma constant_renamed:
  assumes "is_field p" and "inverse_ok minv p" and "renaming enc" and "constant_ok p c" and "passed p enc c d"
  shows "constant_ok p d"
proof -
  obtain x s where x: "con_keys c - {0} = {x}" "constant_sub s" "sub_from s = x" "\<forall>\<sigma>. sat p \<sigma> c \<longleftrightarrow> sub_holds p \<sigma> s"
    using constant_solution [OF assms(2,1,4)] by blast
  have ok: "con_ok p d" "is_linear d" using assms(4,5) by (simp_all add: constant_ok_def passed_def)
  have wf: "encoding_wf enc" using assms(3) by (simp add: renaming_def)
  have d: "con_keys d \<subseteq> encoded_keys enc (con_keys c)"
    "\<And>\<sigma>. assigns_one \<sigma> \<Longrightarrow> encoding_holds p \<sigma> enc \<Longrightarrow> sat p \<sigma> d \<longleftrightarrow> sat p \<sigma> c"
    using assms(5) by (auto simp: passed_def substituted_def)
  have z: "map_of enc 0 = None" using wf by (simp add: encoding_wf_def map_of_eq_None_iff keys_of_def)
  have from_x: "k = x \<or> map_of enc x = Some (Signal k)" if k: "k \<in> con_keys d - {0}" for k
  proof -
    have k': "k \<in> encoded_keys enc (con_keys c)" "k \<noteq> 0" using k d(1) by auto
    obtain j where j: "j \<in> con_keys c" "k = j \<or> map_of enc j = Some (Signal k)"
      using renamed_key [OF assms(3) k'] by blast
    have "j \<noteq> 0" using j(2) z k'(2) by (metis option.distinct(1))
    then have "j \<in> con_keys c - {0}" using j(1) by simp
    then show ?thesis using j(2) x(1) by simp
  qed
  have gone: "x \<notin> con_keys d" if "map_of enc x = Some e" for e
  proof -
    have "x \<in> keys_of enc" using that by (auto simp: keys_of_map_of)
    then show ?thesis using assms(5) by (auto simp: passed_def substituted_def)
  qed
  have same: "j = k" if j: "j \<in> con_keys d - {0}" and k: "k \<in> con_keys d - {0}" for j k
    using from_x [OF j] from_x [OF k] gone j k by (elim disjE) auto
  have "con_keys d - {0} \<noteq> {}"
  proof
    assume e: "con_keys d - {0} = {}"
    let ?\<sigma> = "\<lambda>v k :: nat. if k = 0 then 1 else v :: int"
    have one: "assigns_one (?\<sigma> v)" for v by (simp add: assigns_one_def)
    have holds: "encoding_holds p (?\<sigma> v) enc" for v
    proof -
      have "aeval p (?\<sigma> v) e = Some (?\<sigma> v k mod p)" if m: "(k, e) \<in> set enc" for k e
      proof -
        have "map_of enc k = Some e" using m wf by (simp add: encoding_wf_def hm_wf_def map_of_is_SomeI)
        then obtain r where r: "e = Signal r" "r \<noteq> 0" using assms(3) by (auto simp: renaming_def)
        have "k \<in> keys_of enc" using m by (force simp: keys_of_def)
        then have "k \<noteq> 0" using wf by (metis encoding_wf_def)
        then show ?thesis using r by simp
      qed
      then show ?thesis by (auto simp: encoding_holds_def)
    qed
    have sub: "sat p (?\<sigma> v) d \<longleftrightarrow> eqm p v (lin (?\<sigma> 0) (sub_to s))" for v
    proof -
      have "x \<in> con_keys c - {0}" unfolding x(1) by simp
      then have "x \<noteq> 0" by simp
      moreover have "lin (?\<sigma> v) (sub_to s) = lin (?\<sigma> 0) (sub_to s)" by (rule constant_lin [OF x(2) one one])
      ultimately show ?thesis using d(2) [OF one holds] x(3,4) by (simp add: sub_holds_def)
    qed
    have same: "sat p (?\<sigma> v) d \<longleftrightarrow> sat p (?\<sigma> w) d" for v w
      by (rule sat_agree) (use e in auto)
    let ?K = "lin (?\<sigma> 0) (sub_to s)"
    have "sat p (?\<sigma> ?K) d" by (rule sub [THEN iffD2]) (rule refl)
    then have "sat p (?\<sigma> (?K + 1)) d" by (rule same [THEN iffD1])
    then have "eqm p (?K + 1) ?K" by (rule sub [THEN iffD1])
    then have "p dvd 1" unfolding mod_eq_dvd_iff by (simp only: add_diff_cancel_left')
    then have "p \<le> 1" by (rule zdvd_imp_le) simp
    then show False using is_field_gt1 [OF assms(1)] by linarith
  qed
  then obtain y where "y \<in> con_keys d - {0}" by blast
  then have "con_keys d - {0} = {y}" using same by blast
  then show ?thesis using ok unfolding constant_ok_def by blast
qed

section \<open>Lemmas: up to the rounds\<close>

lemma all_sat_agree:
  assumes "\<And>k. k \<in> signals_of cs \<Longrightarrow> \<sigma> k = \<tau> k"
  shows "all_sat p \<sigma> cs \<longleftrightarrow> all_sat p \<tau> cs"
proof -
  have "sat p \<sigma> c \<longleftrightarrow> sat p \<tau> c" if "c \<in> set cs" for c
    by (rule sat_agree) (use signals_of_keys [OF that] assms in blast)
  then show ?thesis by (simp add: all_sat_def)
qed

text \<open>The signals of a list of substitutions.\<close>

definition subs_signals :: "nat substitution list \<Rightarrow> nat set" where
  "subs_signals ss = (\<Union>s \<in> set ss. insert (sub_from s) (keys_of (sub_to s)))"

lemma subs_agree:
  assumes "\<And>k. k \<in> subs_signals ss \<Longrightarrow> \<sigma> k = \<tau> k"
  shows "subs_hold p \<sigma> ss \<longleftrightarrow> subs_hold p \<tau> ss"
proof -
  have "sub_holds p \<sigma> s \<longleftrightarrow> sub_holds p \<tau> s" if s: "s \<in> set ss" for s
  proof -
    have "\<sigma> (sub_from s) = \<tau> (sub_from s)" "\<And>k. k \<in> keys_of (sub_to s) \<Longrightarrow> \<sigma> k = \<tau> k"
      using assms s by (auto simp: subs_signals_def)
    then show ?thesis using lin_agree [of "sub_to s" \<sigma> \<tau>] by (simp add: sub_holds_def)
  qed
  then show ?thesis by (simp add: subs_hold_def)
qed

lemma constants_extend:
  assumes "\<forall>s \<in> set ss. constant_sub s" and "assigns_one \<rho>" and "subs_hold p \<rho> ss" and "assigns_one \<sigma>"
  shows "\<exists>\<tau>. assigns_one \<tau> \<and> (\<forall>k. k \<notin> sub_from ` set ss \<longrightarrow> \<tau> k = \<sigma> k) \<and> subs_hold p \<tau> ss"
proof -
  let ?\<tau> = "\<lambda>k. if k \<in> sub_from ` set ss then \<rho> k else \<sigma> k"
  have z: "0 \<notin> sub_from ` set ss" using assms(1) by (auto simp: constant_sub_def)
  have one: "assigns_one ?\<tau>" using assms(4) z by (simp add: assigns_one_def)
  have "sub_holds p ?\<tau> s" if s: "s \<in> set ss" for s
  proof -
    have "lin ?\<tau> (sub_to s) = lin \<rho> (sub_to s)"
      using assms(1) s by (intro constant_lin [OF _ one assms(2)]) blast
    moreover have "?\<tau> (sub_from s) = \<rho> (sub_from s)" using s by simp
    moreover have "sub_holds p \<rho> s" using assms(3) s by (simp add: subs_hold_def)
    ultimately show ?thesis by (simp only: sub_holds_def)
  qed
  then have "subs_hold p ?\<tau> ss" by (simp add: subs_hold_def)
  then show ?thesis using one by (intro exI [of _ ?\<tau>]) simp
qed

text \<open>Three lists of substitutions in a row, the second by constants, take a system apart.\<close>

lemma eliminates_three:
  assumes equiv: "\<And>\<sigma>. assigns_one \<sigma> \<Longrightarrow> all_sat p \<sigma> A \<longleftrightarrow>
      subs_hold p \<sigma> s1 \<and> subs_hold p \<sigma> s2 \<and> subs_hold p \<sigma> s3 \<and> all_sat p \<sigma> B"
    and i1: "subs_independent s1" and c2: "\<forall>s \<in> set s2. constant_sub s" and i3: "subs_independent s3"
    and d23: "subs_signals s3 \<inter> (sub_from ` set s1 \<union> sub_from ` set s2) = {}"
    and d12: "subs_signals s2 \<inter> sub_from ` set s1 = {}"
    and B: "signals_of B \<inter> (sub_from ` set s1 \<union> sub_from ` set s2 \<union> sub_from ` set s3) = {}"
    and feasible: "assigns_one \<rho>" "subs_hold p \<rho> s2"
  shows "eliminates p (sub_from ` set s1 \<union> sub_from ` set s2 \<union> sub_from ` set s3) A B"
proof -
  let ?F1 = "sub_from ` set s1" and ?F2 = "sub_from ` set s2" and ?F3 = "sub_from ` set s3"
  have "\<exists>\<tau>. assigns_one \<tau> \<and> (\<forall>k. k \<notin> ?F1 \<union> ?F2 \<union> ?F3 \<longrightarrow> \<tau> k = \<sigma> k) \<and> all_sat p \<tau> A"
    if s: "assigns_one \<sigma>" "all_sat p \<sigma> B" for \<sigma>
  proof -
    obtain t3 where t3: "assigns_one t3" "\<forall>k. k \<notin> ?F3 \<longrightarrow> t3 k = \<sigma> k" "subs_hold p t3 s3"
      using subs_solution [OF i3 s(1)] by blast
    obtain t2 where t2: "assigns_one t2" "\<forall>k. k \<notin> ?F2 \<longrightarrow> t2 k = t3 k" "subs_hold p t2 s2"
      using constants_extend [OF c2 feasible t3(1)] by blast
    obtain t1 where t1: "assigns_one t1" "\<forall>k. k \<notin> ?F1 \<longrightarrow> t1 k = t2 k" "subs_hold p t1 s1"
      using subs_solution [OF i1 t2(1)] by blast
    have h2: "subs_hold p t1 s2 \<longleftrightarrow> subs_hold p t2 s2"
    proof (rule subs_agree)
      fix k assume "k \<in> subs_signals s2"
      then have "k \<notin> ?F1" using d12 by blast
      then show "t1 k = t2 k" using t1(2) by simp
    qed
    have h3: "subs_hold p t1 s3 \<longleftrightarrow> subs_hold p t3 s3"
    proof (rule subs_agree)
      fix k assume "k \<in> subs_signals s3"
      then have "k \<notin> ?F1" "k \<notin> ?F2" using d23 by blast+
      then show "t1 k = t3 k" using t1(2) t2(2) by simp
    qed
    have off: "t1 k = \<sigma> k" if "k \<notin> ?F1 \<union> ?F2 \<union> ?F3" for k
      using that t1(2) t2(2) t3(2) by simp
    have "all_sat p t1 B \<longleftrightarrow> all_sat p \<sigma> B"
    proof (rule all_sat_agree)
      fix k assume "k \<in> signals_of B"
      then have "k \<notin> ?F1 \<union> ?F2 \<union> ?F3" using B by (meson disjoint_iff)
      then show "t1 k = \<sigma> k" by (rule off)
    qed
    then have "all_sat p t1 A" using equiv [OF t1(1)] h2 h3 t1(3) t2(3) t3(3) s(2) by simp
    then show ?thesis using t1(1) off by (intro exI [of _ t1]) simp
  qed
  moreover have "all_sat p \<sigma> B" if "assigns_one \<sigma>" "all_sat p \<sigma> A" for \<sigma> using equiv [OF that(1)] that(2) by simp
  ultimately show ?thesis unfolding eliminates_def by (intro conjI allI impI) simp_all
qed

text \<open>A constraint over no signal of the encoding stays as it is.\<close>

lemma encoded_absent_fold:
  assumes "set ks \<inter> keys_of enc = {}"
  shows "fold (\<lambda>signal acc. Option.bind acc (\<lambda>(c, applied_substitution).
         case map_of enc signal of
           Some expr \<Rightarrow>
             map_option (\<lambda>sub. (constraint_apply_substitution c sub p, True)) (substitution_new signal expr)
         | None \<Rightarrow> Some (c, applied_substitution))) ks (Some r) = Some r"
  using assms
proof (induction ks)
  case (Cons k ks)
  have "map_of enc k = None" using Cons.prems by (auto simp: map_of_eq_None_iff keys_of_def)
  then show ?case using Cons by (cases r) simp
qed simp

lemma substitute_all_absent:
  assumes "\<forall>c \<in> set cs. con_keys c \<inter> keys_of enc = {}"
  shows "substitute_all cs enc p = Some cs"
proof -
  have "substitute_fixing enc p c = Some c" if "c \<in> set cs" for c
  proof -
    have "set (take_cloned_signals c) \<inter> keys_of enc = {}" using assms that by (auto simp: set_take_cloned)
    from encoded_absent_fold [OF this, of p "(c, False)"]
    have "fast_encoded_constraint_substitution c enc p = Some (c, False)"
      unfolding fast_encoded_constraint_substitution_def by simp
    then show ?thesis by (simp add: substitute_fixing_def)
  qed
  then have "map (substitute_fixing enc p) cs = map Some cs" by simp
  then show ?thesis by (simp add: substitute_all_def those_Some)
qed

lemma substituted_keys:
  assumes "substituted p enc c d" and "\<forall>(k, e) \<in> set enc. ae_keys e \<subseteq> T"
  shows "con_keys d \<subseteq> insert 0 (con_keys c \<union> T) - keys_of enc"
proof -
  have "(case map_of enc k of None \<Rightarrow> {} | Some e \<Rightarrow> ae_keys e) \<subseteq> T" for k
    using assms(2) by (auto split: option.split dest: map_of_SomeD)
  then have "encoded_keys enc (con_keys c) \<subseteq> insert 0 (con_keys c \<union> T)" by (auto simp: encoded_keys_def)
  then show ?thesis using assms(1) unfolding substituted_def by blast
qed

lemma passed_signals:
  assumes "list_all2 (passed p enc) cs ds" and "\<forall>(k, e) \<in> set enc. ae_keys e \<subseteq> T" and "encoding_wf enc"
  shows "signals_of ds \<subseteq> signals_of cs \<union> T" and "signals_of ds \<inter> keys_of enc = {}"
proof -
  have z: "0 \<notin> keys_of enc" using assms(3) by (simp add: encoding_wf_def)
  have each: "con_keys d \<subseteq> (signals_of cs \<union> T) - keys_of enc" if d: "d \<in> set ds" for d
  proof -
    have "\<exists>c \<in> set cs. passed p enc c d" by (rule list_all2_right [OF assms(1) d])
    then obtain c where c: "c \<in> set cs" "passed p enc c d" by blast
    then have "substituted p enc c d" by (simp add: passed_def)
    then have "con_keys d \<subseteq> insert 0 (con_keys c \<union> T) - keys_of enc" by (rule substituted_keys [OF _ assms(2)])
    then show ?thesis using signals_of_keys [OF c(1)] zero_signals [of cs] by blast
  qed
  show "signals_of ds \<subseteq> signals_of cs \<union> T" by (rule signals_of_subset) (use each in auto)
  show "signals_of ds \<inter> keys_of enc = {}" using each z unfolding signals_of_def by blast
qed

lemma passed_linear:
  assumes "list_all2 (passed p enc) cs ds" and "\<forall>c \<in> set cs. con_ok p c \<and> is_linear c"
  shows "\<forall>d \<in> set ds. con_ok p d \<and> is_linear d"
proof
  fix d assume "d \<in> set ds"
  then have "\<exists>c \<in> set cs. passed p enc c d" by (rule list_all2_right [OF assms(1)])
  then show "con_ok p d \<and> is_linear d" using assms(2) by (auto simp: passed_def)
qed

section \<open>Well-formed simplifiers\<close>

text \<open>What the simplifier is given: the field, the forbidden signals (the constant and the public
  signals among them), constraints in normal form sorted by kind, and signals below
  \<open>max_signal\<close>. The non-linear constraints are those of the instances of the encoding.\<close>

definition encoded_constraints :: "nat \<Rightarrow> dag_encoding \<Rightarrow> nat constraint list option" where
  "encoded_constraints fuel enc = Option.bind (iterator_new enc) (\<lambda>iter.
     map_option instance_constraints (preorder iterator_children fuel iter))"

definition simplifier_ok :: "int \<Rightarrow> simplifier \<Rightarrow> nat constraint list \<Rightarrow> bool" where
  "simplifier_ok p smp nl \<longleftrightarrow>
     sm_field smp = p \<and> 0 \<in> sm_forbidden smp \<and> sm_forbidden smp \<subseteq> {..<sm_max_signal smp} \<and>
     (\<forall>c \<in> set (sm_equalities smp). con_ok p c \<and> is_equality c p) \<and>
     (\<forall>c \<in> set (sm_cons_equalities smp). con_ok p c \<and> is_constant_equality c) \<and>
     (\<forall>c \<in> set (sm_linear smp). con_ok p c \<and> is_linear c) \<and>
     (\<forall>c \<in> set nl. con_reduced p c) \<and>
     signals_of (sm_equalities smp @ sm_cons_equalities smp @ sm_linear smp @ nl) \<subseteq> {..<sm_max_signal smp} \<and>
     {sm_no_public_outputs smp + 1..sm_no_public_outputs smp + sm_no_public_inputs smp} \<subseteq> sm_forbidden smp \<and>
     sm_no_public_outputs smp + sm_no_public_inputs smp + sm_no_private_inputs smp < sm_max_signal smp"

definition schedule_ok :: "schedule \<Rightarrow> bool" where
  "schedule_ok sched \<longleftrightarrow> arrives (sched_eq sched) \<and> arrives (sched_linear sched) \<and> (\<forall>k. arrives (sched_round sched k))"

lemma relevant_signals_ok:
  assumes "encoded_constraints fuel (sm_dag_encoding smp) = Some nl"
  shows "relevant_signals fuel smp ren deletes =
    Some (final_signal ren ` (signals_of nl - {0}) - keys_of deletes)"
proof -
  obtain iter nodes where i: "iterator_new (sm_dag_encoding smp) = Some iter"
    "preorder iterator_children fuel iter = Some nodes" "nl = instance_constraints nodes"
    using assms by (auto simp: encoded_constraints_def elim!: bind_SomeE)
  have "(\<Union>c \<in> set nl. con_keys c) - {0} = signals_of nl - {0}" by (auto simp: signals_of_def)
  then show ?thesis using build_relevant_set_total [OF i(2), of ren deletes] i(1,3)
    by (simp add: relevant_signals_def)
qed

text \<open>The first block: equalities of signals.\<close>

lemma equality_encoding:
  assumes "is_field p" and "\<forall>c \<in> set E. equality_ok p c" and "phase_ok p F E subs cons"
    and "\<And>s. s \<in> set subs \<Longrightarrow> \<exists>r. s = renames r (sub_from s)"
  shows "renaming (build_encoded_fast_substitutions subs) \<and>
    keys_of (build_encoded_fast_substitutions subs) = sub_from ` set subs \<and>
    (\<forall>\<sigma>. assigns_one \<sigma> \<longrightarrow> (encoding_holds p \<sigma> (build_encoded_fast_substitutions subs) \<longleftrightarrow> subs_hold p \<sigma> subs)) \<and>
    (\<forall>(k, e) \<in> set (build_encoded_fast_substitutions subs). ae_keys e \<subseteq> signals_of E)"
proof -
  let ?enc = "build_encoded_fast_substitutions subs"
  note P = phase_okD [OF assms(3)]
  have i: "distinct (map sub_from subs)" "\<forall>s \<in> set subs. hm_wf (sub_to s)" "0 \<notin> sub_from ` set subs"
    "\<forall>s \<in> set subs. keys_of (sub_to s) \<inter> sub_from ` set subs = {}"
    using P(2) by (simp_all add: subs_independent_def)
  note enc = build_encoded_ok [OF i]
  have wf: "hm_wf ?enc" using enc by (simp add: encoding_wf_def)
  have entry: "\<exists>r. e = Signal r \<and> r \<noteq> 0 \<and> renames r k \<in> set subs" if "map_of ?enc k = Some e" for k e
    by (rule encoded_rename [OF assms(1-4) that])
  have "renaming ?enc" using enc entry by (auto simp: renaming_def)
  moreover have "ae_keys e \<subseteq> signals_of E" if "(k, e) \<in> set ?enc" for k e
  proof -
    have "map_of ?enc k = Some e" using that wf by (simp add: hm_wf_def map_of_is_SomeI)
    from entry [OF this] obtain r where r: "e = Signal r" "renames r k \<in> set subs" by blast
    show ?thesis using P(5) [OF r(2)] r(1) by simp
  qed
  ultimately show ?thesis using enc by auto
qed

lemma single_assignment_ok:
  assumes "is_field p" and "simplifier_ok p smp nl" and "arrives (sched_eq sched)"
  shows "\<exists>subs fs linear cons_eq enc. single_assignment sched smp relevant =
      Some (filter (\<lambda>e. fst e \<in> relevant) enc, linear, cons_eq, fs, sub_from ` set subs) \<and>
    phase_ok p (sm_forbidden smp) (sm_equalities smp) subs fs \<and>
    renaming enc \<and> keys_of enc = sub_from ` set subs \<and>
    (\<forall>\<sigma>. assigns_one \<sigma> \<longrightarrow> (encoding_holds p \<sigma> enc \<longleftrightarrow> subs_hold p \<sigma> subs)) \<and>
    (\<forall>(k, e) \<in> set enc. ae_keys e \<subseteq> signals_of (sm_equalities smp)) \<and>
    list_all2 (passed p enc) (sm_linear smp) linear \<and> list_all2 (passed p enc) (sm_cons_equalities smp) cons_eq"
proof -
  let ?E = "sm_equalities smp" and ?F = "sm_forbidden smp" and ?n = "sm_max_signal smp"
  have ok: "\<forall>c \<in> set (sm_linear smp). con_ok p c" "\<forall>c \<in> set (sm_cons_equalities smp). con_ok p c"
    using assms(2) by (simp_all add: simplifier_ok_def)
  have smp: "sm_field smp = p" "0 \<in> ?F" "\<forall>c \<in> set ?E. equality_ok p c"
    using assms(2) by (simp_all add: simplifier_ok_def equality_ok_def)
  have wfs: "\<forall>c \<in> set (sm_linear smp). con_wf c" "\<forall>c \<in> set (sm_cons_equalities smp). con_wf c"
    using ok by (blast intro: con_ok_wf)+
  have "signals_of (?E @ sm_cons_equalities smp @ sm_linear smp @ nl) \<subseteq> {..<?n}"
    using assms(2) by (simp add: simplifier_ok_def)
  then have "signals_of ?E \<subseteq> {..<?n}" by simp
  then have bound: "\<forall>c \<in> set ?E. \<forall>s \<in> con_keys c. s < ?n" using signals_of_keys [of _ ?E] by fastforce
  obtain subs fs where e: "eq_simplification (sched_eq sched) ?E ?F ?n p = Some (subs, fs)" "phase_ok p ?F ?E subs fs"
    using eq_simplification_ok [OF assms(1) smp(2,3) bound assms(3)] by blast
  have ren: "\<exists>r. s = renames r (sub_from s)" if "s \<in> set subs" for s
    by (rule eq_simplification_renames [OF e(1) that assms(3)])
  let ?enc = "build_encoded_fast_substitutions subs"
  note enc = equality_encoding [OF assms(1) smp(3) e(2) ren]
  have wf: "encoding_wf ?enc" using enc by (simp add: renaming_def)
  obtain linear where l: "substitute_all (sm_linear smp) ?enc p = Some linear" "list_all2 (passed p ?enc) (sm_linear smp) linear"
    using substitute_all_ok [OF is_field_pos [OF assms(1)] wf wfs(1)] by blast
  obtain cons_eq where c: "substitute_all (sm_cons_equalities smp) ?enc p = Some cons_eq"
    "list_all2 (passed p ?enc) (sm_cons_equalities smp) cons_eq"
    using substitute_all_ok [OF is_field_pos [OF assms(1)] wf wfs(2)] by blast
  have "hm_wf ?enc" using wf by (simp add: encoding_wf_def)
  then have "remove_not_relevant ?enc relevant = filter (\<lambda>e. fst e \<in> relevant) ?enc" by (rule remove_not_relevant_filter)
  moreover have "set (hm_keys ?enc) = sub_from ` set subs" using enc by (simp add: hm_keys_def keys_of_def)
  ultimately have "single_assignment sched smp relevant =
      Some (filter (\<lambda>e. fst e \<in> relevant) ?enc, linear, cons_eq, fs, sub_from ` set subs)"
    using e(1) l(1) c(1) by (simp add: single_assignment_def simplifier_no_labels_def smp(1) Let_def)
  then show ?thesis using e(2) enc l(2) c(2) by (intro exI conjI) auto
qed

text \<open>The second block: equalities with constants.\<close>

lemma constant_assignment_ok:
  assumes "is_field p" and "inverse_ok minv p" and "sm_field smp = p" and "0 \<in> sm_forbidden smp"
    and "\<forall>c \<in> set cons_eq. constant_ok p c" and "\<forall>c \<in> set linear. con_wf c"
  shows "\<exists>subs fs linear' enc. constant_assignment minv smp cons_eq linear fs1 D =
      Some (enc, linear', fs1 @ fs, D \<union> sub_from ` set subs) \<and>
    constants_ok p (sm_forbidden smp) cons_eq subs fs \<and> enc = build_encoded_fast_substitutions subs \<and>
    keys_of enc = sub_from ` set subs \<and> encoding_wf enc \<and> (\<forall>(k, e) \<in> set enc. ae_keys e \<subseteq> {0}) \<and>
    (\<forall>\<sigma>. assigns_one \<sigma> \<longrightarrow> subs_hold p \<sigma> subs \<longrightarrow> encoding_holds p \<sigma> enc) \<and>
    list_all2 (passed p enc) linear linear'"
proof -
  obtain subs fs where c: "constant_eq_simplification minv cons_eq (sm_forbidden smp) p = Some (subs, fs)"
    "constants_ok p (sm_forbidden smp) cons_eq subs fs"
    using constant_eq_simplification_ok [OF assms(2,1,4,5)] by blast
  let ?enc = "build_encoded_fast_substitutions subs"
  have sub: "\<forall>s \<in> set subs. constant_sub s" using c(2) by (simp add: constants_ok_def)
  note enc = build_encoded_constants [OF sub]
  have k: "keys_of ?enc = sub_from ` set subs" using build_encoded_entries [of subs] by blast
  have wf: "encoding_wf ?enc" using enc by (elim conjE)
  obtain linear' where l: "substitute_all linear ?enc p = Some linear'" "list_all2 (passed p ?enc) linear linear'"
    using substitute_all_ok [OF is_field_pos [OF assms(1)] wf assms(6)] by blast
  have "set (hm_keys ?enc) = sub_from ` set subs" using k by (simp add: hm_keys_def keys_of_def)
  then have "constant_assignment minv smp cons_eq linear fs1 D = Some (?enc, linear', fs1 @ fs, D \<union> sub_from ` set subs)"
    using c(1) l(1) by (simp add: constant_assignment_def assms(3) Let_def)
  moreover have "\<forall>\<sigma>. assigns_one \<sigma> \<longrightarrow> subs_hold p \<sigma> subs \<longrightarrow> encoding_holds p \<sigma> ?enc"
    "\<forall>(k, e) \<in> set ?enc. ae_keys e \<subseteq> {0}" using enc by blast+
  ultimately show ?thesis using c(2) k wf l(2) by (intro exI conjI) (assumption | rule refl)+
qed

text \<open>The third block: the linear constraints.\<close>

lemma keep_relevant_fold:
  "fold (keep_relevant relevant) subs (D, acc) =
    (D \<union> sub_from ` set subs, acc @ filter (\<lambda>s. sub_from s \<in> relevant) subs)"
  by (induction subs arbitrary: D acc) (auto simp: keep_relevant_def)

lemma independent_filter:
  assumes "subs_independent subs"
  shows "subs_independent (filter P subs)"
proof -
  have sub: "sub_from ` set (filter P subs) \<subseteq> sub_from ` set subs" by auto
  have "distinct (map sub_from (filter P subs))"
    using assms by (auto simp: subs_independent_def intro: distinct_map_filter)
  moreover have "0 \<notin> sub_from ` set (filter P subs)" using assms sub unfolding subs_independent_def by blast
  moreover have "hm_wf (sub_to s) \<and> keys_of (sub_to s) \<inter> sub_from ` set (filter P subs) = {}"
    if "s \<in> set (filter P subs)" for s
  proof -
    have "hm_wf (sub_to s)" "keys_of (sub_to s) \<inter> sub_from ` set subs = {}"
      using assms that by (auto simp: subs_independent_def)
    then show ?thesis using sub by blast
  qed
  ultimately show ?thesis by (simp only: subs_independent_def) blast
qed

lemma independent_encoding:
  assumes "subs_independent subs" and "\<And>s. s \<in> set subs \<Longrightarrow> keys_of (sub_to s) \<subseteq> T" and "0 \<in> T"
  shows "encoding_wf (build_encoded_fast_substitutions subs)"
    and "keys_of (build_encoded_fast_substitutions subs) = sub_from ` set subs"
    and "assigns_one \<sigma> \<Longrightarrow> encoding_holds p \<sigma> (build_encoded_fast_substitutions subs) \<longleftrightarrow> subs_hold p \<sigma> subs"
    and "\<forall>(k, e) \<in> set (build_encoded_fast_substitutions subs). ae_keys e \<subseteq> T"
proof -
  have i: "distinct (map sub_from subs)" "\<forall>s \<in> set subs. hm_wf (sub_to s)" "0 \<notin> sub_from ` set subs"
    "\<forall>s \<in> set subs. keys_of (sub_to s) \<inter> sub_from ` set subs = {}"
    using assms(1) by (simp_all add: subs_independent_def)
  note enc = build_encoded_ok [OF i]
  show "encoding_wf (build_encoded_fast_substitutions subs)"
    "keys_of (build_encoded_fast_substitutions subs) = sub_from ` set subs"
    "assigns_one \<sigma> \<Longrightarrow> encoding_holds p \<sigma> (build_encoded_fast_substitutions subs) \<longleftrightarrow> subs_hold p \<sigma> subs"
    using enc by blast+
  have "ae_keys e \<subseteq> T" if "(k, e) \<in> set (build_encoded_fast_substitutions subs)" for k e
  proof -
    from build_encoded_entries [of subs] have all: "\<forall>(k, e) \<in> set (build_encoded_fast_substitutions subs).
        \<exists>s \<in> set subs. sub_from s = k \<and> e = snd (decompose s)" by (elim conjE)
    have "\<exists>s \<in> set subs. sub_from s = k \<and> e = snd (decompose s)" using bspec [OF all that] by simp
    then obtain s where s: "s \<in> set subs" "e = snd (decompose s)" by blast
    then have "ae_keys e \<subseteq> insert 0 (keys_of (sub_to s))" using decompose_value [of s] i(2) by simp
    then show ?thesis using assms(2) [OF s(1)] assms(3) by blast
  qed
  then show "\<forall>(k, e) \<in> set (build_encoded_fast_substitutions subs). ae_keys e \<subseteq> T" by blast
qed

definition sub_targets :: "nat substitution list \<Rightarrow> nat set" where
  "sub_targets ss = insert 0 (\<Union>s \<in> set ss. keys_of (sub_to s))"

definition linear_result ::
    "int \<Rightarrow> nat set \<Rightarrow> bool \<Rightarrow> nat constraint list \<Rightarrow> nat substitution list \<Rightarrow> nat constraint list \<Rightarrow> bool" where
  "linear_result p F keeps ls subs fs \<longleftrightarrow>
     (\<forall>\<sigma>. assigns_one \<sigma> \<longrightarrow> (all_sat p \<sigma> ls \<longleftrightarrow> subs_hold p \<sigma> subs \<and> all_sat p \<sigma> fs)) \<and>
     subs_independent subs \<and> sub_from ` set subs \<inter> F = {} \<and> subs_signals subs \<subseteq> signals_of ls \<and>
     (\<forall>c \<in> set fs. con_wf c) \<and> (if keeps then fs = ls \<and> subs = [] else \<forall>c \<in> set fs. con_keys c \<subseteq> F)"

lemma phase_linear_result:
  assumes "phase_ok p F ls subs fs"
  shows "linear_result p F False ls subs fs"
proof -
  note P = phase_okD [OF assms]
  have "subs_signals subs \<subseteq> signals_of ls" using P(4,5) by (auto simp: subs_signals_def)
  then show ?thesis using P(1,2,3,6) by (simp add: linear_result_def)
qed

lemma linear_assignment_ok:
  assumes "is_field p" and "inverse_ok minv p" and "arrives (sched_linear sched)" and "sm_field smp = p"
    and "0 \<in> sm_forbidden smp" and "\<forall>c \<in> set ls. con_ok p c \<and> is_linear c" and "signals_of ls \<subseteq> {..<sm_max_signal smp}"
    and "\<forall>c \<in> set fs. con_keys c \<subseteq> sm_forbidden smp"
  shows "\<exists>subs fs' enc. linear_assignment minv sched smp relevant ls fs D = Some (enc, fs @ fs', D \<union> sub_from ` set subs) \<and>
    linear_result p (sm_forbidden smp) (sm_flag_s smp) ls subs fs' \<and>
    encoding_wf enc \<and> keys_of enc = sub_from ` set subs \<inter> relevant \<and>
    (\<forall>\<sigma>. assigns_one \<sigma> \<longrightarrow> subs_hold p \<sigma> subs \<longrightarrow> encoding_holds p \<sigma> enc) \<and>
    (\<forall>(k, e) \<in> set enc. ae_keys e \<subseteq> sub_targets subs)"
proof (cases "sm_flag_s smp")
  case True
  have "subs_independent []" "encoding_wf []" by (simp_all add: subs_independent_def encoding_wf_def)
  moreover have "\<forall>c \<in> set ls. con_wf c" using assms(6) con_ok_wf by blast
  ultimately have "linear_result p (sm_forbidden smp) True ls [] ls"
    by (simp add: linear_result_def subs_hold_def subs_signals_def)
  then show ?thesis using True
    by (intro exI [of _ "[]"] exI [of _ ls] exI [of _ "[]"])
      (simp add: linear_assignment_def encoding_holds_def encoding_wf_def)
next
  case False
  let ?F = "sm_forbidden smp" and ?n = "sm_max_signal smp"
  have work: "\<forall>c \<in> set ls. work_wf p c" using assms(6) con_ok_work by blast
  have bound: "\<forall>c \<in> set ls. \<forall>s \<in> con_keys c. s < ?n \<or> s = 0" using signals_of_keys [of _ ls] assms(7) by fastforce
  obtain subs cons where l: "linear_simplification minv (sched_linear sched) ls ?F ?n p (sm_flag_old_heuristics smp) = Some (subs, cons)"
    "phase_ok p ?F ls subs cons"
    using linear_simplification_ok [OF assms(2,1,5) work bound assms(3)] by blast
  let ?kept = "filter (\<lambda>s. sub_from s \<in> relevant) subs"
  let ?enc = "build_encoded_fast_substitutions ?kept"
  note P = phase_okD [OF l(2)]
  have T: "keys_of (sub_to s) \<subseteq> sub_targets subs" if "s \<in> set ?kept" for s
    using that by (auto simp: sub_targets_def)
  have T0: "0 \<in> sub_targets subs" by (simp add: sub_targets_def)
  note enc = independent_encoding [OF independent_filter [OF P(2)] T T0]
  have "keys_of ?enc = sub_from ` set ?kept" by (rule enc(2)) simp
  then have keys: "keys_of ?enc = sub_from ` set subs \<inter> relevant" by auto
  have absent: "\<forall>c \<in> set (fs @ cons). con_keys c \<inter> keys_of ?enc = {}"
  proof
    fix c assume "c \<in> set (fs @ cons)"
    then have "con_keys c \<subseteq> ?F" using assms(8) P(6) [of c] by auto
    then show "con_keys c \<inter> keys_of ?enc = {}" unfolding keys using P(3) by blast
  qed
  have "linear_assignment minv sched smp relevant ls fs D = Some (?enc, fs @ cons, D \<union> sub_from ` set subs)"
    using False l(1) substitute_all_absent [OF absent, of p]
    by (simp add: linear_assignment_def simplifier_no_labels_def assms(4) keep_relevant_fold Let_def)
  moreover have "\<forall>\<sigma>. assigns_one \<sigma> \<longrightarrow> subs_hold p \<sigma> subs \<longrightarrow> encoding_holds p \<sigma> ?enc"
    using enc(3) by (auto simp: subs_hold_def)
  ultimately show ?thesis
    using False phase_linear_result [OF l(2)] enc(1,4) keys by (intro exI conjI) (assumption | simp only: if_False)+
qed

section \<open>Lemmas: the signals of the collected constraints\<close>

lemma through_three:
  assumes "placed p [e1, e2, e3] c d"
  shows "\<exists>c1 c2 c3. substituted p e1 c c1 \<and> substituted p e2 c1 c2 \<and> substituted p e3 c2 c3 \<and>
    con_keys d \<subseteq> insert 0 (con_keys c3) \<and> con_ok p d \<and> con_wf c3 \<and> d = fix_constraint c3 p"
proof -
  obtain e where e: "through p [e1, e2, e3] c e" "con_wf e" "d = fix_constraint e p" "con_ok p d"
    using assms unfolding placed_def by blast
  then obtain c1 c2 where "substituted p e1 c c1" "substituted p e2 c1 c2" "substituted p e3 c2 e" by auto
  then show ?thesis using e fix_constraint_keys [of e p] by blast
qed

text \<open>A signal of a collected constraint was not eliminated, although only the relevant
  substitutions were applied.\<close>

lemma collected_key:
  assumes "placed p [filter (\<lambda>e. fst e \<in> R1) e1, e2, e3] c d" and "k \<in> con_keys d" and "k \<noteq> 0"
    and "renaming e1" and "con_keys c - {0} \<subseteq> R1" and "\<forall>(k, e) \<in> set e2. ae_keys e \<subseteq> {0}"
    and "\<forall>(k, e) \<in> set e3. ae_keys e \<subseteq> T"
    and "final_signal (filter (\<lambda>e. fst e \<in> R1) e1) ` (con_keys c - {0}) - keys_of e2 \<subseteq> R2"
    and "keys_of e3 = F3 \<inter> R2" and "T \<inter> (keys_of e1 \<union> keys_of e2 \<union> F3) = {}"
  shows "k \<notin> keys_of e1 \<union> keys_of e2 \<union> F3" and "k \<in> T \<or> k \<in> con_keys c \<or> (\<exists>j. map_of e1 j = Some (Signal k))"
proof -
  let ?e1 = "filter (\<lambda>e. fst e \<in> R1) e1"
  obtain c1 c2 c3 where c: "substituted p ?e1 c c1" "substituted p e2 c1 c2" "substituted p e3 c2 c3"
    "con_keys d \<subseteq> insert 0 (con_keys c3)"
    using through_three [OF assms(1)] by blast
  have wf1: "encoding_wf e1" using assms(4) by (simp add: renaming_def)
  have filt: "map_of ?e1 j = (if j \<in> R1 then map_of e1 j else None)" for j
    by (induction e1) auto
  have ren: "renaming ?e1" using assms(4) encoding_wf_filter [of e1] unfolding renaming_def filt by auto
  have k3: "k \<in> con_keys c3" using c(4) assms(2,3) by blast
  have k3': "k \<in> insert 0 (con_keys c2 \<union> T) - keys_of e3" using substituted_keys [OF c(3) assms(7)] k3 by blast
  have goal: "k \<notin> keys_of e1 \<union> keys_of e2 \<union> F3 \<and> (k \<in> con_keys c \<or> (\<exists>j. map_of e1 j = Some (Signal k)))"
    if "k \<in> con_keys c2"
  proof -
    have k2: "k \<in> con_keys c1" "k \<notin> keys_of e2" using substituted_keys [OF c(2) assms(6)] that assms(3) by blast+
    then have k1: "k \<in> encoded_keys ?e1 (con_keys c)" "k \<notin> keys_of ?e1" using c(1) unfolding substituted_def by blast+
    obtain j where j: "j \<in> con_keys c" "k = j \<or> map_of ?e1 j = Some (Signal k)"
      using renamed_key [OF ren k1(1) assms(3)] by blast
    have none: "map_of ?e1 k = None" using k1(2) by (simp add: keys_of_def map_of_eq_None_iff)
    have "j \<noteq> 0"
    proof
      assume "j = 0"
      moreover have "map_of ?e1 0 = None" using ren by (simp add: renaming_def encoding_wf_def keys_of_def map_of_eq_None_iff)
      ultimately show False using j(2) assms(3) by simp
    qed
    then have jR: "j \<in> con_keys c - {0}" "j \<in> R1" using j(1) assms(5) by auto
    have "final_signal ?e1 j = k" using j(2) none by (auto simp: final_signal_def unwrapped_signal_def)
    then have "k \<in> R2" using assms(8) jR(1) k2(2) by blast
    then have "k \<notin> F3" using k3' assms(9) by blast
    moreover have "k \<notin> keys_of e1"
    proof (cases "k = j")
      case True
      then have "map_of e1 k = None" using none jR(2) by (simp add: filt)
      then show ?thesis by (simp add: keys_of_def map_of_eq_None_iff)
    next
      case False
      then have "(j, Signal k) \<in> set e1" using j(2) jR(2) by (auto simp: filt dest: map_of_SomeD split: if_splits)
      then have "ae_keys (Signal k) \<inter> keys_of e1 = {}" using wf1 unfolding encoding_wf_def by blast
      then show ?thesis by simp
    qed
    moreover have "k \<in> con_keys c \<or> (\<exists>j. map_of e1 j = Some (Signal k))"
      using j jR(2) by (auto simp: filt)
    ultimately show ?thesis using k2(2) by blast
  qed
  show "k \<notin> keys_of e1 \<union> keys_of e2 \<union> F3" using goal k3' assms(3,10) by blast
  show "k \<in> T \<or> k \<in> con_keys c \<or> (\<exists>j. map_of e1 j = Some (Signal k))" using goal k3' assms(3) by blast
qed

section \<open>Lemmas: the simplification\<close>

definition circuit_constraints :: "simplifier \<Rightarrow> nat constraint list \<Rightarrow> nat constraint list" where
  "circuit_constraints smp nl = sm_equalities smp @ sm_cons_equalities smp @ sm_linear smp @ nl"

text \<open>Everything that holds when the rounds start: the three lists of substitutions, and the
  constraints \<open>ds\<close> collected through them.\<close>

definition collected_ok ::
    "int \<Rightarrow> simplifier \<Rightarrow> nat constraint list \<Rightarrow> nat substitution list \<Rightarrow> nat substitution list \<Rightarrow> nat substitution list \<Rightarrow>
      nat constraint list \<Rightarrow> nat constraint list \<Rightarrow> bool" where
  "collected_ok p smp nl s1 s2 s3 ds fs \<longleftrightarrow>
     (\<forall>\<sigma>. assigns_one \<sigma> \<longrightarrow> (all_sat p \<sigma> (circuit_constraints smp nl) \<longleftrightarrow>
        subs_hold p \<sigma> s1 \<and> subs_hold p \<sigma> s2 \<and> subs_hold p \<sigma> s3 \<and> all_sat p \<sigma> (ds @ fs))) \<and>
     (\<forall>\<sigma>. assigns_one \<sigma> \<longrightarrow> all_sat p \<sigma> (sm_equalities smp @ sm_cons_equalities smp) \<longrightarrow> subs_hold p \<sigma> s2) \<and>
     subs_independent s1 \<and> (\<forall>s \<in> set s2. constant_sub s) \<and> subs_independent s3 \<and>
     subs_signals s3 \<inter> (sub_from ` set s1 \<union> sub_from ` set s2) = {} \<and>
     subs_signals s2 \<inter> sub_from ` set s1 = {} \<and>
     (sub_from ` set s1 \<union> sub_from ` set s2 \<union> sub_from ` set s3) \<inter> sm_forbidden smp = {} \<and>
     signals_of (ds @ fs) \<inter> (sub_from ` set s1 \<union> sub_from ` set s2 \<union> sub_from ` set s3) = {} \<and>
     signals_of (ds @ fs) \<subseteq> {..<sm_max_signal smp} \<and>
     (\<forall>d \<in> set ds. con_ok p d) \<and> (\<forall>c \<in> set fs. con_wf c) \<and>
     (\<not> sm_flag_s smp \<longrightarrow> (\<forall>c \<in> set fs. con_keys c \<subseteq> sm_forbidden smp))"

lemma placed_sat:
  assumes "0 < p" and "list_all2 (placed p [e1, e2, e3]) nl ds" and "assigns_one \<sigma>"
    and "encoding_holds p \<sigma> e1" and "encoding_holds p \<sigma> e2" and "encoding_holds p \<sigma> e3"
  shows "all_sat p \<sigma> ds \<longleftrightarrow> all_sat p \<sigma> nl"
proof -
  have each: "sat p \<sigma> d \<longleftrightarrow> sat p \<sigma> c" if "placed p [e1, e2, e3] c d" for c d
  proof -
    from through_three [OF that] obtain c1 c2 c3 where c: "substituted p e1 c c1" "substituted p e2 c1 c2"
      "substituted p e3 c2 c3" "con_wf c3" "d = fix_constraint c3 p" by blast
    have "sat p \<sigma> d \<longleftrightarrow> sat p \<sigma> c3" unfolding c(5) by (rule fix_constraint_same_solutions [OF assms(1) c(4) assms(3)])
    also have "\<dots> \<longleftrightarrow> sat p \<sigma> c2" using c(3) assms(3,6) by (simp add: substituted_def)
    also have "\<dots> \<longleftrightarrow> sat p \<sigma> c1" using c(2) assms(3,5) by (simp add: substituted_def)
    also have "\<dots> \<longleftrightarrow> sat p \<sigma> c" using c(1) assms(3,4) by (simp add: substituted_def)
    finally show ?thesis .
  qed
  have "list_all2 (\<lambda>c d. sat p \<sigma> d \<longleftrightarrow> sat p \<sigma> c) nl ds"
    using assms(2) by (rule list_all2_mono) (erule each)
  then show ?thesis by (induction rule: list_all2_induct) (auto simp: all_sat_def)
qed

lemma constant_signals:
  assumes "constants_ok p F cs subs fs"
  shows "subs_signals subs \<subseteq> signals_of cs" and "sub_from ` set subs \<inter> F = {}"
proof -
  have s: "\<forall>s \<in> set subs. constant_sub s \<and> sub_from s \<notin> F \<and> sub_from s \<in> signals_of cs"
    using assms by (simp add: constants_ok_def)
  have "keys_of (sub_to s) \<subseteq> signals_of cs" if "s \<in> set subs" for s
    using s that zero_signals [of cs] by (auto simp: constant_sub_def simp del: zero_signals)
  then show "subs_signals subs \<subseteq> signals_of cs" using s by (auto simp: subs_signals_def)
  show "sub_from ` set subs \<inter> F = {}" using s by auto
qed

lemma disjoint_parts:
  assumes "A \<inter> B = {}" and "X \<subseteq> A" and "Y \<subseteq> B"
  shows "X \<inter> Y = {}"
  using assms by blast

lemma signals_satisfy:
  assumes "\<And>d k. d \<in> set ds \<Longrightarrow> k \<in> con_keys d \<Longrightarrow> k \<noteq> 0 \<Longrightarrow> Q k" and "Q 0" and "k \<in> signals_of ds"
  shows "Q k"
  using assms by (cases "k = 0") (auto simp: signals_of_def)

lemma target_out:
  assumes "T \<subseteq> insert z S" and "T \<inter> C = {}" and "S \<inter> (A \<union> B) = {}" and "z \<notin> A" and "z \<notin> B"
  shows "T \<inter> (A \<union> B \<union> C) = {}"
  using assms by blast

lemma collect_ok:
  fixes F :: "nat set"
  assumes "is_field p" and smp: "simplifier_ok p smp nl" and F: "F = sm_forbidden smp"
    and one: "phase_ok p F (sm_equalities smp) s1 f1" "renaming e1" "keys_of e1 = sub_from ` set s1"
      "\<forall>\<sigma>. assigns_one \<sigma> \<longrightarrow> (encoding_holds p \<sigma> e1 \<longleftrightarrow> subs_hold p \<sigma> s1)"
      "\<forall>(k, e) \<in> set e1. ae_keys e \<subseteq> signals_of (sm_equalities smp)"
      "list_all2 (passed p e1) (sm_linear smp) l1" "list_all2 (passed p e1) (sm_cons_equalities smp) q1"
    and two: "constants_ok p F q1 s2 f2" "keys_of e2 = sub_from ` set s2" "encoding_wf e2"
      "\<forall>(k, e) \<in> set e2. ae_keys e \<subseteq> {0}" "\<forall>\<sigma>. assigns_one \<sigma> \<longrightarrow> subs_hold p \<sigma> s2 \<longrightarrow> encoding_holds p \<sigma> e2"
      "list_all2 (passed p e2) l1 l2"
    and three: "linear_result p F (sm_flag_s smp) l2 s3 f3" "keys_of e3 = sub_from ` set s3 \<inter> R2"
      "\<forall>\<sigma>. assigns_one \<sigma> \<longrightarrow> subs_hold p \<sigma> s3 \<longrightarrow> encoding_holds p \<sigma> e3"
      "\<forall>(k, e) \<in> set e3. ae_keys e \<subseteq> sub_targets s3"
    and R: "R1 = signals_of nl - {0}"
      "R2 = final_signal (filter (\<lambda>e. fst e \<in> R1) e1) ` (signals_of nl - {0}) - keys_of e2"
    and ds: "list_all2 (placed p [filter (\<lambda>e. fst e \<in> R1) e1, e2, e3]) nl ds"
  shows "collected_ok p smp nl s1 s2 s3 ds ((f1 @ f2) @ f3)"
proof -
  let ?F1 = "sub_from ` set s1" and ?F2 = "sub_from ` set s2" and ?F3 = "sub_from ` set s3" and ?n = "sm_max_signal smp"
  let ?E = "sm_equalities smp" and ?e1 = "filter (\<lambda>e. fst e \<in> R1) e1"
  have p: "0 < p" by (rule is_field_pos [OF assms(1)])
  note P = phase_okD [OF one(1)]
  have F0: "0 \<in> F" and Fn: "F \<subseteq> {..<?n}" using smp unfolding F simplifier_ok_def by blast+
  have n: "signals_of ?E \<subseteq> {..<?n}" "signals_of (sm_linear smp) \<subseteq> {..<?n}" "signals_of nl \<subseteq> {..<?n}"
    using smp by (simp_all add: simplifier_ok_def)
  have wf1: "encoding_wf e1" using one(2) by (simp add: renaming_def)
  note L = three(1) [unfolded linear_result_def]
  have i3: "subs_independent s3" and F3: "?F3 \<inter> F = {}" and S3: "subs_signals s3 \<subseteq> signals_of l2"
    and f3wf: "\<forall>c \<in> set f3. con_wf c" using L by simp_all
  have c2: "\<forall>s \<in> set s2. constant_sub s" using two(1) by (simp add: constants_ok_def)
  have z: "0 \<notin> ?F1" "0 \<notin> ?F2" "0 \<notin> ?F3"
    using P(2) i3 wf1 two(2,3) by (auto simp: subs_independent_def encoding_wf_def)
  note l1 = passed_signals [OF one(6,5) wf1] and q1 = passed_signals [OF one(7,5) wf1]
    and l2 = passed_signals [OF two(6,4,3)]
  have l2_l1: "signals_of l2 \<subseteq> signals_of l1" using l2(1) zero_signals [of l1] by blast
  have l2_out: "signals_of l2 \<inter> (?F1 \<union> ?F2) = {}" using l2_l1 l1(2) l2(2) unfolding one(3) two(2) by blast
  have l2_n: "signals_of l2 \<subseteq> {..<?n}" using l2_l1 l1(1) n(1,2) by blast
  have S3_out: "subs_signals s3 \<inter> (?F1 \<union> ?F2) = {}" using S3 l2_out by blast
  have S2_out: "subs_signals s2 \<inter> ?F1 = {}"
    using constant_signals(1) [OF two(1)] q1(2) unfolding one(3) by blast
  have T_out: "sub_targets s3 \<inter> (keys_of e1 \<union> keys_of e2 \<union> ?F3) = {}"
  proof -
    have "sub_targets s3 \<subseteq> insert 0 (subs_signals s3)" by (auto simp: subs_signals_def sub_targets_def)
    moreover have "sub_targets s3 \<inter> ?F3 = {}" using i3 by (auto simp: subs_independent_def sub_targets_def)
    ultimately show ?thesis unfolding one(3) two(2) by (rule target_out [OF _ _ S3_out z(1,2)])
  qed
  have T_n: "sub_targets s3 \<subseteq> {..<?n}"
  proof -
    have "sub_targets s3 \<subseteq> insert 0 (subs_signals s3)" by (auto simp: subs_signals_def sub_targets_def)
    then show ?thesis using S3 l2_n F0 Fn by blast
  qed
  have key: "k \<notin> ?F1 \<union> ?F2 \<union> ?F3 \<and> k < ?n" if d: "d \<in> set ds" "k \<in> con_keys d" "k \<noteq> 0" for d k
  proof -
    have "\<exists>c \<in> set nl. placed p [?e1, e2, e3] c d" by (rule list_all2_right [OF ds d(1)])
    then obtain c where c: "c \<in> set nl" "placed p [?e1, e2, e3] c d" by blast
    have cn: "con_keys c \<subseteq> signals_of nl" by (rule signals_of_keys [OF c(1)])
    have cR: "con_keys c - {0} \<subseteq> R1" using cn unfolding R(1) by blast
    have cR2: "final_signal ?e1 ` (con_keys c - {0}) - keys_of e2 \<subseteq> R2" using cn unfolding R(2) by blast
    note ck = collected_key [OF c(2) d(2,3) one(2) cR two(4) three(4) cR2 three(2) T_out]
    have "k < ?n"
    proof -
      have "k \<in> signals_of ?E" if m: "map_of e1 j = Some (Signal k)" for j
        using bspec [OF one(5) map_of_SomeD [OF m]] by simp
      then show ?thesis using ck(2) T_n cn n(1,3) by blast
    qed
    then show ?thesis using ck(1) unfolding one(3) two(2) by blast
  qed
  have ds_out: "signals_of ds \<inter> (?F1 \<union> ?F2 \<union> ?F3) = {}"
  proof -
    have "k \<notin> ?F1 \<union> ?F2 \<union> ?F3" if "k \<in> signals_of ds" for k
    proof (rule signals_satisfy [of ds "\<lambda>k. k \<notin> ?F1 \<union> ?F2 \<union> ?F3", OF _ _ that])
      show "0 \<notin> ?F1 \<union> ?F2 \<union> ?F3" using z by simp
    qed (rule key [THEN conjunct1])
    then show ?thesis unfolding disjoint_iff by (intro allI impI)
  qed
  have ds_n: "signals_of ds \<subseteq> {..<?n}"
  proof
    fix k assume "k \<in> signals_of ds"
    moreover have "0 \<in> {..<?n}" by (rule subsetD [OF Fn F0])
    moreover have "k \<in> {..<?n}" if "d \<in> set ds" "k \<in> con_keys d" "k \<noteq> 0" for d k
      using key [OF that, THEN conjunct2] by simp
    ultimately show "k \<in> {..<?n}" by (intro signals_satisfy [of ds "\<lambda>k. k \<in> {..<?n}" k])
  qed
  have out: "(?F1 \<union> ?F2 \<union> ?F3) \<inter> F = {}" using P(3) constant_signals(2) [OF two(1)] F3 by blast
  have f12: "\<forall>c \<in> set (f1 @ f2). con_wf c \<and> con_keys c \<subseteq> F"
  proof
    fix c assume "c \<in> set (f1 @ f2)"
    then consider "c \<in> set f1" | "c \<in> set f2" by auto
    then show "con_wf c \<and> con_keys c \<subseteq> F"
    proof cases
      case 2
      then have "con_ok p c" "con_keys c \<subseteq> F" using two(1) by (simp_all add: constants_ok_def)
      then show ?thesis using con_ok_wf [of p c] by simp
    qed (rule P(6))
  qed
  have f3: "signals_of f3 \<inter> (?F1 \<union> ?F2 \<union> ?F3) = {} \<and> signals_of f3 \<subseteq> {..<?n} \<and>
      (\<not> sm_flag_s smp \<longrightarrow> (\<forall>c \<in> set f3. con_keys c \<subseteq> F))"
  proof (cases "sm_flag_s smp")
    case True
    then have "f3 = l2" "s3 = []" using L by simp_all
    then show ?thesis using l2_out l2_n True by simp
  next
    case False
    then have k: "\<forall>c \<in> set f3. con_keys c \<subseteq> F" using L by simp
    then have "signals_of f3 \<subseteq> F" using F0 by (intro signals_of_subset) auto
    then show ?thesis using k out Fn by blast
  qed
  have f12_F: "signals_of (f1 @ f2) \<subseteq> F" using f12 F0 by (intro signals_of_subset) auto
  have split: "signals_of (ds @ (f1 @ f2) @ f3) = signals_of ds \<union> (signals_of (f1 @ f2) \<union> signals_of f3)"
    by (simp add: Un_assoc)
  have equiv: "all_sat p \<sigma> (circuit_constraints smp nl) \<longleftrightarrow>
      subs_hold p \<sigma> s1 \<and> subs_hold p \<sigma> s2 \<and> subs_hold p \<sigma> s3 \<and> all_sat p \<sigma> (ds @ (f1 @ f2) @ f3)"
    and feasible: "all_sat p \<sigma> (?E @ sm_cons_equalities smp) \<Longrightarrow> subs_hold p \<sigma> s2" if s: "assigns_one \<sigma>" for \<sigma>
  proof -
    have E: "all_sat p \<sigma> ?E \<longleftrightarrow> subs_hold p \<sigma> s1 \<and> all_sat p \<sigma> f1" by (rule P(1) [OF s])
    have Q: "all_sat p \<sigma> (sm_cons_equalities smp) \<longleftrightarrow> subs_hold p \<sigma> s2 \<and> all_sat p \<sigma> f2"
      and l: "all_sat p \<sigma> l1 \<longleftrightarrow> all_sat p \<sigma> (sm_linear smp)" if "subs_hold p \<sigma> s1"
    proof -
      have h: "encoding_holds p \<sigma> e1" using one(4) s that by blast
      have "all_sat p \<sigma> q1 \<longleftrightarrow> subs_hold p \<sigma> s2 \<and> all_sat p \<sigma> f2" using two(1) by (simp add: constants_ok_def)
      then show "all_sat p \<sigma> (sm_cons_equalities smp) \<longleftrightarrow> subs_hold p \<sigma> s2 \<and> all_sat p \<sigma> f2"
        using substituted_all_sat [OF one(7) s h] by simp
      show "all_sat p \<sigma> l1 \<longleftrightarrow> all_sat p \<sigma> (sm_linear smp)" by (rule substituted_all_sat [OF one(6) s h])
    qed
    have l2: "all_sat p \<sigma> l1 \<longleftrightarrow> subs_hold p \<sigma> s3 \<and> all_sat p \<sigma> f3" if "subs_hold p \<sigma> s2"
      using substituted_all_sat [OF two(6) s] two(5) s that L by simp
    have nl: "all_sat p \<sigma> ds \<longleftrightarrow> all_sat p \<sigma> nl"
      if "subs_hold p \<sigma> s1" "subs_hold p \<sigma> s2" "subs_hold p \<sigma> s3"
    proof (rule placed_sat [OF p ds s])
      show "encoding_holds p \<sigma> ?e1" using encoding_wf_filter [OF wf1] one(4) s that(1) by blast
    qed (use two(5) three(3) s that in blast)+
    show "all_sat p \<sigma> (circuit_constraints smp nl) \<longleftrightarrow>
        subs_hold p \<sigma> s1 \<and> subs_hold p \<sigma> s2 \<and> subs_hold p \<sigma> s3 \<and> all_sat p \<sigma> (ds @ (f1 @ f2) @ f3)"
      unfolding circuit_constraints_def all_sat_append using E Q l l2 nl by argo
    show "all_sat p \<sigma> (?E @ sm_cons_equalities smp) \<Longrightarrow> subs_hold p \<sigma> s2" using E Q by simp
  qed
  show ?thesis
    unfolding collected_ok_def F [symmetric] split
  proof (intro conjI allI impI)
    show "\<forall>d \<in> set ds. con_ok p d"
    proof
      fix d assume "d \<in> set ds"
      then have "\<exists>c \<in> set nl. placed p [?e1, e2, e3] c d" by (rule list_all2_right [OF ds])
      then show "con_ok p d" by (auto simp: placed_def)
    qed
    show "(signals_of ds \<union> (signals_of (f1 @ f2) \<union> signals_of f3)) \<inter> (?F1 \<union> ?F2 \<union> ?F3) = {}"
      using ds_out f3 f12_F out by blast
    show "signals_of ds \<union> (signals_of (f1 @ f2) \<union> signals_of f3) \<subseteq> {..<?n}"
      using ds_n f3 f12_F Fn by blast
    show "\<forall>c \<in> set ((f1 @ f2) @ f3). con_wf c" using f12 f3wf by auto
    show "\<forall>c \<in> set ((f1 @ f2) @ f3). con_keys c \<subseteq> F" if "\<not> sm_flag_s smp" using f12 f3 that by auto
  qed (use equiv feasible P(2) c2 i3 S3_out S2_out out in blast)+
qed


lemma mset_partition_sat: "all_sat p \<sigma> (filter (\<lambda>d. \<not> P d) ds @ filter P ds @ fs) \<longleftrightarrow> all_sat p \<sigma> (ds @ fs)"
  by (auto simp: all_sat_def)

lemma signals_partition: "signals_of (filter (\<lambda>d. \<not> P d) ds @ filter P ds @ fs) = signals_of (ds @ fs)"
  by (auto simp: signals_of_def)

lemma eliminates_change:
  "eliminates p D A B \<Longrightarrow> (\<And>\<sigma>. all_sat p \<sigma> C \<longleftrightarrow> all_sat p \<sigma> B) \<Longrightarrow> eliminates p D A C"
  by (simp add: eliminates_def)

text \<open>What the simplification promises of the final constraints \<open>cs\<close> and the witness \<open>wmap\<close>.\<close>

definition simplified ::
    "int \<Rightarrow> simplifier \<Rightarrow> nat constraint list \<Rightarrow> nat constraint list \<Rightarrow> signal_map \<Rightarrow> bool" where
  "simplified p smp nl cs wmap \<longleftrightarrow>
     (\<forall>\<sigma>. assigns_one \<sigma> \<longrightarrow> all_sat p \<sigma> (circuit_constraints smp nl) \<longrightarrow> all_sat p \<sigma> cs) \<and>
     ((\<exists>\<rho>. assigns_one \<rho> \<and> all_sat p \<rho> (sm_equalities smp @ sm_cons_equalities smp)) \<longrightarrow>
       (\<forall>\<sigma>. assigns_one \<sigma> \<longrightarrow> all_sat p \<sigma> cs \<longrightarrow>
         (\<exists>\<tau>. assigns_one \<tau> \<and> (\<forall>k \<in> keys_of wmap. \<tau> k = \<sigma> k) \<and> all_sat p \<tau> (circuit_constraints smp nl)))) \<and>
     signals_of cs \<subseteq> keys_of wmap \<and> sm_forbidden smp \<subseteq> keys_of wmap"

lemma collected_simplified:
  assumes col: "collected_ok p smp nl s1 s2 s3 ds fs"
    and el: "eliminates p D' (filter (\<lambda>d. \<not> is_linear d) ds @ filter is_linear ds @ fs) B"
    and D: "sub_from ` set s1 \<union> sub_from ` set s2 \<union> sub_from ` set s3 \<subseteq> D'"
    and cs: "\<forall>\<sigma>. assigns_one \<sigma> \<longrightarrow> (all_sat p \<sigma> cs \<longleftrightarrow> all_sat p \<sigma> B)"
    and w: "signals_of cs \<subseteq> keys_of wmap" "sm_forbidden smp \<subseteq> keys_of wmap" "keys_of wmap \<inter> D' = {}"
  shows "simplified p smp nl cs wmap"
proof -
  let ?A = "circuit_constraints smp nl" and ?D = "sub_from ` set s1 \<union> sub_from ` set s2 \<union> sub_from ` set s3"
  let ?S = "filter (\<lambda>d. \<not> is_linear d) ds @ filter is_linear ds @ fs"
  have equiv: "\<And>\<sigma>. assigns_one \<sigma> \<Longrightarrow> all_sat p \<sigma> ?A \<longleftrightarrow>
      subs_hold p \<sigma> s1 \<and> subs_hold p \<sigma> s2 \<and> subs_hold p \<sigma> s3 \<and> all_sat p \<sigma> (ds @ fs)"
    and feasible: "\<And>\<sigma>. assigns_one \<sigma> \<Longrightarrow> all_sat p \<sigma> (sm_equalities smp @ sm_cons_equalities smp) \<Longrightarrow> subs_hold p \<sigma> s2"
    and parts: "subs_independent s1" "\<forall>s \<in> set s2. constant_sub s" "subs_independent s3"
      "subs_signals s3 \<inter> (sub_from ` set s1 \<union> sub_from ` set s2) = {}" "subs_signals s2 \<inter> sub_from ` set s1 = {}"
      "signals_of (ds @ fs) \<inter> ?D = {}"
    using col unfolding collected_ok_def by (elim conjE; simp)+
  have forward: "all_sat p \<sigma> cs" if s: "assigns_one \<sigma>" "all_sat p \<sigma> ?A" for \<sigma>
  proof -
    have "all_sat p \<sigma> ?S" unfolding mset_partition_sat using equiv [OF s(1)] s(2) by simp
    then have "all_sat p \<sigma> B" using el s(1) unfolding eliminates_def by blast
    then show ?thesis using cs s(1) by blast
  qed
  have backward: "\<exists>\<tau>. assigns_one \<tau> \<and> (\<forall>k \<in> keys_of wmap. \<tau> k = \<sigma> k) \<and> all_sat p \<tau> ?A"
    if r: "assigns_one \<rho>" "all_sat p \<rho> (sm_equalities smp @ sm_cons_equalities smp)"
      and s: "assigns_one \<sigma>" "all_sat p \<sigma> cs" for \<rho> \<sigma>
  proof -
    have "eliminates p ?D ?A (ds @ fs)"
      by (rule eliminates_three [OF equiv parts r(1) feasible [OF r]])
    then have "eliminates p ?D ?A ?S" by (rule eliminates_change) (rule mset_partition_sat)
    from eliminates_trans [OF this el] have e: "eliminates p (?D \<union> D') ?A B" .
    have "all_sat p \<sigma> B" using cs s by blast
    then obtain \<tau> where t: "assigns_one \<tau>" "\<forall>k. k \<notin> ?D \<union> D' \<longrightarrow> \<tau> k = \<sigma> k" "all_sat p \<tau> ?A"
      using e s(1) unfolding eliminates_def by blast
    have "\<tau> k = \<sigma> k" if "k \<in> keys_of wmap" for k
    proof -
      have "k \<notin> D'" using w(3) that by (meson disjoint_iff)
      then have "k \<notin> ?D \<union> D'" using D by blast
      then show ?thesis using t(2) by blast
    qed
    then show ?thesis using t(1,3) by blast
  qed
  show ?thesis unfolding simplified_def using forward backward w(1,2) by blast
qed

lemma collected_round:
  assumes "collected_ok p smp nl s1 s2 s3 ds fs" and "stored of_raw storage (filter (\<lambda>d. \<not> is_linear d) ds)"
    and "covers m (filter (\<lambda>d. \<not> is_linear d) ds)"
  shows "round_ok of_raw p (sm_forbidden smp) (sm_max_signal smp) (filter (\<lambda>d. \<not> is_linear d) ds)
    (storage, m, filter is_linear ds, fs, sub_from ` set s1 \<union> sub_from ` set s2 \<union> sub_from ` set s3)"
proof -
  let ?D = "sub_from ` set s1 \<union> sub_from ` set s2 \<union> sub_from ` set s3"
  have ok: "\<forall>d \<in> set ds. con_ok p d" "\<forall>c \<in> set fs. con_wf c" "signals_of (ds @ fs) \<inter> ?D = {}"
    "signals_of (ds @ fs) \<subseteq> {..<sm_max_signal smp}" "?D \<inter> sm_forbidden smp = {}"
    using assms(1) unfolding collected_ok_def by - (elim conjE, assumption)+
  have "signals_of (ds @ fs) \<subseteq> insert 0 {..<sm_max_signal smp}" using ok(4) by (rule subset_insertI2)
  then have "round_lists p (sm_forbidden smp) (sm_max_signal smp) ?D
      (filter (\<lambda>d. \<not> is_linear d) ds) (filter is_linear ds) fs"
    using ok unfolding round_lists_def signals_partition by (intro conjI) simp_all
  then show ?thesis using assms(2,3) by (simp add: round_ok_def)
qed

lemma all_rounds_ok:
  assumes "inverse_ok minv p" and "is_field p" and "raw_ok to_raw of_raw" and "\<forall>k. arrives (sched_round sched k)"
    and "sm_field smp = p" and "0 \<in> sm_forbidden smp" and "sm_forbidden smp \<subseteq> {..<sm_max_signal smp}"
    and "round_ok of_raw p (sm_forbidden smp) (sm_max_signal smp) cs (storage, m, ls, fs, D)"
    and "\<not> sm_flag_s smp \<longrightarrow> (\<forall>c \<in> set fs. con_keys c \<subseteq> sm_forbidden smp)"
  shows "\<exists>storage' m' ls' fs' D' cs'.
    simplification_rounds minv to_raw of_raw sched smp (if sm_flag_s smp then 0 else k) (storage, m, ls, fs, D) =
      Some (storage', m', ls', fs', D') \<and>
    round_ok of_raw p (sm_forbidden smp) (sm_max_signal smp) cs' (storage', m', ls', fs', D') \<and> D \<subseteq> D' \<and>
    eliminates p D' (cs @ ls @ fs) (cs' @ ls' @ fs')"
proof (cases "sm_flag_s smp")
  case True
  have "eliminates p {} (cs @ ls @ fs) (cs @ ls @ fs)" by (rule eliminates_same) simp
  then have "eliminates p D (cs @ ls @ fs) (cs @ ls @ fs)" by (rule eliminates_mono) simp
  then show ?thesis using True assms(8)
    by (intro exI [of _ storage] exI [of _ m] exI [of _ ls] exI [of _ fs] exI [of _ D] exI [of _ cs]) simp
next
  case False
  then have "\<forall>c \<in> set fs. con_keys c \<subseteq> sm_forbidden smp" using assms(9) by blast
  from rounds_ok [where k = k, OF assms(1-5) refl assms(6,7) refl assms(8) this] show ?thesis
    using False by (simp only: if_False)
qed

definition private_inputs_kept :: "simplifier \<Rightarrow> signal_map \<Rightarrow> nat" where
  "private_inputs_kept smp wmap = card {s \<in> keys_of wmap.
     sm_no_public_outputs smp + sm_no_public_inputs smp < s \<and>
     s \<le> sm_no_public_outputs smp + sm_no_public_inputs smp + sm_no_private_inputs smp}"

lemma simplification_ok:
  assumes "is_field p" and "inverse_ok minv p" and "raw_ok to_raw of_raw" and "schedule_ok sched"
    and "encoded_constraints fuel (sm_dag_encoding smp) = Some nl" and "simplifier_ok p smp nl"
  shows "\<exists>storage wmap cs. simplification minv to_raw of_raw sched fuel smp =
      Some (storage, wmap, private_inputs_kept smp wmap) \<and>
    stored of_raw storage cs \<and> simplified p smp nl cs wmap"
proof -
  let ?F = "sm_forbidden smp" and ?n = "sm_max_signal smp"
  have p: "0 < p" by (rule is_field_pos [OF assms(1)])
  have smp: "sm_field smp = p" "0 \<in> ?F" "?F \<subseteq> {..<?n}" "\<forall>c \<in> set nl. con_reduced p c"
    "{sm_no_public_outputs smp + 1..sm_no_public_outputs smp + sm_no_public_inputs smp} \<subseteq> ?F"
    "sm_no_public_outputs smp + sm_no_public_inputs smp + sm_no_private_inputs smp < ?n"
    and qok: "\<forall>c \<in> set (sm_cons_equalities smp). con_ok p c \<and> is_constant_equality c"
    and lok: "\<forall>c \<in> set (sm_linear smp). con_ok p c \<and> is_linear c"
    and n: "signals_of (sm_linear smp) \<subseteq> {..<?n}" "signals_of (sm_equalities smp) \<subseteq> {..<?n}"
    using assms(6) by (simp_all add: simplifier_ok_def)
  have sched: "arrives (sched_eq sched)" "arrives (sched_linear sched)" "\<forall>k. arrives (sched_round sched k)"
    using assms(4) by (simp_all add: schedule_ok_def)
  obtain iter nodes where i: "iterator_new (sm_dag_encoding smp) = Some iter"
    "preorder iterator_children fuel iter = Some nodes" "nl = instance_constraints nodes"
    using assms(5) by (auto simp: encoded_constraints_def elim!: bind_SomeE)
  define R1 where "R1 = signals_of nl - {0}"
  have r1: "relevant_signals fuel smp [] [] = Some R1"
    using relevant_signals_ok [OF assms(5), of "[]" "[]"]
    by (simp add: R1_def final_signal_def unwrapped_signal_def)
  from single_assignment_ok [OF assms(1,6) sched(1), of R1]
  obtain s1 f1 l1 q1 e1 where one: "single_assignment sched smp R1 =
      Some (filter (\<lambda>e. fst e \<in> R1) e1, l1, q1, f1, sub_from ` set s1)"
    "phase_ok p ?F (sm_equalities smp) s1 f1" "renaming e1" "keys_of e1 = sub_from ` set s1"
    "\<forall>\<sigma>. assigns_one \<sigma> \<longrightarrow> (encoding_holds p \<sigma> e1 \<longleftrightarrow> subs_hold p \<sigma> s1)"
    "\<forall>(k, e) \<in> set e1. ae_keys e \<subseteq> signals_of (sm_equalities smp)"
    "list_all2 (passed p e1) (sm_linear smp) l1" "list_all2 (passed p e1) (sm_cons_equalities smp) q1"
    by (elim exE conjE) (rule that)
  have wf1: "encoding_wf e1" using one(3) by (simp add: renaming_def)
  have q1: "\<forall>c \<in> set q1. constant_ok p c"
  proof
    fix d assume "d \<in> set q1"
    then have "\<exists>c \<in> set (sm_cons_equalities smp). passed p e1 c d" by (rule list_all2_right [OF one(8)])
    then obtain c where c: "c \<in> set (sm_cons_equalities smp)" "passed p e1 c d" by blast
    have "constant_ok p c" using qok c(1) by (intro constant_equality_ok [OF assms(1)]) simp_all
    then show "constant_ok p d" by (rule constant_renamed [OF assms(1,2) one(3) _ c(2)])
  qed
  have l1: "\<forall>c \<in> set l1. con_ok p c \<and> is_linear c" by (rule passed_linear [OF one(7) lok])
  then have l1wf: "\<forall>c \<in> set l1. con_wf c" using con_ok_wf by blast
  from constant_assignment_ok [OF assms(1,2) smp(1,2) q1 l1wf, of f1 "sub_from ` set s1"]
  obtain s2 f2 l2 e2 where two: "constant_assignment minv smp q1 l1 f1 (sub_from ` set s1) =
      Some (e2, l2, f1 @ f2, sub_from ` set s1 \<union> sub_from ` set s2)"
    "constants_ok p ?F q1 s2 f2" "keys_of e2 = sub_from ` set s2" "encoding_wf e2"
    "\<forall>(k, e) \<in> set e2. ae_keys e \<subseteq> {0}" "\<forall>\<sigma>. assigns_one \<sigma> \<longrightarrow> subs_hold p \<sigma> s2 \<longrightarrow> encoding_holds p \<sigma> e2"
    "list_all2 (passed p e2) l1 l2"
    by (elim exE conjE) (rule that)
  define R2 where "R2 = final_signal (filter (\<lambda>e. fst e \<in> R1) e1) ` (signals_of nl - {0}) - keys_of e2"
  have r2: "relevant_signals fuel smp (filter (\<lambda>e. fst e \<in> R1) e1) e2 = Some R2"
    using relevant_signals_ok [OF assms(5)] by (simp add: R2_def)
  have l2: "\<forall>c \<in> set l2. con_ok p c \<and> is_linear c" by (rule passed_linear [OF two(7) l1])
  have l2n: "signals_of l2 \<subseteq> {..<?n}"
    using passed_signals(1) [OF two(7,5,4)] passed_signals(1) [OF one(7,6) wf1] n smp(2,3) by blast
  have f12: "\<forall>c \<in> set (f1 @ f2). con_keys c \<subseteq> ?F"
    using phase_okD(6) [OF one(2)] two(2) by (auto simp: constants_ok_def)
  from linear_assignment_ok [OF assms(1,2) sched(2) smp(1,2) l2 l2n f12, of R2 "sub_from ` set s1 \<union> sub_from ` set s2"]
  obtain s3 f3 e3 where three: "linear_assignment minv sched smp R2 l2 (f1 @ f2) (sub_from ` set s1 \<union> sub_from ` set s2) =
      Some (e3, (f1 @ f2) @ f3, sub_from ` set s1 \<union> sub_from ` set s2 \<union> sub_from ` set s3)"
    "linear_result p ?F (sm_flag_s smp) l2 s3 f3" "encoding_wf e3" "keys_of e3 = sub_from ` set s3 \<inter> R2"
    "\<forall>\<sigma>. assigns_one \<sigma> \<longrightarrow> subs_hold p \<sigma> s3 \<longrightarrow> encoding_holds p \<sigma> e3"
    "\<forall>(k, e) \<in> set e3. ae_keys e \<subseteq> sub_targets s3"
    by (elim exE conjE) (rule that)
  let ?frames = "[filter (\<lambda>e. fst e \<in> R1) e1, e2, e3]" and ?D = "sub_from ` set s1 \<union> sub_from ` set s2 \<union> sub_from ` set s3"
  have frames: "\<forall>frame \<in> set ?frames. encoding_wf frame" using encoding_wf_filter [OF wf1] two(4) three(3) by simp
  have nlr: "\<forall>c \<in> set (instance_constraints nodes). con_reduced p c" using smp(4) i(3) by simp
  from obtain_and_simplify_ok [OF p frames assms(3) i(2) nlr]
  obtain ds storage where col: "list_all2 (placed p ?frames) nl ds"
    "obtain_and_simplify_non_linear to_raw fuel iter storage_new ?frames p = Some (filter is_linear ds, storage)"
    "stored of_raw storage (filter (\<lambda>d. \<not> is_linear d) ds)"
    unfolding i(3) [symmetric] by (elim exE conjE) (rule that)
  from build_non_linear_signal_map_ok [OF col(3)]
  obtain m where m: "build_non_linear_signal_map of_raw storage = Some m" "covers m (filter (\<lambda>d. \<not> is_linear d) ds)"
    by blast
  let ?fs = "(f1 @ f2) @ f3"
  have ok: "collected_ok p smp nl s1 s2 s3 ds ?fs"
    by (rule collect_ok [OF assms(1,6) refl one(2,3,4,5,6,7,8) two(2,3,4,5,6,7) three(2,4,5,6) R1_def R2_def col(1)])
  let ?nl = "filter (\<lambda>d. \<not> is_linear d) ds" and ?ls = "filter is_linear ds"
  have r: "round_ok of_raw p ?F ?n ?nl (storage, m, ?ls, ?fs, ?D)"
    by (rule collected_round [OF ok col(3) m(2)])
  have ff: "\<not> sm_flag_s smp \<longrightarrow> (\<forall>c \<in> set ?fs. con_keys c \<subseteq> ?F)"
    using ok unfolding collected_ok_def by (elim conjE)
  from all_rounds_ok [where k = "sm_no_rounds smp - 1", OF assms(2,1,3) sched(3) smp(1,2,3) r ff]
  obtain storage' m' ls' fs' D' cs' where rounds: "simplification_rounds minv to_raw of_raw sched smp
      (if sm_flag_s smp then 0 else sm_no_rounds smp - 1) (storage, m, ?ls, ?fs, ?D) = Some (storage', m', ls', fs', D')"
    "round_ok of_raw p ?F ?n cs' (storage', m', ls', fs', D')" "?D \<subseteq> D'"
    "eliminates p D' (?nl @ ?ls @ ?fs) (cs' @ ls' @ fs')"
    by (elim exE conjE) (rule that)
  from finish_ok [OF assms(1,3) smp(1) refl smp(2,3) refl rounds(2) smp(5,6), folded private_inputs_kept_def]
  obtain storage'' wmap cs where fin: "finish_simplification to_raw of_raw smp (storage', m', ls', fs', D') =
      Some (storage'', wmap, private_inputs_kept smp wmap)"
    "stored of_raw storage'' cs" "\<forall>\<sigma>. assigns_one \<sigma> \<longrightarrow> (all_sat p \<sigma> cs \<longleftrightarrow> all_sat p \<sigma> (cs' @ ls' @ fs'))"
    "signals_of cs \<subseteq> keys_of wmap" "?F \<subseteq> keys_of wmap" "keys_of wmap \<inter> D' = {}"
    by (elim exE conjE) (rule that)
  have "simplified p smp nl cs wmap"
    by (rule collected_simplified [OF ok rounds(4,3) fin(3-6)])
  moreover have "simplification minv to_raw of_raw sched fuel smp = Some (storage'', wmap, private_inputs_kept smp wmap)"
    unfolding simplification_def smp(1)
    by (simp only: r1 one(1) two(1) r2 three(1) i(1) col(2) m(1) rounds(1) fin(1) bind.simps prod.case Let_def)
  ultimately show ?thesis using fin(2) by blast
qed

section \<open>Properties\<close>



text \<open>The equalities. For every order of arrival \<open>eq_simplification\<close> returns substitutions of a signal by
  another and constraints such that the equalities say what these say; no forbidden signal is
  eliminated, the eliminated signals are distinct and in no right-hand side, and the constraints
  left are over forbidden signals.\<close>

theorem eq_simplification_correct:
  assumes "is_field p" and "0 \<in> F" and "\<forall>c \<in> set cs. con_ok p c \<and> is_equality c p"
    and "\<forall>c \<in> set cs. \<forall>s \<in> con_keys c. s < n" and "arrives arrivals"
  shows "\<exists>subs cons. eq_simplification arrivals cs F n p = Some (subs, cons) \<and>
    (\<forall>\<sigma>. assigns_one \<sigma> \<longrightarrow> (all_sat p \<sigma> cs \<longleftrightarrow> subs_hold p \<sigma> subs \<and> all_sat p \<sigma> cons)) \<and>
    distinct (map sub_from subs) \<and> sub_from ` set subs \<inter> F = {} \<and>
    (\<forall>s \<in> set subs. \<exists>r. sub_to s = [(r, 1)] \<and> r \<notin> sub_from ` set subs) \<and>
    (\<forall>c \<in> set cons. con_keys c \<subseteq> F)"
proof -
  have eq: "\<forall>c \<in> set cs. equality_ok p c" using assms(3) by (simp add: equality_ok_def)
  obtain subs cons where r: "eq_simplification arrivals cs F n p = Some (subs, cons)" "phase_ok p F cs subs cons"
    using eq_simplification_ok [OF assms(1,2) eq assms(4,5)] by blast
  note P = phase_okD [OF r(2)]
  have "\<exists>r. sub_to s = [(r, 1)] \<and> r \<notin> sub_from ` set subs" if s: "s \<in> set subs" for s
  proof -
    obtain t where t: "s = renames t (sub_from s)" using eq_simplification_renames [OF r(1) s assms(5)] by blast
    then have to: "sub_to s = [(t, 1)]" by (metis substitution.select_convs(2))
    have "keys_of (sub_to s) \<inter> sub_from ` set subs = {}" using P(2) s by (simp add: subs_independent_def)
    then show ?thesis unfolding to by (intro exI [of _ t]) simp
  qed
  moreover have "distinct (map sub_from subs)" using P(2) by (simp add: subs_independent_def)
  moreover have "\<forall>c \<in> set cons. con_keys c \<subseteq> F" using P(6) by blast
  ultimately show ?thesis using r(1) P(1,3) by (intro exI [of _ subs] exI [of _ cons] conjI ballI allI impI) simp_all
qed

theorem eq_simplification_correct_witness:
  "\<exists>subs cons. eq_simplification rev [\<lparr>con_a = [], con_b = [], con_c = [(1, 1), (2, 6)]\<rparr>] {0, 1} 3 7 = Some (subs, cons) \<and>
     subs_hold 7 (\<lambda>_. 1) subs \<and> 1 \<notin> sub_from ` set subs"
proof -
  let ?cs = "[\<lparr>con_a = [], con_b = [], con_c = [(1 :: nat, 1), (2, 6)]\<rparr>]" and ?\<sigma> = "\<lambda>_ :: nat. 1 :: int"
  have "\<forall>c \<in> set ?cs. con_ok 7 c \<and> is_equality c 7"
    by (simp add: con_ok_def con_reduced_def con_wf_def hm_wf_def reduced_def is_equality_def hm_contains_def
        constant_coefficient_def ma_mul_def hm_keys_def Let_def)
  moreover have "\<forall>c \<in> set ?cs. \<forall>s \<in> con_keys c. s < 3" by (simp add: con_keys_def)
  moreover have "arrives rev" by (simp add: arrives_def)
  ultimately obtain subs cons where r: "eq_simplification rev ?cs {0, 1} 3 7 = Some (subs, cons)"
    "\<forall>\<sigma>. assigns_one \<sigma> \<longrightarrow> (all_sat 7 \<sigma> ?cs \<longleftrightarrow> subs_hold 7 \<sigma> subs \<and> all_sat 7 \<sigma> cons)"
    "sub_from ` set subs \<inter> {0, 1} = {}"
    using eq_simplification_correct [OF is_field_7, of "{0, 1}" ?cs 3 rev] by (auto simp del: all_sat_append)
  have "assigns_one ?\<sigma>" "all_sat 7 ?\<sigma> ?cs" by (simp_all add: assigns_one_def all_sat_def sat_def lin_def)
  then have "subs_hold 7 ?\<sigma> subs" using r(2) by blast
  then show ?thesis using r(1,3) by blast
qed

text \<open>C30: the linear constraints. For every order of arrival \<open>linear_simplification\<close> returns, without a
  panic in a thread; the constraints say what the substitutions and the constraints left say, no
  forbidden signal is eliminated, eliminated signals are distinct and in no right-hand side, and
  what is left is over forbidden signals.\<close>

theorem linear_simplification_correct:
  assumes "inverse_ok minv p" and "is_field p" and "0 \<in> F" and "\<forall>c \<in> set cs. con_ok p c \<and> is_linear c"
    and "\<forall>c \<in> set cs. \<forall>s \<in> con_keys c. s < n" and "arrives arrivals"
  shows "\<exists>subs cons. linear_simplification minv arrivals cs F n p old = Some (subs, cons) \<and>
    (\<forall>\<sigma>. assigns_one \<sigma> \<longrightarrow> (all_sat p \<sigma> cs \<longleftrightarrow> subs_hold p \<sigma> subs \<and> all_sat p \<sigma> cons)) \<and>
    distinct (map sub_from subs) \<and> sub_from ` set subs \<inter> F = {} \<and>
    (\<forall>s \<in> set subs. keys_of (sub_to s) \<inter> sub_from ` set subs = {}) \<and>
    (\<forall>c \<in> set cons. con_keys c \<subseteq> F)"
proof -
  have work: "\<forall>c \<in> set cs. work_wf p c" using assms(4) con_ok_work by blast
  have bound: "\<forall>c \<in> set cs. \<forall>s \<in> con_keys c. s < n \<or> s = 0" using assms(5) by blast
  obtain subs cons where r: "linear_simplification minv arrivals cs F n p old = Some (subs, cons)" "phase_ok p F cs subs cons"
    using linear_simplification_ok [OF assms(1-3) work bound assms(6)] by blast
  note P = phase_okD [OF r(2)]
  have "distinct (map sub_from subs)" "\<forall>s \<in> set subs. keys_of (sub_to s) \<inter> sub_from ` set subs = {}"
    using P(2) by (simp_all add: subs_independent_def)
  moreover have "\<forall>c \<in> set cons. con_keys c \<subseteq> F" using P(6) by blast
  ultimately show ?thesis using r(1) P(1,3) by (intro exI [of _ subs] exI [of _ cons] conjI allI impI) simp_all
qed

theorem linear_simplification_correct_witness:
  "\<exists>subs cons. linear_simplification search_inverse rev [\<lparr>con_a = [], con_b = [], con_c = [(1, 1), (2, 3)]\<rparr>,
      \<lparr>con_a = [], con_b = [], con_c = [(3, 1), (4, 6)]\<rparr>] {0, 1} 5 7 False = Some (subs, cons) \<and>
     subs_hold 7 (\<lambda>k. if k = 2 then 2 else 1) subs"
proof -
  let ?cs = "[\<lparr>con_a = [], con_b = [], con_c = [(1 :: nat, 1), (2, 3)]\<rparr>, \<lparr>con_a = [], con_b = [], con_c = [(3, 1), (4, 6)]\<rparr>]"
  let ?\<sigma> = "\<lambda>k :: nat. if k = 2 then 2 else 1 :: int"
  have inv: "inverse_ok search_inverse 7" by (rule inverse_ok_search) simp
  have z: "0 \<in> {0, 1 :: nat}" by simp
  have ok: "\<forall>c \<in> set ?cs. con_ok 7 c \<and> is_linear c"
    by (simp add: con_ok_def con_reduced_def con_wf_def hm_wf_def reduced_def is_linear_def)
  have bound: "\<forall>c \<in> set ?cs. \<forall>s \<in> con_keys c. s < 5" by (simp add: con_keys_def)
  have arr: "arrives rev" by (simp add: arrives_def)
  have "\<exists>subs cons. linear_simplification search_inverse rev ?cs {0, 1} 5 7 False = Some (subs, cons) \<and>
      (\<forall>\<sigma>. assigns_one \<sigma> \<longrightarrow> (all_sat 7 \<sigma> ?cs \<longleftrightarrow> subs_hold 7 \<sigma> subs \<and> all_sat 7 \<sigma> cons))"
    using linear_simplification_correct [OF inv is_field_7 z ok bound arr, of False]
    by (elim exE conjE) (intro exI conjI)
  moreover have "assigns_one ?\<sigma>" "all_sat 7 ?\<sigma> ?cs" by (simp_all add: assigns_one_def all_sat_def sat_def lin_def)
  ultimately show ?thesis by blast
qed

text \<open>Constant equalities. \<open>constant_eq_simplification\<close> returns a substitution by a constant for each
  constraint on a signal that is not forbidden and keeps the others; together they say what the
  constraints say.\<close>

theorem constant_eq_simplification_correct:
  assumes "inverse_ok minv p" and "is_field p" and "0 \<in> F" and "\<forall>c \<in> set cs. con_ok p c \<and> is_constant_equality c"
  shows "\<exists>subs cons. constant_eq_simplification minv cs F p = Some (subs, cons) \<and>
    (\<forall>\<sigma>. all_sat p \<sigma> cs \<longleftrightarrow> subs_hold p \<sigma> subs \<and> all_sat p \<sigma> cons) \<and>
    (\<forall>s \<in> set subs. keys_of (sub_to s) \<subseteq> {0} \<and> sub_from s \<notin> F) \<and> (\<forall>c \<in> set cons. con_keys c \<subseteq> F)"
proof -
  have ok: "\<forall>c \<in> set cs. constant_ok p c" using assms(4) constant_equality_ok [OF assms(2)] by blast
  obtain subs cons where r: "constant_eq_simplification minv cs F p = Some (subs, cons)" "constants_ok p F cs subs cons"
    using constant_eq_simplification_ok [OF assms(1-3) ok] by blast
  then show ?thesis
    by (intro exI [of _ subs] exI [of _ cons]) (simp add: constants_ok_def constant_sub_def)
qed

theorem constant_eq_simplification_correct_witness:
  "\<exists>subs cons. constant_eq_simplification search_inverse [\<lparr>con_a = [], con_b = [], con_c = [(0, 4), (1, 1)]\<rparr>] {0} 7 =
     Some (subs, cons) \<and> subs_hold 7 (\<lambda>k. if k = 0 then 1 else 3) subs"
proof -
  let ?cs = "[\<lparr>con_a = [], con_b = [], con_c = [(0 :: nat, 4), (1, 1)]\<rparr>]" and ?\<sigma> = "\<lambda>k :: nat. if k = 0 then 1 else 3 :: int"
  have inv: "inverse_ok search_inverse 7" by (rule inverse_ok_search) simp
  have z: "0 \<in> {0 :: nat}" by simp
  have ok: "\<forall>c \<in> set ?cs. con_ok 7 c \<and> is_constant_equality c"
    by (simp add: con_ok_def con_reduced_def con_wf_def hm_wf_def reduced_def is_constant_equality_def
        hm_contains_def constant_coefficient_def)
  from constant_eq_simplification_correct [OF inv is_field_7 z ok]
  obtain subs cons where r: "constant_eq_simplification search_inverse ?cs {0} 7 = Some (subs, cons)"
    "\<forall>\<sigma>. all_sat 7 \<sigma> ?cs \<longleftrightarrow> subs_hold 7 \<sigma> subs \<and> all_sat 7 \<sigma> cons"
    by (elim exE conjE) (rule that)
  have "all_sat 7 ?\<sigma> ?cs" by (simp add: all_sat_def sat_def lin_def)
  then show ?thesis using r by blast
qed


text \<open>C33: the walk ends. In an encoding whose edges go to nodes created before, the walk over all
  instances returns with as much fuel as there are nodes, and so do the relevant signals.\<close>

theorem encoded_walk_total:
  assumes "encoding_ok (sm_dag_encoding smp)" and "length (de_nodes (sm_dag_encoding smp)) \<le> fuel"
  shows "\<exists>nl. encoded_constraints fuel (sm_dag_encoding smp) = Some nl \<and>
    relevant_signals fuel smp ren deletes = Some (final_signal ren ` (signals_of nl - {0}) - keys_of deletes)"
proof -
  let ?enc = "sm_dag_encoding smp"
  obtain iter where i: "iterator_new ?enc = Some iter" "iterator_ok iter" "ei_node_id iter = de_init ?enc"
    using assms(1) by (auto simp: iterator_new_def build_encoding_iterator_def iterator_ok_def encoding_ok_def Let_def)
  have "ei_node_id iter < fuel" using assms i(3) by (simp add: encoding_ok_def)
  then obtain nodes where "preorder iterator_children fuel iter = Some nodes" using preorder_iterator [OF i(2)] by blast
  then have nl: "encoded_constraints fuel ?enc = Some (instance_constraints nodes)"
    using i(1) by (simp add: encoded_constraints_def)
  then show ?thesis using relevant_signals_ok by blast
qed

theorem encoded_walk_total_witness:
  "\<exists>nl. encoded_constraints 2 \<lparr>de_init = 1, de_no_constraints = 0, de_nodes =
       [\<lparr>en_id = 0, en_name = ''a'', en_parameters = [], en_signals = [], en_ordered_signals = [],
         en_non_linear = [], en_is_custom_gate = False\<rparr>,
        \<lparr>en_id = 1, en_name = ''b'', en_parameters = [], en_signals = [], en_ordered_signals = [],
         en_non_linear = [], en_is_custom_gate = False\<rparr>],
       de_adjacency = [[], [\<lparr>ee_goes_to = 0, ee_path = ''x'', ee_offset = 1\<rparr>, \<lparr>ee_goes_to = 0, ee_path = ''y'', ee_offset = 2\<rparr>]]\<rparr> = Some nl"
proof -
  let ?enc = "\<lparr>de_init = 1, de_no_constraints = 0, de_nodes =
       [\<lparr>en_id = 0, en_name = ''a'', en_parameters = [], en_signals = [], en_ordered_signals = [],
         en_non_linear = [], en_is_custom_gate = False\<rparr>,
        \<lparr>en_id = 1, en_name = ''b'', en_parameters = [], en_signals = [], en_ordered_signals = [],
         en_non_linear = [], en_is_custom_gate = False\<rparr>],
       de_adjacency = [[], [\<lparr>ee_goes_to = 0, ee_path = ''x'', ee_offset = 1\<rparr>, \<lparr>ee_goes_to = 0, ee_path = ''y'', ee_offset = 2\<rparr>]]\<rparr>"
  let ?smp = "undefined\<lparr>sm_dag_encoding := ?enc\<rparr>"
  have "encoding_ok (sm_dag_encoding ?smp)" by (simp add: encoding_ok_def nth_Cons' less_Suc_eq)
  moreover have "length (de_nodes (sm_dag_encoding ?smp)) \<le> 2" by simp
  ultimately show ?thesis using encoded_walk_total [of ?smp 2 "[]" "[]"] by auto
qed

text \<open>C11: one round in the storage. With the map that lists every constraint under each of its
  signals, \<open>apply_substitution_to_map\<close> does not panic, keeps the map that way, and splits the
  rewritten constraints into those that stay and linear ones that leave: none has an eliminated
  signal, and where the substitutions hold they say what the constraints said.\<close>

theorem apply_substitution_to_map_correct:
  assumes "0 < p" and "raw_ok to_raw of_raw" and "subs_independent ss" and "stored of_raw st cs"
    and "\<forall>c \<in> set cs. con_ok p c" and "covers m cs"
  shows "\<exists>st' m' cs' L. apply_substitution_to_map to_raw of_raw st m ss p = Some (st', m', L) \<and>
    stored of_raw st' cs' \<and> covers m' cs' \<and> (\<forall>c \<in> set (cs' @ L). con_ok p c) \<and> (\<forall>c \<in> set L. is_linear c) \<and>
    (\<forall>c \<in> set (cs' @ L). con_keys c \<inter> sub_from ` set ss = {}) \<and>
    (\<forall>\<sigma>. assigns_one \<sigma> \<longrightarrow> subs_hold p \<sigma> ss \<longrightarrow> (all_sat p \<sigma> (cs' @ L) \<longleftrightarrow> all_sat p \<sigma> cs))"
proof -
  from apply_substitution_to_map_ok [OF assms]
  obtain st' m' cs' L where r: "apply_substitution_to_map to_raw of_raw st m ss p = Some (st', m', L)"
    "stored of_raw st' cs'" "covers m' cs'" "map_round p ss cs cs' L"
    by (elim exE conjE) (rule that)
  have "\<forall>c \<in> set (cs' @ L). con_keys c \<inter> sub_from ` set ss = {}"
  proof
    fix c assume c: "c \<in> set (cs' @ L)"
    have "(\<Union>c \<in> set (cs' @ L). con_keys c) \<inter> sub_from ` set ss = {}" using r(4) unfolding map_round_def by (elim conjE)
    moreover have "con_keys c \<subseteq> (\<Union>c \<in> set (cs' @ L). con_keys c)" by (rule UN_upper [OF c])
    ultimately show "con_keys c \<inter> sub_from ` set ss = {}" by blast
  qed
  then show ?thesis using r unfolding map_round_def
    by (elim conjE) (intro exI [of _ st'] exI [of _ m'] exI [of _ cs'] exI [of _ L] conjI)
qed

theorem apply_substitution_to_map_correct_witness:
  "\<exists>st m L. apply_substitution_to_map (\<lambda>x. [x]) hd
      (snd (add_constraint (\<lambda>x. [x]) \<lparr>con_a = [(2, 1)], con_b = [(3, 1)], con_c = [(1, 1)]\<rparr> storage_new)) [(2, [0]), (3, [0]), (1, [0])]
      [\<lparr>sub_from = 2, sub_to = [(0, 5)]\<rparr>] 7 = Some (st, m, L) \<and>
    (\<forall>c \<in> set L. is_linear c \<and> 2 \<notin> con_keys c)"
proof -
  let ?c = "\<lparr>con_a = [(2 :: nat, 1)], con_b = [(3, 1)], con_c = [(1, 1)]\<rparr>" and ?m = "[(2 :: nat, [0 :: nat]), (3, [0]), (1, [0])]"
  let ?ss = "[\<lparr>sub_from = 2 :: nat, sub_to = [(0, 5 :: int)]\<rparr>]"
  have raw: "raw_ok (\<lambda>x :: int. [x]) hd" by (simp add: raw_ok_def)
  have wf: "con_wf ?c" by (simp add: con_wf_def hm_wf_def)
  obtain st where st: "add_constraint (\<lambda>x. [x]) ?c storage_new = (0, st)" "stored hd st [?c]"
    using stored_add [OF raw stored_new wf] by auto
  have p: "0 < (7 :: int)" by simp
  have ss: "subs_independent ?ss" by (simp add: subs_independent_def hm_wf_def)
  have ok: "\<forall>c \<in> set [?c]. con_ok 7 c" by (simp add: con_ok_def con_reduced_def con_wf_def hm_wf_def reduced_def)
  have cov: "covers ?m [?c]" by (auto simp: covers_def con_keys_def ids_of_def split: if_splits)
  from apply_substitution_to_map_correct [OF p raw ss st(2) ok cov]
  obtain st' m' cs' L where r: "apply_substitution_to_map (\<lambda>x. [x]) hd st ?m ?ss 7 = Some (st', m', L)"
    "\<forall>c \<in> set L. is_linear c" "\<forall>c \<in> set (cs' @ L). con_keys c \<inter> sub_from ` set ?ss = {}"
    by (elim exE conjE) (rule that)
  have "\<forall>c \<in> set L. is_linear c \<and> 2 \<notin> con_keys c" using r(2,3) by auto
  then show ?thesis using r(1) st(1) by auto
qed

end
