(* ===== verification/Dag.thy ===== *)
theory Dag
  imports Simplification
begin

text \<open>
  The directed acyclic graph of template instances of \<open>dag/src/lib.rs\<close>: a node per instance with its
  signals numbered from one, an edge per subcomponent with the range of signals it takes, and the
  walk over the tree of components (\<open>Tree\<close>). The witness of \<open>dag/src/witness_producer.rs\<close>, the
  mapping to a \<open>Simplifier\<close> of \<open>dag/src/map_to_constraint_list.rs\<close>, and \<open>clean_constraints\<close> and
  \<open>visit_node\<close> of \<open>dag/src/constraint_correctness_analysis.rs\<close>.

  Sets that are only tested or mapped into a set are sets; the map of signal names is an
  association list, and what is collected from it is sorted. An index out of range, a
  subtraction below zero and an \<open>unwrap\<close> of nothing are \<open>None\<close>.
\<close>

section \<open>Edges and nodes\<close>

record dag_edge =
  eg_label :: string
  eg_goes_to :: nat
  eg_in_number :: nat
  eg_out_number :: nat
  eg_in_component_number :: nat
  eg_out_component_number :: nat

definition edge_new_entry :: "nat \<Rightarrow> dag_edge" where
  "edge_new_entry node_id = \<lparr>eg_label = ''main'', eg_goes_to = node_id, eg_in_number = 0, eg_out_number = 0,
     eg_in_component_number = 0, eg_out_component_number = 0\<rparr>"

definition get_signal_range :: "dag_edge \<Rightarrow> nat set" where
  "get_signal_range edge = {eg_in_number edge + 1..<eg_out_number edge + 1}"

definition edge_reach :: "dag_edge \<Rightarrow> nat \<Rightarrow> nat" where
  "edge_reach edge with_offset = with_offset + eg_in_number edge"

record dag_node =
  nd_entry :: dag_edge
  nd_template_name :: string
  nd_parameters :: "int list"
  nd_number_of_signals :: nat
  nd_number_of_components :: nat
  nd_intermediates_length :: nat
  nd_public_inputs_length :: nat
  nd_inputs_length :: nat
  nd_outputs_length :: nat
  nd_signal_correspondence :: "(string, nat) hmap"
  nd_ordered_signals :: "string list"
  nd_locals :: "nat set"
  nd_reachables :: "nat set"
  nd_forbidden_if_main :: "nat set"
  nd_io_signals :: "nat list"
  nd_constraints :: "nat constraint list"
  nd_underscored_signals :: "nat list"
  nd_is_parallel :: bool
  nd_has_parallel_sub_cmp :: bool
  nd_is_custom_gate :: bool
  nd_number_of_subcomponents_indexes :: nat

definition node_new :: "nat \<Rightarrow> string \<Rightarrow> int list \<Rightarrow> bool \<Rightarrow> bool \<Rightarrow> dag_node" where
  "node_new node_id template_name parameters is_parallel is_custom_gate =
     \<lparr>nd_entry = edge_new_entry node_id, nd_template_name = template_name, nd_parameters = parameters,
      nd_number_of_signals = 0, nd_number_of_components = 1, nd_intermediates_length = 0,
      nd_public_inputs_length = 0, nd_inputs_length = 0, nd_outputs_length = 0,
      nd_signal_correspondence = [], nd_ordered_signals = [], nd_locals = {}, nd_reachables = {},
      nd_forbidden_if_main = {0}, nd_io_signals = [], nd_constraints = [], nd_underscored_signals = [],
      nd_is_parallel = is_parallel, nd_has_parallel_sub_cmp = False, nd_is_custom_gate = is_custom_gate,
      nd_number_of_subcomponents_indexes = 0\<rparr>"

definition entry_grown :: "nat \<Rightarrow> dag_edge \<Rightarrow> dag_edge" where
  "entry_grown n entry = entry\<lparr>eg_out_number := eg_out_number entry + n\<rparr>"

definition node_add_input :: "string \<Rightarrow> bool \<Rightarrow> dag_node \<Rightarrow> dag_node" where
  "node_add_input name is_public node =
     (let sid = nd_number_of_signals node + 1
      in node\<lparr>nd_io_signals := nd_io_signals node @ [sid],
           nd_public_inputs_length := nd_public_inputs_length node + (if is_public then 1 else 0),
           nd_signal_correspondence := hm_insert name sid (nd_signal_correspondence node),
           nd_locals := insert sid (nd_locals node),
           nd_reachables := insert sid (nd_reachables node),
           nd_number_of_signals := nd_number_of_signals node + 1,
           nd_entry := entry_grown 1 (nd_entry node),
           nd_inputs_length := nd_inputs_length node + 1,
           nd_forbidden_if_main := (if is_public then insert sid (nd_forbidden_if_main node) else nd_forbidden_if_main node)\<rparr>)"

definition node_add_output :: "string \<Rightarrow> dag_node \<Rightarrow> dag_node" where
  "node_add_output name node =
     (let sid = nd_number_of_signals node + 1
      in node\<lparr>nd_io_signals := nd_io_signals node @ [sid],
           nd_signal_correspondence := hm_insert name sid (nd_signal_correspondence node),
           nd_forbidden_if_main := insert sid (nd_forbidden_if_main node),
           nd_locals := insert sid (nd_locals node),
           nd_reachables := insert sid (nd_reachables node),
           nd_number_of_signals := nd_number_of_signals node + 1,
           nd_entry := entry_grown 1 (nd_entry node),
           nd_outputs_length := nd_outputs_length node + 1\<rparr>)"

definition node_add_intermediate :: "string \<Rightarrow> dag_node \<Rightarrow> dag_node" where
  "node_add_intermediate name node =
     (let sid = nd_number_of_signals node + 1
      in node\<lparr>nd_signal_correspondence := hm_insert name sid (nd_signal_correspondence node),
           nd_locals := insert sid (nd_locals node),
           nd_reachables := insert sid (nd_reachables node),
           nd_number_of_signals := nd_number_of_signals node + 1,
           nd_entry := entry_grown 1 (nd_entry node),
           nd_intermediates_length := nd_intermediates_length node + 1\<rparr>)"

definition node_add_ordered_signal :: "string \<Rightarrow> dag_node \<Rightarrow> dag_node" where
  "node_add_ordered_signal name node = node\<lparr>nd_ordered_signals := nd_ordered_signals node @ [name]\<rparr>"

definition node_add_constraint :: "nat constraint \<Rightarrow> dag_node \<Rightarrow> dag_node" where
  "node_add_constraint constraint node = node\<lparr>nd_constraints := nd_constraints node @ [constraint]\<rparr>"

definition node_add_underscored_signal :: "nat \<Rightarrow> dag_node \<Rightarrow> dag_node" where
  "node_add_underscored_signal signal node = node\<lparr>nd_underscored_signals := nd_underscored_signals node @ [signal]\<rparr>"

definition node_set_number_of_subcomponents_indexes :: "nat \<Rightarrow> dag_node \<Rightarrow> dag_node" where
  "node_set_number_of_subcomponents_indexes number_scmp node = node\<lparr>nd_number_of_subcomponents_indexes := number_scmp\<rparr>"

definition is_local_signal :: "dag_node \<Rightarrow> nat \<Rightarrow> bool" where
  "is_local_signal node s \<longleftrightarrow> s \<in> nd_locals node"

definition is_reachable_signal :: "dag_node \<Rightarrow> nat \<Rightarrow> bool" where
  "is_reachable_signal node s \<longleftrightarrow> s \<in> nd_reachables node"

definition number_of_private_inputs :: "dag_node \<Rightarrow> nat option" where
  "number_of_private_inputs node =
     (if nd_public_inputs_length node \<le> nd_inputs_length node
      then Some (nd_inputs_length node - nd_public_inputs_length node) else None)"

section \<open>The graph\<close>

record dag =
  dg_one_signal :: nat
  dg_nodes :: "dag_node list"
  dg_adjacency :: "dag_edge list list"
  dg_prime :: string

definition dag_new :: "string \<Rightarrow> dag" where
  "dag_new prime = \<lparr>dg_one_signal = 0, dg_nodes = [], dg_adjacency = [], dg_prime = prime\<rparr>"

definition number_of_nodes :: "dag \<Rightarrow> nat" where
  "number_of_nodes d = length (dg_nodes d)"

definition main_id :: "dag \<Rightarrow> nat option" where
  "main_id d = (if dg_nodes d = [] then None else Some (length (dg_nodes d) - 1))"

definition get_main :: "dag \<Rightarrow> dag_node option" where
  "get_main d = (if dg_nodes d = [] then None else Some (last (dg_nodes d)))"

definition get_entry :: "dag \<Rightarrow> dag_edge option" where
  "get_entry d = map_option nd_entry (get_main d)"

definition get_node :: "dag \<Rightarrow> nat \<Rightarrow> dag_node option" where
  "get_node d n = (if n < length (dg_nodes d) then Some (dg_nodes d ! n) else None)"

definition dag_get_edges :: "dag \<Rightarrow> nat \<Rightarrow> dag_edge list option" where
  "dag_get_edges d n = (if n < length (dg_nodes d) then Some (dg_adjacency d ! n) else None)"

text \<open>\<open>get_mut_main\<close>: an operation on the main node, nothing on an empty graph.\<close>

definition update_main :: "(dag_node \<Rightarrow> dag_node) \<Rightarrow> dag \<Rightarrow> dag" where
  "update_main f d =
     (if dg_nodes d = [] then d
      else d\<lparr>dg_nodes := (dg_nodes d)[length (dg_nodes d) - 1 := f (last (dg_nodes d))]\<rparr>)"

definition dag_add_node :: "string \<Rightarrow> int list \<Rightarrow> bool \<Rightarrow> bool \<Rightarrow> dag \<Rightarrow> nat \<times> dag" where
  "dag_add_node template_name parameters is_parallel is_custom_gate d =
     (let node_id = length (dg_nodes d)
      in (node_id, d\<lparr>dg_nodes := dg_nodes d @ [node_new node_id template_name parameters is_parallel is_custom_gate],
                     dg_adjacency := dg_adjacency d @ [[]]\<rparr>))"

definition dag_add_input :: "string \<Rightarrow> bool \<Rightarrow> dag \<Rightarrow> dag" where
  "dag_add_input name is_public = update_main (node_add_input name is_public)"

definition dag_add_output :: "string \<Rightarrow> dag \<Rightarrow> dag" where
  "dag_add_output name = update_main (node_add_output name)"

definition dag_add_intermediate :: "string \<Rightarrow> dag \<Rightarrow> dag" where
  "dag_add_intermediate name = update_main (node_add_intermediate name)"

definition dag_add_ordered_signal :: "string \<Rightarrow> dag \<Rightarrow> dag" where
  "dag_add_ordered_signal name = update_main (node_add_ordered_signal name)"

definition dag_add_constraint :: "nat constraint \<Rightarrow> dag \<Rightarrow> dag" where
  "dag_add_constraint constraint = update_main (node_add_constraint constraint)"

definition dag_add_underscored_signal :: "nat \<Rightarrow> dag \<Rightarrow> dag" where
  "dag_add_underscored_signal signal = update_main (node_add_underscored_signal signal)"

definition dag_set_number_of_subcomponents_indexes :: "nat \<Rightarrow> dag \<Rightarrow> dag" where
  "dag_set_number_of_subcomponents_indexes number_scmp = update_main (node_set_number_of_subcomponents_indexes number_scmp)"

text \<open>The names of the subcomponent's signals in its parent.\<close>

definition add_concrete_signal ::
    "string \<Rightarrow> dag_node \<Rightarrow> nat \<Rightarrow> string \<times> nat \<Rightarrow> (string, nat) hmap \<times> nat set \<Rightarrow> (string, nat) hmap \<times> nat set" where
  "add_concrete_signal label node in_number = (\<lambda>(signal, sid) (correspondence, reachables).
     if is_local_signal node sid then
       (let concrete_name = label @ ''.'' @ signal;
            concrete_value = in_number + sid
        in (hm_insert concrete_name concrete_value correspondence,
            if sid \<le> nd_inputs_length node + nd_outputs_length node then insert concrete_value reachables else reachables))
     else (correspondence, reachables))"

definition dag_add_edge :: "nat \<Rightarrow> string \<Rightarrow> bool \<Rightarrow> dag \<Rightarrow> (dag_edge option \<times> dag) option" where
  "dag_add_edge to label is_parallel d =
     Option.bind (main_id d) (\<lambda>from_n.
       if to < from_n then
         (let node = dg_nodes d ! from_n;
              sub = dg_nodes d ! to;
              in_num = nd_number_of_signals node;
              in_component_num = nd_number_of_components node;
              out_num = in_num + nd_number_of_signals sub;
              out_component_num = in_component_num + nd_number_of_components sub;
              entry = nd_entry node;
              with_e = \<lparr>eg_label = label, eg_goes_to = to, eg_in_number = in_num, eg_out_number = out_num,
                 eg_in_component_number = in_component_num, eg_out_component_number = out_component_num\<rparr>;
              (correspondence, reachables) = fold (add_concrete_signal label sub in_num) (nd_signal_correspondence sub)
                (nd_signal_correspondence node, nd_reachables node);
              node = node\<lparr>nd_number_of_signals := nd_number_of_signals node + nd_number_of_signals sub,
                 nd_entry := entry\<lparr>eg_out_number := eg_out_number entry + nd_number_of_signals sub,
                   eg_out_component_number := eg_out_component_number entry + nd_number_of_components sub\<rparr>,
                 nd_number_of_components := nd_number_of_components node + nd_number_of_components sub,
                 nd_has_parallel_sub_cmp := nd_has_parallel_sub_cmp node \<or> nd_is_parallel sub \<or> is_parallel,
                 nd_signal_correspondence := correspondence,
                 nd_reachables := reachables\<rparr>
          in if from_n < length (dg_adjacency d) then
               Some (Some with_e, d\<lparr>dg_nodes := (dg_nodes d)[from_n := node],
                 dg_adjacency := (dg_adjacency d)[from_n := dg_adjacency d ! from_n @ [with_e]]\<rparr>)
             else None)
       else Some (None, d))"

primrec find_connexion :: "nat \<Rightarrow> nat \<Rightarrow> dag_edge list \<Rightarrow> nat option" where
  "find_connexion target index [] = None"
| "find_connexion target index (e # cc) = (if eg_goes_to e = target then Some index else find_connexion target (index + 1) cc)"

definition raw_find_id_connexion :: "dag \<Rightarrow> nat \<Rightarrow> nat \<Rightarrow> nat option option" where
  "raw_find_id_connexion d source target =
     (if source < length (dg_adjacency d) then Some (find_connexion target 0 (dg_adjacency d ! source)) else None)"

definition get_connexion :: "dag \<Rightarrow> nat \<Rightarrow> nat \<Rightarrow> dag_edge option option" where
  "get_connexion d from_n to = map_option (map_option (\<lambda>i. dg_adjacency d ! from_n ! i)) (raw_find_id_connexion d from_n to)"

definition dag_public_inputs :: "dag \<Rightarrow> nat" where
  "dag_public_inputs d = (case get_main d of Some main \<Rightarrow> nd_public_inputs_length main | None \<Rightarrow> 0)"

definition dag_private_inputs :: "dag \<Rightarrow> nat option" where
  "dag_private_inputs d = (case get_main d of Some main \<Rightarrow> number_of_private_inputs main | None \<Rightarrow> Some 0)"

definition dag_public_outputs :: "dag \<Rightarrow> nat" where
  "dag_public_outputs d = (case get_main d of Some main \<Rightarrow> nd_outputs_length main | None \<Rightarrow> 0)"

section \<open>The tree of components\<close>

record dag_tree =
  tr_dag :: dag
  tr_field :: int
  tr_path :: string
  tr_offset :: nat
  tr_node_id :: nat
  tr_signals :: "nat list"
  tr_forbidden :: "nat set"
  tr_id_to_name :: "(nat, string) hmap"
  tr_constraints :: "nat constraint list"

definition tree_signal ::
    "dag_node \<Rightarrow> nat \<Rightarrow> nat \<Rightarrow> string \<times> nat \<Rightarrow> nat list \<times> (nat, string) hmap \<Rightarrow> nat list \<times> (nat, string) hmap" where
  "tree_signal node offset name_offset = (\<lambda>(name, sid) (signals, id_to_name).
     if is_local_signal node sid then (signals @ [sid + offset], hm_insert (sid + name_offset) name id_to_name)
     else (signals, id_to_name))"

definition tree_new :: "dag \<Rightarrow> dag_tree option" where
  "tree_new d =
     Option.bind (UsefulConstants_new (dg_prime d)) (\<lambda>field.
     Option.bind (get_main d) (\<lambda>root.
     Option.bind (main_id d) (\<lambda>node_id.
       (let offset = eg_in_number (nd_entry root);
            path = eg_label (nd_entry root);
            constraints = nd_constraints root;
            forbid = (\<lambda>s. s + offset) ` nd_forbidden_if_main root;
            (signals, id_to_name) = fold (tree_signal root offset 0) (nd_signal_correspondence root) ([], [])
        in Some \<lparr>tr_dag = d, tr_field = field, tr_path = path, tr_offset = offset, tr_node_id = node_id,
             tr_signals = sort signals, tr_forbidden = forbid, tr_id_to_name = id_to_name,
             tr_constraints = constraints\<rparr>))))"

definition go_to_subtree :: "dag_tree \<Rightarrow> dag_edge \<Rightarrow> dag_tree option" where
  "go_to_subtree current edge =
     (let d = tr_dag current; node_id = eg_goes_to edge
      in if node_id < length (dg_nodes d) then
           (let node = dg_nodes d ! node_id;
                path = tr_path current @ ''.'' @ eg_label edge;
                offset = tr_offset current + eg_in_number edge;
                (signals, id_to_name) = fold (tree_signal node offset offset) (nd_signal_correspondence node) ([], []);
                constraints = map (\<lambda>c. constraint_apply_offset c offset)
                  (filter (\<lambda>c. \<not> constraint_is_empty c) (nd_constraints node))
            in Some \<lparr>tr_dag = d, tr_field = tr_field current, tr_path = path, tr_offset = offset, tr_node_id = node_id,
                 tr_signals = sort signals, tr_forbidden = {}, tr_id_to_name = id_to_name,
                 tr_constraints = constraints\<rparr>)
         else None)"

definition tree_get_edges :: "dag_tree \<Rightarrow> dag_edge list option" where
  "tree_get_edges tree =
     (if tr_node_id tree < length (dg_adjacency (tr_dag tree))
      then Some (dg_adjacency (tr_dag tree) ! tr_node_id tree) else None)"

section \<open>The witness\<close>

primrec produce_tree_witness :: "nat \<Rightarrow> dag_tree \<Rightarrow> nat list \<Rightarrow> nat list option" where
  "produce_tree_witness 0 tree witness = None"
| "produce_tree_witness (Suc fuel) tree witness =
     (let witness = fold (\<lambda>signal w. w @ [signal]) (tr_signals tree) witness
      in Option.bind (tree_get_edges tree) (\<lambda>edges.
           fold (\<lambda>edge acc. Option.bind acc (\<lambda>witness.
               Option.bind (go_to_subtree tree edge) (\<lambda>subtree. produce_tree_witness fuel subtree witness)))
             edges (Some witness)))"

definition produce_witness :: "nat \<Rightarrow> dag \<Rightarrow> nat list option" where
  "produce_witness fuel d = Option.bind (tree_new d) (\<lambda>tree. produce_tree_witness fuel tree [0])"

section \<open>Mapping to a simplifier\<close>

record c_holder =
  ch_linear :: "nat constraint list"
  ch_equalities :: "nat constraint list"
  ch_constant_equalities :: "nat constraint list"

definition c_holder_default :: c_holder where
  "c_holder_default = \<lparr>ch_linear = [], ch_equalities = [], ch_constant_equalities = []\<rparr>"

definition hold_constraint :: "int \<Rightarrow> nat constraint \<Rightarrow> nat \<times> c_holder \<Rightarrow> nat \<times> c_holder" where
  "hold_constraint field constraint = (\<lambda>(no_constraints, holder).
     if is_constant_equality constraint then
       (no_constraints, holder\<lparr>ch_constant_equalities := ch_constant_equalities holder @ [constraint]\<rparr>)
     else if is_equality constraint field then
       (no_constraints, holder\<lparr>ch_equalities := ch_equalities holder @ [constraint]\<rparr>)
     else if is_linear constraint then
       (no_constraints, holder\<lparr>ch_linear := ch_linear holder @ [constraint]\<rparr>)
     else (no_constraints + 1, holder))"

type_synonym map_tree_state = "nat list \<times> c_holder \<times> nat set"

primrec map_tree :: "nat \<Rightarrow> dag_tree \<Rightarrow> map_tree_state \<Rightarrow> (nat \<times> map_tree_state) option" where
  "map_tree 0 tree st = None"
| "map_tree (Suc fuel) tree st =
     (let (witness, holder, forbid) = st
      in if tr_node_id tree < length (dg_nodes (tr_dag tree)) then
           (let custom = nd_is_custom_gate (dg_nodes (tr_dag tree) ! tr_node_id tree);
                (witness, forbid) = fold (\<lambda>signal (witness, forbid).
                    (witness @ [signal], if custom then insert signal forbid else forbid)) (tr_signals tree) (witness, forbid);
                (no_constraints, holder) = fold (hold_constraint (tr_field tree)) (tr_constraints tree) (0, holder)
            in Option.bind (tree_get_edges tree) (\<lambda>edges.
                 fold (\<lambda>edge acc. Option.bind acc (\<lambda>(no_constraints, st).
                     Option.bind (go_to_subtree tree edge) (\<lambda>subtree.
                       map_option (\<lambda>(n, st). (no_constraints + n, st)) (map_tree fuel subtree st))))
                   edges (Some (no_constraints, witness, holder, forbid))))
         else None)"

definition map_node_to_encoding :: "nat \<Rightarrow> dag_node \<Rightarrow> encoding_node option" where
  "map_node_to_encoding node_id node =
     Option.bind (those (map (map_of (nd_signal_correspondence node)) (nd_ordered_signals node))) (\<lambda>ordered_signals.
       (let non_linear = filter (\<lambda>c. \<not> is_linear c) (nd_constraints node);
            signals = map (\<lambda>(name, sid). \<lparr>si_name = name, si_id = sid\<rparr>)
              (filter (\<lambda>(name, sid). sid \<in> nd_locals node) (nd_signal_correspondence node))
        in Some \<lparr>en_id = node_id, en_name = nd_template_name node, en_parameters = nd_parameters node,
             en_signals = sort_key si_id signals, en_ordered_signals = ordered_signals,
             en_non_linear = non_linear, en_is_custom_gate = nd_is_custom_gate node\<rparr>))"

definition map_edge_to_encoding :: "dag_edge \<Rightarrow> encoding_edge" where
  "map_edge_to_encoding edge = \<lparr>ee_goes_to = eg_goes_to edge, ee_path = eg_label edge, ee_offset = eg_in_number edge\<rparr>"

definition produce_encoding :: "nat \<Rightarrow> nat \<Rightarrow> dag_node list \<Rightarrow> dag_edge list list \<Rightarrow> dag_encoding option" where
  "produce_encoding no_constraints init dag_nodes dag_edges =
     map_option (\<lambda>nodes. \<lparr>de_init = init, de_no_constraints = no_constraints, de_nodes = nodes,
         de_adjacency = map (map map_edge_to_encoding) dag_edges\<rparr>)
       (those (map (\<lambda>(node_id, node). map_node_to_encoding node_id node) (enumerate 0 dag_nodes)))"

record simplification_flags =
  fl_no_rounds :: nat
  fl_flag_s :: bool
  fl_flag_old_heuristics :: bool

text \<open>The simplifier that \<open>map\<close> builds.\<close>

definition dag_simplifier :: "nat \<Rightarrow> dag \<Rightarrow> simplification_flags \<Rightarrow> simplifier option" where
  "dag_simplifier fuel d flags =
     Option.bind (UsefulConstants_new (dg_prime d)) (\<lambda>field.
     Option.bind (main_id d) (\<lambda>init_id.
     Option.bind (dag_private_inputs d) (\<lambda>no_private_inputs.
     Option.bind (get_main d) (\<lambda>main.
     Option.bind (tree_new d) (\<lambda>tree.
     Option.bind (map_tree fuel tree ([0], c_holder_default, nd_forbidden_if_main main))
       (\<lambda>(no_constraints, signal_map, holder, forbid).
     Option.bind (produce_encoding no_constraints init_id (dg_nodes d) (dg_adjacency d)) (\<lambda>name_encoding.
       Some \<lparr>sm_field = field, sm_dag_encoding = name_encoding, sm_no_public_inputs = dag_public_inputs d,
         sm_no_public_outputs = dag_public_outputs d, sm_no_private_inputs = no_private_inputs,
         sm_forbidden = forbid, sm_cons_equalities = ch_constant_equalities holder,
         sm_equalities = ch_equalities holder, sm_linear = ch_linear holder,
         sm_max_signal = length signal_map, sm_no_rounds = fl_no_rounds flags,
         sm_flag_s = fl_flag_s flags, sm_flag_old_heuristics = fl_flag_old_heuristics flags\<rparr>)))))))"

definition dag_map_to_list ::
    "inverse_fn \<Rightarrow> (int \<Rightarrow> 'r) \<Rightarrow> ('r \<Rightarrow> int) \<Rightarrow> schedule \<Rightarrow> nat \<Rightarrow> dag \<Rightarrow> simplification_flags \<Rightarrow> 'r constraint_list option" where
  "dag_map_to_list minv to_raw of_raw sched fuel d flags =
     Option.bind (dag_simplifier fuel d flags) (simplify_constraints minv to_raw of_raw sched fuel)"

section \<open>Cleaning and counting constraints\<close>

definition clean_node_constraints :: "dag_node \<Rightarrow> dag_node" where
  "clean_node_constraints node =
     node\<lparr>nd_constraints := fold (\<lambda>constraint kept.
        (let constraint = constraint_remove_zero_value_coefficients constraint
         in if \<not> constraint_is_empty constraint then kept @ [constraint] else kept)) (nd_constraints node) []\<rparr>"

definition clean_constraints :: "dag_node list \<Rightarrow> dag_node list" where
  "clean_constraints nodes = map clean_node_constraints nodes"

definition dag_clean_constraints :: "dag \<Rightarrow> dag" where
  "dag_clean_constraints d = d\<lparr>dg_nodes := clean_constraints (dg_nodes d)\<rparr>"

end
