(* ===== verification/Dag_Numbering.thy ===== *)
theory Dag_Numbering
  imports Dag
begin

text \<open>
  How the graph of \<open>dag/src/lib.rs\<close> numbers signals. The steps that build it are an inductive
  relation, with the guards under which \<open>insert_in_dag\<close> of
  \<open>constraint_generation/src/execution_data/executed_template.rs\<close> takes them: outputs, then public
  inputs, then private inputs, under new names; then subcomponents under new names; constraints over
  the signals there are. Every reachable graph is well-formed (\<open>dag_built_ok\<close>): the signals of a
  node and the ranges of its edges cover the numbers from one to its number of signals, each once.
  So the walk over the tree of components numbers the signals of the circuit without a gap.
\<close>

section \<open>Well-formed graphs\<close>

definition local_ids :: "dag_node \<Rightarrow> nat list" where
  "local_ids node = map snd (filter (\<lambda>(name, sid). sid \<in> nd_locals node) (nd_signal_correspondence node))"

definition edge_numbers :: "dag_edge list \<Rightarrow> nat multiset" where
  "edge_numbers es = sum_list (map (\<lambda>e. mset [eg_in_number e + 1..<eg_out_number e + 1]) es)"

definition numbers_ok :: "nat \<Rightarrow> dag_edge list \<Rightarrow> dag_node \<Rightarrow> bool" where
  "numbers_ok i es node \<longleftrightarrow>
     hm_wf (nd_signal_correspondence node) \<and> distinct (map snd (nd_signal_correspondence node)) \<and>
     snd ` set (nd_signal_correspondence node) \<subseteq> {1..nd_number_of_signals node} \<and>
     nd_locals node \<subseteq> {1..nd_number_of_signals node} \<and>
     mset (local_ids node) + edge_numbers es = mset [1..<nd_number_of_signals node + 1] \<and>
     nd_entry node = \<lparr>eg_label = ''main'', eg_goes_to = i, eg_in_number = 0, eg_out_number = nd_number_of_signals node,
       eg_in_component_number = 0, eg_out_component_number = nd_number_of_components node - 1\<rparr>"

definition edges_ok :: "(nat \<Rightarrow> nat) \<Rightarrow> nat \<Rightarrow> dag_edge list \<Rightarrow> bool" where
  "edges_ok size_of i es \<longleftrightarrow>
     (\<forall>e \<in> set es. eg_goes_to e < i \<and> eg_out_number e = eg_in_number e + size_of (eg_goes_to e))"

definition interface_ok :: "dag_node \<Rightarrow> bool" where
  "interface_ok node \<longleftrightarrow>
     nd_public_inputs_length node \<le> nd_inputs_length node \<and>
     nd_outputs_length node + nd_inputs_length node \<le> nd_number_of_signals node \<and>
     {1..nd_outputs_length node + nd_inputs_length node} \<subseteq> nd_locals node \<and>
     nd_io_signals node = [1..<nd_outputs_length node + nd_inputs_length node + 1] \<and>
     nd_forbidden_if_main node = {0..nd_outputs_length node + nd_public_inputs_length node} \<and>
     nd_locals node \<subseteq> nd_reachables node \<and> nd_reachables node \<subseteq> {1..nd_number_of_signals node} \<and>
     set (nd_ordered_signals node) \<subseteq> keys_of (nd_signal_correspondence node) \<and> 0 < nd_number_of_components node"

definition constraints_ok :: "int \<Rightarrow> dag_node \<Rightarrow> bool" where
  "constraints_ok p node \<longleftrightarrow>
     (\<forall>c \<in> set (nd_constraints node). con_reduced p c \<and> con_keys c \<subseteq> {..nd_number_of_signals node})"

definition node_ok :: "int \<Rightarrow> (nat \<Rightarrow> nat) \<Rightarrow> nat \<Rightarrow> dag_edge list \<Rightarrow> dag_node \<Rightarrow> bool" where
  "node_ok p size_of i es node \<longleftrightarrow>
     numbers_ok i es node \<and> edges_ok size_of i es \<and> interface_ok node \<and> constraints_ok p node"

definition dag_ok :: "int \<Rightarrow> dag \<Rightarrow> bool" where
  "dag_ok p d \<longleftrightarrow> length (dg_adjacency d) = length (dg_nodes d) \<and>
     (\<forall>i < length (dg_nodes d).
        node_ok p (\<lambda>j. nd_number_of_signals (dg_nodes d ! j)) i (dg_adjacency d ! i) (dg_nodes d ! i))"

section \<open>Building a graph\<close>

definition main_allows :: "(dag_node \<Rightarrow> bool) \<Rightarrow> dag \<Rightarrow> bool" where
  "main_allows P d \<longleftrightarrow> (case get_main d of None \<Rightarrow> True | Some node \<Rightarrow> P node)"

definition concrete_names :: "string \<Rightarrow> dag_node \<Rightarrow> string set" where
  "concrete_names label sub =
     (\<lambda>(name, sid). label @ ''.'' @ name) ` {(name, sid) \<in> set (nd_signal_correspondence sub). sid \<in> nd_locals sub}"

inductive dag_step :: "int \<Rightarrow> dag \<Rightarrow> dag \<Rightarrow> bool" for p :: int where
  new_node: "dag_step p d (snd (dag_add_node template_name parameters is_parallel is_custom_gate d))"
| new_output: "main_allows (\<lambda>n. name \<notin> keys_of (nd_signal_correspondence n) \<and>
      nd_number_of_signals n = nd_outputs_length n) d \<Longrightarrow>
    dag_step p d (dag_add_output name d)"
| public_input: "main_allows (\<lambda>n. name \<notin> keys_of (nd_signal_correspondence n) \<and>
      nd_number_of_signals n = nd_outputs_length n + nd_public_inputs_length n \<and>
      nd_inputs_length n = nd_public_inputs_length n) d \<Longrightarrow>
    dag_step p d (dag_add_input name True d)"
| private_input: "main_allows (\<lambda>n. name \<notin> keys_of (nd_signal_correspondence n) \<and>
      nd_number_of_signals n = nd_outputs_length n + nd_inputs_length n) d \<Longrightarrow>
    dag_step p d (dag_add_input name False d)"
| intermediate: "main_allows (\<lambda>n. name \<notin> keys_of (nd_signal_correspondence n)) d \<Longrightarrow>
    dag_step p d (dag_add_intermediate name d)"
| ordered_signal: "main_allows (\<lambda>n. name \<in> keys_of (nd_signal_correspondence n)) d \<Longrightarrow>
    dag_step p d (dag_add_ordered_signal name d)"
| new_edge: "main_allows (\<lambda>n. concrete_names label (dg_nodes d ! to) \<inter> keys_of (nd_signal_correspondence n) = {}) d \<Longrightarrow>
    dag_add_edge to label is_parallel d = Some (e, d') \<Longrightarrow> dag_step p d d'"
| new_constraint: "main_allows (\<lambda>n. con_reduced p c \<and> con_keys c \<subseteq> {..nd_number_of_signals n}) d \<Longrightarrow>
    dag_step p d (dag_add_constraint c d)"
| underscored: "dag_step p d (dag_add_underscored_signal signal d)"
| subcomponents: "dag_step p d (dag_set_number_of_subcomponents_indexes number_scmp d)"

definition dag_built :: "int \<Rightarrow> string \<Rightarrow> dag \<Rightarrow> bool" where
  "dag_built p prime d \<longleftrightarrow> (dag_step p)\<^sup>*\<^sup>* (dag_new prime) d"

section \<open>Every step keeps a graph well-formed\<close>

lemma hm_insert_fresh: "k \<notin> keys_of m \<Longrightarrow> hm_insert k v m = m @ [(k, v)]"
  by (induction m) auto

lemma edge_numbers_simps [simp]:
  "edge_numbers [] = {#}"
  "edge_numbers (es @ [e]) = edge_numbers es + mset [eg_in_number e + 1..<eg_out_number e + 1]"
  by (simp_all add: edge_numbers_def)

lemma node_ok_size_cong:
  assumes "\<And>j. j < i \<Longrightarrow> size_of j = size_of' j"
  shows "node_ok p size_of i es node = node_ok p size_of' i es node"
  using assms by (auto simp: node_ok_def edges_ok_def)

lemma node_new_ok: "node_ok p size_of i [] (node_new i name parameters par custom)"
  by (simp add: node_ok_def numbers_ok_def edges_ok_def interface_ok_def constraints_ok_def node_new_def local_ids_def
      edge_new_entry_def)

lemma local_ids_signal:
  assumes "name \<notin> keys_of corr" and "sid \<notin> snd ` set corr"
  shows "filter (\<lambda>(name, s). s \<in> insert sid L) (corr @ [(name, sid)]) =
    filter (\<lambda>(name, s). s \<in> L) corr @ [(name, sid)]"
proof -
  have "filter (\<lambda>(name, s). s \<in> insert sid L) corr = filter (\<lambda>(name, s). s \<in> L) corr"
    using assms(2) by (intro filter_cong) (auto simp: image_iff)
  then show ?thesis by simp
qed

text \<open>What the three kinds of signal have in common.\<close>

lemma numbers_ok_signal:
  assumes "numbers_ok i es node" and "name \<notin> keys_of (nd_signal_correspondence node)"
    and new: "nd_signal_correspondence node' =
        hm_insert name (nd_number_of_signals node + 1) (nd_signal_correspondence node)"
      "nd_locals node' = insert (nd_number_of_signals node + 1) (nd_locals node)"
      "nd_number_of_signals node' = nd_number_of_signals node + 1"
      "nd_entry node' = entry_grown 1 (nd_entry node)"
      "nd_number_of_components node' = nd_number_of_components node"
  shows "numbers_ok i es node'"
proof -
  let ?n = "nd_number_of_signals node" and ?corr = "nd_signal_correspondence node"
  have corr: "nd_signal_correspondence node' = ?corr @ [(name, ?n + 1)]"
    using new(1) by (simp add: hm_insert_fresh [OF assms(2)])
  have n: "snd ` set ?corr \<subseteq> {1..?n}" "hm_wf ?corr" "distinct (map snd ?corr)" "nd_locals node \<subseteq> {1..?n}"
    and m: "mset (local_ids node) + edge_numbers es = mset [1..<?n + 1]"
    using assms(1) by (simp_all add: numbers_ok_def)
  have f: "?n + 1 \<notin> snd ` set ?corr" using n(1) by fastforce
  have "local_ids node' = local_ids node @ [?n + 1]"
    unfolding local_ids_def corr new(2) local_ids_signal [OF assms(2) f] by simp
  then have "mset (local_ids node') + edge_numbers es = mset [1..<nd_number_of_signals node' + 1]"
    using m by (simp add: new(3))
  moreover have "hm_wf (nd_signal_correspondence node')" using n(2) new(1) by simp
  moreover have "distinct (map snd (nd_signal_correspondence node'))" using n(3) f by (simp add: corr)
  moreover have "snd ` set (nd_signal_correspondence node') \<subseteq> {1..nd_number_of_signals node'}"
    using n(1) by (auto simp: corr new(3))
  moreover have "nd_locals node' \<subseteq> {1..nd_number_of_signals node'}" using n(4) by (auto simp: new)
  ultimately show ?thesis using assms(1) by (simp add: numbers_ok_def new entry_grown_def)
qed

lemma constraints_ok_more:
  assumes "constraints_ok p node" and "nd_constraints node' = nd_constraints node"
    and "nd_number_of_signals node \<le> nd_number_of_signals node'"
  shows "constraints_ok p node'"
  using assms by (fastforce simp: constraints_ok_def)

lemma node_add_output_ok:
  assumes "node_ok p size_of i es node" and "name \<notin> keys_of (nd_signal_correspondence node)"
    and "nd_number_of_signals node = nd_outputs_length node"
  shows "node_ok p size_of i es (node_add_output name node)"
proof -
  have a: "numbers_ok i es node" "edges_ok size_of i es" "interface_ok node" "constraints_ok p node"
    using assms(1) by (simp_all add: node_ok_def)
  have "numbers_ok i es (node_add_output name node)"
    by (rule numbers_ok_signal [OF a(1) assms(2)]) (simp_all add: node_add_output_def Let_def)
  moreover have "constraints_ok p (node_add_output name node)"
    by (rule constraints_ok_more [OF a(4)]) (simp_all add: node_add_output_def Let_def)
  moreover have "interface_ok (node_add_output name node)"
    using a(3) assms(3) by (auto simp: interface_ok_def node_add_output_def Let_def atLeastAtMostSuc_conv)
  ultimately show ?thesis using a(2) by (simp add: node_ok_def)
qed

lemma node_add_input_ok:
  assumes "node_ok p size_of i es node" and "name \<notin> keys_of (nd_signal_correspondence node)"
    and "nd_number_of_signals node = nd_outputs_length node + nd_inputs_length node"
    and "is_public \<Longrightarrow> nd_inputs_length node = nd_public_inputs_length node"
  shows "node_ok p size_of i es (node_add_input name is_public node)"
proof -
  have a: "numbers_ok i es node" "edges_ok size_of i es" "interface_ok node" "constraints_ok p node"
    using assms(1) by (simp_all add: node_ok_def)
  have "numbers_ok i es (node_add_input name is_public node)"
    by (rule numbers_ok_signal [OF a(1) assms(2)]) (simp_all add: node_add_input_def Let_def)
  moreover have "constraints_ok p (node_add_input name is_public node)"
    by (rule constraints_ok_more [OF a(4)]) (simp_all add: node_add_input_def Let_def)
  moreover have "interface_ok (node_add_input name is_public node)"
    using a(3) assms(3,4) by (cases is_public) (auto simp: interface_ok_def node_add_input_def Let_def atLeastAtMostSuc_conv)
  ultimately show ?thesis using a(2) by (simp add: node_ok_def)
qed

lemma node_add_intermediate_ok:
  assumes "node_ok p size_of i es node" and "name \<notin> keys_of (nd_signal_correspondence node)"
  shows "node_ok p size_of i es (node_add_intermediate name node)"
proof -
  have a: "numbers_ok i es node" "edges_ok size_of i es" "interface_ok node" "constraints_ok p node"
    using assms(1) by (simp_all add: node_ok_def)
  have "numbers_ok i es (node_add_intermediate name node)"
    by (rule numbers_ok_signal [OF a(1) assms(2)]) (simp_all add: node_add_intermediate_def Let_def)
  moreover have "constraints_ok p (node_add_intermediate name node)"
    by (rule constraints_ok_more [OF a(4)]) (simp_all add: node_add_intermediate_def Let_def)
  moreover have "interface_ok (node_add_intermediate name node)"
    using a(3) by (auto simp: interface_ok_def node_add_intermediate_def Let_def)
  ultimately show ?thesis using a(2) by (simp add: node_ok_def)
qed

lemma node_add_ordered_signal_ok:
  "node_ok p size_of i es node \<Longrightarrow> name \<in> keys_of (nd_signal_correspondence node) \<Longrightarrow>
    node_ok p size_of i es (node_add_ordered_signal name node)"
  by (simp add: node_ok_def numbers_ok_def interface_ok_def constraints_ok_def local_ids_def node_add_ordered_signal_def)

lemma node_add_constraint_ok:
  "node_ok p size_of i es node \<Longrightarrow> con_reduced p c \<and> con_keys c \<subseteq> {..nd_number_of_signals node} \<Longrightarrow>
    node_ok p size_of i es (node_add_constraint c node)"
  by (auto simp: node_ok_def numbers_ok_def interface_ok_def constraints_ok_def local_ids_def node_add_constraint_def)

lemma node_plain_ok:
  "node_ok p size_of i es node \<Longrightarrow> node_ok p size_of i es (node_add_underscored_signal s node)"
  "node_ok p size_of i es node \<Longrightarrow> node_ok p size_of i es (node_set_number_of_subcomponents_indexes k node)"
  by (simp_all add: node_ok_def numbers_ok_def interface_ok_def constraints_ok_def local_ids_def
      node_add_underscored_signal_def node_set_number_of_subcomponents_indexes_def)

text \<open>A subcomponent.\<close>

lemma add_concrete_signals:
  assumes "hm_wf sc" and "\<forall>(name, sid) \<in> set sc. sid \<in> nd_locals sub \<longrightarrow> label @ ''.'' @ name \<notin> keys_of corr"
  shows "\<exists>r'. fold (add_concrete_signal label sub n) sc (corr, r) =
      (corr @ map (\<lambda>(name, sid). (label @ ''.'' @ name, n + sid)) (filter (\<lambda>(name, sid). sid \<in> nd_locals sub) sc), r') \<and>
    r \<subseteq> r' \<and> r' \<subseteq> r \<union> (\<lambda>sid. n + sid) ` nd_locals sub"
  using assms
proof (induction sc arbitrary: corr r)
  case (Cons e sc)
  obtain name sid where e: "e = (name, sid)" by (cases e)
  have wf: "hm_wf sc" "name \<notin> keys_of sc" using Cons.prems(1) by (simp_all add: hm_wf_Cons e)
  show ?case
  proof (cases "sid \<in> nd_locals sub")
    case True
    let ?k = "label @ ''.'' @ name"
    let ?r = "if sid \<le> nd_inputs_length sub + nd_outputs_length sub then insert (n + sid) r else r"
    have f: "?k \<notin> keys_of corr" using Cons.prems(2) True by (auto simp: e)
    have s: "add_concrete_signal label sub n e (corr, r) = (corr @ [(?k, n + sid)], ?r)"
      using True hm_insert_fresh [OF f] by (simp add: add_concrete_signal_def e is_local_signal_def Let_def)
    have "\<forall>(name', sid') \<in> set sc. sid' \<in> nd_locals sub \<longrightarrow> label @ ''.'' @ name' \<notin> keys_of (corr @ [(?k, n + sid)])"
    proof (intro ballI, clarify)
      fix name' sid' assume m: "(name', sid') \<in> set sc" "sid' \<in> nd_locals sub"
        "label @ ''.'' @ name' \<in> keys_of (corr @ [(?k, n + sid)])"
      have "name' \<noteq> name" using in_keys_of [OF m(1)] wf(2) by blast
      then show False using Cons.prems(2) m by (auto simp: e)
    qed
    from Cons.IH [OF wf(1) this, of ?r] obtain r' where r':
      "fold (add_concrete_signal label sub n) sc (corr @ [(?k, n + sid)], ?r) =
        ((corr @ [(?k, n + sid)]) @ map (\<lambda>(name, sid). (label @ ''.'' @ name, n + sid)) (filter (\<lambda>(name, sid). sid \<in> nd_locals sub) sc), r')"
      "?r \<subseteq> r'" "r' \<subseteq> ?r \<union> (\<lambda>sid. n + sid) ` nd_locals sub" by blast
    have "r' \<subseteq> r \<union> (\<lambda>sid. n + sid) ` nd_locals sub" using r'(3) True by (auto split: if_splits)
    moreover have "r \<subseteq> r'" using r'(2) by (auto split: if_splits)
    moreover have "fold (add_concrete_signal label sub n) (e # sc) (corr, r) =
        (corr @ map (\<lambda>(name, sid). (label @ ''.'' @ name, n + sid)) (filter (\<lambda>(name, sid). sid \<in> nd_locals sub) (e # sc)), r')"
      using r'(1) s True by (simp add: e)
    ultimately show ?thesis by blast
  next
    case False
    then have s: "add_concrete_signal label sub n e (corr, r) = (corr, r)"
      by (simp add: add_concrete_signal_def e is_local_signal_def)
    have "\<forall>(name, sid) \<in> set sc. sid \<in> nd_locals sub \<longrightarrow> label @ ''.'' @ name \<notin> keys_of corr"
      using Cons.prems(2) by auto
    from Cons.IH [OF wf(1) this, of r] show ?thesis using s False by (simp add: e)
  qed
qed simp


definition concrete_signals :: "string \<Rightarrow> dag_node \<Rightarrow> nat \<Rightarrow> (string, nat) hmap" where
  "concrete_signals label sub n = map (\<lambda>(name, sid). (label @ ''.'' @ name, n + sid))
     (filter (\<lambda>(name, sid). sid \<in> nd_locals sub) (nd_signal_correspondence sub))"

lemma keys_concrete: "keys_of (concrete_signals label sub n) = concrete_names label sub"
  by (force simp: concrete_signals_def concrete_names_def keys_of_def)

lemma values_concrete: "map snd (concrete_signals label sub n) = map (\<lambda>sid. n + sid) (local_ids sub)"
  by (simp add: concrete_signals_def local_ids_def comp_def case_prod_unfold)

lemma hm_wf_concrete:
  assumes "hm_wf (nd_signal_correspondence sub)"
  shows "hm_wf (concrete_signals label sub n)"
proof -
  have "map fst (concrete_signals label sub n) =
      map (\<lambda>name. label @ ''.'' @ name) (map fst (filter (\<lambda>(name, sid). sid \<in> nd_locals sub) (nd_signal_correspondence sub)))"
    by (simp add: concrete_signals_def comp_def case_prod_unfold)
  moreover have "distinct (map fst (filter (\<lambda>(name, sid). sid \<in> nd_locals sub) (nd_signal_correspondence sub)))"
    using hm_wf_filter [OF assms] unfolding hm_wf_def by blast
  ultimately show ?thesis unfolding hm_wf_def by (simp only: distinct_map [of "\<lambda>name. label @ ''.'' @ name"]) (simp add: inj_on_def)
qed

lemma set_local_ids: "set (local_ids node) \<subseteq> nd_locals node"
  by (auto simp: local_ids_def)

lemma distinct_local_ids: "distinct (map snd (nd_signal_correspondence node)) \<Longrightarrow> distinct (local_ids node)"
  by (simp add: local_ids_def distinct_map_filter)

lemma numbers_ok_subcomponent:
  assumes node: "numbers_ok i es node" and sub: "numbers_ok j es' sub" and pos: "0 < nd_number_of_components node"
    and fresh: "concrete_names label sub \<inter> keys_of (nd_signal_correspondence node) = {}"
    and new: "nd_signal_correspondence node' =
        nd_signal_correspondence node @ concrete_signals label sub (nd_number_of_signals node)"
      "nd_locals node' = nd_locals node"
      "nd_number_of_signals node' = nd_number_of_signals node + nd_number_of_signals sub"
      "nd_number_of_components node' = nd_number_of_components node + nd_number_of_components sub"
      "nd_entry node' = (nd_entry node)\<lparr>eg_out_number := eg_out_number (nd_entry node) + nd_number_of_signals sub,
         eg_out_component_number := eg_out_component_number (nd_entry node) + nd_number_of_components sub\<rparr>"
    and e: "eg_in_number e = nd_number_of_signals node" "eg_out_number e = nd_number_of_signals node + nd_number_of_signals sub"
  shows "numbers_ok i (es @ [e]) node'"
proof -
  let ?n = "nd_number_of_signals node" and ?k = "nd_number_of_signals sub"
  let ?corr = "nd_signal_correspondence node" and ?con = "concrete_signals label sub (nd_number_of_signals node)"
  have n: "snd ` set ?corr \<subseteq> {1..?n}" "hm_wf ?corr" "distinct (map snd ?corr)" "nd_locals node \<subseteq> {1..?n}"
    and m: "mset (local_ids node) + edge_numbers es = mset [1..<?n + 1]"
    using node by (simp_all add: numbers_ok_def)
  have k: "hm_wf (nd_signal_correspondence sub)" "distinct (local_ids sub)" "nd_locals sub \<subseteq> {1..?k}"
    using sub distinct_local_ids by (simp_all add: numbers_ok_def)
  have vals: "snd ` set ?con = (\<lambda>sid. ?n + sid) ` set (local_ids sub)"
    by (metis set_map values_concrete)
  have "(\<lambda>sid. ?n + sid) ` set (local_ids sub) \<subseteq> (\<lambda>sid. ?n + sid) ` {1..?k}"
    by (rule image_mono) (rule subset_trans [OF set_local_ids k(3)])
  then have big: "snd ` set ?con \<subseteq> {?n + 1..?n + ?k}" unfolding vals by (simp add: add.commute)
  have "filter (\<lambda>(name, s). s \<in> nd_locals node) ?con = []"
    unfolding filter_empty_conv using big n(4) by fastforce
  then have "local_ids node' = local_ids node" by (simp add: local_ids_def new)
  moreover have "[1..<?n + ?k + 1] = [1..<?n + 1] @ [?n + 1..<?n + ?k + 1]"
    using upt_add_eq_append [of 1 "?n + 1" ?k] by (simp add: add.commute add.left_commute)
  ultimately have "mset (local_ids node') + edge_numbers (es @ [e]) = mset [1..<nd_number_of_signals node' + 1]"
    using m by (simp add: new(3) e flip: add.assoc)
  moreover have "hm_wf (nd_signal_correspondence node')"
    using n(2) hm_wf_concrete [OF k(1)] fresh keys_concrete [of label sub ?n] unfolding new(1) hm_wf_def keys_of_def by auto
  moreover have "distinct (map snd (nd_signal_correspondence node'))"
  proof -
    have "distinct (map snd ?con)" using k(2) by (simp add: values_concrete distinct_map)
    moreover have "set (map snd ?corr) \<inter> set (map snd ?con) = {}" using n(1) big by fastforce
    ultimately show ?thesis using n(3) by (simp add: new(1))
  qed
  moreover have "snd ` set (nd_signal_correspondence node') \<subseteq> {1..nd_number_of_signals node'}"
    using n(1) big by (fastforce simp: new(1,3))
  moreover have "nd_locals node' \<subseteq> {1..nd_number_of_signals node'}" using n(4) by (fastforce simp: new)
  ultimately show ?thesis using node pos by (simp add: numbers_ok_def new)
qed

lemma dag_okD:
  "dag_ok p d \<Longrightarrow> i < length (dg_nodes d) \<Longrightarrow>
    node_ok p (\<lambda>j. nd_number_of_signals (dg_nodes d ! j)) i (dg_adjacency d ! i) (dg_nodes d ! i)"
  by (simp add: dag_ok_def)

text \<open>Only the main node changes, and no node depends on it.\<close>

lemma dag_ok_change_main:
  assumes "dag_ok p d" and "dg_nodes d \<noteq> []" and m: "m = length (dg_nodes d) - 1"
    and "node_ok p (\<lambda>j. nd_number_of_signals (dg_nodes d ! j)) m es node"
    and d': "dg_nodes d' = (dg_nodes d)[m := node]" "dg_adjacency d' = (dg_adjacency d)[m := es]"
  shows "dag_ok p d'"
proof -
  have l: "length (dg_adjacency d) = length (dg_nodes d)" "m < length (dg_nodes d)"
    using assms(1,2) by (simp_all add: dag_ok_def m)
  have "node_ok p (\<lambda>j. nd_number_of_signals (dg_nodes d' ! j)) i (dg_adjacency d' ! i) (dg_nodes d' ! i)"
    if i: "i < length (dg_nodes d)" for i
  proof -
    have "node_ok p (\<lambda>j. nd_number_of_signals (dg_nodes d ! j)) i (dg_adjacency d' ! i) (dg_nodes d' ! i)"
      using dag_okD [OF assms(1) i] assms(4) i l by (cases "i = m") (simp_all add: d')
    moreover have "node_ok p (\<lambda>j. nd_number_of_signals (dg_nodes d' ! j)) i (dg_adjacency d' ! i) (dg_nodes d' ! i) =
        node_ok p (\<lambda>j. nd_number_of_signals (dg_nodes d ! j)) i (dg_adjacency d' ! i) (dg_nodes d' ! i)"
      by (rule node_ok_size_cong) (use i in \<open>simp add: d' m\<close>)
    ultimately show ?thesis by blast
  qed
  then show ?thesis by (simp add: dag_ok_def d' l)
qed

lemma update_main_ok:
  assumes "dag_ok p d" and "main_allows P d"
    and "\<And>size_of i es node. P node \<Longrightarrow> node_ok p size_of i es node \<Longrightarrow> node_ok p size_of i es (f node)"
  shows "dag_ok p (update_main f d)"
proof (cases "dg_nodes d = []")
  case False
  let ?m = "length (dg_nodes d) - 1"
  have m: "?m < length (dg_nodes d)" "last (dg_nodes d) = dg_nodes d ! ?m" using False by (simp_all add: last_conv_nth)
  have "P (dg_nodes d ! ?m)" using assms(2) False m by (simp add: main_allows_def get_main_def)
  then have "node_ok p (\<lambda>j. nd_number_of_signals (dg_nodes d ! j)) ?m (dg_adjacency d ! ?m) (f (dg_nodes d ! ?m))"
    using assms(3) dag_okD [OF assms(1) m(1)] by blast
  then show ?thesis
    by (rule dag_ok_change_main [OF assms(1) False refl]) (use False m in \<open>simp_all add: update_main_def\<close>)
qed (simp add: update_main_def assms)

lemma dag_add_node_ok:
  assumes "dag_ok p d"
  shows "dag_ok p (snd (dag_add_node template_name parameters is_parallel is_custom_gate d))"
proof -
  let ?d' = "snd (dag_add_node template_name parameters is_parallel is_custom_gate d)"
  have l: "length (dg_adjacency d) = length (dg_nodes d)" using assms by (simp add: dag_ok_def)
  have d': "dg_nodes ?d' = dg_nodes d @ [node_new (length (dg_nodes d)) template_name parameters is_parallel is_custom_gate]"
    "dg_adjacency ?d' = dg_adjacency d @ [[]]" by (simp_all add: dag_add_node_def Let_def)
  have "node_ok p (\<lambda>j. nd_number_of_signals (dg_nodes ?d' ! j)) i (dg_adjacency ?d' ! i) (dg_nodes ?d' ! i)"
    if i: "i < length (dg_nodes ?d')" for i
  proof (cases "i < length (dg_nodes d)")
    case True
    have "node_ok p (\<lambda>j. nd_number_of_signals (dg_nodes ?d' ! j)) i es node =
        node_ok p (\<lambda>j. nd_number_of_signals (dg_nodes d ! j)) i es node" for es node
      by (rule node_ok_size_cong) (use True in \<open>simp add: d' nth_append\<close>)
    moreover have "dg_adjacency ?d' ! i = dg_adjacency d ! i" "dg_nodes ?d' ! i = dg_nodes d ! i"
      using True l by (simp_all add: d' nth_append)
    ultimately show ?thesis using dag_okD [OF assms True] by metis
  next
    case False
    then have "i = length (dg_nodes d)" using i by (simp add: d')
    then show ?thesis using l by (simp add: d' nth_append node_new_ok)
  qed
  then show ?thesis using l by (simp add: dag_ok_def d')
qed

lemma dag_add_edge_ok:
  assumes "dag_ok p d"
    and fresh: "main_allows (\<lambda>n. concrete_names label (dg_nodes d ! to) \<inter> keys_of (nd_signal_correspondence n) = {}) d"
    and "dag_add_edge to label is_parallel d = Some (e, d')"
  shows "dag_ok p d'"
proof -
  have ne: "dg_nodes d \<noteq> []" using assms(3) by (auto simp: dag_add_edge_def main_id_def split: if_splits)
  define m where "m = length (dg_nodes d) - 1"
  have m: "main_id d = Some m" "m < length (dg_nodes d)" "last (dg_nodes d) = dg_nodes d ! m"
    using ne by (simp_all add: main_id_def last_conv_nth m_def)
  show ?thesis
  proof (cases "to < m")
    case False
    then have "d' = d" using assms(3) by (simp add: dag_add_edge_def m(1))
    then show ?thesis using assms(1) by simp
  next
    case True
    define node where "node = dg_nodes d ! m"
    define sub where "sub = dg_nodes d ! to"
    have N: "node_ok p (\<lambda>j. nd_number_of_signals (dg_nodes d ! j)) m (dg_adjacency d ! m) node"
      unfolding node_def by (rule dag_okD [OF assms(1) m(2)])
    have S: "node_ok p (\<lambda>j. nd_number_of_signals (dg_nodes d ! j)) to (dg_adjacency d ! to) sub"
      unfolding sub_def by (rule dag_okD [OF assms(1)]) (use True m in simp)
    have f: "concrete_names label sub \<inter> keys_of (nd_signal_correspondence node) = {}"
      using fresh ne m by (simp add: main_allows_def get_main_def node_def sub_def)
    have wf: "hm_wf (nd_signal_correspondence sub)" using S by (simp add: node_ok_def numbers_ok_def)
    have "\<forall>(name, sid) \<in> set (nd_signal_correspondence sub). sid \<in> nd_locals sub \<longrightarrow>
        label @ ''.'' @ name \<notin> keys_of (nd_signal_correspondence node)"
      using f by (fastforce simp: concrete_names_def)
    from add_concrete_signals [OF wf this, of "nd_number_of_signals node" "nd_reachables node"] obtain r' where
      r': "fold (add_concrete_signal label sub (nd_number_of_signals node)) (nd_signal_correspondence sub)
        (nd_signal_correspondence node, nd_reachables node) =
        (nd_signal_correspondence node @ concrete_signals label sub (nd_number_of_signals node), r')"
      "nd_reachables node \<subseteq> r'" "r' \<subseteq> nd_reachables node \<union> (\<lambda>sid. nd_number_of_signals node + sid) ` nd_locals sub"
      unfolding concrete_signals_def by blast
    let ?e = "\<lparr>eg_label = label, eg_goes_to = to, eg_in_number = nd_number_of_signals node,
      eg_out_number = nd_number_of_signals node + nd_number_of_signals sub,
      eg_in_component_number = nd_number_of_components node,
      eg_out_component_number = nd_number_of_components node + nd_number_of_components sub\<rparr>"
    define node' where "node' = node\<lparr>nd_number_of_signals := nd_number_of_signals node + nd_number_of_signals sub,
       nd_entry := (nd_entry node)\<lparr>eg_out_number := eg_out_number (nd_entry node) + nd_number_of_signals sub,
         eg_out_component_number := eg_out_component_number (nd_entry node) + nd_number_of_components sub\<rparr>,
       nd_number_of_components := nd_number_of_components node + nd_number_of_components sub,
       nd_has_parallel_sub_cmp := nd_has_parallel_sub_cmp node \<or> nd_is_parallel sub \<or> is_parallel,
       nd_signal_correspondence := nd_signal_correspondence node @ concrete_signals label sub (nd_number_of_signals node),
       nd_reachables := r'\<rparr>"
    have l: "length (dg_adjacency d) = length (dg_nodes d)" using assms(1) by (simp add: dag_ok_def)
    have d': "d' = d\<lparr>dg_nodes := (dg_nodes d)[m := node'], dg_adjacency := (dg_adjacency d)[m := dg_adjacency d ! m @ [?e]]\<rparr>"
      using assms(3) m(2) l True r'(1) unfolding dag_add_edge_def m(1)
      by (simp add: Let_def node_def [symmetric] sub_def [symmetric] node'_def)
    have a: "numbers_ok m (dg_adjacency d ! m) node" "interface_ok node" "constraints_ok p node"
      "edges_ok (\<lambda>j. nd_number_of_signals (dg_nodes d ! j)) m (dg_adjacency d ! m)"
      and b: "numbers_ok to (dg_adjacency d ! to) sub" "nd_locals sub \<subseteq> {1..nd_number_of_signals sub}"
      using N S by (simp_all add: node_ok_def numbers_ok_def)
    have "numbers_ok m (dg_adjacency d ! m @ [?e]) node'"
      by (rule numbers_ok_subcomponent [OF a(1) b(1) _ f]) (use a(2) in \<open>simp_all add: node'_def interface_ok_def\<close>)
    moreover have "edges_ok (\<lambda>j. nd_number_of_signals (dg_nodes d ! j)) m (dg_adjacency d ! m @ [?e])"
      using a(4) True by (auto simp: edges_ok_def sub_def)
    moreover have "constraints_ok p node'" by (rule constraints_ok_more [OF a(3)]) (simp_all add: node'_def)
    moreover have "interface_ok node'"
    proof -
      have "r' \<subseteq> {1..nd_number_of_signals node + nd_number_of_signals sub}"
        using r'(3) b(2) a(2) unfolding interface_ok_def by fastforce
      then show ?thesis using a(2) r'(2) by (auto simp: interface_ok_def node'_def)
    qed
    ultimately have "node_ok p (\<lambda>j. nd_number_of_signals (dg_nodes d ! j)) m (dg_adjacency d ! m @ [?e]) node'"
      by (simp add: node_ok_def)
    then show ?thesis by (rule dag_ok_change_main [OF assms(1) ne m_def]) (simp_all add: d')
  qed
qed

lemma dag_step_ok:
  assumes "dag_step p d d'" and "dag_ok p d"
  shows "dag_ok p d'"
  using assms
proof cases
  case (new_output name)
  show ?thesis unfolding new_output(1) dag_add_output_def
    by (rule update_main_ok [OF assms(2) new_output(2)]) (blast intro: node_add_output_ok)
next
  case (public_input name)
  show ?thesis unfolding public_input(1) dag_add_input_def
    by (rule update_main_ok [OF assms(2) public_input(2)]) (auto intro: node_add_input_ok)
next
  case (private_input name)
  show ?thesis unfolding private_input(1) dag_add_input_def
    by (rule update_main_ok [OF assms(2) private_input(2)]) (auto intro: node_add_input_ok)
next
  case (intermediate name)
  show ?thesis unfolding intermediate(1) dag_add_intermediate_def
    by (rule update_main_ok [OF assms(2) intermediate(2)]) (rule node_add_intermediate_ok)
next
  case (ordered_signal name)
  show ?thesis unfolding ordered_signal(1) dag_add_ordered_signal_def
    by (rule update_main_ok [OF assms(2) ordered_signal(2)]) (rule node_add_ordered_signal_ok)
next
  case (new_constraint c)
  show ?thesis unfolding new_constraint(1) dag_add_constraint_def
    by (rule update_main_ok [OF assms(2) new_constraint(2)]) (rule node_add_constraint_ok)
next
  case (underscored signal)
  have "main_allows (\<lambda>_. True) d" by (simp add: main_allows_def split: option.split)
  then show ?thesis unfolding underscored(1) dag_add_underscored_signal_def
    by (rule update_main_ok [OF assms(2)]) (rule node_plain_ok)
next
  case (subcomponents k)
  have "main_allows (\<lambda>_. True) d" by (simp add: main_allows_def split: option.split)
  then show ?thesis unfolding subcomponents(1) dag_set_number_of_subcomponents_indexes_def
    by (rule update_main_ok [OF assms(2)]) (rule node_plain_ok)
next
  case (new_edge label to is_parallel e)
  show ?thesis by (rule dag_add_edge_ok [OF assms(2) new_edge])
next
  case new_node
  then show ?thesis using dag_add_node_ok [OF assms(2)] by simp
qed

lemma dag_built_ok: "dag_built p prime d \<Longrightarrow> dag_ok p d"
  unfolding dag_built_def
  by (induction rule: rtranclp_induct) (simp add: dag_ok_def dag_new_def, rule dag_step_ok)

end
