(* ===== verification/Dag_Tree.thy ===== *)
theory Dag_Tree
  imports Dag_Numbering
begin

text \<open>
  The walk over the tree of components, \<open>Tree\<close> of \<open>dag/src/lib.rs\<close>. The instances of the circuit are
  pairs of a node and an offset (\<open>instance_of\<close>); a walk visits them in preorder, and its signals are
  the numbers from one to the number of signals of the main node, each once. So the witness of
  \<open>dag/src/witness_producer.rs\<close> lists every signal of the circuit exactly once.
\<close>

section \<open>Component instances\<close>

inductive instance_of :: "dag \<Rightarrow> nat \<Rightarrow> nat \<Rightarrow> nat \<Rightarrow> nat \<Rightarrow> bool" for d :: dag and i :: nat and off :: nat where
  self: "instance_of d i off i off"
| below: "instance_of d i off j off' \<Longrightarrow> e \<in> set (dg_adjacency d ! j) \<Longrightarrow>
    instance_of d i off (eg_goes_to e) (off' + eg_in_number e)"

lemma instance_of_step:
  assumes "e \<in> set (dg_adjacency d ! i)" and "instance_of d (eg_goes_to e) (off + eg_in_number e) j off'"
  shows "instance_of d i off j off'"
  using assms(2,1) by induction (auto intro: instance_of.intros)

lemma instance_of_cases_first:
  assumes "instance_of d i off j off'"
  shows "(j = i \<and> off' = off) \<or> (\<exists>e \<in> set (dg_adjacency d ! i). instance_of d (eg_goes_to e) (off + eg_in_number e) j off')"
  using assms by induction (auto intro: instance_of.intros)

section \<open>Trees\<close>

definition tree_children :: "dag_tree \<Rightarrow> dag_tree list option" where
  "tree_children tree = Option.bind (tree_get_edges tree) (\<lambda>es. those (map (go_to_subtree tree) es))"

definition tree_at :: "dag \<Rightarrow> dag_tree \<Rightarrow> bool" where
  "tree_at d tree \<longleftrightarrow> tr_dag tree = d \<and> tr_node_id tree < length (dg_nodes d) \<and>
     tr_signals tree = sort (map (\<lambda>s. s + tr_offset tree) (local_ids (dg_nodes d ! tr_node_id tree)))"

lemma fold_tree_signal:
  "fst (fold (tree_signal node off noff) corr (signals, names)) =
    signals @ map (\<lambda>s. s + off) (map snd (filter (\<lambda>(name, sid). sid \<in> nd_locals node) corr))"
proof (induction corr arbitrary: signals names)
  case (Cons e corr)
  then show ?case by (cases e) (simp add: tree_signal_def is_local_signal_def)
qed simp

lemma go_to_subtree_at:
  assumes "tree_at d tree" and "eg_goes_to e < length (dg_nodes d)"
  shows "\<exists>sub. go_to_subtree tree e = Some sub \<and> tree_at d sub \<and> tr_node_id sub = eg_goes_to e \<and>
    tr_offset sub = tr_offset tree + eg_in_number e \<and> tr_field sub = tr_field tree \<and>
    tr_constraints sub = map (\<lambda>c. constraint_apply_offset c (tr_offset sub))
      (filter (\<lambda>c. \<not> constraint_is_empty c) (nd_constraints (dg_nodes d ! eg_goes_to e)))"
proof -
  let ?node = "dg_nodes d ! eg_goes_to e" and ?off = "tr_offset tree + eg_in_number e"
  obtain signals names where f: "fold (tree_signal ?node ?off ?off) (nd_signal_correspondence ?node) ([], []) = (signals, names)"
    by (cases "fold (tree_signal ?node ?off ?off) (nd_signal_correspondence ?node) ([], [])")
  then have "signals = map (\<lambda>s. s + ?off) (local_ids ?node)"
    using fold_tree_signal [of ?node ?off ?off "nd_signal_correspondence ?node" "[]" "[]"] by (simp add: local_ids_def)
  then show ?thesis using assms f by (simp add: go_to_subtree_def tree_at_def Let_def)
qed

definition constants_of :: "dag \<Rightarrow> int \<Rightarrow> bool" where
  "constants_of d p \<longleftrightarrow> UsefulConstants_new (dg_prime d) = Some p"

lemma tree_new_at:
  assumes "dg_nodes d \<noteq> []" and "dag_ok p d" and "constants_of d q"
  shows "\<exists>tree. tree_new d = Some tree \<and> tree_at d tree \<and> tr_node_id tree = length (dg_nodes d) - 1 \<and>
    tr_offset tree = 0 \<and> tr_field tree = q \<and> tr_constraints tree = nd_constraints (last (dg_nodes d))"
proof -
  let ?m = "length (dg_nodes d) - 1"
  let ?node = "last (dg_nodes d)"
  have m: "?m < length (dg_nodes d)" "?node = dg_nodes d ! ?m" using assms(1) by (simp_all add: last_conv_nth)
  have e: "eg_in_number (nd_entry ?node) = 0"
    using dag_okD [OF assms(2) m(1)] m(2) by (simp add: node_ok_def numbers_ok_def)
  obtain signals names where f: "fold (tree_signal ?node 0 0) (nd_signal_correspondence ?node) ([], []) = (signals, names)"
    by (cases "fold (tree_signal ?node 0 0) (nd_signal_correspondence ?node) ([], [])")
  then have "signals = map (\<lambda>s. s + 0) (local_ids ?node)"
    using fold_tree_signal [of ?node 0 0 "nd_signal_correspondence ?node" "[]" "[]"] by (simp add: local_ids_def)
  then show ?thesis using assms(1,3) m f e
    by (simp add: tree_new_def get_main_def main_id_def constants_of_def tree_at_def)
qed

text \<open>The children of a tree follow the edges of its node.\<close>

definition child_of :: "dag \<Rightarrow> dag_tree \<Rightarrow> dag_edge \<Rightarrow> dag_tree \<Rightarrow> bool" where
  "child_of d tree e sub \<longleftrightarrow> tree_at d sub \<and> tr_node_id sub = eg_goes_to e \<and>
     tr_offset sub = tr_offset tree + eg_in_number e \<and> tr_field sub = tr_field tree \<and>
     tr_constraints sub = map (\<lambda>c. constraint_apply_offset c (tr_offset sub))
       (filter (\<lambda>c. \<not> constraint_is_empty c) (nd_constraints (dg_nodes d ! eg_goes_to e)))"

lemma tree_children_ok:
  assumes "dag_ok p d" and "tree_at d tree"
  shows "\<exists>ns. tree_get_edges tree = Some (dg_adjacency d ! tr_node_id tree) \<and>
    those (map (go_to_subtree tree) (dg_adjacency d ! tr_node_id tree)) = Some ns \<and>
    list_all2 (child_of d tree) (dg_adjacency d ! tr_node_id tree) ns"
proof -
  let ?i = "tr_node_id tree" and ?es = "dg_adjacency d ! tr_node_id tree"
  have i: "tr_dag tree = d" "?i < length (dg_nodes d)" "?i < length (dg_adjacency d)"
    using assms by (simp_all add: tree_at_def dag_ok_def)
  have es: "\<forall>e \<in> set ?es. eg_goes_to e < length (dg_nodes d)"
    using dag_okD [OF assms(1) i(2)] i(2) by (fastforce simp: node_ok_def edges_ok_def)
  have "\<exists>ns. those (map (go_to_subtree tree) es) = Some ns \<and> list_all2 (child_of d tree) es ns"
    if "\<forall>e \<in> set es. eg_goes_to e < length (dg_nodes d)" for es
    using that
  proof (induction es)
    case (Cons e es)
    obtain sub where sub: "go_to_subtree tree e = Some sub" "child_of d tree e sub"
      using go_to_subtree_at [OF assms(2), of e] Cons.prems by (auto simp: child_of_def)
    obtain ns where "those (map (go_to_subtree tree) es) = Some ns" "list_all2 (child_of d tree) es ns"
      using Cons by auto
    then show ?case using sub by (intro exI [of _ "sub # ns"]) simp
  qed simp
  then show ?thesis using es i by (simp add: tree_get_edges_def)
qed

text \<open>Below a tree: an induction over what the walks see. The bound on the depth is the number of nodes.\<close>

lemma tree_induct [consumes 3, case_names tree]:
  assumes "dag_ok p d" and "tree_at d tree" and "tr_node_id tree < fuel"
    and "\<And>fuel tree es ns. tree_at d tree \<Longrightarrow> tr_node_id tree < Suc fuel \<Longrightarrow> es = dg_adjacency d ! tr_node_id tree \<Longrightarrow>
      tree_get_edges tree = Some es \<Longrightarrow> those (map (go_to_subtree tree) es) = Some ns \<Longrightarrow>
      list_all2 (\<lambda>e sub. child_of d tree e sub \<and> P fuel sub) es ns \<Longrightarrow> P (Suc fuel) tree"
  shows "P fuel tree"
  using assms(2,3)
proof (induction fuel arbitrary: tree)
  case (Suc fuel)
  let ?es = "dg_adjacency d ! tr_node_id tree"
  obtain ns where ns: "tree_get_edges tree = Some ?es" "those (map (go_to_subtree tree) ?es) = Some ns"
    "list_all2 (child_of d tree) ?es ns" using tree_children_ok [OF assms(1) Suc.prems(1)] by blast
  have "\<forall>e \<in> set ?es. eg_goes_to e < tr_node_id tree"
    using dag_okD [OF assms(1), of "tr_node_id tree"] Suc.prems(1) by (simp add: tree_at_def node_ok_def edges_ok_def)
  then have "\<forall>e \<in> set ?es. eg_goes_to e < fuel" using Suc.prems(2) by fastforce
  then have "list_all2 (\<lambda>e sub. child_of d tree e sub \<and> P fuel sub) ?es ns"
    using ns(3) Suc.IH by (auto simp: list_all2_conv_all_nth child_of_def)
  then show ?case by (rule assms(4) [OF Suc.prems refl ns(1,2)])
qed simp


section \<open>The walks\<close>

lemma preorder_trees:
  assumes "dag_ok p d" and "tree_at d tree" and "tr_node_id tree < fuel"
  shows "\<exists>trees. preorder tree_children fuel tree = Some trees \<and>
    mset (concat (map tr_signals trees)) =
      mset [tr_offset tree + 1..<tr_offset tree + nd_number_of_signals (dg_nodes d ! tr_node_id tree) + 1]"
  using assms
proof (induction rule: tree_induct)
  case (tree fuel tree es ns)
  let ?i = "tr_node_id tree" and ?off = "tr_offset tree"
  let ?node = "dg_nodes d ! tr_node_id tree"
  have i: "?i < length (dg_nodes d)" and sig: "mset (tr_signals tree) = image_mset (\<lambda>s. s + ?off) (mset (local_ids ?node))"
    using tree(1) by (simp_all add: tree_at_def)
  have node: "mset (local_ids ?node) + edge_numbers es = mset [1..<nd_number_of_signals ?node + 1]"
    and size: "\<forall>e \<in> set es. eg_out_number e = eg_in_number e + nd_number_of_signals (dg_nodes d ! eg_goes_to e)"
    using dag_okD [OF assms(1) i] by (simp_all add: tree(3) node_ok_def numbers_ok_def edges_ok_def)
  have shift: "image_mset (\<lambda>s. s + ?off) (mset [a..<b]) = mset [a + ?off..<b + ?off]" for a b
    by (induction b) auto
  have "\<exists>below. those (map (preorder tree_children fuel) ns) = Some below \<and>
      mset (concat (map tr_signals (concat below))) = image_mset (\<lambda>s. s + ?off) (edge_numbers es)"
    using tree(6) size
  proof (induction rule: list_all2_induct)
    case (Cons e es sub ns)
    obtain trees where trees: "preorder tree_children fuel sub = Some trees"
      "mset (concat (map tr_signals trees)) =
        mset [tr_offset sub + 1..<tr_offset sub + nd_number_of_signals (dg_nodes d ! tr_node_id sub) + 1]"
      and sub: "tr_node_id sub = eg_goes_to e" "tr_offset sub = ?off + eg_in_number e"
      using Cons.hyps(1) by (auto simp: child_of_def)
    obtain below where below: "those (map (preorder tree_children fuel) ns) = Some below"
      "mset (concat (map tr_signals (concat below))) = image_mset (\<lambda>s. s + ?off) (edge_numbers es)"
      using Cons.IH Cons.prems by auto
    have "mset (concat (map tr_signals trees)) = image_mset (\<lambda>s. s + ?off) (mset [eg_in_number e + 1..<eg_out_number e + 1])"
      using Cons.prems unfolding shift trees(2) sub by (simp add: ac_simps)
    moreover have "edge_numbers (e # es) = mset [eg_in_number e + 1..<eg_out_number e + 1] + edge_numbers es"
      by (simp add: edge_numbers_def)
    ultimately show ?case using trees(1) below
      by (intro exI [of _ "trees # below"]) (simp del: upt_Suc)
  qed simp
  then obtain below where below: "those (map (preorder tree_children fuel) ns) = Some below"
    "mset (concat (map tr_signals (concat below))) = image_mset (\<lambda>s. s + ?off) (edge_numbers es)" by blast
  have "tree_children tree = Some ns" by (simp add: tree_children_def tree(4,5))
  then have "preorder tree_children (Suc fuel) tree = Some (tree # concat below)" using below(1) by simp
  moreover have "mset (concat (map tr_signals (tree # concat below))) =
      image_mset (\<lambda>s. s + ?off) (mset (local_ids ?node) + edge_numbers es)" by (simp add: sig below(2))
  ultimately show ?case unfolding node shift by (intro exI conjI) (assumption, simp add: ac_simps del: upt_Suc)
qed

interpretation tree_witness: walker tree_children "\<lambda>tree witness. Some (witness @ tr_signals tree)" produce_tree_witness
proof
  fix fuel tree ns and witness :: "nat list" assume "tree_children tree = Some ns"
  then obtain es where es: "tree_get_edges tree = Some es" "those (map (go_to_subtree tree) es) = Some ns"
    by (auto simp: tree_children_def bind_eq_Some_conv)
  have push: "fold (\<lambda>signal w. w @ [signal]) l w = w @ l" for l w :: "nat list"
    by (induction l arbitrary: w) auto
  show "produce_tree_witness (Suc fuel) tree witness =
      fold (\<lambda>m acc. Option.bind acc (produce_tree_witness fuel m)) ns (Some (witness @ tr_signals tree))"
    using fold_those [OF es(2), of "\<lambda>n s. produce_tree_witness fuel n s"] by (simp add: es(1) push)
qed simp

lemma tree_witness_fold:
  "fold (\<lambda>tree acc. Option.bind acc (\<lambda>witness. Some (witness @ tr_signals tree))) trees (Some witness) =
    Some (witness @ concat (map tr_signals trees))"
  by (induction trees arbitrary: witness) auto

lemma produce_witness_ok:
  assumes "dag_ok p d" and "dg_nodes d \<noteq> []" and "constants_of d q" and "length (dg_nodes d) \<le> fuel"
  shows "\<exists>witness. produce_witness fuel d = Some witness \<and>
    mset witness = mset [0..<nd_number_of_signals (last (dg_nodes d)) + 1]"
proof -
  obtain tree where tree: "tree_new d = Some tree" "tree_at d tree" "tr_node_id tree = length (dg_nodes d) - 1" "tr_offset tree = 0"
    using tree_new_at [OF assms(2,1,3)] by blast
  have "tr_node_id tree < fuel" using tree(3) assms(2,4) by (cases "dg_nodes d") simp_all
  then obtain trees where trees: "preorder tree_children fuel tree = Some trees"
    "mset (concat (map tr_signals trees)) = mset [1..<nd_number_of_signals (last (dg_nodes d)) + 1]"
    using preorder_trees [OF assms(1) tree(2)] tree(3,4) assms(2) by (auto simp: last_conv_nth simp del: upt_Suc)
  have "produce_witness fuel d = Some (0 # concat (map tr_signals trees))"
    using tree_witness.walk_fold [OF trees(1), of "[0]"] by (simp add: produce_witness_def tree(1) tree_witness_fold)
  moreover have "[0..<nd_number_of_signals (last (dg_nodes d)) + 1] = 0 # [1..<nd_number_of_signals (last (dg_nodes d)) + 1]"
    by (simp add: upt_rec)
  ultimately show ?thesis using trees(2) by (simp del: upt_Suc)
qed

end
