(* ===== verification/Dag_Offsets.thy ===== *)
theory Dag_Offsets
  imports Dag_Tree Simplification_Correct
begin

text \<open>
  What a graph stands for: a solution gives every instance a solution of its constraints, read at the
  offset of the instance (\<open>circuit_holds\<close>). Moving a constraint to its offset, cleaning the graph, and
  the two ways the program walks over the instances, the tree of \<open>dag/src/lib.rs\<close> and the iterator
  of \<open>constraint_list/src/state_utils.rs\<close> over the encoding, which visit the same instances.
\<close>

section \<open>Solutions of a circuit\<close>

definition at_offset :: "nat \<Rightarrow> (nat \<Rightarrow> int) \<Rightarrow> nat \<Rightarrow> int" where
  "at_offset off \<sigma> k = \<sigma> (if k = 0 then 0 else k + off)"

definition circuit_holds :: "int \<Rightarrow> dag \<Rightarrow> (nat \<Rightarrow> int) \<Rightarrow> bool" where
  "circuit_holds p d \<sigma> \<longleftrightarrow> (\<forall>i off. instance_of d (length (dg_nodes d) - 1) 0 i off \<longrightarrow>
     all_sat p (at_offset off \<sigma>) (nd_constraints (dg_nodes d ! i)))"

definition circuit_linear_holds :: "int \<Rightarrow> dag \<Rightarrow> (nat \<Rightarrow> int) \<Rightarrow> bool" where
  "circuit_linear_holds p d \<sigma> \<longleftrightarrow> (\<forall>i off. instance_of d (length (dg_nodes d) - 1) 0 i off \<longrightarrow>
     all_sat p (at_offset off \<sigma>) (filter is_linear (nd_constraints (dg_nodes d ! i))))"

section \<open>Moving a constraint\<close>

lemma rename_by_map:
  assumes "hm_wf m" and "inj_on f (keys_of m)" and "f ` keys_of m \<inter> keys_of acc = {}"
  shows "rename_by f m acc = acc @ map (\<lambda>(k, v). (f k, v)) m"
  using assms
proof (induction m arbitrary: acc)
  case (Cons e m)
  obtain k v where e: "e = (k, v)" by (cases e)
  have "f k \<notin> keys_of acc" using Cons.prems(3) by (simp add: e)
  then have i: "hm_insert (f k) v acc = acc @ [(f k, v)]" by (rule hm_insert_fresh)
  have "f k \<notin> f ` keys_of m" using Cons.prems(1,2) by (auto simp: e hm_wf_Cons inj_on_def)
  then have "f ` keys_of m \<inter> keys_of (acc @ [(f k, v)]) = {}" using Cons.prems(3) by (auto simp: e)
  then show ?case using Cons by (simp add: e i hm_wf_Cons inj_on_def)
qed simp

lemma apply_raw_offset_map:
  "hm_wf h \<Longrightarrow> apply_raw_offset h off = map (\<lambda>(k, v). (if k = 0 then 0 else k + off, v)) h"
  unfolding apply_raw_offset_rename by (subst rename_by_map) (auto simp: inj_on_def)

lemma snd_apply_raw_offset: "hm_wf h \<Longrightarrow> map snd (apply_raw_offset h off) = map snd h"
  by (simp add: apply_raw_offset_map comp_def case_prod_unfold)

lemma apply_raw_offset_Nil: "hm_wf h \<Longrightarrow> apply_raw_offset h off = [] \<longleftrightarrow> h = []"
  by (simp add: apply_raw_offset_map)

lemma keys_apply_raw_offset: "keys_of (apply_raw_offset h off) = (\<lambda>k. if k = 0 then 0 else k + off) ` keys_of h"
  by (simp add: apply_raw_offset_rename)

lemma offset_wf: "con_wf c \<Longrightarrow> con_wf (constraint_apply_offset c off)"
  by (simp add: con_wf_def constraint_apply_offset_def apply_raw_offset_rename)

lemma offset_reduced:
  "con_reduced p c \<Longrightarrow> con_reduced p (constraint_apply_offset c off)"
  using offset_wf [of c off]
  by (simp add: con_reduced_def con_wf_def constraint_apply_offset_def reduced_def snd_apply_raw_offset
      del: set_map flip: set_map)

lemma offset_ok: "con_ok p c \<Longrightarrow> con_ok p (constraint_apply_offset c off)"
  using offset_reduced [of p c off]
  by (simp add: con_ok_def con_reduced_def con_wf_def constraint_apply_offset_def snd_apply_raw_offset del: set_map)

lemma offset_linear: "con_wf c \<Longrightarrow> is_linear (constraint_apply_offset c off) \<longleftrightarrow> is_linear c"
  by (simp add: is_linear_def constraint_apply_offset_def apply_raw_offset_Nil con_wf_def)

lemma offset_keys: "con_keys (constraint_apply_offset c off) = (\<lambda>k. if k = 0 then 0 else k + off) ` con_keys c"
  by (simp only: con_keys_def constraint_apply_offset_def keys_apply_raw_offset image_Un constraint.simps)

lemma offset_sat: "con_wf c \<Longrightarrow> sat p \<sigma> (constraint_apply_offset c off) \<longleftrightarrow> sat p (at_offset off \<sigma>) c"
  by (simp add: sat_def constraint_apply_offset_def con_wf_def lin_apply_raw_offset at_offset_def [abs_def])

lemma at_offset_0 [simp]: "at_offset 0 \<sigma> = \<sigma>"
  by (auto simp: at_offset_def)

lemma offset_sats:
  "\<forall>c \<in> set cs. con_wf c \<Longrightarrow>
    all_sat p \<sigma> (map (\<lambda>c. constraint_apply_offset c off) cs) \<longleftrightarrow> all_sat p (at_offset off \<sigma>) cs"
  by (simp add: all_sat_def offset_sat)

section \<open>Cleaning\<close>

lemma cleaned_constraints:
  "nd_constraints (clean_node_constraints node) =
    filter (\<lambda>c. \<not> constraint_is_empty c) (map constraint_remove_zero_value_coefficients (nd_constraints node))"
proof -
  have "fold (\<lambda>c kept. (let c = constraint_remove_zero_value_coefficients c
        in if \<not> constraint_is_empty c then kept @ [c] else kept)) cs kept =
      kept @ filter (\<lambda>c. \<not> constraint_is_empty c) (map constraint_remove_zero_value_coefficients cs)" for cs kept :: "nat constraint list"
    by (induction cs arbitrary: kept) (simp_all add: Let_def)
  then show ?thesis by (simp add: clean_node_constraints_def)
qed

lemma remove_zeros_ok: "con_reduced p c \<Longrightarrow> con_ok p (constraint_remove_zero_value_coefficients c)"
  using remove_zero_nonzero
  by (fastforce simp: con_ok_def con_reduced_def con_wf_def constraint_remove_zero_value_coefficients_def reduced_def
      remove_zero_value_coefficients_def)

lemma remove_zeros_sat: "sat p \<sigma> (constraint_remove_zero_value_coefficients c) \<longleftrightarrow> sat p \<sigma> c"
  by (simp add: sat_def constraint_remove_zero_value_coefficients_def lin_simps)

lemma remove_zeros_keys: "con_keys (constraint_remove_zero_value_coefficients c) \<subseteq> con_keys c"
  using keys_remove_zero by (fastforce simp: con_keys_def constraint_remove_zero_value_coefficients_def)

lemma clean_all_sat: "all_sat p \<sigma> (nd_constraints (clean_node_constraints node)) \<longleftrightarrow> all_sat p \<sigma> (nd_constraints node)"
  unfolding cleaned_constraints all_sat_nonempty by (simp add: all_sat_def remove_zeros_sat)

text \<open>Every constraint is fit for the simplifier.\<close>

definition dag_clean :: "int \<Rightarrow> dag \<Rightarrow> bool" where
  "dag_clean p d \<longleftrightarrow> (\<forall>node \<in> set (dg_nodes d). \<forall>c \<in> set (nd_constraints node). con_ok p c)"

lemma clean_node_ok:
  assumes "node_ok p size_of i es node"
  shows "node_ok p size_of i es (clean_node_constraints node)"
proof -
  have "numbers_ok i es (clean_node_constraints node)" "interface_ok (clean_node_constraints node)" "edges_ok size_of i es"
    using assms by (simp_all add: node_ok_def numbers_ok_def interface_ok_def local_ids_def clean_node_constraints_def)
  moreover have "nd_number_of_signals (clean_node_constraints node) = nd_number_of_signals node"
    by (simp add: clean_node_constraints_def)
  then have "constraints_ok p (clean_node_constraints node)"
    using assms remove_zeros_ok con_ok_reduced remove_zeros_keys
    by (fastforce simp: node_ok_def constraints_ok_def cleaned_constraints)
  ultimately show ?thesis by (simp add: node_ok_def)
qed

lemma clean_size [simp]: "nd_number_of_signals (clean_node_constraints node) = nd_number_of_signals node"
  by (simp add: clean_node_constraints_def)

lemma dag_clean_constraints_ok:
  assumes "dag_ok p d"
  shows "dag_ok p (dag_clean_constraints d)"
proof -
  have "node_ok p (\<lambda>j. nd_number_of_signals (map clean_node_constraints (dg_nodes d) ! j)) i (dg_adjacency d ! i)
      (clean_node_constraints (dg_nodes d ! i))" if i: "i < length (dg_nodes d)" for i
  proof -
    have "node_ok p (\<lambda>j. nd_number_of_signals (map clean_node_constraints (dg_nodes d) ! j)) i (dg_adjacency d ! i)
        (clean_node_constraints (dg_nodes d ! i)) =
      node_ok p (\<lambda>j. nd_number_of_signals (dg_nodes d ! j)) i (dg_adjacency d ! i) (clean_node_constraints (dg_nodes d ! i))"
      by (rule node_ok_size_cong) (use i in simp)
    then show ?thesis using clean_node_ok [OF dag_okD [OF assms i]] by simp
  qed
  then show ?thesis using assms by (simp add: dag_ok_def dag_clean_constraints_def clean_constraints_def)
qed

lemma dag_clean_constraints_clean: "dag_ok p d \<Longrightarrow> dag_clean p (dag_clean_constraints d)"
  by (fastforce simp: dag_clean_def dag_clean_constraints_def clean_constraints_def cleaned_constraints
      dag_ok_def node_ok_def constraints_ok_def in_set_conv_nth intro: remove_zeros_ok)

lemma instance_of_clean: "instance_of (dag_clean_constraints d) i off j off' \<longleftrightarrow> instance_of d i off j off'"
proof
  show "instance_of (dag_clean_constraints d) i off j off' \<Longrightarrow> instance_of d i off j off'"
    by (induction rule: instance_of.induct) (auto simp: dag_clean_constraints_def intro: instance_of.intros)
  show "instance_of d i off j off' \<Longrightarrow> instance_of (dag_clean_constraints d) i off j off'"
    by (induction rule: instance_of.induct) (auto simp: dag_clean_constraints_def intro: instance_of.intros)
qed

lemma instance_of_node:
  assumes "dag_ok p d" and "instance_of d i off j off'" and "i < length (dg_nodes d)"
  shows "j < length (dg_nodes d) \<and>
    {off' + 1..off' + nd_number_of_signals (dg_nodes d ! j)} \<subseteq> {off + 1..off + nd_number_of_signals (dg_nodes d ! i)}"
  using assms(2)
proof induction
  case (below j off' e)
  let ?n = "nd_number_of_signals (dg_nodes d ! j)" and ?k = "nd_number_of_signals (dg_nodes d ! eg_goes_to e)"
  have j: "j < length (dg_nodes d)" using below by simp
  have e: "eg_goes_to e < j" "eg_out_number e = eg_in_number e + ?k"
    and m: "mset (local_ids (dg_nodes d ! j)) + edge_numbers (dg_adjacency d ! j) = mset [1..<?n + 1]"
    using dag_okD [OF assms(1) j] below.hyps(2) by (simp_all add: node_ok_def edges_ok_def numbers_ok_def)
  have "set_mset (edge_numbers es) = (\<Union>e \<in> set es. {eg_in_number e + 1..<eg_out_number e + 1})" for es
    by (induction es) (auto simp: edge_numbers_def)
  then have "{eg_in_number e + 1..<eg_out_number e + 1} \<subseteq> set_mset (edge_numbers (dg_adjacency d ! j))"
    using below.hyps(2) by auto
  also have "\<dots> \<subseteq> set_mset (mset [1..<?n + 1])" unfolding m [symmetric] by simp
  finally have r: "{eg_in_number e + 1..<eg_in_number e + ?k + 1} \<subseteq> {1..<?n + 1}" by (simp add: e(2) del: upt_Suc)
  have "{off' + eg_in_number e + 1..off' + eg_in_number e + ?k} \<subseteq> {off' + 1..off' + ?n}"
  proof (cases "?k = 0")
    case False
    then have "eg_in_number e + ?k \<in> {1..<?n + 1}" using r by (rule_tac subsetD [OF r]) simp
    then show ?thesis by auto
  qed simp
  then show ?case using below.IH e(1) j by auto
qed (simp add: assms(3))

lemma circuit_holds_clean:
  assumes "dag_ok p d" and "dg_nodes d \<noteq> []"
  shows "circuit_holds p (dag_clean_constraints d) \<sigma> \<longleftrightarrow> circuit_holds p d \<sigma>"
proof -
  have n: "dg_nodes (dag_clean_constraints d) = map clean_node_constraints (dg_nodes d)"
    by (simp add: dag_clean_constraints_def clean_constraints_def)
  have "all_sat p \<tau> (nd_constraints (dg_nodes (dag_clean_constraints d) ! i)) \<longleftrightarrow> all_sat p \<tau> (nd_constraints (dg_nodes d ! i))"
    if "instance_of d (length (dg_nodes d) - 1) 0 i off" for \<tau> i off
    using instance_of_node [OF assms(1) that] assms(2) by (simp add: n clean_all_sat)
  then show ?thesis unfolding circuit_holds_def instance_of_clean by (simp add: n)
qed

end
