(* ===== verification/Dag_Mapping.thy ===== *)
theory Dag_Mapping
  imports Dag_Offsets
begin

text \<open>
  Correctness of \<open>dag/src/map_to_constraint_list.rs\<close>: the simplifier that \<open>map\<close> builds from a graph is
  fit for the simplification, and its constraints, those it holds and those of the encoding, have the
  solutions of the circuit.
\<close>

section \<open>Walking over the instances\<close>

definition tree_of :: "int \<Rightarrow> dag \<Rightarrow> dag_tree \<Rightarrow> bool" where
  "tree_of q d tree \<longleftrightarrow> tree_at d tree \<and> tr_field tree = q \<and>
     (tr_constraints tree = map (\<lambda>c. constraint_apply_offset c (tr_offset tree))
        (filter (\<lambda>c. \<not> constraint_is_empty c) (nd_constraints (dg_nodes d ! tr_node_id tree))) \<or>
      tr_offset tree = 0 \<and> tr_constraints tree = nd_constraints (dg_nodes d ! tr_node_id tree))"

lemma child_tree_of: "child_of d tree e sub \<Longrightarrow> tree_of q d tree \<Longrightarrow> tree_of q d sub"
  by (simp add: child_of_def tree_of_def)

lemma concat_sets:
  "(\<Union>t \<in> set (concat below). f t) = (\<Union>trees \<in> set below. \<Union>t \<in> set trees. f t)"
  by auto

lemma preorder_instances:
  assumes "dag_ok p d" and "tree_at d tree" and "tr_node_id tree < fuel"
  shows "\<forall>trees. preorder tree_children fuel tree = Some trees \<longrightarrow>
    (\<forall>i off. (\<exists>t \<in> set trees. tr_node_id t = i \<and> tr_offset t = off) \<longleftrightarrow>
      instance_of d (tr_node_id tree) (tr_offset tree) i off)"
  using assms
proof (induction rule: tree_induct)
  case (tree fuel tree es ns)
  let ?at = "\<lambda>trees i off. \<exists>t \<in> set trees. tr_node_id t = i \<and> tr_offset t = off"
  have "?at trees i off \<longleftrightarrow> instance_of d (tr_node_id tree) (tr_offset tree) i off"
    if trees: "preorder tree_children (Suc fuel) tree = Some trees" for trees i off
  proof -
    have c: "tree_children tree = Some ns" by (simp add: tree_children_def tree(4,5))
    then obtain below where below: "those (map (preorder tree_children fuel) ns) = Some below" "trees = tree # concat below"
      using trees by (auto simp: bind_eq_Some_conv)
    have "(\<exists>b \<in> set below. ?at b i off) \<longleftrightarrow>
        (\<exists>e \<in> set es. instance_of d (eg_goes_to e) (tr_offset tree + eg_in_number e) i off)"
      using tree(6) below(1)
    proof (induction arbitrary: below rule: list_all2_induct)
      case (Cons e es sub ns)
      then obtain b bs where b: "preorder tree_children fuel sub = Some b" "below = b # bs"
        "those (map (preorder tree_children fuel) ns) = Some bs" by (auto split: option.splits)
      have "?at b i off \<longleftrightarrow> instance_of d (eg_goes_to e) (tr_offset tree + eg_in_number e) i off"
        using Cons.hyps(1) b(1) by (auto simp: child_of_def)
      then show ?case using Cons.IH [OF b(3)] by (simp add: b(2))
    qed simp
    moreover have "?at trees i off \<longleftrightarrow>
        (tr_node_id tree = i \<and> tr_offset tree = off) \<or> (\<exists>b \<in> set below. ?at b i off)"
      by (auto simp: below(2))
    moreover have "instance_of d (tr_node_id tree) (tr_offset tree) i off \<longleftrightarrow>
        (tr_node_id tree = i \<and> tr_offset tree = off) \<or>
        (\<exists>e \<in> set es. instance_of d (eg_goes_to e) (tr_offset tree + eg_in_number e) i off)"
      unfolding tree(3) using instance_of_cases_first instance_of_step instance_of.self by blast
    ultimately show ?thesis by simp
  qed
  then show ?case by blast
qed

lemma preorder_trees_of:
  assumes "dag_ok p d" and "tree_at d tree" and "tr_node_id tree < fuel"
  shows "\<forall>trees. tree_of q d tree \<longrightarrow> preorder tree_children fuel tree = Some trees \<longrightarrow> (\<forall>t \<in> set trees. tree_of q d t)"
  using assms
proof (induction rule: tree_induct)
  case (tree fuel tree es ns)
  have "tree_of q d t" if t: "tree_of q d tree" "preorder tree_children (Suc fuel) tree = Some trees" "t \<in> set trees" for trees t
  proof -
    have c: "tree_children tree = Some ns" by (simp add: tree_children_def tree(4,5))
    then obtain below where below: "those (map (preorder tree_children fuel) ns) = Some below" "trees = tree # concat below"
      using t(2) by (auto simp: bind_eq_Some_conv)
    have "\<forall>b \<in> set below. \<forall>t \<in> set b. tree_of q d t"
      using tree(6) below(1)
    proof (induction arbitrary: below rule: list_all2_induct)
      case (Cons e es sub ns)
      then obtain b bs where b: "preorder tree_children fuel sub = Some b" "below = b # bs"
        "those (map (preorder tree_children fuel) ns) = Some bs" by (auto split: option.splits)
      have "tree_of q d sub" using Cons.hyps(1) t(1) child_tree_of by blast
      then have "\<forall>t \<in> set b. tree_of q d t" using Cons.hyps(1) b(1) by blast
      then show ?case using Cons.IH [OF b(3)] by (simp add: b(2))
    qed simp
    then show ?thesis using t(1,3) below(2) by auto
  qed
  then show ?case by blast
qed

section \<open>What the walk collects\<close>

lemma hold_constraints:
  "fold (hold_constraint q) cs (n, h) =
    (n + length (filter (\<lambda>c. \<not> is_linear c) cs),
     \<lparr>ch_linear = ch_linear h @ filter (\<lambda>c. \<not> is_constant_equality c \<and> \<not> is_equality c q \<and> is_linear c) cs,
      ch_equalities = ch_equalities h @ filter (\<lambda>c. \<not> is_constant_equality c \<and> is_equality c q) cs,
      ch_constant_equalities = ch_constant_equalities h @ filter is_constant_equality cs\<rparr>)"
proof (induction cs arbitrary: n h)
  case (Cons c cs)
  have "is_constant_equality c \<Longrightarrow> is_linear c" by (simp add: is_constant_equality_def is_linear_def)
  moreover have "is_equality c q \<Longrightarrow> is_linear c" by (simp add: is_equality_def is_linear_def Let_def split: if_splits)
  ultimately show ?case using Cons by (simp add: hold_constraint_def)
qed simp

definition mapped_tree :: "nat \<Rightarrow> dag_tree \<Rightarrow> nat \<times> map_tree_state \<Rightarrow> (nat \<times> map_tree_state) option" where
  "mapped_tree fuel tree = (\<lambda>(n, st). map_option (\<lambda>(k, st). (n + k, st)) (map_tree fuel tree st))"

definition custom_signals :: "dag_tree \<Rightarrow> nat set" where
  "custom_signals tree = (if nd_is_custom_gate (dg_nodes (tr_dag tree) ! tr_node_id tree) then set (tr_signals tree) else {})"

definition map_visit :: "dag_tree \<Rightarrow> nat \<times> map_tree_state \<Rightarrow> (nat \<times> map_tree_state) option" where
  "map_visit tree = (\<lambda>(n, witness, holder, forbid).
     if tr_node_id tree < length (dg_nodes (tr_dag tree)) then
       (let (n, holder) = fold (hold_constraint (tr_field tree)) (tr_constraints tree) (n, holder)
        in Some (n, witness @ tr_signals tree, holder, forbid \<union> custom_signals tree))
     else None)"

lemma mapped_children_prefix:
  "fold (\<lambda>t acc. Option.bind acc (mapped_tree fuel t)) ns (Some (k + n, st)) =
    map_option (\<lambda>(l, st). (k + l, st)) (fold (\<lambda>t acc. Option.bind acc (mapped_tree fuel t)) ns (Some (n, st)))"
proof (induction ns arbitrary: n st)
  case (Cons t ns)
  show ?case
  proof (cases "map_tree fuel t st")
    case (Some r)
    then show ?thesis using Cons.IH [of "n + fst r" "snd r"] by (cases r) (simp add: mapped_tree_def add.assoc)
  qed (simp add: mapped_tree_def)
qed simp

interpretation mapped: walker tree_children map_visit mapped_tree
proof
  fix fuel tree ns and s :: "nat \<times> map_tree_state" assume "tree_children tree = Some ns"
  then obtain es where es: "tree_get_edges tree = Some es" "those (map (go_to_subtree tree) es) = Some ns"
    by (auto simp: tree_children_def bind_eq_Some_conv)
  obtain n w h F where s: "s = (n, w, h, F)" by (cases s)
  let ?cs = "tr_constraints tree"
  have sig: "fold (\<lambda>signal (witness, forbid). (witness @ [signal], if custom then insert signal forbid else forbid)) l (w, F) =
      (w @ l, F \<union> (if custom then set l else {}))" for custom l and w :: "nat list" and F
    by (induction l arbitrary: w F) auto
  have walk: "fold (\<lambda>edge acc. Option.bind acc (\<lambda>(no_constraints, st). Option.bind (go_to_subtree tree edge) (\<lambda>subtree.
      map_option (\<lambda>(n, st). (no_constraints + n, st)) (map_tree fuel subtree st)))) es a =
    fold (\<lambda>t acc. Option.bind acc (mapped_tree fuel t)) ns a" for a
    using fold_those [OF es(2), of "\<lambda>t s. mapped_tree fuel t s" a]
    by (simp add: mapped_tree_def case_prod_unfold)
  show "mapped_tree (Suc fuel) tree s =
      fold (\<lambda>m acc. Option.bind acc (mapped_tree fuel m)) ns (map_visit tree s)"
  proof (cases "tr_node_id tree < length (dg_nodes (tr_dag tree))")
    case True
    let ?k = "length (filter (\<lambda>c. \<not> is_linear c) ?cs)"
    obtain h' where h: "fold (hold_constraint (tr_field tree)) ?cs (m, h) = (m + ?k, h')" for m
      using hold_constraints by blast
    have h0: "fold (hold_constraint (tr_field tree)) ?cs (0, h) = (?k, h')" using h [of 0] by simp
    have "map_tree (Suc fuel) tree (w, h, F) =
        fold (\<lambda>t acc. Option.bind acc (mapped_tree fuel t)) ns (Some (?k, w @ tr_signals tree, h', F \<union> custom_signals tree))"
      using True es(1) by (simp add: sig h0 walk custom_signals_def Let_def)
    then show ?thesis using True h [of n] mapped_children_prefix [of fuel ns n ?k]
      by (simp add: s mapped_tree_def map_visit_def)
  next
    case False
    have "fold (\<lambda>m acc. Option.bind acc (mapped_tree fuel m)) ns None = None" by (induction ns) simp_all
    then show ?thesis using False by (simp add: s mapped_tree_def map_visit_def)
  qed
qed (auto simp: mapped_tree_def)

lemma map_visits:
  assumes "\<forall>t \<in> set trees. tree_of q d t"
  shows "fold (\<lambda>t acc. Option.bind acc (map_visit t)) trees (Some (n, w, h, F)) =
    (let cs = concat (map tr_constraints trees); (n, h) = fold (hold_constraint q) cs (n, h)
     in Some (n, w @ concat (map tr_signals trees), h, F \<union> (\<Union>t \<in> set trees. custom_signals t)))"
  using assms
proof (induction trees arbitrary: n w h F)
  case (Cons t trees)
  have t: "tr_node_id t < length (dg_nodes (tr_dag t))" "tr_field t = q"
    using Cons.prems by (auto simp: tree_of_def tree_at_def)
  obtain k h' where h: "fold (hold_constraint q) (tr_constraints t) (n, h) = (k, h')" by (cases "fold (hold_constraint q) (tr_constraints t) (n, h)")
  have v: "map_visit t (n, w, h, F) = Some (k, w @ tr_signals t, h', F \<union> custom_signals t)"
    using t h by (simp add: map_visit_def)
  show ?case using Cons.IH [of k "w @ tr_signals t" h' "F \<union> custom_signals t"] Cons.prems v h
    by (simp add: Let_def Un_assoc)
qed (simp add: Let_def)


section \<open>The encoding has the same instances\<close>

definition encodes :: "dag \<Rightarrow> dag_encoding \<Rightarrow> bool" where
  "encodes d enc \<longleftrightarrow> length (de_nodes enc) = length (dg_nodes d) \<and>
     (\<forall>i < length (dg_nodes d). en_non_linear (de_nodes enc ! i) = filter (\<lambda>c. \<not> is_linear c) (nd_constraints (dg_nodes d ! i))) \<and>
     de_adjacency enc = map (map map_edge_to_encoding) (dg_adjacency d)"

lemma map_node_to_encoding_ok:
  assumes "interface_ok node"
  shows "\<exists>n. map_node_to_encoding i node = Some n \<and> en_non_linear n = filter (\<lambda>c. \<not> is_linear c) (nd_constraints node)"
proof -
  have "\<exists>y. map_of (nd_signal_correspondence node) x = Some y" if "x \<in> set (nd_ordered_signals node)" for x
  proof -
    have "x \<in> keys_of (nd_signal_correspondence node)" using assms that by (auto simp: interface_ok_def)
    then show ?thesis by (auto simp: keys_of_map_of)
  qed
  then obtain ys where "those (map (map_of (nd_signal_correspondence node)) (nd_ordered_signals node)) = Some ys"
    using those_map_total by metis
  then show ?thesis by (simp add: map_node_to_encoding_def)
qed

lemma produce_encoding_ok:
  assumes "dag_ok p d"
  shows "\<exists>enc. produce_encoding k i (dg_nodes d) (dg_adjacency d) = Some enc \<and> encodes d enc \<and>
    de_init enc = i \<and> de_no_constraints enc = k"
proof -
  let ?f = "\<lambda>(node_id, node). map_node_to_encoding node_id node"
  have f: "\<exists>n. ?f x = Some n \<and> en_non_linear n = filter (\<lambda>c. \<not> is_linear c) (nd_constraints (snd x))"
    if x: "x \<in> set (enumerate 0 (dg_nodes d))" for x
  proof -
    have "snd x \<in> set (dg_nodes d)" using x by (auto simp: in_set_conv_nth nth_enumerate_eq)
    then obtain j where "j < length (dg_nodes d)" "snd x = dg_nodes d ! j" by (auto simp: in_set_conv_nth)
    then have "interface_ok (snd x)" using dag_okD [OF assms] by (simp add: node_ok_def)
    then show ?thesis using map_node_to_encoding_ok by (simp add: case_prod_unfold)
  qed
  have "\<exists>nodes. those (map ?f (enumerate 0 (dg_nodes d))) = Some nodes"
    by (rule those_map_total) (use f in blast)
  then obtain nodes where n: "those (map ?f (enumerate 0 (dg_nodes d))) = Some nodes" by blast
  then have m: "map ?f (enumerate 0 (dg_nodes d)) = map Some nodes" by (simp add: those_Some)
  then have l: "length nodes = length (dg_nodes d)" by (metis length_enumerate length_map)
  have "en_non_linear (nodes ! i) = filter (\<lambda>c. \<not> is_linear c) (nd_constraints (dg_nodes d ! i))" if i: "i < length (dg_nodes d)" for i
  proof -
    have "?f (enumerate 0 (dg_nodes d) ! i) = Some (nodes ! i)"
      using m i l by (metis (no_types, lifting) length_enumerate nth_map)
    moreover have "enumerate 0 (dg_nodes d) ! i \<in> set (enumerate 0 (dg_nodes d))" by (rule nth_mem) (use i in simp)
    moreover have "snd (enumerate 0 (dg_nodes d) ! i) = dg_nodes d ! i" using i by (simp add: nth_enumerate_eq)
    ultimately show ?thesis using f by (metis option.inject)
  qed
  then show ?thesis using n l by (simp add: produce_encoding_def encodes_def)
qed

definition same_instance :: "dag \<Rightarrow> dag_encoding \<Rightarrow> dag_tree \<Rightarrow> encoding_iterator \<Rightarrow> bool" where
  "same_instance d enc tree iter \<longleftrightarrow> ei_encoding iter = enc \<and> ei_node_id iter = tr_node_id tree \<and> ei_offset iter = tr_offset tree \<and>
     ei_non_linear iter = map (\<lambda>c. constraint_apply_offset c (tr_offset tree))
       (filter (\<lambda>c. \<not> is_linear c) (nd_constraints (dg_nodes d ! tr_node_id tree)))"

lemma build_same_instance:
  assumes "encodes d enc" and "tr_node_id tree < length (dg_nodes d)"
    and "ei_encoding iter = enc" and "ei_node_id iter = tr_node_id tree" and "ei_offset iter = tr_offset tree"
  shows "\<exists>it. build_encoding_iterator iter = Some it \<and> same_instance d enc tree it"
  using assms by (simp add: build_encoding_iterator_def same_instance_def encodes_def Let_def)

lemma next_same_instance:
  assumes "encodes d enc" and "same_instance d enc tree iter" and "child_of d tree e sub"
  shows "\<exists>it. iterator_next iter (map_edge_to_encoding e) = Some it \<and> same_instance d enc sub it"
  unfolding iterator_next_def
  by (rule build_same_instance [OF assms(1)]) (use assms(2,3) in \<open>simp_all add: child_of_def tree_at_def same_instance_def map_edge_to_encoding_def\<close>)

lemma preorder_same:
  assumes "dag_ok p d" and "tree_at d tree" and "tr_node_id tree < fuel" and enc: "encodes d enc"
  shows "\<forall>trees iter. same_instance d enc tree iter \<longrightarrow> preorder tree_children fuel tree = Some trees \<longrightarrow>
    (\<exists>iters. preorder iterator_children fuel iter = Some iters \<and> list_all2 (same_instance d enc) trees iters)"
  using assms(1-3)
proof (induction rule: tree_induct)
  case (tree fuel tree es ns)
  have "\<exists>iters. preorder iterator_children (Suc fuel) iter = Some iters \<and> list_all2 (same_instance d enc) trees iters"
    if same: "same_instance d enc tree iter" and trees: "preorder tree_children (Suc fuel) tree = Some trees" for trees iter
  proof -
    have c: "tree_children tree = Some ns" by (simp add: tree_children_def tree(4,5))
    then obtain below where below: "those (map (preorder tree_children fuel) ns) = Some below" "trees = tree # concat below"
      using trees by (auto simp: bind_eq_Some_conv)
    have "\<exists>its blw. those (map (iterator_next iter) (map map_edge_to_encoding es)) = Some its \<and>
        those (map (preorder iterator_children fuel) its) = Some blw \<and>
        list_all2 (list_all2 (same_instance d enc)) below blw"
      using tree(6) below(1)
    proof (induction arbitrary: below rule: list_all2_induct)
      case (Cons e es sub ns)
      then obtain b bs where b: "preorder tree_children fuel sub = Some b" "below = b # bs"
        "those (map (preorder tree_children fuel) ns) = Some bs" by (auto split: option.splits)
      obtain it where it: "iterator_next iter (map_edge_to_encoding e) = Some it" "same_instance d enc sub it"
        using next_same_instance [OF enc same] Cons.hyps(1) by blast
      obtain ib where "preorder iterator_children fuel it = Some ib" "list_all2 (same_instance d enc) b ib"
        using Cons.hyps(1) b(1) it(2) by blast
      then show ?case using Cons.IH [OF b(3)] it(1) by (auto simp: b(2))
    qed simp
    then obtain its blw where its: "those (map (iterator_next iter) (map map_edge_to_encoding es)) = Some its"
      "those (map (preorder iterator_children fuel) its) = Some blw" "list_all2 (list_all2 (same_instance d enc)) below blw"
      by blast
    have "tr_node_id tree < length (dg_adjacency d)" using tree(1) assms(1) by (simp add: tree_at_def dag_ok_def)
    then have "iterator_edges iter = Some (map map_edge_to_encoding es)"
      using same enc by (simp add: iterator_edges_def same_instance_def encodes_def tree(3))
    then have "preorder iterator_children (Suc fuel) iter = Some (iter # concat blw)"
      using its(1,2) by (simp add: iterator_children_def)
    moreover have "list_all2 (same_instance d enc) (concat below) (concat blw)"
      using its(3) by (induction rule: list_all2_induct) (auto intro: list_all2_appendI)
    ultimately show ?thesis using same below(2) by simp
  qed
  then show ?case by blast
qed


section \<open>The simplifier of a graph\<close>

lemma clean_node:
  assumes "dag_ok p d" and "dag_clean p d" and "i < length (dg_nodes d)" and "c \<in> set (nd_constraints (dg_nodes d ! i))"
  shows "con_ok p c" "con_keys c \<subseteq> {..nd_number_of_signals (dg_nodes d ! i)}"
proof -
  show "con_ok p c" using assms(2-4) nth_mem [OF assms(3)] unfolding dag_clean_def by blast
  show "con_keys c \<subseteq> {..nd_number_of_signals (dg_nodes d ! i)}"
    using dag_okD [OF assms(1,3)] assms(4) by (simp add: node_ok_def constraints_ok_def)
qed

lemma shifted_keys: "K \<subseteq> {..n} \<Longrightarrow> (\<lambda>k. if k = 0 then 0 else k + off) ` K \<subseteq> insert 0 {off + 1..off + n}"
  for K :: "nat set"
proof
  fix x assume K: "K \<subseteq> {..n}" and "x \<in> (\<lambda>k. if k = 0 then 0 else k + off) ` K"
  then obtain k where "k \<in> K" "x = (if k = 0 then 0 else k + off)" by blast
  then show "x \<in> insert 0 {off + 1..off + n}" using subsetD [OF K, of k] by (cases "k = 0") simp_all
qed

lemma tree_constraint_ok:
  assumes "dag_ok p d" and "dag_clean p d" and "tree_of q d t" and "c \<in> set (tr_constraints t)"
  shows "con_ok p c \<and>
    con_keys c \<subseteq> insert 0 {tr_offset t + 1..tr_offset t + nd_number_of_signals (dg_nodes d ! tr_node_id t)}"
proof -
  let ?i = "tr_node_id t" and ?off = "tr_offset t"
  have i: "?i < length (dg_nodes d)" using assms(3) by (simp add: tree_of_def tree_at_def)
  note ok = clean_node [OF assms(1,2) i]
  obtain c' where c': "c' \<in> set (nd_constraints (dg_nodes d ! ?i))" "c = constraint_apply_offset c' ?off \<or> ?off = 0 \<and> c = c'"
    using assms(3,4) by (auto simp: tree_of_def)
  then show ?thesis
  proof (elim disjE conjE)
    assume "c = constraint_apply_offset c' ?off"
    then show ?thesis using offset_ok [OF ok(1) [OF c'(1)]] shifted_keys [OF ok(2) [OF c'(1)], of ?off]
      by (simp only: offset_keys simp_thms)
  next
    assume "?off = 0" "c = c'"
    moreover have "{..n} \<subseteq> insert 0 {0 + 1..0 + n}" for n :: nat by auto
    ultimately show ?thesis using ok(1) [OF c'(1)] ok(2) [OF c'(1)] by (metis subset_trans)
  qed
qed

lemma tree_linear_sat:
  assumes "dag_ok p d" and "dag_clean p d" and "tree_of q d t"
  shows "all_sat p \<sigma> (filter is_linear (tr_constraints t)) \<longleftrightarrow>
    all_sat p (at_offset (tr_offset t) \<sigma>) (filter is_linear (nd_constraints (dg_nodes d ! tr_node_id t)))"
proof -
  let ?cs = "nd_constraints (dg_nodes d ! tr_node_id t)" and ?off = "tr_offset t"
  have i: "tr_node_id t < length (dg_nodes d)" using assms(3) by (simp add: tree_of_def tree_at_def)
  have wf: "\<forall>c \<in> set ?cs. con_wf c" using clean_node [OF assms(1,2) i] con_ok_wf by blast
  have "filter is_linear (map (\<lambda>c. constraint_apply_offset c ?off) (filter (\<lambda>c. \<not> constraint_is_empty c) cs)) =
      map (\<lambda>c. constraint_apply_offset c ?off) (filter (\<lambda>c. \<not> constraint_is_empty c) (filter is_linear cs))"
    if "\<forall>c \<in> set cs. con_wf c" for cs
    using that by (induction cs) (simp_all add: offset_linear)
  note f = this [OF wf]
  have "all_sat p \<sigma> (filter is_linear (map (\<lambda>c. constraint_apply_offset c ?off) (filter (\<lambda>c. \<not> constraint_is_empty c) ?cs))) \<longleftrightarrow>
      all_sat p (at_offset ?off \<sigma>) (filter is_linear ?cs)"
    unfolding f by (subst offset_sats) (use wf in simp, rule all_sat_nonempty)
  then show ?thesis using assms(3) by (auto simp: tree_of_def)
qed

lemma instance_non_linear:
  assumes "dag_ok p d" and "dag_clean p d" and "tree_of q d t" and "same_instance d enc t iter"
  shows "(\<forall>c \<in> set (ei_non_linear iter). con_ok p c \<and>
      con_keys c \<subseteq> insert 0 {tr_offset t + 1..tr_offset t + nd_number_of_signals (dg_nodes d ! tr_node_id t)}) \<and>
    (all_sat p \<sigma> (ei_non_linear iter) \<longleftrightarrow>
      all_sat p (at_offset (tr_offset t) \<sigma>) (filter (\<lambda>c. \<not> is_linear c) (nd_constraints (dg_nodes d ! tr_node_id t))))"
proof -
  let ?cs = "nd_constraints (dg_nodes d ! tr_node_id t)" and ?off = "tr_offset t"
  have i: "tr_node_id t < length (dg_nodes d)" using assms(3) by (simp add: tree_of_def tree_at_def)
  note ok = clean_node [OF assms(1,2) i]
  have nl: "ei_non_linear iter = map (\<lambda>c. constraint_apply_offset c ?off) (filter (\<lambda>c. \<not> is_linear c) ?cs)"
    using assms(4) by (simp add: same_instance_def)
  have "con_ok p (constraint_apply_offset c ?off) \<and>
      con_keys (constraint_apply_offset c ?off) \<subseteq> insert 0 {?off + 1..?off + nd_number_of_signals (dg_nodes d ! tr_node_id t)}"
    if "c \<in> set ?cs" for c
    using ok(1) [OF that] offset_ok shifted_keys [OF ok(2) [OF that], of ?off] unfolding offset_keys by blast
  moreover have "all_sat p \<sigma> (ei_non_linear iter) \<longleftrightarrow> all_sat p (at_offset ?off \<sigma>) (filter (\<lambda>c. \<not> is_linear c) ?cs)"
    unfolding nl by (rule offset_sats) (use ok(1) con_ok_wf in fastforce)
  ultimately show ?thesis by (auto simp: nl)
qed

lemma circuit_holds_split:
  "circuit_holds p d \<sigma> \<longleftrightarrow> circuit_linear_holds p d \<sigma> \<and>
    (\<forall>i off. instance_of d (length (dg_nodes d) - 1) 0 i off \<longrightarrow>
      all_sat p (at_offset off \<sigma>) (filter (\<lambda>c. \<not> is_linear c) (nd_constraints (dg_nodes d ! i))))"
proof -
  have "all_sat p \<tau> cs \<longleftrightarrow> all_sat p \<tau> (filter is_linear cs) \<and> all_sat p \<tau> (filter (\<lambda>c. \<not> is_linear c) cs)"
    for \<tau> :: "nat \<Rightarrow> int" and cs by (auto simp: all_sat_def)
  then show ?thesis unfolding circuit_holds_def circuit_linear_holds_def by metis
qed

text \<open>The collected constraints, from the trees and the iterators of all instances.\<close>

lemma collected_linear:
  assumes "dag_ok p d" and "dag_clean p d" and "\<forall>t \<in> set trees. tree_of q d t"
    and at: "\<forall>i off. (\<exists>t \<in> set trees. tr_node_id t = i \<and> tr_offset t = off) \<longleftrightarrow> instance_of d (length (dg_nodes d) - 1) 0 i off"
  shows "all_sat p \<sigma> (filter is_linear (concat (map tr_constraints trees))) \<longleftrightarrow> circuit_linear_holds p d \<sigma>"
proof -
  have "all_sat p \<sigma> (filter is_linear (concat (map tr_constraints trees))) \<longleftrightarrow>
      (\<forall>t \<in> set trees. all_sat p \<sigma> (filter is_linear (tr_constraints t)))"
    by (auto simp: all_sat_def)
  also have "\<dots> \<longleftrightarrow> (\<forall>t \<in> set trees. all_sat p (at_offset (tr_offset t) \<sigma>)
      (filter is_linear (nd_constraints (dg_nodes d ! tr_node_id t))))"
    using tree_linear_sat [OF assms(1,2)] assms(3) by blast
  also have "\<dots> \<longleftrightarrow> circuit_linear_holds p d \<sigma>"
    unfolding circuit_linear_holds_def at [rule_format, symmetric] by blast
  finally show ?thesis .
qed

lemma collected_non_linear:
  assumes "dag_ok p d" and "dag_clean p d" and "\<forall>t \<in> set trees. tree_of q d t"
    and at: "\<forall>i off. (\<exists>t \<in> set trees. tr_node_id t = i \<and> tr_offset t = off) \<longleftrightarrow> instance_of d (length (dg_nodes d) - 1) 0 i off"
    and same: "list_all2 (same_instance d enc) trees iters"
  shows "all_sat p \<sigma> (instance_constraints iters) \<longleftrightarrow>
    (\<forall>i off. instance_of d (length (dg_nodes d) - 1) 0 i off \<longrightarrow>
      all_sat p (at_offset off \<sigma>) (filter (\<lambda>c. \<not> is_linear c) (nd_constraints (dg_nodes d ! i))))"
proof -
  have "all_sat p \<sigma> (instance_constraints iters) \<longleftrightarrow> (\<forall>t \<in> set trees. all_sat p (at_offset (tr_offset t) \<sigma>)
      (filter (\<lambda>c. \<not> is_linear c) (nd_constraints (dg_nodes d ! tr_node_id t))))"
    using same assms(3)
  proof (induction rule: list_all2_induct)
    case (Cons t trees iter iters)
    have "tree_of q d t" using Cons.prems by simp
    then have "all_sat p \<sigma> (ei_non_linear iter) \<longleftrightarrow> all_sat p (at_offset (tr_offset t) \<sigma>)
        (filter (\<lambda>c. \<not> is_linear c) (nd_constraints (dg_nodes d ! tr_node_id t)))"
      using instance_non_linear [OF assms(1,2) _ Cons.hyps(1)] by blast
    then show ?case using Cons by (simp add: instance_constraints_def)
  qed (simp add: instance_constraints_def)
  then show ?thesis unfolding at [rule_format, symmetric] by blast
qed

end
