(* ===== verification/Goldilocks_Field.thy ===== *)
theory Goldilocks_Field
  imports Modular_Arithmetic
begin

text \<open>
  The constant \<open>P_GOLDILOCKS\<close> of \<open>program_structure/src/utils/constants.rs\<close> is a prime, so the
  hypothesis \<open>is_field\<close> of the theorems about the simplification holds for it. Its predecessor is
  divisible by \<open>2 ^ 32\<close>, and an element \<open>h\<close> with \<open>h ^ (2 ^ 31) = -1\<close> has \<open>2 ^ 32\<close> different powers
  modulo every divisor; so a proper divisor is greater than \<open>2 ^ 32\<close>, and there is none.
\<close>

section \<open>Powers of an element of order a power of two\<close>

lemma odd_part:
  assumes "0 < (k :: nat)"
  shows "\<exists>t m. k = 2 ^ t * m \<and> odd m"
  using assms
proof (induction k rule: less_induct)
  case (less k)
  show ?case
  proof (cases "odd k")
    case False
    then obtain l where l: "k = 2 * l" by blast
    then obtain t m where "l = 2 ^ t * m" "odd m" using less.IH [of l] less.prems by auto
    then have "k = 2 ^ Suc t * m" using l by simp
    then show ?thesis using \<open>odd m\<close> by blast
  qed (metis mult_1 power_0)
qed

lemma order_two_power:
  fixes h q :: int
  assumes q: "odd q" "1 < q" and h: "(h ^ (2 ^ n) + 1) mod q = 0" and k: "0 < k" "k < 2 ^ Suc n"
  shows "h ^ k mod q \<noteq> 1"
proof
  assume 1: "h ^ k mod q = 1"
  obtain t m where m: "k = 2 ^ t * m" "odd m" using odd_part [OF k(1)] by blast
  have "2 ^ t \<le> k" using m k(1) by (cases m) auto
  then have "2 ^ t < (2 :: nat) ^ Suc n" using k(2) by linarith
  then have t: "t \<le> n" using power_less_imp_less_exp [of "2 :: nat" t "Suc n"] by simp
  have "(h ^ k) ^ (2 ^ (n - t)) mod q = 1"
    using 1 q(2) by (metis mod_pos_pos_trivial power_mod power_one zero_le_one)
  moreover have "(h ^ k) ^ (2 ^ (n - t)) = (h ^ (2 ^ n)) ^ m"
  proof -
    have "(2 :: nat) ^ t * 2 ^ (n - t) = 2 ^ n" using t by (simp flip: power_add)
    then have "k * 2 ^ (n - t) = 2 ^ n * m" unfolding m(1) by (metis mult.assoc mult.commute)
    then show ?thesis by (metis power_mult)
  qed
  moreover have "h ^ (2 ^ n) mod q = (- 1) mod q"
    using h by (simp add: mod_eq_dvd_iff mod_eq_0_iff_dvd)
  then have "(h ^ (2 ^ n)) ^ m mod q = (- 1) ^ m mod q" by (metis power_mod)
  ultimately have "1 mod q = (- 1) mod q" using m(2) q(2) by simp
  then have "q dvd 2" by (simp add: mod_eq_dvd_iff)
  then have "q \<le> 2" by (rule zdvd_imp_le) simp
  then show False using q by presburger
qed

lemma divisor_large:
  fixes h q :: int
  assumes q: "odd q" "1 < q" and h: "(h ^ (2 ^ n) + 1) mod q = 0"
  shows "2 ^ Suc n < q"
proof -
  have unit: "coprime h q"
  proof (rule coprimeI)
    fix c assume c: "c dvd h" "c dvd q"
    have "q dvd h ^ (2 ^ n) + 1" using h by blast
    moreover have "c dvd h ^ (2 ^ n)" using dvd_trans [OF c(1) dvd_power [of "2 ^ n" h]] by simp
    ultimately show "is_unit c" using c(2) by (metis dvd_add_right_iff dvd_trans)
  qed
  have neq: "h ^ i mod q \<noteq> h ^ j mod q" if "i < j" "j < 2 ^ Suc n" for i j
  proof
    assume "h ^ i mod q = h ^ j mod q"
    then have "q dvd h ^ j - h ^ i" by (metis mod_eq_dvd_iff)
    moreover have "h ^ j - h ^ i = h ^ i * (h ^ (j - i) - 1)"
      using that(1) by (simp add: right_diff_distrib flip: power_add)
    moreover have "coprime q (h ^ i)" using unit by (simp add: coprime_commute)
    ultimately have "q dvd h ^ (j - i) - 1" by (simp add: coprime_dvd_mult_right_iff)
    then have "h ^ (j - i) mod q = 1 mod q" by (simp add: mod_eq_dvd_iff)
    then show False using order_two_power [OF q h, of "j - i"] that q(2) less_imp_diff_less [OF that(2), of i] by simp
  qed
  have "inj_on (\<lambda>i. h ^ i mod q) {..<2 ^ Suc n}"
    using neq by (intro inj_onI) (metis lessThan_iff linorder_neqE_nat)
  moreover have "(\<lambda>i. h ^ i mod q) ` {..<2 ^ Suc n} \<subseteq> {1..<q}"
  proof clarify
    fix i
    have "h ^ i mod q \<noteq> 0"
    proof
      assume "h ^ i mod q = 0"
      then have "q dvd h ^ i" by blast
      moreover have "coprime q (h ^ i)" using unit by (simp add: coprime_commute)
      ultimately have "is_unit q" by (meson coprime_absorb_left)
      then show False using q(2) by simp
    qed
    moreover have "0 \<le> h ^ i mod q" "h ^ i mod q < q" using q(2) by simp_all
    ultimately show "h ^ i mod q \<in> {1..<q}" by simp
  qed
  ultimately have "card {..<(2::nat) ^ Suc n} \<le> card {1..<q}" by (metis card_inj_on_le finite_atLeastLessThan_int)
  then have "2 ^ Suc n \<le> nat (q - 1)" by simp
  then show ?thesis using q(2) by (simp add: nat_le_eq_zle le_nat_iff)
qed

section \<open>The constant\<close>

definition goldilocks :: int where
  "goldilocks = 18446744069414584321"

text \<open>A certificate: quotients and remainders of repeated squaring.\<close>

fun squares :: "int \<Rightarrow> (int \<times> int) list \<Rightarrow> int \<Rightarrow> bool" where
  "squares x [] z \<longleftrightarrow> x = z"
| "squares x ((q, y) # l) z \<longleftrightarrow> x * x = q * goldilocks + y \<and> squares y l z"

lemma squares_power:
  "squares x l z \<Longrightarrow> goldilocks dvd x ^ (2 ^ length l) - z"
proof (induction x l z rule: squares.induct)
  case (2 x q y l z)
  have "goldilocks dvd x * x - y" using 2(2) by simp
  then have "(x * x) mod goldilocks = y mod goldilocks" by (simp add: mod_eq_dvd_iff)
  then have "(x * x) ^ (2 ^ length l) mod goldilocks = y ^ (2 ^ length l) mod goldilocks" by (metis power_mod)
  moreover have "y ^ (2 ^ length l) mod goldilocks = z mod goldilocks" using 2 by (simp add: mod_eq_dvd_iff)
  moreover have "(x * x) ^ (2 ^ length l) = x ^ (2 ^ Suc (length l))" by (simp add: power_mult power2_eq_square)
  ultimately show ?case by (simp add: mod_eq_dvd_iff)
qed simp

definition goldilocks_squares :: "(int \<times> int) list" where
  "goldilocks_squares =
    [(166708887468903991, 4614640910117430873),
     (1154399424049971884, 9123114210336311365),
     (4511973093009996851, 16116352524544190054),
     (14080361158478670879, 6414415596519834757),
     (2230460144622294524, 1213594585890690845),
     (79841288704448195, 17096174751763063430),
     (15844486704156700236, 5456943929260765144),
     (1614281465338340559, 9713644485405565297),
     (5114988793349933654, 16905767614792059275),
     (15493518941330557636, 5416168637041100469),
     (1590247178281506213, 17654865857378133588),
     (16896981237942002723, 3511170319078647661),
     (668319404399374695, 18146160046829613826),
     (17850473948468743512, 9306717745644682924),
     (4695408299218975106, 12380578893860276750),
     (8309256808156222390, 6115771955107415310),
     (2027602620068516376, 17776499369601055404),
     (17130607366173278638, 16207902636198568418),
     (14240784545824149997, 1532612707718625687),
     (127334216977357403, 17492915097719143606),
     (16588405924890216597, 455906449640507599),
     (11267608529812975, 11353340290879379826),
     (6987592784692205430, 1803076106186727246),
     (176241586724885086, 13797081185216407910),
     (10319406422896923811, 17870292113338400769),
     (17311854006015885313, 549755813888),
     (16384, 70368744161280),
     (268435455, 17293822564807737345),
     (16212958654255595520, 18446744069397807105),
     (18446744069381029889, 281474976710656),
     (4294967296, 18446744069414584320)]"

lemma goldilocks_element: "squares 1753635133440165772 goldilocks_squares (goldilocks - 1)"
  by (simp add: goldilocks_def goldilocks_squares_def)

lemma goldilocks_divisor:
  assumes "1 < q" and "q dvd goldilocks"
  shows "2 ^ 32 < q"
proof -
  let ?h = "1753635133440165772 :: int"
  have "odd goldilocks" by (simp add: goldilocks_def)
  then have "odd q" using assms(2) dvd_trans by blast
  have "length goldilocks_squares = 31" by (simp add: goldilocks_squares_def)
  then have "goldilocks dvd ?h ^ (2 ^ 31) - (goldilocks - 1)" using squares_power [OF goldilocks_element] by metis
  moreover have "goldilocks dvd z + 1" if "goldilocks dvd z - (goldilocks - 1)" for z
    using dvd_add [OF that dvd_refl] by (simp add: algebra_simps)
  ultimately have "goldilocks dvd ?h ^ (2 ^ 31) + 1" by blast
  then have "q dvd ?h ^ (2 ^ 31) + 1" by (rule dvd_trans [OF assms(2)])
  then have "(?h ^ (2 ^ 31) + 1) mod q = 0" by (simp only: mod_eq_0_iff_dvd)
  then have "2 ^ Suc 31 < q" by (rule divisor_large [OF \<open>odd q\<close> assms(1)])
  then show ?thesis by simp
qed

lemma goldilocks_field: "is_field goldilocks"
proof -
  have "coprime a goldilocks" if a: "0 < a" "a < goldilocks" for a
  proof (rule ccontr)
    let ?d = "gcd a goldilocks"
    assume "\<not> coprime a goldilocks"
    then have d: "1 < ?d" using a(1) by (smt (verit) coprime_iff_gcd_eq_1 gcd_pos_int)
    obtain e where e: "goldilocks = ?d * e" by (meson dvdE gcd_dvd2)
    have "?d \<le> a" using a(1) by (simp add: zdvd_imp_le)
    then have "1 < e" using e a d by (smt (verit) mult_cancel_left1 mult_nonneg_nonpos)
    then have E: "2 ^ 32 < e" using e by (intro goldilocks_divisor) (metis dvd_triv_right)+
    have D: "2 ^ 32 < ?d" using d by (intro goldilocks_divisor) simp_all
    have "0 < ?d" using d by linarith
    then have "2 ^ 32 * 2 ^ 32 < ?d * e" by (rule mult_strict_mono [OF D E]) simp
    then show False using e by (simp add: goldilocks_def)
  qed
  then show ?thesis by (simp add: is_field_def goldilocks_def)
qed

text \<open>The field that \<open>UsefulConstants::new\<close> takes for \<open>goldilocks\<close> is a prime: every number below it
  that is not zero is invertible modulo it.\<close>

theorem goldilocks_prime: "\<exists>p. UsefulConstants_new ''goldilocks'' = Some p \<and> is_field p"
  using goldilocks_field by (simp add: UsefulConstants_new_def goldilocks_def)

end
