(* ===== verification/Dag_Example.thy ===== *)
theory Dag_Example
  imports Dag_Offsets Goldilocks_Field
begin

text \<open>
  A graph of two nodes over the Goldilocks field, built step by step, at which the theorems about graphs
  apply; and the properties of the numbering with that graph as their witness.
\<close>

section \<open>The graph\<close>

text \<open>A component that squares its input, and a main component that outputs the square.\<close>

definition square_dag :: dag where
  "square_dag =
     dag_add_constraint \<lparr>con_a = [(2, 1)], con_b = [(2, 1)], con_c = [(1, 1)]\<rparr>
       (dag_add_input ''b'' False (dag_add_output ''a'' (snd (dag_add_node ''Square'' [] False False (dag_new ''goldilocks'')))))"

definition main_dag :: dag where
  "main_dag = dag_add_output ''x'' (snd (dag_add_node ''Main'' [] False False square_dag))"

definition linked_dag :: dag where
  "linked_dag = snd (the (dag_add_edge 0 ''c'' False main_dag))"

definition example_dag :: dag where
  "example_dag = dag_add_constraint \<lparr>con_a = [], con_b = [], con_c = [(1, 1), (2, 18446744069414584320)]\<rparr> linked_dag"

lemma dag_built_new: "dag_built p prime (dag_new prime)"
  by (simp add: dag_built_def)

lemma dag_built_step: "dag_built p prime d \<Longrightarrow> dag_step p d d' \<Longrightarrow> dag_built p prime d'"
  by (simp add: dag_built_def)

lemmas dag_simps = dag_add_node_def dag_new_def node_new_def edge_new_entry_def dag_add_output_def dag_add_input_def
  node_add_output_def node_add_input_def update_main_def dag_add_constraint_def node_add_constraint_def Let_def entry_grown_def

lemma square_dag_built: "dag_built goldilocks ''goldilocks'' square_dag"
  unfolding square_dag_def
  by (rule dag_built_step [OF dag_built_step [OF dag_built_step [OF dag_built_step [OF dag_built_new new_node] new_output]
      private_input] new_constraint])
    (simp_all add: dag_simps main_allows_def get_main_def con_reduced_def con_wf_def hm_wf_def reduced_def con_keys_def goldilocks_def)

lemma main_dag_built: "dag_built goldilocks ''goldilocks'' main_dag"
  unfolding main_dag_def
  by (rule dag_built_step [OF dag_built_step [OF square_dag_built new_node] new_output])
    (simp add: dag_simps main_allows_def get_main_def)

lemma linked_dag_built: "dag_built goldilocks ''goldilocks'' linked_dag"
proof -
  have "\<exists>e. dag_add_edge 0 ''c'' False main_dag = Some (e, linked_dag)"
    by (simp add: linked_dag_def main_dag_def square_dag_def dag_simps dag_add_edge_def main_id_def add_concrete_signal_def
        is_local_signal_def)
  moreover have "main_allows (\<lambda>n. concrete_names ''c'' (dg_nodes main_dag ! 0) \<inter> keys_of (nd_signal_correspondence n) = {}) main_dag"
    by (auto simp: main_allows_def get_main_def concrete_names_def main_dag_def square_dag_def dag_simps)
  ultimately show ?thesis using dag_built_step [OF main_dag_built new_edge] by blast
qed

lemma linked_main:
  "length (dg_nodes linked_dag) = 2 \<and> dg_prime linked_dag = ''goldilocks'' \<and>
    dg_adjacency linked_dag = [[], [\<lparr>eg_label = ''c'', eg_goes_to = 0, eg_in_number = 1, eg_out_number = 3,
      eg_in_component_number = 1, eg_out_component_number = 2\<rparr>]] \<and>
    nd_constraints (dg_nodes linked_dag ! 0) = [\<lparr>con_a = [(2, 1)], con_b = [(2, 1)], con_c = [(1, 1)]\<rparr>]"
  "nd_number_of_signals (dg_nodes linked_dag ! Suc 0) = 3 \<and> nd_outputs_length (dg_nodes linked_dag ! Suc 0) = 1 \<and>
    nd_public_inputs_length (dg_nodes linked_dag ! Suc 0) = 0 \<and> nd_constraints (dg_nodes linked_dag ! Suc 0) = []"
  by (simp_all add: linked_dag_def main_dag_def square_dag_def dag_simps dag_add_edge_def main_id_def add_concrete_signal_def
      is_local_signal_def)

lemma linked_nonempty: "dg_nodes linked_dag \<noteq> []"
  using linked_main(1) by auto

lemma example_dag_built: "dag_built goldilocks ''goldilocks'' example_dag"
  unfolding example_dag_def
  by (rule dag_built_step [OF linked_dag_built new_constraint])
    (use linked_main linked_nonempty in \<open>simp add: main_allows_def get_main_def last_conv_nth con_reduced_def con_wf_def
       hm_wf_def reduced_def con_keys_def goldilocks_def\<close>)

lemma example_main:
  "dg_nodes example_dag \<noteq> []" "number_of_nodes example_dag \<le> 2" "constants_of example_dag goldilocks"
  "nd_number_of_signals (last (dg_nodes example_dag)) = 3" "dag_public_outputs example_dag = 1" "dag_public_inputs example_dag = 0"
  using linked_main linked_nonempty
  by (simp_all add: example_dag_def dag_add_constraint_def update_main_def node_add_constraint_def number_of_nodes_def constants_of_def
      UsefulConstants_new_def goldilocks_def dag_public_outputs_def dag_public_inputs_def get_main_def last_conv_nth)

lemma example_nodes:
  "length (dg_nodes example_dag) = 2" "dg_adjacency example_dag = dg_adjacency linked_dag"
  "nd_constraints (dg_nodes example_dag ! 0) = [\<lparr>con_a = [(2, 1)], con_b = [(2, 1)], con_c = [(1, 1)]\<rparr>]"
  "nd_constraints (dg_nodes example_dag ! Suc 0) = [\<lparr>con_a = [], con_b = [], con_c = [(1, 1), (2, 18446744069414584320)]\<rparr>]"
  using linked_main linked_nonempty
  by (simp_all add: example_dag_def dag_add_constraint_def update_main_def node_add_constraint_def last_conv_nth)

lemma example_instances: "instance_of example_dag (Suc 0) 0 i off \<Longrightarrow> i = Suc 0 \<and> off = 0 \<or> i = 0 \<and> off = 1"
  by (induction rule: instance_of.induct) (use linked_main(1) in \<open>auto simp: example_nodes\<close>)

lemma example_solution: "circuit_holds goldilocks example_dag (\<lambda>k. if k = 0 then 1 else if k = 3 then 3 else 9)"
  unfolding circuit_holds_def example_nodes(1)
proof (intro allI impI)
  fix i off assume "instance_of example_dag (2 - 1) 0 i off"
  then have "i = Suc 0 \<and> off = 0 \<or> i = 0 \<and> off = 1" using example_instances by simp
  then show "all_sat goldilocks (at_offset off (\<lambda>k. if k = 0 then 1 else if k = 3 then 3 else 9)) (nd_constraints (dg_nodes example_dag ! i))"
    by (elim disjE conjE) (simp_all add: example_nodes sat_def lin_def at_offset_def goldilocks_def)
qed

section \<open>The witness lists every signal once\<close>

text \<open>C3: For a graph built by the steps, the witness that \<open>produce_witness\<close> collects is a permutation of
  the numbers from zero to the number of signals of the main node: no signal of the circuit is
  missing, and none is listed twice.\<close>

theorem produce_witness_permutation:
  assumes "dag_built p prime d" and "dg_nodes d \<noteq> []" and "constants_of d q" and "number_of_nodes d \<le> fuel"
  shows "\<exists>witness. produce_witness fuel d = Some witness \<and> distinct witness \<and>
    set witness = {0..nd_number_of_signals (last (dg_nodes d))}"
proof -
  obtain witness where w: "produce_witness fuel d = Some witness"
    "mset witness = mset [0..<nd_number_of_signals (last (dg_nodes d)) + 1]"
    using produce_witness_ok [OF dag_built_ok [OF assms(1)] assms(2,3)] assms(4) by (auto simp: number_of_nodes_def)
  have "distinct witness" using mset_eq_imp_distinct_iff [OF w(2)] by (simp del: upt_Suc)
  moreover have "set witness = {0..nd_number_of_signals (last (dg_nodes d))}"
    using mset_eq_setD [OF w(2)] by (simp add: atLeastLessThanSuc_atLeastAtMost del: upt_Suc)
  ultimately show ?thesis using w(1) by blast
qed

theorem produce_witness_permutation_witness:
  "\<exists>witness. produce_witness 2 example_dag = Some witness \<and> distinct witness \<and> set witness = {0..3}"
  using produce_witness_permutation [OF example_dag_built example_main(1,3,2)] example_main(4) by simp

section \<open>The numbering is an invariant\<close>

text \<open>C4: In every graph built by the steps, the signals of a node and the ranges of its subcomponents cover
  the numbers from one to its number of signals, each once; a subcomponent is a node created before,
  with a range of its size; different names have different numbers; and the signals that are
  forbidden when the node is the main component are the constant, its outputs and its public inputs.\<close>

theorem dag_built_numbered:
  assumes "dag_built p prime d" and "i < number_of_nodes d"
  shows "mset (local_ids (dg_nodes d ! i)) + edge_numbers (dg_adjacency d ! i) =
      mset [1..<nd_number_of_signals (dg_nodes d ! i) + 1] \<and>
    (\<forall>e \<in> set (dg_adjacency d ! i). eg_goes_to e < i \<and>
      eg_out_number e = eg_in_number e + nd_number_of_signals (dg_nodes d ! eg_goes_to e)) \<and>
    distinct (map snd (nd_signal_correspondence (dg_nodes d ! i))) \<and>
    nd_forbidden_if_main (dg_nodes d ! i) =
      {0..nd_outputs_length (dg_nodes d ! i) + nd_public_inputs_length (dg_nodes d ! i)}"
  using dag_okD [OF dag_built_ok [OF assms(1)], of i] assms(2)
  by (simp add: number_of_nodes_def node_ok_def numbers_ok_def edges_ok_def interface_ok_def del: upt_Suc)

theorem dag_built_numbered_witness:
  "mset (local_ids (dg_nodes example_dag ! 1)) + edge_numbers (dg_adjacency example_dag ! 1) =
    mset [1..<nd_number_of_signals (dg_nodes example_dag ! 1) + 1]"
  by (rule conjunct1 [OF dag_built_numbered [OF example_dag_built, of 1]])
    (simp add: number_of_nodes_def example_nodes)

section \<open>Cleaning keeps the solutions\<close>

text \<open>C32: Cleaning a graph keeps the solutions of the circuit, and every constraint it leaves is free of zero
  coefficients, with coefficients in the field, and not empty.\<close>

theorem clean_constraints_correct:
  assumes "dag_built p prime d" and "dg_nodes d \<noteq> []"
  shows "(\<forall>\<sigma>. circuit_holds p (dag_clean_constraints d) \<sigma> \<longleftrightarrow> circuit_holds p d \<sigma>) \<and>
    (\<forall>node \<in> set (dg_nodes (dag_clean_constraints d)). \<forall>c \<in> set (nd_constraints node). con_ok p c \<and> \<not> constraint_is_empty c)"
proof -
  have ok: "dag_ok p d" by (rule dag_built_ok [OF assms(1)])
  have "\<not> constraint_is_empty c" if "node \<in> set (dg_nodes (dag_clean_constraints d))" "c \<in> set (nd_constraints node)" for node c
    using that by (auto simp: dag_clean_constraints_def clean_constraints_def cleaned_constraints)
  moreover have "con_ok p c" if "node \<in> set (dg_nodes (dag_clean_constraints d))" "c \<in> set (nd_constraints node)" for node c
    using dag_clean_constraints_clean [OF ok] that by (simp add: dag_clean_def)
  ultimately show ?thesis using circuit_holds_clean [OF ok assms(2)] by blast
qed

theorem clean_constraints_correct_witness:
  "circuit_holds goldilocks (dag_clean_constraints example_dag) (\<lambda>k. if k = 0 then 1 else if k = 3 then 3 else 9)"
  using clean_constraints_correct [OF example_dag_built example_main(1)] example_solution by blast

end
