(* ===== verification/Dag_Correct.thy ===== *)
theory Dag_Correct
  imports Dag_Mapping Dag_Example
begin

text \<open>
  From the graph to the constraint list: the simplifier built from a cleaned graph is fit for the
  simplification, and what \<open>map_to_list\<close> returns has the solutions of the circuit.
\<close>

section \<open>The simplifier is fit\<close>

definition maps_circuit :: "int \<Rightarrow> dag \<Rightarrow> simplifier \<Rightarrow> nat constraint list \<Rightarrow> bool" where
  "maps_circuit p d smp nl \<longleftrightarrow>
     (\<forall>\<sigma>. all_sat p \<sigma> (circuit_constraints smp nl) \<longleftrightarrow> circuit_holds p d \<sigma>) \<and>
     (\<forall>\<sigma>. circuit_linear_holds p d \<sigma> \<longrightarrow> all_sat p \<sigma> (sm_equalities smp @ sm_cons_equalities smp)) \<and>
     sm_max_signal smp = nd_number_of_signals (last (dg_nodes d)) + 1 \<and>
     nd_forbidden_if_main (last (dg_nodes d)) \<subseteq> sm_forbidden smp \<and>
     sm_no_public_outputs smp = nd_outputs_length (last (dg_nodes d)) \<and>
     sm_no_public_inputs smp = nd_public_inputs_length (last (dg_nodes d)) \<and>
     sm_no_private_inputs smp = nd_inputs_length (last (dg_nodes d)) - nd_public_inputs_length (last (dg_nodes d))"

lemma held_sat:
  "all_sat p \<sigma> (filter (\<lambda>c. \<not> is_constant_equality c \<and> is_equality c q) cs @ filter is_constant_equality cs @
      filter (\<lambda>c. \<not> is_constant_equality c \<and> \<not> is_equality c q \<and> is_linear c) cs) \<longleftrightarrow>
    all_sat p \<sigma> (filter is_linear cs)"
  for cs :: "nat constraint list"
proof -
  have i: "is_constant_equality c \<Longrightarrow> is_linear c" for c :: "nat constraint" by (simp add: is_constant_equality_def is_linear_def)
  have j: "is_equality c q \<Longrightarrow> is_linear c" for c :: "nat constraint"
    by (simp add: is_equality_def is_linear_def Let_def split: if_splits)
  have "set (filter (\<lambda>c. \<not> is_constant_equality c \<and> is_equality c q) cs @ filter is_constant_equality cs @
      filter (\<lambda>c. \<not> is_constant_equality c \<and> \<not> is_equality c q \<and> is_linear c) cs) = set (filter is_linear cs)"
    by (auto intro: i j)
  then show ?thesis unfolding all_sat_def by (rule arg_cong)
qed

lemma dag_simplifier_ok:
  assumes d: "dag_ok p d" "dag_clean p d" "dg_nodes d \<noteq> []" and "constants_of d p" and fuel: "length (dg_nodes d) \<le> fuel"
  shows "\<exists>smp nl. dag_simplifier fuel d flags = Some smp \<and> encoded_constraints fuel (sm_dag_encoding smp) = Some nl \<and>
    simplifier_ok p smp nl \<and> maps_circuit p d smp nl"
proof -
  define m where "m = length (dg_nodes d) - 1"
  define main where "main = last (dg_nodes d)"
  let ?n = "nd_number_of_signals main"
  have m: "m < length (dg_nodes d)" "main = dg_nodes d ! m" using d(3) by (simp_all add: m_def main_def last_conv_nth)
  have mf: "m < fuel" using m(1) fuel by linarith
  have I: "interface_ok main" using dag_okD [OF d(1) m(1)] by (simp add: node_ok_def m(2))
  obtain tree where tree: "tree_new d = Some tree" "tree_at d tree" "tr_node_id tree = m" "tr_offset tree = 0"
    "tr_field tree = p" "tr_constraints tree = nd_constraints main"
    using tree_new_at [OF d(3,1) assms(4)] unfolding m_def main_def by blast
  have to: "tree_of p d tree" using tree m by (simp add: tree_of_def)
  have tf: "tr_node_id tree < fuel" using tree(3) mf by simp
  obtain trees where trees: "preorder tree_children fuel tree = Some trees"
    "mset (concat (map tr_signals trees)) = mset [1..<?n + 1]"
    using preorder_trees [OF d(1) tree(2) tf] by (auto simp: tree(3,4) m(2) simp del: upt_Suc)
  have of: "\<forall>t \<in> set trees. tree_of p d t" using preorder_trees_of [OF d(1) tree(2) tf] to trees(1) by blast
  have at: "\<forall>i off. (\<exists>t \<in> set trees. tr_node_id t = i \<and> tr_offset t = off) \<longleftrightarrow> instance_of d m 0 i off"
    using preorder_instances [OF d(1) tree(2) tf] trees(1) by (simp add: tree(3,4))
  define cs where "cs = concat (map tr_constraints trees)"
  define k where "k = length (filter (\<lambda>c. \<not> is_linear c) cs)"
  define F where "F = nd_forbidden_if_main main \<union> (\<Union>t \<in> set trees. custom_signals t)"
  define holder where "holder = \<lparr>ch_linear = filter (\<lambda>c. \<not> is_constant_equality c \<and> \<not> is_equality c p \<and> is_linear c) cs,
    ch_equalities = filter (\<lambda>c. \<not> is_constant_equality c \<and> is_equality c p) cs,
    ch_constant_equalities = filter is_constant_equality cs\<rparr>"
  have hold: "fold (hold_constraint p) cs (0, c_holder_default) = (k, holder)"
    by (simp add: hold_constraints k_def holder_def c_holder_default_def)
  have "mapped_tree fuel tree (0, [0], c_holder_default, nd_forbidden_if_main main) =
      Some (k, [0] @ concat (map tr_signals trees), holder, F)"
    using mapped.walk_fold [OF trees(1), of "(0, [0], c_holder_default, nd_forbidden_if_main main)"]
      map_visits [OF of, of 0 "[0]" c_holder_default "nd_forbidden_if_main main"] hold
    by (simp add: F_def flip: cs_def)
  then have mt: "map_tree fuel tree ([0], c_holder_default, nd_forbidden_if_main main) =
      Some (k, 0 # concat (map tr_signals trees), holder, F)"
    by (auto simp: mapped_tree_def)
  obtain enc where enc: "produce_encoding k m (dg_nodes d) (dg_adjacency d) = Some enc" "encodes d enc" "de_init enc = m"
    using produce_encoding_ok [OF d(1)] by blast
  define smp where "smp = \<lparr>sm_field = p, sm_dag_encoding = enc, sm_no_public_inputs = nd_public_inputs_length main,
    sm_no_public_outputs = nd_outputs_length main, sm_no_private_inputs = nd_inputs_length main - nd_public_inputs_length main,
    sm_forbidden = F, sm_cons_equalities = ch_constant_equalities holder, sm_equalities = ch_equalities holder,
    sm_linear = ch_linear holder, sm_max_signal = ?n + 1, sm_no_rounds = fl_no_rounds flags,
    sm_flag_s = fl_flag_s flags, sm_flag_old_heuristics = fl_flag_old_heuristics flags\<rparr>"
  have len: "length (concat (map tr_signals trees)) = ?n"
    using mset_eq_length [OF trees(2)] by (simp del: upt_Suc)
  have g: "UsefulConstants_new (dg_prime d) = Some p" "main_id d = Some m" "get_main d = Some main"
    "dag_private_inputs d = Some (nd_inputs_length main - nd_public_inputs_length main)"
    "dag_public_inputs d = nd_public_inputs_length main" "dag_public_outputs d = nd_outputs_length main"
    using assms(4) d(3) I by (simp_all add: constants_of_def main_id_def get_main_def m_def main_def dag_private_inputs_def
        number_of_private_inputs_def interface_ok_def dag_public_inputs_def dag_public_outputs_def)
  have smp: "dag_simplifier fuel d flags = Some smp"
    by (simp add: dag_simplifier_def g tree(1) mt enc(1) len smp_def)
  obtain iter where iter: "iterator_new enc = Some iter" "same_instance d enc tree iter"
    using build_same_instance [OF enc(2), of tree "\<lparr>ei_encoding = enc, ei_node_id = de_init enc, ei_path = ''main'',
      ei_offset = 0, ei_signals = [], ei_non_linear = []\<rparr>"] m(1) tree(3,4) enc(3)
    by (auto simp: iterator_new_def)
  obtain iters where iters: "preorder iterator_children fuel iter = Some iters" "list_all2 (same_instance d enc) trees iters"
    using preorder_same [OF d(1) tree(2) tf enc(2)] iter(2) trees(1) by blast
  define nl where "nl = instance_constraints iters"
  have nl: "encoded_constraints fuel (sm_dag_encoding smp) = Some nl"
    by (simp add: encoded_constraints_def smp_def iter(1) iters(1) nl_def)
  have bound: "insert 0 {tr_offset t + 1..tr_offset t + nd_number_of_signals (dg_nodes d ! tr_node_id t)} \<subseteq> {..<?n + 1}"
    if "t \<in> set trees" for t
  proof -
    have "instance_of d m 0 (tr_node_id t) (tr_offset t)" using at that by blast
    then have "{tr_offset t + 1..tr_offset t + nd_number_of_signals (dg_nodes d ! tr_node_id t)} \<subseteq> {0 + 1..0 + ?n}"
      unfolding m(2) by (rule conjunct2 [OF instance_of_node [OF d(1) _ m(1)]])
    then show ?thesis by auto
  qed
  have csok: "con_ok p c \<and> con_keys c \<subseteq> {..<?n + 1}" if c: "c \<in> set cs" for c
  proof -
    obtain t where t: "t \<in> set trees" "c \<in> set (tr_constraints t)" using c by (auto simp: cs_def)
    then show ?thesis using tree_constraint_ok [OF d(1,2) _ t(2)] of bound [OF t(1)] by (meson subset_trans)
  qed
  have nlok: "con_ok p c \<and> con_keys c \<subseteq> {..<?n + 1}" if c: "c \<in> set nl" for c
  proof -
    obtain it where it: "it \<in> set iters" "c \<in> set (ei_non_linear it)" using c by (auto simp: nl_def instance_constraints_def)
    obtain t where t: "t \<in> set trees" "same_instance d enc t it" using list_all2_right [OF iters(2) it(1)] by blast
    have "tree_of p d t" using of t(1) by blast
    from instance_non_linear [OF d(1,2) this t(2)] have "con_ok p c \<and>
        con_keys c \<subseteq> insert 0 {tr_offset t + 1..tr_offset t + nd_number_of_signals (dg_nodes d ! tr_node_id t)}"
      using it(2) by blast
    then show ?thesis using bound [OF t(1)] by (meson subset_trans)
  qed
  have Fb: "nd_forbidden_if_main main \<subseteq> F" "F \<subseteq> {..<?n + 1}"
  proof -
    have "set (concat (map tr_signals trees)) = set [1..<?n + 1]" using mset_eq_setD [OF trees(2)] by blast
    moreover have "(\<Union>t \<in> set trees. custom_signals t) \<subseteq> set (concat (map tr_signals trees))"
      by (auto simp: custom_signals_def split: if_splits)
    ultimately have "(\<Union>t \<in> set trees. custom_signals t) \<subseteq> {..<?n + 1}" by (simp del: upt_Suc) fastforce
    moreover have "nd_forbidden_if_main main \<subseteq> {..<?n + 1}" using I by (auto simp: interface_ok_def)
    ultimately show "F \<subseteq> {..<?n + 1}" by (simp add: F_def)
    show "nd_forbidden_if_main main \<subseteq> F" by (simp add: F_def)
  qed
  have sig: "signals_of (sm_equalities smp @ sm_cons_equalities smp @ sm_linear smp @ nl) \<subseteq> {..<?n + 1}"
    using csok nlok by (auto simp: signals_of_def smp_def holder_def)
  have forb: "nd_forbidden_if_main main = {0..nd_outputs_length main + nd_public_inputs_length main}"
    "nd_outputs_length main + nd_inputs_length main \<le> ?n" "nd_public_inputs_length main \<le> nd_inputs_length main"
    using I by (simp_all add: interface_ok_def)
  have "simplifier_ok p smp nl"
    unfolding simplifier_ok_def
  proof (intro conjI)
    show "0 \<in> sm_forbidden smp" using Fb(1) forb(1) by (auto simp: smp_def)
    show "sm_forbidden smp \<subseteq> {..<sm_max_signal smp}" using Fb(2) by (simp add: smp_def)
    show "\<forall>c \<in> set (sm_equalities smp). con_ok p c \<and> is_equality c p" using csok by (simp add: smp_def holder_def)
    show "\<forall>c \<in> set (sm_cons_equalities smp). con_ok p c \<and> is_constant_equality c" using csok by (simp add: smp_def holder_def)
    show "\<forall>c \<in> set (sm_linear smp). con_ok p c \<and> is_linear c" using csok by (simp add: smp_def holder_def)
    show "\<forall>c \<in> set nl. con_reduced p c" using nlok con_ok_reduced by blast
    show "signals_of (sm_equalities smp @ sm_cons_equalities smp @ sm_linear smp @ nl) \<subseteq> {..<sm_max_signal smp}"
      using sig by (simp add: smp_def)
    show "{sm_no_public_outputs smp + 1..sm_no_public_outputs smp + sm_no_public_inputs smp} \<subseteq> sm_forbidden smp"
      using Fb(1) forb(1) by (auto simp: smp_def)
    show "sm_no_public_outputs smp + sm_no_public_inputs smp + sm_no_private_inputs smp < sm_max_signal smp"
      using forb(2,3) by (simp add: smp_def)
  qed (simp add: smp_def)
  moreover have "maps_circuit p d smp nl"
  proof -
    have lin: "all_sat p \<sigma> (sm_equalities smp @ sm_cons_equalities smp @ sm_linear smp) \<longleftrightarrow> circuit_linear_holds p d \<sigma>" for \<sigma>
      using collected_linear [OF d(1,2) of, folded m_def, OF at, of \<sigma>] held_sat [of p \<sigma> p cs]
      by (simp add: smp_def holder_def flip: cs_def)
    have non: "all_sat p \<sigma> nl \<longleftrightarrow> (\<forall>i off. instance_of d m 0 i off \<longrightarrow>
        all_sat p (at_offset off \<sigma>) (filter (\<lambda>c. \<not> is_linear c) (nd_constraints (dg_nodes d ! i))))" for \<sigma>
      unfolding nl_def m_def by (rule collected_non_linear [OF d(1,2) of _ iters(2)]) (use at in \<open>simp add: m_def\<close>)
    have "circuit_constraints smp nl = (sm_equalities smp @ sm_cons_equalities smp @ sm_linear smp) @ nl"
      by (simp add: circuit_constraints_def)
    then have "all_sat p \<sigma> (circuit_constraints smp nl) \<longleftrightarrow> circuit_holds p d \<sigma>" for \<sigma>
      using all_sat_append [of p \<sigma> _ nl] lin [of \<sigma>] non [of \<sigma>] unfolding circuit_holds_split m_def by metis
    moreover have "circuit_linear_holds p d \<sigma> \<Longrightarrow> all_sat p \<sigma> (sm_equalities smp @ sm_cons_equalities smp)" for \<sigma>
      using lin [of \<sigma>] by simp
    ultimately show ?thesis using Fb(1) unfolding maps_circuit_def by (simp add: smp_def flip: main_def)
  qed
  ultimately show ?thesis using smp nl by blast
qed


section \<open>Lists\<close>

text \<open>What a constraint list says of a circuit: its constraints are over the signals that have a place in
  the witness, they follow from the circuit, and a solution of them, on those signals, is one of the
  circuit. The last needs equalities and constants that do not contradict each other: a
  contradiction is dropped (\<open>conflicting_constants_dropped\<close>).\<close>

definition lists_circuit :: "int \<Rightarrow> dag \<Rightarrow> signal_map \<Rightarrow> nat constraint list \<Rightarrow> bool" where
  "lists_circuit p d wmap cs \<longleftrightarrow>
     (\<forall>\<sigma>. assigns_one \<sigma> \<longrightarrow> circuit_holds p d \<sigma> \<longrightarrow> all_sat p \<sigma> cs) \<and>
     ((\<exists>\<rho>. assigns_one \<rho> \<and> circuit_linear_holds p d \<rho>) \<longrightarrow>
       (\<forall>\<sigma>. assigns_one \<sigma> \<longrightarrow> all_sat p \<sigma> cs \<longrightarrow>
         (\<exists>\<tau>. assigns_one \<tau> \<and> (\<forall>k \<in> keys_of wmap. \<tau> k = \<sigma> k) \<and> circuit_holds p d \<tau>))) \<and>
     signals_of cs \<subseteq> keys_of wmap \<and> nd_forbidden_if_main (last (dg_nodes d)) \<subseteq> keys_of wmap"

lemma maps_lists:
  assumes "maps_circuit p d smp nl" and "simplified p smp nl cs wmap"
  shows "lists_circuit p d wmap cs"
proof -
  have m: "\<And>\<sigma>. all_sat p \<sigma> (circuit_constraints smp nl) \<longleftrightarrow> circuit_holds p d \<sigma>"
    "\<And>\<sigma>. circuit_linear_holds p d \<sigma> \<Longrightarrow> all_sat p \<sigma> (sm_equalities smp @ sm_cons_equalities smp)"
    "nd_forbidden_if_main (last (dg_nodes d)) \<subseteq> sm_forbidden smp"
    using assms(1) unfolding maps_circuit_def by blast+
  note s = assms(2) [unfolded simplified_def m(1)]
  show ?thesis unfolding lists_circuit_def
  proof (intro conjI)
    show "\<forall>\<sigma>. assigns_one \<sigma> \<longrightarrow> circuit_holds p d \<sigma> \<longrightarrow> all_sat p \<sigma> cs" using s by (elim conjE)
    show "signals_of cs \<subseteq> keys_of wmap" using s by (elim conjE)
    show "nd_forbidden_if_main (last (dg_nodes d)) \<subseteq> keys_of wmap" using s m(3) by (elim conjE) (rule subset_trans)
    show "(\<exists>\<rho>. assigns_one \<rho> \<and> circuit_linear_holds p d \<rho>) \<longrightarrow> (\<forall>\<sigma>. assigns_one \<sigma> \<longrightarrow> all_sat p \<sigma> cs \<longrightarrow>
         (\<exists>\<tau>. assigns_one \<tau> \<and> (\<forall>k \<in> keys_of wmap. \<tau> k = \<sigma> k) \<and> circuit_holds p d \<tau>))"
    proof
      assume "\<exists>\<rho>. assigns_one \<rho> \<and> circuit_linear_holds p d \<rho>"
      then have "\<exists>\<rho>. assigns_one \<rho> \<and> all_sat p \<rho> (sm_equalities smp @ sm_cons_equalities smp)" using m(2) by blast
      with s show "\<forall>\<sigma>. assigns_one \<sigma> \<longrightarrow> all_sat p \<sigma> cs \<longrightarrow>
         (\<exists>\<tau>. assigns_one \<tau> \<and> (\<forall>k \<in> keys_of wmap. \<tau> k = \<sigma> k) \<and> circuit_holds p d \<tau>)" by (elim conjE) (erule (1) mp)
    qed
  qed
qed

lemma dag_map_to_list_ok:
  assumes "is_field p" and "inverse_ok minv p" and "raw_ok to_raw of_raw" and "schedule_ok sched"
    and "dag_ok p d" "dag_clean p d" "dg_nodes d \<noteq> []" and "constants_of d p" and "length (dg_nodes d) \<le> fuel"
  shows "\<exists>l cs. dag_map_to_list minv to_raw of_raw sched fuel d flags = Some l \<and>
    stored of_raw (cn_constraints l) cs \<and> lists_circuit p d (cn_signal_map l) cs \<and>
    cn_no_labels l = nd_number_of_signals (last (dg_nodes d)) + 1"
proof -
  obtain smp nl where smp: "dag_simplifier fuel d flags = Some smp" "encoded_constraints fuel (sm_dag_encoding smp) = Some nl"
    "simplifier_ok p smp nl" "maps_circuit p d smp nl"
    using dag_simplifier_ok [OF assms(5-9)] by blast
  obtain storage wmap cs where r: "simplification minv to_raw of_raw sched fuel smp = Some (storage, wmap, private_inputs_kept smp wmap)"
    "stored of_raw storage cs" "simplified p smp nl cs wmap"
    using simplification_ok [OF assms(1-4) smp(2,3)] by (elim exE conjE) (rule that)
  have "sm_max_signal smp = nd_number_of_signals (last (dg_nodes d)) + 1"
    using smp(4) unfolding maps_circuit_def by (elim conjE)
  then show ?thesis using smp(1) r(1,2) maps_lists [OF smp(4) r(3)]
    by (simp add: dag_map_to_list_def simplify_constraints_def) blast
qed



end
