(* ===== verification/R1cs_Writer.thy ===== *)
theory R1cs_Writer
  imports Prelude "HOL-Library.Word" "HOL-Library.List_Lexorder"
begin

text \<open>
  The writer of r1cs files, \<open>constraint_writers/src/r1cs_writer.rs\<close>. A file is its bytes and a position;
  bytes are words of eight bits. The functions return \<open>Err(())\<close> only where the operating system
  refuses a write; here writes succeed, and the results are the states. The fields of the five kinds
  of section are the same, but for the counter of constraints.
\<close>

section \<open>Files\<close>

type_synonym byte = "8 word"

record byte_file =
  bf_bytes :: "byte list"
  bf_position :: nat

text \<open>Writing overwrites what is at the position and extends the file; a gap is filled with zeros.\<close>

definition write_all :: "byte list \<Rightarrow> byte_file \<Rightarrow> byte_file" where
  "write_all bs f =
     (let n = bf_position f;
          bytes = bf_bytes f @ replicate (n - length (bf_bytes f)) 0
      in f\<lparr>bf_bytes := take n bytes @ bs @ drop (n + length bs) bytes, bf_position := n + length bs\<rparr>)"

definition seek_start :: "nat \<Rightarrow> byte_file \<Rightarrow> byte_file" where
  "seek_start n f = f\<lparr>bf_position := n\<rparr>"

section \<open>Numbers\<close>

text \<open>\<open>to_bytes_le\<close> of the big-integer crate: the digits of the absolute value to the base 256, from the
  lowest, a single zero for zero.\<close>

fun nat_to_bytes_le :: "nat \<Rightarrow> byte list" where
  "nat_to_bytes_le n = (if n < 256 then [of_nat n] else of_nat (n mod 256) # nat_to_bytes_le (n div 256))"

definition to_bytes_le :: "int \<Rightarrow> byte list" where
  "to_bytes_le n = nat_to_bytes_le (nat \<bar>n\<bar>)"

definition into_format :: "byte list \<Rightarrow> nat \<Rightarrow> byte list \<times> nat" where
  "into_format number with_bytes =
     (let v = number @ replicate (with_bytes - length number) 0 in (v, length v))"

definition bigint_as_bytes :: "int \<Rightarrow> nat \<Rightarrow> byte list \<times> nat" where
  "bigint_as_bytes number with_bytes = into_format (to_bytes_le number) with_bytes"

section \<open>Sections\<close>

definition MAGIC :: "byte list" where
  "MAGIC = [114, 49, 99, 115]"

definition VERSION :: "byte list" where
  "VERSION = [1, 0, 0, 0]"

definition HEADER_TYPE :: "byte list" where
  "HEADER_TYPE = [1, 0, 0, 0]"

definition CONSTRAINT_TYPE :: "byte list" where
  "CONSTRAINT_TYPE = [2, 0, 0, 0]"

definition WIRE2LABEL_TYPE :: "byte list" where
  "WIRE2LABEL_TYPE = [3, 0, 0, 0]"

definition CUSTOM_GATES_USED_TYPE :: "byte list" where
  "CUSTOM_GATES_USED_TYPE = [4, 0, 0, 0]"

definition CUSTOM_GATES_APPLIED_TYPE :: "byte list" where
  "CUSTOM_GATES_APPLIED_TYPE = [5, 0, 0, 0]"

definition PLACE_HOLDER :: "byte list" where
  "PLACE_HOLDER = [3, 3, 3, 3, 3, 3, 3, 3]"

definition initialize_section :: "byte list \<Rightarrow> byte_file \<Rightarrow> nat \<times> byte_file" where
  "initialize_section header writer =
     (let writer = write_all header writer;
          go_back = bf_position writer
      in (go_back, write_all PLACE_HOLDER writer))"

definition end_section :: "nat \<Rightarrow> nat \<Rightarrow> byte_file \<Rightarrow> byte_file" where
  "end_section go_back n writer =
     (let go_back_1 = bf_position writer;
          writer = seek_start go_back writer;
          (stream, _) = bigint_as_bytes (int n) 8
      in seek_start go_back_1 (write_all stream writer))"

definition initialize_file :: "nat \<Rightarrow> byte_file \<Rightarrow> byte_file" where
  "initialize_file num_sections writer =
     write_all [of_nat num_sections, 0, 0, 0] (write_all VERSION (write_all MAGIC writer))"

record r1cs_writer =
  rw_field_size :: nat
  rw_writer :: byte_file
  rw_sections :: "bool list"

record writer_section =
  ws_writer :: byte_file
  ws_go_back :: nat
  ws_size :: nat
  ws_index :: nat
  ws_field_size :: nat
  ws_sections :: "bool list"

record constraint_section = writer_section +
  ws_number_of_constraints :: nat

definition R1CSWriter_new :: "nat \<Rightarrow> bool \<Rightarrow> r1cs_writer" where
  "R1CSWriter_new field_size custom_gates =
     (let num_sections = (if custom_gates then 5 else 3)
      in \<lparr>rw_field_size = field_size, rw_writer = initialize_file num_sections \<lparr>bf_bytes = [], bf_position = 0\<rparr>,
          rw_sections = replicate 5 False\<rparr>)"

definition start_section :: "byte list \<Rightarrow> nat \<Rightarrow> r1cs_writer \<Rightarrow> writer_section" where
  "start_section header index r1cs =
     (let (start, writer) = initialize_section header (rw_writer r1cs)
      in \<lparr>ws_writer = writer, ws_go_back = start, ws_size = 0, ws_index = index,
          ws_field_size = rw_field_size r1cs, ws_sections = rw_sections r1cs\<rparr>)"

definition start_header_section :: "r1cs_writer \<Rightarrow> writer_section" where
  "start_header_section = start_section HEADER_TYPE 0"

definition start_constraints_section :: "r1cs_writer \<Rightarrow> constraint_section" where
  "start_constraints_section r1cs =
     writer_section.extend (start_section CONSTRAINT_TYPE 1 r1cs) \<lparr>ws_number_of_constraints = 0\<rparr>"

definition start_signal_section :: "r1cs_writer \<Rightarrow> writer_section" where
  "start_signal_section = start_section WIRE2LABEL_TYPE 2"

definition start_custom_gates_used_section :: "r1cs_writer \<Rightarrow> writer_section" where
  "start_custom_gates_used_section = start_section CUSTOM_GATES_USED_TYPE 3"

definition start_custom_gates_applied_section :: "r1cs_writer \<Rightarrow> writer_section" where
  "start_custom_gates_applied_section = start_section CUSTOM_GATES_APPLIED_TYPE 4"

text \<open>\<open>end_section\<close> of each kind of section.\<close>

definition writer_end_section :: "'a writer_section_scheme \<Rightarrow> r1cs_writer option" where
  "writer_end_section self =
     (if ws_index self < length (ws_sections self) then
        Some \<lparr>rw_field_size = ws_field_size self,
              rw_writer = end_section (ws_go_back self) (ws_size self) (ws_writer self),
              rw_sections = (ws_sections self)[ws_index self := True]\<rparr>
      else None)"

text \<open>Writing a stream and counting its bytes.\<close>

definition put_stream :: "byte list \<times> nat \<Rightarrow> 'a writer_section_scheme \<Rightarrow> 'a writer_section_scheme" where
  "put_stream = (\<lambda>(stream, size) self.
     self\<lparr>ws_size := ws_size self + size, ws_writer := write_all stream (ws_writer self)\<rparr>)"

section \<open>The header\<close>

record header_data =
  hd_field :: int
  hd_total_wires :: nat
  hd_public_outputs :: nat
  hd_public_inputs :: nat
  hd_private_inputs :: nat
  hd_number_of_labels :: nat
  hd_number_of_constraints :: nat

definition write_header :: "header_data \<Rightarrow> writer_section \<Rightarrow> writer_section" where
  "write_header data self =
     (let (field_stream, bytes_field) = bigint_as_bytes (hd_field data) (ws_field_size self);
          (length_stream, bytes_size) = bigint_as_bytes (int (ws_field_size self)) 4;
          writer = write_all field_stream (write_all length_stream (ws_writer self));
          self = self\<lparr>ws_writer := writer, ws_size := ws_size self + (bytes_field + bytes_size)\<rparr>;
          data_stream = [(hd_total_wires data, 4), (hd_public_outputs data, 4), (hd_public_inputs data, 4),
            (hd_private_inputs data, 4), (hd_number_of_labels data, 8), (hd_number_of_constraints data, 4)]
      in fold (\<lambda>(number, bytes). put_stream (bigint_as_bytes (int number) bytes)) data_stream self)"

section \<open>Constraints\<close>

definition obtain_linear_combination_block :: "(byte list, int) hmap \<Rightarrow> nat \<Rightarrow> byte list \<times> nat" where
  "obtain_linear_combination_block linear_combination field_size =
     (let non_zero_factors = int (length linear_combination);
          order = sort (hm_keys linear_combination)
      in fold (\<lambda>i (block, size).
            (let factor = the (map_of linear_combination i);
                 (stream, bytes) = into_format i 4;
                 (block, size) = (block @ stream, size + bytes);
                 (stream, bytes) = bigint_as_bytes factor field_size
             in (block @ stream, size + bytes)))
          order (bigint_as_bytes non_zero_factors 4))"

definition write_constraint ::
    "(byte list, int) hmap \<Rightarrow> (byte list, int) hmap \<Rightarrow> (byte list, int) hmap \<Rightarrow> nat \<Rightarrow> byte_file \<Rightarrow> nat \<times> byte_file" where
  "write_constraint a b c field_size file =
     (let (block_a, size_a) = obtain_linear_combination_block a field_size;
          (block_b, size_b) = obtain_linear_combination_block b field_size;
          (block_c, size_c) = obtain_linear_combination_block c field_size
      in (size_a + size_b + size_c, write_all block_c (write_all block_b (write_all block_a file))))"

definition r1cs_combination :: "(nat, int) hmap \<Rightarrow> (byte list, int) hmap" where
  "r1cs_combination m = fold (\<lambda>(k, v). hm_insert (to_bytes_le (int k)) v) m []"

definition write_constraint_usize ::
    "(nat, int) hmap \<Rightarrow> (nat, int) hmap \<Rightarrow> (nat, int) hmap \<Rightarrow> constraint_section \<Rightarrow> constraint_section" where
  "write_constraint_usize a b c self =
     (let (size, writer) = write_constraint (r1cs_combination a) (r1cs_combination b) (r1cs_combination c)
            (ws_field_size self) (ws_writer self)
      in self\<lparr>ws_writer := writer, ws_size := ws_size self + size,
           ws_number_of_constraints := ws_number_of_constraints self + 1\<rparr>)"

definition constraints_written :: "constraint_section \<Rightarrow> nat" where
  "constraints_written self = ws_number_of_constraints self"

section \<open>Signals and custom gates\<close>

definition write_signal :: "byte list \<Rightarrow> writer_section \<Rightarrow> writer_section" where
  "write_signal bytes = put_stream (into_format bytes 8)"

definition write_signal_usize :: "nat \<Rightarrow> writer_section \<Rightarrow> writer_section" where
  "write_signal_usize signal self = write_signal (to_bytes_le (int signal)) self"

text \<open>A \<open>String\<close> is the list of its bytes.\<close>

definition write_custom_gate :: "byte list \<times> int list \<Rightarrow> writer_section \<Rightarrow> writer_section" where
  "write_custom_gate = (\<lambda>(custom_gate_name, custom_gate_parameters) self.
     (let self = self\<lparr>ws_size := ws_size self + (length custom_gate_name + 1),
            ws_writer := write_all [0] (write_all custom_gate_name (ws_writer self))\<rparr>;
          self = put_stream (bigint_as_bytes (int (length custom_gate_parameters)) 4) self
      in fold (\<lambda>parameter self. put_stream (bigint_as_bytes parameter (ws_field_size self)) self)
           custom_gate_parameters self))"

definition write_custom_gates_usages :: "(byte list \<times> int list) list \<Rightarrow> writer_section \<Rightarrow> writer_section" where
  "write_custom_gates_usages data self =
     fold write_custom_gate data (put_stream (bigint_as_bytes (int (length data)) 4) self)"

definition write_custom_gate_application :: "nat \<times> nat list \<Rightarrow> writer_section \<Rightarrow> writer_section" where
  "write_custom_gate_application = (\<lambda>(custom_gate_index, custom_gate_signals) self.
     fold (\<lambda>signal. put_stream (bigint_as_bytes (int signal) 8)) custom_gate_signals
       (put_stream (bigint_as_bytes (int (length custom_gate_signals)) 4)
         (put_stream (bigint_as_bytes (int custom_gate_index) 4) self)))"

definition write_custom_gates_applications :: "(nat \<times> nat list) list \<Rightarrow> writer_section \<Rightarrow> writer_section" where
  "write_custom_gates_applications data self =
     fold write_custom_gate_application data (put_stream (bigint_as_bytes (int (length data)) 4) self)"

end
