(* ===== verification/R1cs_Reader.thy ===== *)
theory R1cs_Reader
  imports R1cs_Writer
begin

text \<open>
  The reader of r1cs files, \<open>constraint_writers/src/r1cs_reader.rs\<close>. The errors of reading are values: a
  file that ends too early, a seek before its start, and the parsing errors; an \<open>unwrap\<close> of bytes
  that are no UTF-8 is a panic, \<open>None\<close>.
\<close>

section \<open>Errors and primitives\<close>

datatype r1cs_parsing_error =
    InvalidMagicNumber | InvalidVersion | InvalidSectionHeader | InvalidSectionType | SectionNotPresent string

datatype io_error = UnexpectedEof | InvalidInput | OtherError r1cs_parsing_error

definition result_bind :: "'e + 'a \<Rightarrow> ('a \<Rightarrow> 'e + 'b) \<Rightarrow> 'e + 'b" where
  "result_bind r f = (case r of Inl e \<Rightarrow> Inl e | Inr x \<Rightarrow> f x)"

lemma result_bind_simps [simp]: "result_bind (Inl e) f = Inl e" "result_bind (Inr x) f = f x"
  by (simp_all add: result_bind_def)

definition read_exact :: "nat \<Rightarrow> byte_file \<Rightarrow> io_error + byte list \<times> byte_file" where
  "read_exact n reader =
     (if n = 0 \<or> bf_position reader + n \<le> length (bf_bytes reader)
      then Inr (take n (drop (bf_position reader) (bf_bytes reader)), reader\<lparr>bf_position := bf_position reader + n\<rparr>)
      else Inl UnexpectedEof)"

definition seek_current :: "int \<Rightarrow> byte_file \<Rightarrow> io_error + nat \<times> byte_file" where
  "seek_current offset reader =
     (if 0 \<le> int (bf_position reader) + offset
      then (let n = nat (int (bf_position reader) + offset) in Inr (n, reader\<lparr>bf_position := n\<rparr>))
      else Inl InvalidInput)"

primrec from_format :: "byte list \<Rightarrow> nat" where
  "from_format [] = 0"
| "from_format (b # bs) = unat b + 256 * from_format bs"

definition read_bigint :: "nat \<Rightarrow> byte_file \<Rightarrow> io_error + nat \<times> byte_file" where
  "read_bigint n reader =
     result_bind (read_exact n reader) (\<lambda>(buffer, reader). Inr (from_format buffer, reader))"

definition read_section_header :: "byte list \<Rightarrow> byte_file \<Rightarrow> io_error + nat \<times> byte_file" where
  "read_section_header header reader =
     result_bind (read_exact (length header) reader) (\<lambda>(buffer, reader).
       if buffer \<noteq> header then Inl (OtherError InvalidSectionHeader)
       else (let go_back = bf_position reader
             in result_bind (seek_current (int (length PLACE_HOLDER)) reader) (\<lambda>(_, reader). Inr (go_back, reader))))"

definition read_end_section :: "nat \<Rightarrow> byte_file \<Rightarrow> io_error + nat \<times> byte_file" where
  "read_end_section go_back reader =
     (let go_back_1 = bf_position reader
      in result_bind (read_bigint 8 (seek_start go_back reader)) (\<lambda>(size, reader).
           Inr (size, seek_start go_back_1 reader)))"

text \<open>\<open>for _ in 0..n\<close> over a reader.\<close>

primrec read_times :: "nat \<Rightarrow> (byte_file \<Rightarrow> io_error + 'a \<times> byte_file) \<Rightarrow> byte_file \<Rightarrow> io_error + 'a list \<times> byte_file" where
  "read_times 0 f reader = Inr ([], reader)"
| "read_times (Suc n) f reader =
     result_bind (f reader) (\<lambda>(x, reader).
     result_bind (read_times n f reader) (\<lambda>(xs, reader). Inr (x # xs, reader)))"

section \<open>Constraints\<close>

definition read_factor :: "nat \<Rightarrow> byte_file \<Rightarrow> io_error + (byte list \<times> int) \<times> byte_file" where
  "read_factor field_size reader =
     result_bind (read_exact 4 reader) (\<lambda>(i, reader).
     result_bind (read_bigint field_size reader) (\<lambda>(factor, reader). Inr ((i, int factor), reader)))"

definition read_linear_combination_block :: "nat \<Rightarrow> byte_file \<Rightarrow> io_error + (byte list, int) hmap \<times> byte_file" where
  "read_linear_combination_block field_size reader =
     result_bind (read_bigint 4 reader) (\<lambda>(non_zero_factors, reader).
     result_bind (read_times non_zero_factors (read_factor field_size) reader) (\<lambda>(factors, reader).
       Inr (fold (\<lambda>(i, factor). hm_insert i factor) factors [], reader)))"

definition read_constraint_bytes ::
    "nat \<Rightarrow> byte_file \<Rightarrow> io_error + ((byte list, int) hmap \<times> (byte list, int) hmap \<times> (byte list, int) hmap) \<times> byte_file" where
  "read_constraint_bytes field_size reader =
     result_bind (read_linear_combination_block field_size reader) (\<lambda>(a, reader).
     result_bind (read_linear_combination_block field_size reader) (\<lambda>(b, reader).
     result_bind (read_linear_combination_block field_size reader) (\<lambda>(c, reader). Inr ((a, b, c), reader))))"

section \<open>Sections\<close>

record r1cs_reader =
  rr_field_size :: nat
  rr_reader :: byte_file
  rr_sections :: "bool list"

record reader_section =
  rs_reader :: byte_file
  rs_go_back :: nat
  rs_size :: nat
  rs_index :: nat
  rs_field_size :: nat
  rs_sections :: "bool list"

record reader_constraint_section = reader_section +
  rs_number_of_constraints :: nat

record read_header_data =
  rh_field :: int
  rh_field_size :: nat
  rh_total_wires :: nat
  rh_public_outputs :: nat
  rh_public_inputs :: nat
  rh_private_inputs :: nat
  rh_number_of_labels :: nat
  rh_number_of_constraints :: nat

definition R1CSReader_new :: "byte list \<Rightarrow> r1cs_reader" where
  "R1CSReader_new bytes =
     \<lparr>rr_field_size = 0, rr_reader = \<lparr>bf_bytes = bytes, bf_position = 0\<rparr>, rr_sections = replicate 5 False\<rparr>"

definition read_start_section :: "byte list \<Rightarrow> nat \<Rightarrow> r1cs_reader \<Rightarrow> io_error + reader_section" where
  "read_start_section header index r1cs =
     result_bind (read_section_header header (rr_reader r1cs)) (\<lambda>(start, reader).
       Inr \<lparr>rs_reader = reader, rs_go_back = start, rs_size = 0, rs_index = index,
            rs_field_size = rr_field_size r1cs, rs_sections = rr_sections r1cs\<rparr>)"

definition read_start_header_section :: "r1cs_reader \<Rightarrow> io_error + reader_section" where
  "read_start_header_section = read_start_section HEADER_TYPE 0"

definition read_start_constraints_section :: "r1cs_reader \<Rightarrow> io_error + reader_constraint_section" where
  "read_start_constraints_section r1cs =
     result_bind (read_start_section CONSTRAINT_TYPE 1 r1cs) (\<lambda>section.
       Inr (reader_section.extend section \<lparr>rs_number_of_constraints = 0\<rparr>))"

definition read_start_signal_section :: "r1cs_reader \<Rightarrow> io_error + reader_section" where
  "read_start_signal_section = read_start_section WIRE2LABEL_TYPE 2"

definition read_start_custom_gates_used_section :: "r1cs_reader \<Rightarrow> io_error + reader_section" where
  "read_start_custom_gates_used_section = read_start_section CUSTOM_GATES_USED_TYPE 3"

definition read_start_custom_gates_applied_section :: "r1cs_reader \<Rightarrow> io_error + reader_section" where
  "read_start_custom_gates_applied_section = read_start_section CUSTOM_GATES_APPLIED_TYPE 4"

text \<open>\<open>end_section\<close> of each kind of section; the index is below the number of sections.\<close>

definition reader_end_section :: "'a reader_section_scheme \<Rightarrow> io_error + r1cs_reader" where
  "reader_end_section self =
     result_bind (read_end_section (rs_go_back self) (rs_reader self)) (\<lambda>(size, reader).
       Inr \<lparr>rr_field_size = rs_field_size self, rr_reader = reader, rr_sections = (rs_sections self)[rs_index self := True]\<rparr>)"

definition read_header :: "reader_section \<Rightarrow> io_error + read_header_data \<times> reader_section" where
  "read_header self =
     result_bind (read_bigint 4 (rs_reader self)) (\<lambda>(field_size, reader).
     result_bind (read_bigint field_size reader) (\<lambda>(field, reader).
     result_bind (read_bigint 4 reader) (\<lambda>(total_wires, reader).
     result_bind (read_bigint 4 reader) (\<lambda>(public_outputs, reader).
     result_bind (read_bigint 4 reader) (\<lambda>(public_inputs, reader).
     result_bind (read_bigint 4 reader) (\<lambda>(private_inputs, reader).
     result_bind (read_bigint 8 reader) (\<lambda>(number_of_labels, reader).
     result_bind (read_bigint 4 reader) (\<lambda>(number_of_constraints, reader).
       Inr (\<lparr>rh_field = int field, rh_field_size = field_size, rh_total_wires = total_wires,
             rh_public_outputs = public_outputs, rh_public_inputs = public_inputs, rh_private_inputs = private_inputs,
             rh_number_of_labels = number_of_labels, rh_number_of_constraints = number_of_constraints\<rparr>,
            self\<lparr>rs_reader := reader\<rparr>)))))))))"

definition usize_combination :: "(byte list, int) hmap \<Rightarrow> (nat, int) hmap" where
  "usize_combination m = fold (\<lambda>(k, v). hm_insert (from_format k) v) m []"

type_synonym constraint_triple = "(nat, int) hmap \<times> (nat, int) hmap \<times> (nat, int) hmap"

definition read_constraint_usize ::
    "reader_constraint_section \<Rightarrow> io_error + constraint_triple \<times> reader_constraint_section" where
  "read_constraint_usize self =
     result_bind (read_constraint_bytes (rs_field_size self) (rs_reader self)) (\<lambda>((a, b, c), reader).
       Inr ((usize_combination a, usize_combination b, usize_combination c),
         self\<lparr>rs_reader := reader, rs_number_of_constraints := rs_number_of_constraints self + 1\<rparr>))"

definition constraints_read :: "reader_constraint_section \<Rightarrow> nat" where
  "constraints_read self = rs_number_of_constraints self"

definition read_signal :: "reader_section \<Rightarrow> io_error + byte list \<times> reader_section" where
  "read_signal self =
     result_bind (read_exact 8 (rs_reader self)) (\<lambda>(buffer, reader).
       Inr (buffer, self\<lparr>rs_reader := reader, rs_size := rs_size self + length buffer\<rparr>))"

definition read_signal_usize :: "reader_section \<Rightarrow> io_error + nat \<times> reader_section" where
  "read_signal_usize self = result_bind (read_signal self) (\<lambda>(signal, self). Inr (from_format signal, self))"

section \<open>Custom gates\<close>

text \<open>\<open>String::from_utf8\<close> accepts the well-formed byte sequences of the Unicode standard.\<close>

definition utf8_tail :: "byte \<Rightarrow> bool" where
  "utf8_tail b \<longleftrightarrow> 0x80 \<le> b \<and> b \<le> 0xBF"

fun utf8 :: "byte list \<Rightarrow> bool" where
  "utf8 [] \<longleftrightarrow> True"
| "utf8 (b # bs) \<longleftrightarrow>
     (if b < 0x80 then utf8 bs
      else if 0xC2 \<le> b \<and> b \<le> 0xDF then
        (case bs of c # bs \<Rightarrow> utf8_tail c \<and> utf8 bs | _ \<Rightarrow> False)
      else if 0xE0 \<le> b \<and> b \<le> 0xEF then
        (case bs of c # d # bs \<Rightarrow> utf8_tail c \<and> utf8_tail d \<and> (b = 0xE0 \<longrightarrow> 0xA0 \<le> c) \<and> (b = 0xED \<longrightarrow> c \<le> 0x9F) \<and> utf8 bs
         | _ \<Rightarrow> False)
      else if 0xF0 \<le> b \<and> b \<le> 0xF4 then
        (case bs of c # d # e # bs \<Rightarrow> utf8_tail c \<and> utf8_tail d \<and> utf8_tail e \<and>
            (b = 0xF0 \<longrightarrow> 0x90 \<le> c) \<and> (b = 0xF4 \<longrightarrow> c \<le> 0x8F) \<and> utf8 bs
         | _ \<Rightarrow> False)
      else False)"

text \<open>Reading a name byte by byte up to a zero; every round moves towards the end of the file.\<close>

function read_name :: "byte list \<Rightarrow> byte_file \<Rightarrow> io_error + byte list \<times> byte_file" where
  "read_name custom_gate_name reader =
     (case read_exact 1 reader of
        Inl e \<Rightarrow> Inl e
      | Inr (buffer, reader) \<Rightarrow>
          if hd buffer = 0 then Inr (custom_gate_name, reader)
          else read_name (custom_gate_name @ [hd buffer]) reader)"
  by pat_completeness auto

termination
  by (relation "measure (\<lambda>(_, reader). length (bf_bytes reader) - bf_position reader)")
    (auto simp: read_exact_def split: if_splits)

definition read_custom_gate :: "nat \<Rightarrow> byte_file \<Rightarrow> (io_error + (byte list \<times> int list) \<times> byte_file) option" where
  "read_custom_gate field_size reader =
     (case read_name [] reader of
        Inl e \<Rightarrow> Some (Inl e)
      | Inr (custom_gate_name, reader) \<Rightarrow>
          if utf8 custom_gate_name then
            Some (result_bind (read_bigint 4 reader) (\<lambda>(no_custom_gate_parameters, reader).
              result_bind (read_times no_custom_gate_parameters (read_bigint field_size) reader) (\<lambda>(parameters, reader).
                Inr ((custom_gate_name, map int parameters), reader))))
          else None)"

primrec read_custom_gates :: "nat \<Rightarrow> nat \<Rightarrow> byte_file \<Rightarrow> (io_error + (byte list \<times> int list) list \<times> byte_file) option" where
  "read_custom_gates 0 field_size reader = Some (Inr ([], reader))"
| "read_custom_gates (Suc n) field_size reader =
     Option.bind (read_custom_gate field_size reader) (\<lambda>r. case r of
         Inl e \<Rightarrow> Some (Inl e)
       | Inr (gate, reader) \<Rightarrow>
           map_option (\<lambda>r. result_bind r (\<lambda>(gates, reader). Inr (gate # gates, reader)))
             (read_custom_gates n field_size reader))"

definition read_custom_gates_usages :: "reader_section \<Rightarrow> (io_error + (byte list \<times> int list) list \<times> reader_section) option" where
  "read_custom_gates_usages self =
     (case read_bigint 4 (rs_reader self) of
        Inl e \<Rightarrow> Some (Inl e)
      | Inr (no_custom_gates, reader) \<Rightarrow>
          map_option (\<lambda>r. result_bind r (\<lambda>(data, reader). Inr (data, self\<lparr>rs_reader := reader\<rparr>)))
            (read_custom_gates no_custom_gates (rs_field_size self) reader))"

definition read_custom_gate_application :: "byte_file \<Rightarrow> io_error + (nat \<times> nat list) \<times> byte_file" where
  "read_custom_gate_application reader =
     result_bind (read_bigint 4 reader) (\<lambda>(custom_gate_index, reader).
     result_bind (read_bigint 4 reader) (\<lambda>(no_custom_gate_signals, reader).
     result_bind (read_times no_custom_gate_signals (read_bigint 8) reader) (\<lambda>(custom_gate_signals, reader).
       Inr ((custom_gate_index, custom_gate_signals), reader))))"

definition read_custom_gates_applications :: "reader_section \<Rightarrow> io_error + (nat \<times> nat list) list \<times> reader_section" where
  "read_custom_gates_applications self =
     result_bind (read_bigint 4 (rs_reader self)) (\<lambda>(no_custom_gate_applications, reader).
     result_bind (read_times no_custom_gate_applications read_custom_gate_application reader) (\<lambda>(data, reader).
       Inr (data, self\<lparr>rs_reader := reader\<rparr>)))"

section \<open>The whole file\<close>

record r1cs_data =
  ri_header_data :: read_header_data
  ri_constraints :: "constraint_triple list"
  ri_signals :: "nat list"
  ri_custom_gates :: bool
  ri_custom_gates_used_data :: "(byte list \<times> int list) list option"
  ri_custom_gates_applied_data :: "(nat \<times> nat list) list option"

definition R1CSData_new :: r1cs_data where
  "R1CSData_new = \<lparr>ri_header_data = \<lparr>rh_field = 0, rh_field_size = 0, rh_total_wires = 0, rh_public_outputs = 0,
       rh_public_inputs = 0, rh_private_inputs = 0, rh_number_of_labels = 0, rh_number_of_constraints = 0\<rparr>,
     ri_constraints = [], ri_signals = [], ri_custom_gates = False, ri_custom_gates_used_data = None,
     ri_custom_gates_applied_data = None\<rparr>"

definition read_initialization :: "r1cs_reader \<Rightarrow> io_error + byte list \<times> r1cs_reader" where
  "read_initialization r1cs =
     result_bind (read_exact (length MAGIC) (rr_reader r1cs)) (\<lambda>(buffer, reader).
       if buffer \<noteq> MAGIC then Inl (OtherError InvalidMagicNumber)
       else result_bind (read_exact (length VERSION) reader) (\<lambda>(buffer, reader).
         if buffer \<noteq> VERSION then Inl (OtherError InvalidVersion)
         else result_bind (read_exact 4 reader) (\<lambda>(buffer, reader). Inr (buffer, r1cs\<lparr>rr_reader := reader\<rparr>))))"

text \<open>The size of a section becomes an \<open>i64\<close>.\<close>

definition as_i64 :: "nat \<Rightarrow> int" where
  "as_i64 n = sint (of_nat n :: 64 word)"

primrec section_starts ::
    "nat \<Rightarrow> nat \<Rightarrow> int \<Rightarrow> (nat, nat) hmap \<Rightarrow> byte_file \<Rightarrow> io_error + (nat, nat) hmap \<times> byte_file" where
  "section_starts 0 n_sections current_offset starts reader = Inr (starts, reader)"
| "section_starts (Suc k) n_sections current_offset starts reader =
     result_bind (seek_current current_offset reader) (\<lambda>(new_offset, reader).
     result_bind (read_exact 4 reader) (\<lambda>(buffer, reader).
     (let section_type = unat (buffer ! 0)
      in result_bind (read_bigint 8 reader) (\<lambda>(section_size, reader).
           if 1 \<le> section_type \<and> section_type \<le> n_sections then
             section_starts k n_sections (as_i64 section_size) (hm_insert section_type new_offset starts) reader
           else Inl (OtherError InvalidSectionType)))))"

text \<open>The loops over constraints and signals.\<close>

primrec read_constraints ::
    "nat \<Rightarrow> reader_constraint_section \<Rightarrow> io_error + constraint_triple list \<times> reader_constraint_section" where
  "read_constraints 0 section = Inr ([], section)"
| "read_constraints (Suc n) section =
     result_bind (read_constraint_usize section) (\<lambda>(c, section).
     result_bind (read_constraints n section) (\<lambda>(cs, section). Inr (c # cs, section)))"

primrec read_signals :: "nat \<Rightarrow> reader_section \<Rightarrow> io_error + nat list \<times> reader_section" where
  "read_signals 0 section = Inr ([], section)"
| "read_signals (Suc n) section =
     result_bind (read_signal_usize section) (\<lambda>(s, section).
     result_bind (read_signals n section) (\<lambda>(ss, section). Inr (s # ss, section)))"

definition seek_to :: "nat \<Rightarrow> r1cs_reader \<Rightarrow> r1cs_reader" where
  "seek_to start r1cs = r1cs\<lparr>rr_reader := seek_start start (rr_reader r1cs)\<rparr>"

definition read_section_at ::
    "(nat, nat) hmap \<Rightarrow> nat \<Rightarrow> string \<Rightarrow> r1cs_reader \<Rightarrow> io_error + r1cs_reader" where
  "read_section_at starts section_type name r1cs =
     (case map_of starts section_type of
        Some start \<Rightarrow> Inr (seek_to start r1cs)
      | None \<Rightarrow> Inl (OtherError (SectionNotPresent name)))"

definition read_plain_sections :: "r1cs_data \<Rightarrow> (nat, nat) hmap \<Rightarrow> r1cs_reader \<Rightarrow> io_error + r1cs_data \<times> r1cs_reader" where
  "read_plain_sections info starts r1cs =
     result_bind (read_section_at starts 1 ''Header'' r1cs) (\<lambda>r1cs.
     result_bind (read_start_header_section r1cs) (\<lambda>header_section.
     result_bind (read_header header_section) (\<lambda>(header_data, header_section).
     result_bind (reader_end_section header_section) (\<lambda>r1cs.
     (let r1cs = r1cs\<lparr>rr_field_size := rh_field_size header_data\<rparr>
      in result_bind (read_section_at starts 2 ''Constraints'' r1cs) (\<lambda>r1cs.
         result_bind (read_start_constraints_section r1cs) (\<lambda>constraint_section.
         result_bind (read_constraints (rh_number_of_constraints header_data) constraint_section)
           (\<lambda>(constraints, constraint_section).
         result_bind (reader_end_section constraint_section) (\<lambda>r1cs.
         result_bind (read_section_at starts 3 ''Signals'' r1cs) (\<lambda>r1cs.
         result_bind (read_start_signal_section r1cs) (\<lambda>signal_section.
         result_bind (read_signals (rh_total_wires header_data) signal_section) (\<lambda>(signals, signal_section).
         result_bind (reader_end_section signal_section) (\<lambda>r1cs.
           Inr (info\<lparr>ri_header_data := header_data, ri_constraints := ri_constraints info @ constraints,
                  ri_signals := ri_signals info @ signals\<rparr>, r1cs))))))))))))))"

definition read_custom_sections :: "r1cs_data \<Rightarrow> (nat, nat) hmap \<Rightarrow> r1cs_reader \<Rightarrow> (io_error + r1cs_data) option" where
  "read_custom_sections info starts r1cs =
     (case result_bind (read_section_at starts 4 ''Custom Gates Used'' r1cs) read_start_custom_gates_used_section of
        Inl e \<Rightarrow> Some (Inl e)
      | Inr used_section \<Rightarrow>
          map_option (\<lambda>r. result_bind r (\<lambda>(used, used_section).
            result_bind (reader_end_section used_section) (\<lambda>r1cs.
            result_bind (read_section_at starts 5 ''Custom Gates Applied'' r1cs) (\<lambda>r1cs.
            result_bind (read_start_custom_gates_applied_section r1cs) (\<lambda>applied_section.
            result_bind (read_custom_gates_applications applied_section) (\<lambda>(applied, applied_section).
            result_bind (reader_end_section applied_section) (\<lambda>_.
              Inr (info\<lparr>ri_custom_gates_used_data := Some used, ri_custom_gates_applied_data := Some applied\<rparr>))))))))
            (read_custom_gates_usages used_section))"

definition read_sections :: "r1cs_data \<Rightarrow> r1cs_reader \<Rightarrow> (nat, nat) hmap \<Rightarrow> (io_error + r1cs_data) option" where
  "read_sections info r1cs starts =
     (case read_plain_sections info starts r1cs of
        Inl e \<Rightarrow> Some (Inl e)
      | Inr (info, r1cs) \<Rightarrow> if ri_custom_gates info then read_custom_sections info starts r1cs else Some (Inr info))"

definition read_r1cs :: "byte list \<Rightarrow> (io_error + r1cs_data) option" where
  "read_r1cs bytes =
     (case read_initialization (R1CSReader_new bytes) of
        Inl e \<Rightarrow> Some (Inl e)
      | Inr (buffer, r1cs) \<Rightarrow>
          (let n_sections = unat (buffer ! 0);
               info = R1CSData_new\<lparr>ri_custom_gates := (n_sections = 5)\<rparr>
           in case section_starts n_sections n_sections 0 [] (rr_reader r1cs) of
                Inl e \<Rightarrow> Some (Inl e)
              | Inr (starts, reader) \<Rightarrow> read_sections info (r1cs\<lparr>rr_reader := reader\<rparr>) starts))"

end
