(* ===== verification/R1cs_Porting.thy ===== *)
theory R1cs_Porting
  imports R1cs_Reader Dag
begin

text \<open>
  Writing a constraint list and a graph as r1cs files: \<open>constraint_list/src/r1cs_porting.rs\<close> and
  \<open>dag/src/r1cs_porting.rs\<close>, with the log of \<open>constraint_writers/src/log_writer.rs\<close>, which is only
  printed. A \<open>String\<close> is the list of its bytes. A name without \<open>(\<close>, on which the loop of pops does not
  end, is \<open>None\<close>, as a panic is.
\<close>

section \<open>The log and shared parts\<close>

record log =
  lg_no_linear :: nat
  lg_no_non_linear :: nat
  lg_no_labels :: nat
  lg_no_wires :: nat
  lg_no_public_inputs :: nat
  lg_no_private_inputs :: nat
  lg_no_private_inputs_witness :: nat
  lg_no_public_outputs :: nat

definition log_new :: log where
  "log_new = \<lparr>lg_no_linear = 0, lg_no_non_linear = 0, lg_no_labels = 0, lg_no_wires = 0, lg_no_public_inputs = 0,
     lg_no_private_inputs = 0, lg_no_private_inputs_witness = 0, lg_no_public_outputs = 0\<rparr>"

definition count_constraint :: "nat constraint \<Rightarrow> log \<Rightarrow> log" where
  "count_constraint c log =
     (if is_linear c then log\<lparr>lg_no_linear := lg_no_linear log + 1\<rparr>
      else log\<lparr>lg_no_non_linear := lg_no_non_linear log + 1\<rparr>)"

definition r1cs_field_size :: "int \<Rightarrow> nat" where
  "r1cs_field_size field = (if bits field mod 64 = 0 then bits field div 8 else (bits field div 64 + 1) * 8)"

definition as_bytes :: "string \<Rightarrow> byte list" where
  "as_bytes s = map of_char s"

text \<open>\<open>while name.pop() != Some('(')\<close>.\<close>

definition pop_parenthesis :: "string \<Rightarrow> string option" where
  "pop_parenthesis name =
     (case dropWhile (\<lambda>ch. ch \<noteq> CHR ''('') (rev name) of [] \<Rightarrow> None | _ # rest \<Rightarrow> Some (rev rest))"

definition write_usages :: "(string \<times> int list) list \<Rightarrow> writer_section \<Rightarrow> writer_section" where
  "write_usages usage_data = write_custom_gates_usages (map (\<lambda>(name, parameters). (as_bytes name, parameters)) usage_data)"

primrec find_index :: "string list \<Rightarrow> string \<Rightarrow> nat \<Rightarrow> nat option" where
  "find_index [] custom_gate_name index = None"
| "find_index (name # occurring_order) custom_gate_name index =
     (if name = custom_gate_name then Some index else find_index occurring_order custom_gate_name (index + 1))"

definition find_indexes :: "string list \<Rightarrow> (string \<times> nat list) list \<Rightarrow> (nat \<times> nat list) list option" where
  "find_indexes occurring_order application_data =
     those (map (\<lambda>(custom_gate_name, signals). map_option (\<lambda>index. (index, signals)) (find_index occurring_order custom_gate_name 0))
       application_data)"

section \<open>A constraint list\<close>

definition port_constraint ::
    "('r \<Rightarrow> int) \<Rightarrow> 'r constraint_list \<Rightarrow> nat \<Rightarrow> constraint_section \<times> log \<times> nat \<Rightarrow> (constraint_section \<times> log \<times> nat) option" where
  "port_constraint of_raw l c_id = (\<lambda>(section, log, written).
     Option.bind (Option.bind (read_constraint of_raw (cn_constraints l) c_id) (\<lambda>c. c)) (\<lambda>c.
     Option.bind (constraint_apply_correspondence c (cn_signal_map l)) (\<lambda>c.
       Some (write_constraint_usize (con_a c) (con_b c) (con_c c) section, count_constraint c log, written + 1))))"

primrec iterate_gates ::
    "nat \<Rightarrow> encoding_iterator \<Rightarrow> signal_map \<Rightarrow> (string \<times> nat list) list \<Rightarrow> (string \<times> nat list) list option" where
  "iterate_gates 0 iter smap application_data = None"
| "iterate_gates (Suc fuel) iter smap application_data =
     (if ei_node_id iter < length (de_nodes (ei_encoding iter)) then
        (let node = de_nodes (ei_encoding iter) ! ei_node_id iter
         in if en_is_custom_gate node then
              map_option (\<lambda>signals. application_data @ [(en_name node, signals)])
                (those (map (\<lambda>signal. map_of smap (signal + ei_offset iter)) (en_ordered_signals node)))
            else Option.bind (iterator_edges iter) (\<lambda>edges.
              fold (\<lambda>edge acc. Option.bind acc (\<lambda>application_data. Option.bind (iterator_next iter edge) (\<lambda>next.
                iterate_gates fuel next smap application_data))) edges (Some application_data)))
      else None)"

text \<open>The parameters and name of the custom gates, and the order in which they occur.\<close>

definition gate_usages :: "(string \<times> int list) list \<Rightarrow> (string \<times> int list) list option" where
  "gate_usages gates = those (map (\<lambda>(name, parameters). map_option (\<lambda>name. (name, parameters)) (pop_parenthesis name)) gates)"

definition encoded_gates :: "dag_encoding \<Rightarrow> (string \<times> int list) list" where
  "encoded_gates encoding =
     map (\<lambda>node. (en_name node, en_parameters node)) (filter en_is_custom_gate (de_nodes encoding))"

definition port_custom_gates ::
    "(string \<times> int list) list \<Rightarrow> (string \<times> nat list) list \<Rightarrow> r1cs_writer \<Rightarrow> r1cs_writer option" where
  "port_custom_gates gates application_data r1cs =
     Option.bind (gate_usages gates) (\<lambda>usage_data.
     Option.bind (writer_end_section (write_usages usage_data (start_custom_gates_used_section r1cs))) (\<lambda>r1cs.
     Option.bind (find_indexes (map fst gates) application_data) (\<lambda>application_data.
       writer_end_section (write_custom_gates_applications application_data (start_custom_gates_applied_section r1cs)))))"

definition port_r1cs :: "('r \<Rightarrow> int) \<Rightarrow> nat \<Rightarrow> 'r constraint_list \<Rightarrow> bool \<Rightarrow> (log \<times> byte list) option" where
  "port_r1cs of_raw fuel l custom_gates =
     (let field_size = r1cs_field_size (cn_field l);
          log = log_new\<lparr>lg_no_labels := cn_no_labels l, lg_no_wires := no_wires (cn_signal_map l),
            lg_no_private_inputs := cn_no_private_inputs l, lg_no_private_inputs_witness := cn_no_private_inputs_witness l,
            lg_no_public_inputs := cn_no_public_inputs l, lg_no_public_outputs := cn_no_public_outputs l\<rparr>;
          r1cs = R1CSWriter_new field_size custom_gates
      in Option.bind (fold (\<lambda>c_id acc. Option.bind acc (port_constraint of_raw l c_id)) (get_ids (cn_constraints l))
             (Some (start_constraints_section r1cs, log, 0))) (\<lambda>(constraint_section, log, written).
         Option.bind (writer_end_section constraint_section) (\<lambda>r1cs.
         (let header_data = \<lparr>hd_field = cn_field l, hd_total_wires = no_wires (cn_signal_map l),
                hd_public_outputs = cn_no_public_outputs l, hd_public_inputs = cn_no_public_inputs l,
                hd_private_inputs = cn_no_private_inputs l, hd_number_of_labels = cn_no_labels l,
                hd_number_of_constraints = written\<rparr>
          in Option.bind (writer_end_section (write_header header_data (start_header_section r1cs))) (\<lambda>r1cs.
             Option.bind (get_witness_as_vec (cn_signal_map l)) (\<lambda>witness.
             Option.bind (writer_end_section (fold write_signal_usize witness (start_signal_section r1cs))) (\<lambda>r1cs.
               if \<not> custom_gates then Some (log, bf_bytes (rw_writer r1cs))
               else Option.bind (iterator_new (cn_dag_encoding l)) (\<lambda>iter.
                    Option.bind (iterate_gates fuel iter (cn_signal_map l) []) (\<lambda>application_data.
                      map_option (\<lambda>r1cs. (log, bf_bytes (rw_writer r1cs)))
                        (port_custom_gates (encoded_gates (cn_dag_encoding l)) application_data r1cs))))))))))"

section \<open>A graph\<close>

primrec write_constraint_section ::
    "nat \<Rightarrow> dag_tree \<Rightarrow> constraint_section \<times> log \<Rightarrow> (nat \<times> constraint_section \<times> log) option" where
  "write_constraint_section 0 tree st = None"
| "write_constraint_section (Suc fuel) tree st =
     (let no_signals = length (tr_signals tree);
          st = fold (\<lambda>c (section, log). (write_constraint_usize (con_a c) (con_b c) (con_c c) section, count_constraint c log))
            (tr_constraints tree) st
      in Option.bind (tree_get_edges tree) (\<lambda>edges.
           fold (\<lambda>edge acc. Option.bind acc (\<lambda>(no_signals, st). Option.bind (go_to_subtree tree edge) (\<lambda>subtree.
               map_option (\<lambda>(subtree_signals, st). (no_signals + subtree_signals, st)) (write_constraint_section fuel subtree st))))
             edges (Some (no_signals, st))))"

primrec traverse_tree :: "nat \<Rightarrow> dag_tree \<Rightarrow> (string \<times> nat list) list \<Rightarrow> (string \<times> nat list) list option" where
  "traverse_tree 0 tree application_data = None"
| "traverse_tree (Suc fuel) tree application_data =
     (if tr_node_id tree < length (dg_nodes (tr_dag tree)) then
        (let node = dg_nodes (tr_dag tree) ! tr_node_id tree
         in if nd_is_custom_gate node then
              map_option (\<lambda>signals. application_data @ [(nd_template_name node, signals)])
                (those (map (\<lambda>signal. map_option (\<lambda>n. n + tr_offset tree) (map_of (nd_signal_correspondence node) signal))
                  (nd_ordered_signals node)))
            else Option.bind (tree_get_edges tree) (\<lambda>edges.
              fold (\<lambda>edge acc. Option.bind acc (\<lambda>application_data. Option.bind (go_to_subtree tree edge) (\<lambda>subtree.
                traverse_tree fuel subtree application_data))) edges (Some application_data)))
      else None)"

definition graph_gates :: "dag \<Rightarrow> (string \<times> int list) list" where
  "graph_gates d = map (\<lambda>node. (nd_template_name node, nd_parameters node)) (filter nd_is_custom_gate (dg_nodes d))"

definition dag_r1cs_write :: "nat \<Rightarrow> dag \<Rightarrow> bool \<Rightarrow> (log \<times> byte list) option" where
  "dag_r1cs_write fuel d custom_gates =
     Option.bind (tree_new d) (\<lambda>tree.
     (let field_size = r1cs_field_size (tr_field tree);
          r1cs = R1CSWriter_new field_size custom_gates
      in Option.bind (write_constraint_section fuel tree (start_constraints_section r1cs, log_new))
           (\<lambda>(no_signals, constraint_section, log).
         (let wires = no_signals + 1; labels = wires; constraint_counter = constraints_written constraint_section
          in Option.bind (writer_end_section constraint_section) (\<lambda>r1cs.
             Option.bind (dag_private_inputs d) (\<lambda>private_inputs.
             (let header_data = \<lparr>hd_field = tr_field tree, hd_total_wires = wires, hd_public_outputs = dag_public_outputs d,
                    hd_public_inputs = dag_public_inputs d, hd_private_inputs = private_inputs,
                    hd_number_of_labels = labels, hd_number_of_constraints = constraint_counter\<rparr>;
                  log = log\<lparr>lg_no_public_inputs := dag_public_inputs d, lg_no_public_outputs := dag_public_outputs d,
                    lg_no_private_inputs := private_inputs, lg_no_private_inputs_witness := private_inputs,
                    lg_no_labels := labels, lg_no_wires := wires\<rparr>
              in Option.bind (writer_end_section (write_header header_data (start_header_section r1cs))) (\<lambda>r1cs.
                 Option.bind (writer_end_section (fold write_signal_usize [0..<labels] (start_signal_section r1cs))) (\<lambda>r1cs.
                   if \<not> custom_gates then Some (log, bf_bytes (rw_writer r1cs))
                   else Option.bind (traverse_tree fuel tree []) (\<lambda>application_data.
                          map_option (\<lambda>r1cs. (log, bf_bytes (rw_writer r1cs)))
                            (port_custom_gates (graph_gates d) application_data r1cs)))))))))))"

end
