(* ===== verification/R1cs_Written.thy ===== *)
theory R1cs_Written
  imports R1cs_Porting Dag_Offsets
begin

text \<open>
  What is written is read back. Writing is described by the bytes a section has received, reading by a
  file split at the position: what has been read and what is to come. Each writer appends an
  encoding, each reader takes it off.
\<close>

section \<open>Numbers\<close>

declare nat_to_bytes_le.simps [simp del]

lemma from_format_append: "from_format (bs @ cs) = from_format bs + 256 ^ length bs * from_format cs"
  by (induction bs) (simp_all add: algebra_simps)

lemma from_format_zeros: "from_format (bs @ replicate m 0) = from_format bs"
proof -
  have "from_format (replicate m 0) = 0" by (induction m) simp_all
  then show ?thesis by (simp add: from_format_append)
qed

lemma unat_byte: "n < 256 \<Longrightarrow> unat (of_nat n :: byte) = n"
  by (simp add: unat_of_nat)

lemma from_nat_to_bytes: "from_format (nat_to_bytes_le n) = n"
proof (induction n rule: nat_to_bytes_le.induct)
  case (1 n)
  show ?case
  proof (cases "n < 256")
    case True
    then show ?thesis by (simp add: nat_to_bytes_le.simps [of n] unat_byte)
  next
    case False
    have "unat (of_nat (n mod 256) :: byte) = n mod 256" by (rule unat_byte) simp
    then show ?thesis using 1 False by (simp add: nat_to_bytes_le.simps [of n])
  qed
qed

lemma length_nat_to_bytes: "n < 256 ^ Suc k \<Longrightarrow> length (nat_to_bytes_le n) \<le> Suc k"
proof (induction k arbitrary: n)
  case 0
  then show ?case by (simp add: nat_to_bytes_le.simps [of n])
next
  case (Suc k)
  have "n div 256 < 256 ^ Suc k" using Suc.prems by (simp add: less_mult_imp_div_less mult.commute)
  then show ?case using Suc.IH [of "n div 256"] by (simp add: nat_to_bytes_le.simps [of n])
qed

definition le_bytes :: "nat \<Rightarrow> nat \<Rightarrow> byte list" where
  "le_bytes k n = nat_to_bytes_le n @ replicate (k - length (nat_to_bytes_le n)) 0"

lemma bigint_as_bytes_le: "0 \<le> z \<Longrightarrow> bigint_as_bytes z k = (le_bytes k (nat z), length (le_bytes k (nat z)))"
  by (simp add: bigint_as_bytes_def into_format_def to_bytes_le_def le_bytes_def Let_def)

lemma bigint_as_bytes_int [simp]: "bigint_as_bytes (int n) k = (le_bytes k n, length (le_bytes k n))"
  by (simp add: bigint_as_bytes_le)

lemma into_format_to_bytes: "into_format (to_bytes_le (int n)) k = (le_bytes k n, length (le_bytes k n))"
  using bigint_as_bytes_int [of n k] by (simp add: bigint_as_bytes_def)

lemma from_le_bytes [simp]: "from_format (le_bytes k n) = n"
  by (simp add: le_bytes_def from_format_zeros from_nat_to_bytes)

lemma length_le_bytes: "n < 256 ^ k \<Longrightarrow> 0 < k \<Longrightarrow> length (le_bytes k n) = k"
  using length_nat_to_bytes [of n "k - 1"] by (simp add: le_bytes_def)

section \<open>Files, split at the position\<close>

definition file_at :: "byte list \<Rightarrow> byte list \<Rightarrow> byte_file" where
  "file_at pre post = \<lparr>bf_bytes = pre @ post, bf_position = length pre\<rparr>"

lemma write_all_at_end [simp]: "write_all bs (file_at pre []) = file_at (pre @ bs) []"
  by (simp add: write_all_def file_at_def Let_def)

definition writing :: "nat \<times> nat \<times> bool list \<Rightarrow> 'a writer_section_scheme \<Rightarrow> byte list \<Rightarrow> byte list \<Rightarrow> bool" where
  "writing frame s pre body \<longleftrightarrow> ws_writer s = file_at (pre @ PLACE_HOLDER @ body) [] \<and> ws_go_back s = length pre \<and>
     ws_size s = length body \<and> frame = (ws_field_size s, ws_index s, ws_sections s)"

lemma put_stream_writing:
  "writing frame s pre body \<Longrightarrow> writing frame (put_stream (bs, length bs) s) pre (body @ bs)"
  by (simp add: writing_def put_stream_def)

lemma writing_put:
  assumes "writing frame s pre body" and "ws_writer s' = write_all bs (ws_writer s)" and "ws_size s' = ws_size s + length bs"
    and "ws_go_back s' = ws_go_back s" "ws_field_size s' = ws_field_size s" "ws_index s' = ws_index s" "ws_sections s' = ws_sections s"
  shows "writing frame s' pre (body @ bs)"
  using assms by (simp add: writing_def)

lemma fold_put_writing:
  "writing frame s pre body \<Longrightarrow> writing frame (fold (\<lambda>bs. put_stream (bs, length bs)) bss s) pre (body @ concat bss)"
proof (induction bss arbitrary: s body)
  case (Cons bs bss)
  show ?case using Cons.IH [OF put_stream_writing [OF Cons.prems, of bs]] by simp
qed simp

lemma start_section_writing:
  assumes "rw_writer r = file_at pre []"
  shows "writing (rw_field_size r, i, rw_sections r) (start_section header i r) (pre @ header) []"
proof -
  have "initialize_section header (rw_writer r) = (length (pre @ header), file_at (pre @ header @ PLACE_HOLDER) [])"
    by (simp add: initialize_section_def assms Let_def) (simp add: file_at_def)
  then show ?thesis by (simp add: start_section_def writing_def)
qed

lemma end_section_at:
  assumes "length body < 256 ^ 8"
  shows "end_section (length pre) (length body) (file_at (pre @ PLACE_HOLDER @ body) []) =
    file_at (pre @ le_bytes 8 (length body) @ body) []"
proof -
  have "length (le_bytes 8 (length body)) = 8" by (rule length_le_bytes [OF assms]) simp
  moreover have "length PLACE_HOLDER = 8" by (simp add: PLACE_HOLDER_def)
  ultimately show ?thesis by (simp add: end_section_def Let_def seek_start_def write_all_def file_at_def)
qed

lemma writer_end_writing:
  assumes "writing (fs, i, secs) s pre body" and "i < length secs" and "length body < 256 ^ 8"
  shows "writer_end_section s = Some \<lparr>rw_field_size = fs, rw_writer = file_at (pre @ le_bytes 8 (length body) @ body) [],
    rw_sections = secs[i := True]\<rparr>"
  using assms end_section_at [OF assms(3), of pre] by (simp add: writer_end_section_def writing_def)

section \<open>What the writers append\<close>

definition enc_header :: "nat \<Rightarrow> header_data \<Rightarrow> byte list" where
  "enc_header fs h = le_bytes 4 fs @ le_bytes fs (nat (hd_field h)) @ le_bytes 4 (hd_total_wires h) @
     le_bytes 4 (hd_public_outputs h) @ le_bytes 4 (hd_public_inputs h) @ le_bytes 4 (hd_private_inputs h) @
     le_bytes 8 (hd_number_of_labels h) @ le_bytes 4 (hd_number_of_constraints h)"

lemma write_header_writing:
  assumes "writing (fs, i, secs) s pre body" and "0 \<le> hd_field h"
  shows "writing (fs, i, secs) (write_header h s) pre (body @ enc_header fs h)"
proof -
  have fs: "ws_field_size s = fs" using assms(1) by (simp add: writing_def)
  let ?s = "s\<lparr>ws_writer := write_all (le_bytes fs (nat (hd_field h))) (write_all (le_bytes 4 fs) (ws_writer s)),
    ws_size := ws_size s + (length (le_bytes fs (nat (hd_field h))) + length (le_bytes 4 fs))\<rparr>"
  have w: "writing (fs, i, secs) ?s pre (body @ (le_bytes 4 fs @ le_bytes fs (nat (hd_field h))))"
    using assms(1) by (simp add: writing_def)
  let ?bss = "[le_bytes 4 (hd_total_wires h), le_bytes 4 (hd_public_outputs h), le_bytes 4 (hd_public_inputs h),
       le_bytes 4 (hd_private_inputs h), le_bytes 8 (hd_number_of_labels h), le_bytes 4 (hd_number_of_constraints h)]"
  have "write_header h s = fold (\<lambda>bs. put_stream (bs, length bs)) ?bss ?s"
    by (simp add: write_header_def fs bigint_as_bytes_le [OF assms(2)] Let_def)
  then show ?thesis using fold_put_writing [OF w, of ?bss] by (simp add: enc_header_def)
qed

definition enc_factor :: "nat \<Rightarrow> nat \<times> int \<Rightarrow> byte list" where
  "enc_factor fs = (\<lambda>(k, v). le_bytes 4 k @ le_bytes fs (nat v))"

text \<open>The order in which the factors of a combination are written.\<close>

definition written_order :: "(nat, int) hmap \<Rightarrow> (nat, int) hmap" where
  "written_order m = map (\<lambda>i. (from_format i, the (map_of (r1cs_combination m) i))) (sort (hm_keys (r1cs_combination m)))"

definition enc_combination :: "nat \<Rightarrow> (nat, int) hmap \<Rightarrow> byte list" where
  "enc_combination fs m = le_bytes 4 (length m) @ concat (map (enc_factor fs) (written_order m))"

lemma to_bytes_inj: "inj (\<lambda>k. to_bytes_le (int k))"
  by (rule inj_on_inverseI [of _ from_format]) (simp add: to_bytes_le_def from_nat_to_bytes)

lemma r1cs_combination_map:
  assumes "hm_wf m"
  shows "r1cs_combination m = map (\<lambda>(k, v). (to_bytes_le (int k), v)) m"
proof -
  have "r1cs_combination m = rename_by (\<lambda>k. to_bytes_le (int k)) m []" by (simp add: r1cs_combination_def rename_by_def)
  then show ?thesis using rename_by_map [OF assms, of "\<lambda>k. to_bytes_le (int k)" "[]"] to_bytes_inj
    by (simp add: inj_on_def)
qed

lemma hm_wf_r1cs_combination: "hm_wf m \<Longrightarrow> hm_wf (r1cs_combination m)"
proof -
  assume m: "hm_wf m"
  have "map fst (map (\<lambda>(k, v). (to_bytes_le (int k), v)) m) = map (\<lambda>k. to_bytes_le (int k)) (map fst m)"
    by (simp add: case_prod_unfold)
  then show ?thesis unfolding hm_wf_def r1cs_combination_map [OF m]
    using m to_bytes_inj by (simp only: distinct_map [of "\<lambda>k. to_bytes_le (int k)"] hm_wf_def) (blast intro: inj_on_subset)
qed

lemma written_order_mset:
  assumes "hm_wf m"
  shows "mset (written_order m) = mset m"
proof -
  let ?M = "r1cs_combination m"
  have "image_mset (\<lambda>i. (from_format i, the (map_of ?M i))) (mset (hm_keys ?M)) =
      image_mset (\<lambda>e. (from_format (fst e), snd e)) (mset ?M)"
  proof -
    have "map (\<lambda>i. (from_format i, the (map_of ?M i))) (map fst ?M) = map (\<lambda>e. (from_format (fst e), snd e)) ?M"
      using hm_wf_r1cs_combination [OF assms] by (auto simp: hm_wf_def)
    then show ?thesis by (metis hm_keys_def mset_map)
  qed
  also have "\<dots> = mset m"
    by (simp add: r1cs_combination_map [OF assms] case_prod_unfold to_bytes_le_def from_nat_to_bytes comp_def flip: mset_map)
  finally show ?thesis by (simp add: written_order_def)
qed


definition combination_ok :: "nat \<Rightarrow> (nat, int) hmap \<Rightarrow> bool" where
  "combination_ok fs m \<longleftrightarrow> hm_wf m \<and> length m < 256 ^ 4 \<and> (\<forall>(k, v) \<in> set m. k < 256 ^ 4 \<and> 0 \<le> v \<and> v < 256 ^ fs)"

lemma combination_block:
  assumes "combination_ok fs m"
  shows "obtain_linear_combination_block (r1cs_combination m) fs = (enc_combination fs m, length (enc_combination fs m))"
proof -
  let ?M = "r1cs_combination m"
  have wf: "hm_wf m" using assms by (simp add: combination_ok_def)
  have step: "into_format i 4 = (le_bytes 4 (from_format i), length (le_bytes 4 (from_format i))) \<and>
      bigint_as_bytes (the (map_of ?M i)) fs = (le_bytes fs (nat (the (map_of ?M i))), length (le_bytes fs (nat (the (map_of ?M i)))))"
    if i: "i \<in> keys_of ?M" for i
  proof -
    obtain v where iv: "(i, v) \<in> set ?M" using i by (auto simp: keys_of_def)
    then obtain k where e: "(k, v) \<in> set m" "i = to_bytes_le (int k)"
      unfolding r1cs_combination_map [OF wf] by auto
    have "from_format i = k" by (simp add: e(2) to_bytes_le_def from_nat_to_bytes)
    then have "into_format i 4 = (le_bytes 4 (from_format i), length (le_bytes 4 (from_format i)))"
      using into_format_to_bytes [of k 4] by (simp add: e(2))
    moreover have "map_of ?M i = Some v"
      using map_of_is_SomeI [OF _ iv] hm_wf_r1cs_combination [OF wf] by (simp add: hm_wf_def)
    moreover have "0 \<le> v" using assms e(1) by (auto simp: combination_ok_def)
    ultimately show ?thesis using bigint_as_bytes_le [of v fs] by simp
  qed
  have "fold (\<lambda>i (block, size). (let factor = the (map_of ?M i); (stream, bytes) = into_format i 4;
        (block, size) = (block @ stream, size + bytes); (stream, bytes) = bigint_as_bytes factor fs
        in (block @ stream, size + bytes))) order (block, length block) =
      (let block = block @ concat (map (\<lambda>i. enc_factor fs (from_format i, the (map_of ?M i))) order) in (block, length block))"
    if "set order \<subseteq> keys_of ?M" for order block
    using that
  proof (induction order arbitrary: block)
    case (Cons i order)
    have i: "i \<in> keys_of ?M" using Cons.prems by simp
    show ?case
      using Cons.IH [of "block @ enc_factor fs (from_format i, the (map_of ?M i))"] Cons.prems
      by (simp add: step [OF i] enc_factor_def Let_def add.assoc)
  qed (simp add: Let_def)
  from this [of "sort (hm_keys ?M)" "le_bytes 4 (length m)"]
  show ?thesis
    by (simp add: obtain_linear_combination_block_def Let_def enc_combination_def written_order_def comp_def)
      (simp add: r1cs_combination_map [OF wf])
qed

definition enc_constraint :: "nat \<Rightarrow> constraint_triple \<Rightarrow> byte list" where
  "enc_constraint fs = (\<lambda>(a, b, c). enc_combination fs a @ enc_combination fs b @ enc_combination fs c)"

definition triple_ok :: "nat \<Rightarrow> constraint_triple \<Rightarrow> bool" where
  "triple_ok fs = (\<lambda>(a, b, c). combination_ok fs a \<and> combination_ok fs b \<and> combination_ok fs c)"

lemma write_constraint_writing:
  assumes "writing (fs, i, secs) s pre body" and "triple_ok fs (a, b, c)"
  shows "writing (fs, i, secs) (write_constraint_usize a b c s) pre (body @ enc_constraint fs (a, b, c))"
proof -
  have ok: "combination_ok fs a" "combination_ok fs b" "combination_ok fs c" using assms(2) by (simp_all add: triple_ok_def)
  have fs: "ws_field_size s = fs" using assms(1) by (simp add: writing_def)
  show ?thesis
    using assms(1) by (simp add: write_constraint_usize_def write_constraint_def fs combination_block [OF ok(1)]
        combination_block [OF ok(2)] combination_block [OF ok(3)] writing_def enc_constraint_def Let_def)
qed

lemma fold_writing:
  assumes "\<And>x s body. x \<in> set xs \<Longrightarrow> writing m s pre body \<Longrightarrow> writing m (f x s) pre (body @ enc x)"
    and "writing m s pre body"
  shows "writing m (fold f xs s) pre (body @ concat (map enc xs))"
  using assms
proof (induction xs arbitrary: s body)
  case (Cons x xs)
  have "writing m (fold f xs (f x s)) pre ((body @ enc x) @ concat (map enc xs))"
    by (rule Cons.IH) (use Cons.prems in auto)
  then show ?case by simp
qed simp

lemma write_signal_writing:
  "writing m s pre body \<Longrightarrow> writing m (write_signal_usize signal s) pre (body @ le_bytes 8 signal)"
  by (simp add: write_signal_usize_def write_signal_def into_format_to_bytes put_stream_writing)

definition enc_gate :: "nat \<Rightarrow> byte list \<times> int list \<Rightarrow> byte list" where
  "enc_gate fs = (\<lambda>(name, parameters). name @ [0] @ le_bytes 4 (length parameters) @
     concat (map (\<lambda>v. le_bytes fs (nat v)) parameters))"

lemma write_gate_writing:
  assumes "writing (fs, i, secs) s pre body" and "\<forall>v \<in> set (snd gate). 0 \<le> v"
  shows "writing (fs, i, secs) (write_custom_gate gate s) pre (body @ enc_gate fs gate)"
proof -
  obtain name parameters where g: "gate = (name, parameters)" by (cases gate)
  let ?s = "s\<lparr>ws_size := ws_size s + (length name + 1), ws_writer := write_all [0] (write_all name (ws_writer s))\<rparr>"
  have "writing (fs, i, secs) ?s pre (body @ (name @ [0]))" using assms(1) by (simp add: writing_def)
  from put_stream_writing [OF this, of "le_bytes 4 (length parameters)"]
  have "writing (fs, i, secs) (fold (\<lambda>v s. put_stream (bigint_as_bytes v (ws_field_size s)) s) parameters
      (put_stream (le_bytes 4 (length parameters), length (le_bytes 4 (length parameters))) ?s)) pre
    (((body @ name @ [0]) @ le_bytes 4 (length parameters)) @ concat (map (\<lambda>v. le_bytes fs (nat v)) parameters))"
  proof (rule fold_writing [rotated])
    fix v and s :: writer_section and body
    assume v: "v \<in> set parameters" and w: "writing (fs, i, secs) s pre body"
    have "ws_field_size s = fs" "0 \<le> v" using w assms(2) v by (simp_all add: writing_def g)
    then show "writing (fs, i, secs) (put_stream (bigint_as_bytes v (ws_field_size s)) s) pre (body @ le_bytes fs (nat v))"
      using put_stream_writing [OF w] by (simp add: bigint_as_bytes_le)
  qed
  then show ?thesis by (simp add: write_custom_gate_def g enc_gate_def Let_def)
qed

definition enc_gates :: "nat \<Rightarrow> (byte list \<times> int list) list \<Rightarrow> byte list" where
  "enc_gates fs gates = le_bytes 4 (length gates) @ concat (map (enc_gate fs) gates)"

lemma write_gates_writing:
  assumes "writing (fs, i, secs) s pre body" and "\<forall>gate \<in> set gates. \<forall>v \<in> set (snd gate). 0 \<le> v"
  shows "writing (fs, i, secs) (write_custom_gates_usages gates s) pre (body @ enc_gates fs gates)"
  using fold_writing [of gates "(fs, i, secs)" pre write_custom_gate "enc_gate fs"] write_gate_writing assms(2)
    put_stream_writing [OF assms(1), of "le_bytes 4 (length gates)"]
  by (fastforce simp: write_custom_gates_usages_def enc_gates_def)

definition enc_application :: "nat \<times> nat list \<Rightarrow> byte list" where
  "enc_application = (\<lambda>(index, signals). le_bytes 4 index @ le_bytes 4 (length signals) @ concat (map (le_bytes 8) signals))"

lemma write_application_writing:
  assumes "writing m s pre body"
  shows "writing m (write_custom_gate_application app s) pre (body @ enc_application app)"
proof -
  obtain index signals where g: "app = (index, signals)" by (cases app)
  have "writing m (fold (\<lambda>bs. put_stream (bs, length bs)) (le_bytes 4 index # le_bytes 4 (length signals) # map (le_bytes 8) signals) s) pre
      (body @ enc_application app)"
    using fold_put_writing [OF assms, of "le_bytes 4 index # le_bytes 4 (length signals) # map (le_bytes 8) signals"]
    by (simp add: enc_application_def g)
  then show ?thesis by (simp add: write_custom_gate_application_def g fold_map comp_def)
qed

definition enc_applications :: "(nat \<times> nat list) list \<Rightarrow> byte list" where
  "enc_applications apps = le_bytes 4 (length apps) @ concat (map enc_application apps)"

lemma write_applications_writing:
  assumes "writing m s pre body"
  shows "writing m (write_custom_gates_applications apps s) pre (body @ enc_applications apps)"
  using fold_writing [of apps m pre write_custom_gate_application enc_application] write_application_writing
    put_stream_writing [OF assms, of "le_bytes 4 (length apps)"]
  by (fastforce simp: write_custom_gates_applications_def enc_applications_def)

end
