(* ===== verification/R1cs_Read_Back.thy ===== *)
theory R1cs_Read_Back
  imports R1cs_Written
begin

text \<open>
  The readers of \<open>constraint_writers/src/r1cs_reader.rs\<close> on what the writers append: each takes its
  encoding off the file and returns what was encoded. A section begins with its type and size, and the
  scan over the sections finds where each starts.
\<close>

section \<open>Primitives\<close>

lemma read_exact_at: "length bs = n \<Longrightarrow> read_exact n (file_at pre (bs @ post)) = Inr (bs, file_at (pre @ bs) post)"
  by (auto simp: read_exact_def file_at_def)

lemma read_bigint_at:
  assumes "n < 256 ^ k" and "0 < k"
  shows "read_bigint k (file_at pre (le_bytes k n @ post)) = Inr (n, file_at (pre @ le_bytes k n) post)"
  by (simp add: read_bigint_def read_exact_at [OF length_le_bytes [OF assms]])

text \<open>What a loop over a section asks of the reader of one element: it takes the encoding off the file.\<close>

locale decoder =
  fixes read :: "byte_file \<Rightarrow> io_error + 'b \<times> byte_file"
    and enc :: "'a \<Rightarrow> byte list"
    and ok :: "'a \<Rightarrow> bool"
    and result :: "'a \<Rightarrow> 'b"
  assumes read_enc: "ok x \<Longrightarrow> read (file_at pre (enc x @ post)) = Inr (result x, file_at (pre @ enc x) post)"
begin

lemma read_times_enc:
  "\<forall>x \<in> set xs. ok x \<Longrightarrow> read_times (length xs) read (file_at pre (concat (map enc xs) @ post)) =
    Inr (map result xs, file_at (pre @ concat (map enc xs)) post)"
proof (induction xs arbitrary: pre)
  case (Cons x xs)
  have "read_times (length xs) read (file_at (pre @ enc x) (concat (map enc xs) @ post)) =
      Inr (map result xs, file_at ((pre @ enc x) @ concat (map enc xs)) post)"
    by (rule Cons.IH) (use Cons.prems in simp)
  then show ?case using Cons.prems read_enc [of x] by simp
qed simp

end

interpretation signal_reader: decoder "read_bigint 8" "le_bytes 8" "\<lambda>n. n < 256 ^ 8" "\<lambda>n. n"
  by unfold_locales (simp add: read_bigint_at)

interpretation parameter_reader:
  decoder "read_bigint fs" "\<lambda>v. le_bytes fs (nat v)" "\<lambda>v. 0 < fs \<and> 0 \<le> v \<and> v < 256 ^ fs" nat for fs
  by unfold_locales (simp add: read_bigint_at nat_less_iff)

section \<open>Constraints\<close>

lemma read_factor_at:
  assumes "k < 256 ^ 4" and "0 \<le> v" and "v < 256 ^ fs" and "0 < fs"
  shows "read_factor fs (file_at pre (enc_factor fs (k, v) @ post)) =
    Inr ((le_bytes 4 k, v), file_at (pre @ enc_factor fs (k, v)) post)"
proof -
  have "nat v < 256 ^ fs" using assms(2,3) by (simp add: nat_less_iff)
  moreover have "length (le_bytes 4 k) = 4" by (rule length_le_bytes [OF assms(1)]) simp
  ultimately show ?thesis
    using assms(2,4) by (simp add: read_factor_def enc_factor_def read_exact_at read_bigint_at)
qed

interpretation factor_reader:
  decoder "read_factor fs" "enc_factor fs" "\<lambda>(k, v). 0 < fs \<and> k < 256 ^ 4 \<and> 0 \<le> v \<and> v < 256 ^ fs" "\<lambda>(k, v). (le_bytes 4 k, v)" for fs
  by unfold_locales (auto simp: read_factor_at)

lemma combination_entries:
  assumes "combination_ok fs m" and "e \<in> set (written_order m)"
  shows "fst e < 256 ^ 4 \<and> 0 \<le> snd e \<and> snd e < 256 ^ fs"
proof -
  have "e \<in> set m" using assms mset_eq_setD [OF written_order_mset] by (auto simp: combination_ok_def)
  then show ?thesis using assms(1) by (auto simp: combination_ok_def)
qed

lemma written_order_wf: "hm_wf m \<Longrightarrow> hm_wf (written_order m)"
  using mset_eq_imp_distinct_iff [of "map fst (written_order m)" "map fst m"] written_order_mset [of m]
  by (simp add: hm_wf_def)

lemma usize_written:
  assumes "hm_wf m"
  shows "usize_combination (fold (\<lambda>(i, factor). hm_insert i factor) (map (\<lambda>(k, v). (le_bytes 4 k, v)) (written_order m)) []) =
    written_order m"
proof -
  let ?L = "written_order m"
  have wf: "hm_wf ?L" by (rule written_order_wf [OF assms])
  have inj: "inj (le_bytes 4)" by (rule inj_on_inverseI [of _ from_format]) simp
  have "fold (\<lambda>(i, factor). hm_insert i factor) (map (\<lambda>(k, v). (le_bytes 4 k, v)) ?L) [] = rename_by (le_bytes 4) ?L []"
    by (simp add: rename_by_def fold_map comp_def case_prod_unfold)
  also have "\<dots> = map (\<lambda>(k, v). (le_bytes 4 k, v)) ?L"
    using rename_by_map [OF wf, of "le_bytes 4" "[]"] inj_on_subset [OF inj] by simp
  finally have 1: "fold (\<lambda>(i, factor). hm_insert i factor) (map (\<lambda>(k, v). (le_bytes 4 k, v)) ?L) [] =
      map (\<lambda>(k, v). (le_bytes 4 k, v)) ?L" .
  have "usize_combination (map (\<lambda>(k, v). (le_bytes 4 k, v)) ?L) = rename_by (\<lambda>k. k) ?L []"
    by (simp add: usize_combination_def rename_by_def fold_map comp_def case_prod_unfold)
  also have "\<dots> = ?L" using rename_by_map [OF wf, of "\<lambda>k. k" "[]"] by simp
  finally show ?thesis by (simp only: 1)
qed

lemma read_block_at:
  assumes "combination_ok fs m" and "0 < fs"
  shows "read_linear_combination_block fs (file_at pre (enc_combination fs m @ post)) =
    Inr (fold (\<lambda>(i, factor). hm_insert i factor) (map (\<lambda>(k, v). (le_bytes 4 k, v)) (written_order m)) [],
      file_at (pre @ enc_combination fs m) post)"
proof -
  have wf: "hm_wf m" and n: "length m < 256 ^ 4" using assms(1) by (simp_all add: combination_ok_def)
  have l: "length (written_order m) = length m" using mset_eq_length [OF written_order_mset [OF wf]] .
  have "read_times (length (written_order m)) (read_factor fs)
      (file_at (pre @ le_bytes 4 (length m)) (concat (map (enc_factor fs) (written_order m)) @ post)) =
    Inr (map (\<lambda>(k, v). (le_bytes 4 k, v)) (written_order m),
      file_at ((pre @ le_bytes 4 (length m)) @ concat (map (enc_factor fs) (written_order m))) post)"
    by (rule factor_reader.read_times_enc) (use combination_entries [OF assms(1)] assms(2) in auto)
  then show ?thesis using read_bigint_at [OF n, of pre] l
    by (simp add: read_linear_combination_block_def enc_combination_def)
qed

definition reading :: "nat \<times> nat \<times> nat \<times> bool list \<Rightarrow> 'a reader_section_scheme \<Rightarrow> byte list \<Rightarrow> byte list \<Rightarrow> bool" where
  "reading frame s pre post \<longleftrightarrow> rs_reader s = file_at pre post \<and>
     frame = (rs_go_back s, rs_index s, rs_field_size s, rs_sections s)"

definition ordered_triple :: "constraint_triple \<Rightarrow> constraint_triple" where
  "ordered_triple = (\<lambda>(a, b, c). (written_order a, written_order b, written_order c))"

lemma read_constraint_at:
  assumes "reading (g, i, fs, secs) s pre (enc_constraint fs t @ post)" and "triple_ok fs t" and "0 < fs"
  shows "\<exists>s'. read_constraint_usize s = Inr (ordered_triple t, s') \<and> reading (g, i, fs, secs) s' (pre @ enc_constraint fs t) post"
proof -
  obtain a b c where t: "t = (a, b, c)" by (cases t)
  have ok: "combination_ok fs a" "combination_ok fs b" "combination_ok fs c" using assms(2) by (simp_all add: triple_ok_def t)
  have wf: "hm_wf a" "hm_wf b" "hm_wf c" using ok by (simp_all add: combination_ok_def)
  have s: "rs_field_size s = fs" "rs_reader s = file_at pre (enc_combination fs a @ enc_combination fs b @ enc_combination fs c @ post)"
    using assms(1) by (simp_all add: reading_def enc_constraint_def t)
  show ?thesis
    using assms(1)
    by (simp add: read_constraint_usize_def read_constraint_bytes_def s read_block_at [OF ok(1) assms(3)]
        read_block_at [OF ok(2) assms(3)] read_block_at [OF ok(3) assms(3)] usize_written [OF wf(1)] usize_written [OF wf(2)]
        usize_written [OF wf(3)] ordered_triple_def t reading_def enc_constraint_def)
qed

lemma read_constraints_at:
  assumes "reading (g, i, fs, secs) s pre (concat (map (enc_constraint fs) ts) @ post)"
    and "\<forall>t \<in> set ts. triple_ok fs t" and "0 < fs"
  shows "\<exists>s'. read_constraints (length ts) s = Inr (map ordered_triple ts, s') \<and>
    reading (g, i, fs, secs) s' (pre @ concat (map (enc_constraint fs) ts)) post"
  using assms(1,2)
proof (induction ts arbitrary: s pre)
  case (Cons t ts)
  obtain s' where s': "read_constraint_usize s = Inr (ordered_triple t, s')"
    "reading (g, i, fs, secs) s' (pre @ enc_constraint fs t) (concat (map (enc_constraint fs) ts) @ post)"
    using read_constraint_at [of g i fs secs s pre t "concat (map (enc_constraint fs) ts) @ post"] Cons.prems assms(3) by auto
  then obtain s'' where "read_constraints (length ts) s' = Inr (map ordered_triple ts, s'')"
    "reading (g, i, fs, secs) s'' ((pre @ enc_constraint fs t) @ concat (map (enc_constraint fs) ts)) post"
    using Cons.IH [of s' "pre @ enc_constraint fs t"] Cons.prems(2) by auto
  then show ?case using s'(1) by simp
qed simp

section \<open>Header, signals and custom gates\<close>

definition header_ok :: "nat \<Rightarrow> header_data \<Rightarrow> bool" where
  "header_ok fs h \<longleftrightarrow> 0 < fs \<and> fs < 256 ^ 4 \<and> 0 \<le> hd_field h \<and> hd_field h < 256 ^ fs \<and> hd_total_wires h < 256 ^ 4 \<and>
     hd_public_outputs h < 256 ^ 4 \<and> hd_public_inputs h < 256 ^ 4 \<and> hd_private_inputs h < 256 ^ 4 \<and>
     hd_number_of_labels h < 256 ^ 8 \<and> hd_number_of_constraints h < 256 ^ 4"

definition read_header_of :: "nat \<Rightarrow> header_data \<Rightarrow> read_header_data" where
  "read_header_of fs h = \<lparr>rh_field = hd_field h, rh_field_size = fs, rh_total_wires = hd_total_wires h,
     rh_public_outputs = hd_public_outputs h, rh_public_inputs = hd_public_inputs h, rh_private_inputs = hd_private_inputs h,
     rh_number_of_labels = hd_number_of_labels h, rh_number_of_constraints = hd_number_of_constraints h\<rparr>"

lemma read_header_at:
  assumes "reading frame s pre (enc_header fs h @ post)" and "header_ok fs h"
  shows "\<exists>s'. read_header s = Inr (read_header_of fs h, s') \<and> reading frame s' (pre @ enc_header fs h) post"
proof -
  have h: "0 < fs" "fs < 256 ^ 4" "0 \<le> hd_field h" "nat (hd_field h) < 256 ^ fs" "hd_total_wires h < 256 ^ 4"
    "hd_public_outputs h < 256 ^ 4" "hd_public_inputs h < 256 ^ 4" "hd_private_inputs h < 256 ^ 4"
    "hd_number_of_labels h < 256 ^ 8" "hd_number_of_constraints h < 256 ^ 4"
    using assms(2) by (simp_all add: header_ok_def nat_less_iff)
  have s: "rs_reader s = file_at pre (enc_header fs h @ post)" using assms(1) by (simp add: reading_def)
  show ?thesis
    using assms(1) h(3)
    by (simp add: read_header_def s enc_header_def read_bigint_at [OF h(2)] read_bigint_at [OF h(4,1)] read_bigint_at [OF h(5)]
        read_bigint_at [OF h(6)] read_bigint_at [OF h(7)] read_bigint_at [OF h(8)] read_bigint_at [OF h(9)] read_bigint_at [OF h(10)]
        read_header_of_def reading_def)
qed

lemma read_signal_at:
  assumes "reading frame s pre (le_bytes 8 n @ post)" and "n < 256 ^ 8"
  shows "\<exists>s'. read_signal_usize s = Inr (n, s') \<and> reading frame s' (pre @ le_bytes 8 n) post"
proof -
  have "length (le_bytes 8 n) = 8" by (rule length_le_bytes [OF assms(2)]) simp
  then show ?thesis using assms(1) by (simp add: read_signal_usize_def read_signal_def reading_def read_exact_at)
qed

lemma read_signals_at:
  assumes "reading frame s pre (concat (map (le_bytes 8) ns) @ post)" and "\<forall>n \<in> set ns. n < 256 ^ 8"
  shows "\<exists>s'. read_signals (length ns) s = Inr (ns, s') \<and> reading frame s' (pre @ concat (map (le_bytes 8) ns)) post"
  using assms
proof (induction ns arbitrary: s pre)
  case (Cons n ns)
  obtain s' where s': "read_signal_usize s = Inr (n, s')"
    "reading frame s' (pre @ le_bytes 8 n) (concat (map (le_bytes 8) ns) @ post)"
    using read_signal_at [of frame s pre n "concat (map (le_bytes 8) ns) @ post"] Cons.prems by auto
  then obtain s'' where "read_signals (length ns) s' = Inr (ns, s'')"
    "reading frame s'' ((pre @ le_bytes 8 n) @ concat (map (le_bytes 8) ns)) post"
    using Cons.IH [of s' "pre @ le_bytes 8 n"] Cons.prems(2) by auto
  then show ?case using s'(1) by simp
qed simp

declare read_name.simps [simp del]

lemma read_name_at:
  "0 \<notin> set name \<Longrightarrow> read_name acc (file_at pre (name @ 0 # post)) = Inr (acc @ name, file_at (pre @ name @ [0]) post)"
proof (induction name arbitrary: acc pre)
  case Nil
  show ?case using read_exact_at [of "[0]" 1 pre post] by (simp add: read_name.simps [of acc])
next
  case (Cons b name)
  show ?case using read_exact_at [of "[b]" 1 pre "name @ 0 # post"] Cons.IH [of "acc @ [b]" "pre @ [b]"] Cons.prems
    by (simp add: read_name.simps [of acc])
qed

definition gate_ok :: "nat \<Rightarrow> byte list \<times> int list \<Rightarrow> bool" where
  "gate_ok fs = (\<lambda>(name, parameters). 0 \<notin> set name \<and> utf8 name \<and> length parameters < 256 ^ 4 \<and>
     (\<forall>v \<in> set parameters. 0 \<le> v \<and> v < 256 ^ fs))"

lemma read_gate_at:
  assumes "gate_ok fs gate" and "0 < fs"
  shows "read_custom_gate fs (file_at pre (enc_gate fs gate @ post)) = Some (Inr (gate, file_at (pre @ enc_gate fs gate) post))"
proof -
  obtain name parameters where g: "gate = (name, parameters)" by (cases gate)
  have ok: "0 \<notin> set name" "utf8 name" "length parameters < 256 ^ 4" "\<forall>v \<in> set parameters. 0 \<le> v \<and> nat v < 256 ^ fs"
    using assms(1) by (auto simp: gate_ok_def g nat_less_iff)
  have "read_times (length parameters) (read_bigint fs) (file_at q (concat (map (\<lambda>v. le_bytes fs (nat v)) parameters) @ post)) =
      Inr (map nat parameters, file_at (q @ concat (map (\<lambda>v. le_bytes fs (nat v)) parameters)) post)" for q
    by (rule parameter_reader.read_times_enc) (use ok(4) assms(2) in simp)
  moreover have "map int (map nat parameters) = parameters" using ok(4) by (simp add: map_idI)
  ultimately show ?thesis
    using read_name_at [OF ok(1), of "[]" pre] ok(2) read_bigint_at [OF ok(3)]
    by (simp add: read_custom_gate_def g enc_gate_def)
qed

lemma read_gates_at:
  assumes "\<forall>gate \<in> set gates. gate_ok fs gate" and "0 < fs"
  shows "read_custom_gates (length gates) fs (file_at pre (concat (map (enc_gate fs) gates) @ post)) =
    Some (Inr (gates, file_at (pre @ concat (map (enc_gate fs) gates)) post))"
  using assms(1)
proof (induction gates arbitrary: pre)
  case (Cons gate gates)
  then show ?case using read_gate_at [of fs gate pre "concat (map (enc_gate fs) gates) @ post"] Cons.IH [of "pre @ enc_gate fs gate"]
      assms(2) by simp
qed simp

lemma read_usages_at:
  assumes "reading (g, i, fs, secs) s pre (enc_gates fs gates @ post)" and "\<forall>gate \<in> set gates. gate_ok fs gate"
    and "length gates < 256 ^ 4" and "0 < fs"
  shows "\<exists>s'. read_custom_gates_usages s = Some (Inr (gates, s')) \<and> reading (g, i, fs, secs) s' (pre @ enc_gates fs gates) post"
  using assms(1) read_bigint_at [OF assms(3)] read_gates_at [OF assms(2,4)]
  by (simp add: read_custom_gates_usages_def reading_def enc_gates_def)

definition application_ok :: "nat \<times> nat list \<Rightarrow> bool" where
  "application_ok = (\<lambda>(index, signals). index < 256 ^ 4 \<and> length signals < 256 ^ 4 \<and> (\<forall>n \<in> set signals. n < 256 ^ 8))"

lemma read_application_at:
  assumes "application_ok app"
  shows "read_custom_gate_application (file_at pre (enc_application app @ post)) = Inr (app, file_at (pre @ enc_application app) post)"
proof -
  obtain index signals where g: "app = (index, signals)" by (cases app)
  have ok: "index < 256 ^ 4" "length signals < 256 ^ 4" "\<forall>n \<in> set signals. n < 256 ^ 8"
    using assms by (simp_all add: application_ok_def g)
  have "read_times (length signals) (read_bigint 8) (file_at q (concat (map (le_bytes 8) signals) @ post)) =
      Inr (map (\<lambda>n. n) signals, file_at (q @ concat (map (le_bytes 8) signals)) post)" for q
    by (rule signal_reader.read_times_enc [OF ok(3)])
  then show ?thesis using read_bigint_at [OF ok(1)] read_bigint_at [OF ok(2)]
    by (simp add: read_custom_gate_application_def g enc_application_def)
qed

interpretation application_reader: decoder read_custom_gate_application enc_application application_ok "\<lambda>app. app"
  by unfold_locales (rule read_application_at)

lemma read_applications_at:
  assumes "reading frame s pre (enc_applications apps @ post)" and "\<forall>app \<in> set apps. application_ok app"
    and "length apps < 256 ^ 4"
  shows "\<exists>s'. read_custom_gates_applications s = Inr (apps, s') \<and> reading frame s' (pre @ enc_applications apps) post"
proof -
  have "read_times (length apps) read_custom_gate_application (file_at q (concat (map enc_application apps) @ post)) =
      Inr (map (\<lambda>a. a) apps, file_at (q @ concat (map enc_application apps)) post)" for q
    by (rule application_reader.read_times_enc [OF assms(2)])
  then show ?thesis using assms(1) read_bigint_at [OF assms(3)]
    by (simp add: read_custom_gates_applications_def reading_def enc_applications_def)
qed

end
