(* ===== verification/R1cs_Roundtrip.thy ===== *)
theory R1cs_Roundtrip
  imports R1cs_Read_Back
begin

text \<open>
  The whole file: the sections that the port functions write, in the order of writing, the scan over
  them, and \<open>read_r1cs\<close>, which returns what was written.
\<close>

section \<open>Sections\<close>

definition section_type :: "nat \<Rightarrow> byte list" where
  "section_type t = [of_nat t, 0, 0, 0]"

definition r1cs_section :: "nat \<times> byte list \<Rightarrow> byte list" where
  "r1cs_section = (\<lambda>(t, body). section_type t @ le_bytes 8 (length body) @ body)"

lemma section_types:
  "HEADER_TYPE = section_type 1" "CONSTRAINT_TYPE = section_type 2" "WIRE2LABEL_TYPE = section_type 3"
  "CUSTOM_GATES_USED_TYPE = section_type 4" "CUSTOM_GATES_APPLIED_TYPE = section_type 5"
  by (simp_all add: section_type_def HEADER_TYPE_def CONSTRAINT_TYPE_def WIRE2LABEL_TYPE_def CUSTOM_GATES_USED_TYPE_def
      CUSTOM_GATES_APPLIED_TYPE_def)

lemma section_type_4: "length (section_type t) = 4" and section_type_0: "section_type t ! 0 = of_nat t"
  by (simp_all add: section_type_def)

text \<open>Writing a section from start to end.\<close>

lemma writer_section_done:
  assumes "rw_writer r = file_at pre []" and "rw_field_size r = fs" and "length (rw_sections r) = 5" and "i < 5"
    and "length body < 256 ^ 8"
    and "\<And>s. writing (fs, i, rw_sections r) s (pre @ section_type t) [] \<Longrightarrow>
      writing (fs, i, rw_sections r) (f s) (pre @ section_type t) body"
  shows "\<exists>r'. writer_end_section (f (start_section (section_type t) i r)) = Some r' \<and>
    rw_writer r' = file_at (pre @ r1cs_section (t, body)) [] \<and> rw_field_size r' = fs \<and> length (rw_sections r') = 5"
proof -
  have "writing (fs, i, rw_sections r) (start_section (section_type t) i r) (pre @ section_type t) []"
    using start_section_writing [OF assms(1), of i "section_type t"] assms(2) by simp
  then have "writing (fs, i, rw_sections r) (f (start_section (section_type t) i r)) (pre @ section_type t) body" by (rule assms(6))
  then show ?thesis using writer_end_writing [OF _ _ assms(5)] assms(3,4) by (fastforce simp: r1cs_section_def)
qed

section \<open>The scan over the sections\<close>

primrec positions :: "nat \<Rightarrow> (nat \<times> byte list) list \<Rightarrow> (nat \<times> nat) list" where
  "positions p [] = []"
| "positions p (s # ss) = (fst s, p) # positions (p + length (r1cs_section s)) ss"

lemma as_i64_int: "n < 2 ^ 63 \<Longrightarrow> as_i64 n = int n"
  by (simp add: as_i64_def signed_of_nat signed_take_bit_int_eq_self)

lemma seek_current_to:
  "int (bf_position f) + off = int n \<Longrightarrow> seek_current off f = Inr (n, \<lparr>bf_bytes = bf_bytes f, bf_position = n\<rparr>)"
  by (cases f) (simp add: seek_current_def Let_def)

lemma section_starts_at:
  assumes "\<forall>(t, body) \<in> set ss. 1 \<le> t \<and> t \<le> n \<and> t < 256 \<and> length body < 2 ^ 63"
    and "bf_bytes f = pre @ concat (map r1cs_section ss) @ post" and "int (bf_position f) + off = int (length pre)"
  shows "\<exists>f'. section_starts (length ss) n off starts f =
      Inr (fold (\<lambda>(t, p). hm_insert t p) (positions (length pre) ss) starts, f') \<and> bf_bytes f' = bf_bytes f"
  using assms
proof (induction ss arbitrary: f pre off starts)
  case (Cons s ss)
  obtain t body where s: "s = (t, body)" by (cases s)
  have t: "1 \<le> t" "t \<le> n" "t < 256" "length body < 2 ^ 63" using Cons.prems(1) by (simp_all add: s)
  let ?post = "concat (map r1cs_section ss) @ post"
  have seek: "seek_current off f = Inr (length pre, file_at pre (section_type t @ le_bytes 8 (length body) @ body @ ?post))"
    using seek_current_to [OF Cons.prems(3)] Cons.prems(2) by (simp add: file_at_def s) (simp add: r1cs_section_def)
  have t8: "unat (of_nat t :: byte) = t" by (rule unat_byte [OF t(3)])
  have b8: "length body < 256 ^ 8" using t(4) by simp
  let ?f = "file_at (pre @ section_type t @ le_bytes 8 (length body)) (body @ ?post)"
  have l8: "length (le_bytes 8 (length body)) = 8" by (rule length_le_bytes [OF b8]) simp
  have "\<exists>f'. section_starts (length ss) n (as_i64 (length body)) (hm_insert t (length pre) starts) ?f =
      Inr (fold (\<lambda>(t, p). hm_insert t p) (positions (length (pre @ r1cs_section s)) ss) (hm_insert t (length pre) starts), f') \<and>
      bf_bytes f' = bf_bytes ?f"
    by (rule Cons.IH) (use Cons.prems(1) t(4) in \<open>simp_all add: file_at_def s r1cs_section_def as_i64_int\<close>)
  moreover have "section_starts (length (s # ss)) n off starts f =
      section_starts (length ss) n (as_i64 (length body)) (hm_insert t (length pre) starts) ?f"
    using t by (simp add: seek read_exact_at [OF section_type_4] read_bigint_at [OF b8] section_type_0 t8)
  moreover have "bf_bytes ?f = bf_bytes f" using Cons.prems(2) by (simp add: file_at_def s r1cs_section_def)
  ultimately show ?case by (simp add: s)
qed simp

section \<open>Reading a section\<close>

lemma enter_section:
  assumes "bf_bytes (rr_reader r) = pre @ r1cs_section (t, body) @ post" and "length body < 256 ^ 8"
  shows "\<exists>s. read_start_section (section_type t) i (seek_to (length pre) r) = Inr s \<and>
    reading (length pre + 4, i, rr_field_size r, rr_sections r) s (pre @ section_type t @ le_bytes 8 (length body)) (body @ post)"
proof -
  have f: "rr_reader (seek_to (length pre) r) = file_at pre (section_type t @ le_bytes 8 (length body) @ body @ post)"
    using assms(1) by (simp add: seek_to_def seek_start_def file_at_def r1cs_section_def)
  have "length (le_bytes 8 (length body)) = 8" by (rule length_le_bytes [OF assms(2)]) simp
  then have "seek_current 8 (file_at (pre @ section_type t) (le_bytes 8 (length body) @ body @ post)) =
      Inr (length pre + 12, file_at (pre @ section_type t @ le_bytes 8 (length body)) (body @ post))"
    by (subst seek_current_to [of _ _ "length pre + 12"]) (simp_all add: file_at_def section_type_def)
  then have "read_section_header (section_type t) (rr_reader (seek_to (length pre) r)) =
      Inr (length pre + 4, file_at (pre @ section_type t @ le_bytes 8 (length body)) (body @ post))"
    unfolding f by (simp add: read_section_header_def read_exact_at PLACE_HOLDER_def) (simp add: file_at_def section_type_def)
  then show ?thesis by (simp add: read_start_section_def reading_def seek_to_def)
qed

lemma leave_section:
  assumes "reading (g, i, fs, secs) s pre post" and "g + 8 \<le> length pre"
  shows "\<exists>r. reader_end_section s = Inr r \<and> bf_bytes (rr_reader r) = pre @ post \<and> rr_field_size r = fs"
  using assms
  by (simp add: reader_end_section_def read_end_section_def read_bigint_def read_exact_def seek_start_def reading_def file_at_def Let_def)

lemma reading_extend [simp]:
  "reading fr (reader_section.extend s \<lparr>rs_number_of_constraints = k\<rparr>) pre post = reading fr s pre post"
  by (simp add: reading_def reader_section.defs)

lemma writing_extend [simp]:
  "writing m (writer_section.extend s \<lparr>ws_number_of_constraints = k\<rparr>) pre body = writing m s pre body"
  by (simp add: writing_def writer_section.defs)

text \<open>What a file holds.\<close>

record r1cs_content =
  rc_field_size :: nat
  rc_header :: header_data
  rc_constraints :: "constraint_triple list"
  rc_signals :: "nat list"
  rc_gates :: "((byte list \<times> int list) list \<times> (nat \<times> nat list) list) option"

definition content_ok :: "r1cs_content \<Rightarrow> bool" where
  "content_ok x \<longleftrightarrow> header_ok (rc_field_size x) (rc_header x) \<and>
     length (rc_constraints x) = hd_number_of_constraints (rc_header x) \<and>
     (\<forall>t \<in> set (rc_constraints x). triple_ok (rc_field_size x) t) \<and>
     length (rc_signals x) = hd_total_wires (rc_header x) \<and> (\<forall>n \<in> set (rc_signals x). n < 256 ^ 8) \<and>
     (\<forall>gates apps. rc_gates x = Some (gates, apps) \<longrightarrow>
       length gates < 256 ^ 4 \<and> (\<forall>gate \<in> set gates. gate_ok (rc_field_size x) gate) \<and>
       length apps < 256 ^ 4 \<and> (\<forall>app \<in> set apps. application_ok app))"

definition constraints_body :: "r1cs_content \<Rightarrow> byte list" where
  "constraints_body x = concat (map (enc_constraint (rc_field_size x)) (rc_constraints x))"

definition signals_body :: "r1cs_content \<Rightarrow> byte list" where
  "signals_body x = concat (map (le_bytes 8) (rc_signals x))"

definition content_sections :: "r1cs_content \<Rightarrow> (nat \<times> byte list) list" where
  "content_sections x = [(2, constraints_body x), (1, enc_header (rc_field_size x) (rc_header x)), (3, signals_body x)] @
     (case rc_gates x of None \<Rightarrow> []
      | Some (gates, apps) \<Rightarrow> [(4, enc_gates (rc_field_size x) gates), (5, enc_applications apps)])"

definition file_start :: "r1cs_content \<Rightarrow> byte list" where
  "file_start x = MAGIC @ VERSION @ [if rc_gates x = None then 3 else 5, 0, 0, 0]"

definition content_bytes :: "r1cs_content \<Rightarrow> byte list" where
  "content_bytes x = file_start x @ concat (map r1cs_section (content_sections x))"

definition sizes_ok :: "r1cs_content \<Rightarrow> bool" where
  "sizes_ok x \<longleftrightarrow> (\<forall>(t, body) \<in> set (content_sections x). length body < 2 ^ 63)"

text \<open>What reading it returns.\<close>

definition content_data :: "r1cs_content \<Rightarrow> r1cs_data" where
  "content_data x = \<lparr>ri_header_data = read_header_of (rc_field_size x) (rc_header x),
     ri_constraints = map ordered_triple (rc_constraints x), ri_signals = rc_signals x,
     ri_custom_gates = (rc_gates x \<noteq> None), ri_custom_gates_used_data = map_option fst (rc_gates x),
     ri_custom_gates_applied_data = map_option snd (rc_gates x)\<rparr>"

definition starts_of :: "r1cs_content \<Rightarrow> (nat, nat) hmap" where
  "starts_of x = fold (\<lambda>(t, p). hm_insert t p) (positions 12 (content_sections x)) []"

lemma read_plain_sections_at:
  assumes "content_ok x" and "sizes_ok x" and "bf_bytes (rr_reader r) = content_bytes x"
  shows "\<exists>r'. read_plain_sections info (starts_of x) r =
      Inr (info\<lparr>ri_header_data := read_header_of (rc_field_size x) (rc_header x),
        ri_constraints := ri_constraints info @ map ordered_triple (rc_constraints x),
        ri_signals := ri_signals info @ rc_signals x\<rparr>, r') \<and>
    bf_bytes (rr_reader r') = content_bytes x \<and> rr_field_size r' = rc_field_size x"
proof -
  let ?fs = "rc_field_size x" and ?h = "rc_header x"
  let ?C = "constraints_body x" and ?H = "enc_header ?fs ?h" and ?S = "signals_body x"
  let ?F = "file_start x"
  define rest where "rest = concat (map r1cs_section (case rc_gates x of None \<Rightarrow> []
      | Some (gates, apps) \<Rightarrow> [(4, enc_gates (rc_field_size x) gates), (5, enc_applications apps)]))"
  have B: "content_bytes x = ?F @ r1cs_section (2, ?C) @ r1cs_section (1, ?H) @ r1cs_section (3, ?S) @ rest"
    by (simp add: content_bytes_def content_sections_def rest_def)
  have F: "length ?F = 12" by (simp add: file_start_def MAGIC_def VERSION_def)
  have sizes: "length ?C < 256 ^ 8" "length ?H < 256 ^ 8" "length ?S < 256 ^ 8"
    using assms(2) by (simp_all add: sizes_ok_def content_sections_def)
  have st: "map_of (starts_of x) 2 = Some (length ?F)"
    "map_of (starts_of x) 1 = Some (length (?F @ r1cs_section (2, ?C)))"
    "map_of (starts_of x) 3 = Some (length (?F @ r1cs_section (2, ?C) @ r1cs_section (1, ?H)))"
    by (simp_all add: starts_of_def content_sections_def F update_conv' split: option.split)
  have ok: "header_ok ?fs ?h" "length (rc_constraints x) = hd_number_of_constraints ?h" "\<forall>t \<in> set (rc_constraints x). triple_ok ?fs t"
    "length (rc_signals x) = hd_total_wires ?h" "\<forall>n \<in> set (rc_signals x). n < 256 ^ 8"
    using assms(1) unfolding content_ok_def by blast+
  have fs: "0 < ?fs" using ok(1) by (simp add: header_ok_def)
  have le8: "length (le_bytes 8 (length b)) = 8" if "length b < 256 ^ 8" for b :: "byte list"
    by (rule length_le_bytes [OF that]) simp
  have R: "bf_bytes (rr_reader r) = (?F @ r1cs_section (2, ?C)) @ r1cs_section (1, ?H) @ r1cs_section (3, ?S) @ rest"
    using assms(3) by (simp add: B)
  obtain s1 where s1: "read_start_section (section_type 1) 0 (seek_to (length (?F @ r1cs_section (2, ?C))) r) = Inr s1"
    "reading (length (?F @ r1cs_section (2, ?C)) + 4, 0, rr_field_size r, rr_sections r) s1
      ((?F @ r1cs_section (2, ?C)) @ section_type 1 @ le_bytes 8 (length ?H)) (?H @ r1cs_section (3, ?S) @ rest)"
    using enter_section [OF R sizes(2)] by blast
  obtain s1' where s1': "read_header s1 = Inr (read_header_of ?fs ?h, s1')"
    "reading (length (?F @ r1cs_section (2, ?C)) + 4, 0, rr_field_size r, rr_sections r) s1'
      (((?F @ r1cs_section (2, ?C)) @ section_type 1 @ le_bytes 8 (length ?H)) @ ?H) (r1cs_section (3, ?S) @ rest)"
    using read_header_at [OF s1(2) ok(1)] by blast
  obtain r1 where r1: "reader_end_section s1' = Inr r1" "bf_bytes (rr_reader r1) = content_bytes x"
    using leave_section [OF s1'(2)] le8 [OF sizes(2)] by (auto simp: B r1cs_section_def section_type_def)
  let ?r1 = "r1\<lparr>rr_field_size := ?fs\<rparr>"
  have R1: "bf_bytes (rr_reader ?r1) = ?F @ r1cs_section (2, ?C) @ r1cs_section (1, ?H) @ r1cs_section (3, ?S) @ rest"
    using r1(2) by (simp add: B)
  obtain s2 where s2: "read_start_section (section_type 2) 1 (seek_to (length ?F) ?r1) = Inr s2"
    "reading (length ?F + 4, 1, ?fs, rr_sections r1) s2 (?F @ section_type 2 @ le_bytes 8 (length ?C))
      (?C @ r1cs_section (1, ?H) @ r1cs_section (3, ?S) @ rest)"
    using enter_section [OF R1 sizes(1), of 1] by auto
  let ?s2 = "reader_section.extend s2 \<lparr>rs_number_of_constraints = 0\<rparr>"
  have s2x: "reading (length ?F + 4, 1, ?fs, rr_sections r1) ?s2 (?F @ section_type 2 @ le_bytes 8 (length ?C))
      (concat (map (enc_constraint ?fs) (rc_constraints x)) @ r1cs_section (1, ?H) @ r1cs_section (3, ?S) @ rest)"
    using s2(2) unfolding reading_extend by (simp only: constraints_body_def [symmetric])
  obtain s2' where s2': "read_constraints (length (rc_constraints x)) ?s2 = Inr (map ordered_triple (rc_constraints x), s2')"
    "reading (length ?F + 4, 1, ?fs, rr_sections r1) s2' ((?F @ section_type 2 @ le_bytes 8 (length ?C)) @ ?C)
      (r1cs_section (1, ?H) @ r1cs_section (3, ?S) @ rest)"
    using read_constraints_at [OF s2x ok(3) fs] unfolding constraints_body_def by blast
  obtain r2 where r2: "reader_end_section s2' = Inr r2" "bf_bytes (rr_reader r2) = content_bytes x" "rr_field_size r2 = ?fs"
    using leave_section [OF s2'(2)] le8 [OF sizes(1)] by (auto simp: B r1cs_section_def section_type_def)
  have R2: "bf_bytes (rr_reader r2) = (?F @ r1cs_section (2, ?C) @ r1cs_section (1, ?H)) @ r1cs_section (3, ?S) @ rest"
    using r2(2) by (simp add: B)
  obtain s3 where s3: "read_start_section (section_type 3) 2 (seek_to (length (?F @ r1cs_section (2, ?C) @ r1cs_section (1, ?H))) r2) = Inr s3"
    "reading (length (?F @ r1cs_section (2, ?C) @ r1cs_section (1, ?H)) + 4, 2, ?fs, rr_sections r2) s3
      ((?F @ r1cs_section (2, ?C) @ r1cs_section (1, ?H)) @ section_type 3 @ le_bytes 8 (length ?S)) (?S @ rest)"
    using enter_section [OF R2 sizes(3), of 2] r2(3) by auto
  obtain s3' where s3': "read_signals (length (rc_signals x)) s3 = Inr (rc_signals x, s3')"
    "reading (length (?F @ r1cs_section (2, ?C) @ r1cs_section (1, ?H)) + 4, 2, ?fs, rr_sections r2) s3'
      (((?F @ r1cs_section (2, ?C) @ r1cs_section (1, ?H)) @ section_type 3 @ le_bytes 8 (length ?S)) @ ?S) rest"
    using read_signals_at [OF _ ok(5)] s3(2) by (fastforce simp: signals_body_def)
  obtain r3 where r3: "reader_end_section s3' = Inr r3" "bf_bytes (rr_reader r3) = content_bytes x" "rr_field_size r3 = ?fs"
    using leave_section [OF s3'(2)] le8 [OF sizes(3)] by (auto simp: B r1cs_section_def section_type_def)
  have "read_plain_sections info (starts_of x) r =
      Inr (info\<lparr>ri_header_data := read_header_of ?fs ?h, ri_constraints := ri_constraints info @ map ordered_triple (rc_constraints x),
        ri_signals := ri_signals info @ rc_signals x\<rparr>, r3)"
    using s2'(1) s3'(1) unfolding ok(2) ok(4)
    by (simp only: read_plain_sections_def read_section_at_def read_start_header_section_def read_start_constraints_section_def
        read_start_signal_section_def section_types st option.case result_bind_simps s1(1) s1'(1) r1(1) s2(1) r2(1) s3(1) r3(1)
        prod.case Let_def read_header_of_def read_header_data.simps)
  then show ?thesis using r3 by blast
qed

end
