(* ===== verification/R1cs_Correct.thy ===== *)
theory R1cs_Correct
  imports R1cs_Roundtrip
begin

text \<open>
  The whole file: what the port functions write, \<open>read_r1cs\<close> returns.
\<close>

lemma content_sections_types:
  assumes "sizes_ok x" and "n = (if rc_gates x = None then 3 else 5)"
  shows "\<forall>(t, body) \<in> set (content_sections x). 1 \<le> t \<and> t \<le> n \<and> t < 256 \<and> length body < 2 ^ 63"
    and "length (content_sections x) = n"
  using assms by (auto simp: sizes_ok_def content_sections_def split: option.splits)

lemma read_custom_sections_at:
  assumes "content_ok x" and "sizes_ok x" and "bf_bytes (rr_reader r) = content_bytes x" and "rr_field_size r = rc_field_size x"
    and "rc_gates x = Some (gates, apps)"
  shows "read_custom_sections info (starts_of x) r =
    Some (Inr (info\<lparr>ri_custom_gates_used_data := Some gates, ri_custom_gates_applied_data := Some apps\<rparr>))"
proof -
  let ?fs = "rc_field_size x"
  let ?P = "file_start x @ concat (map r1cs_section [(2, constraints_body x), (1, enc_header ?fs (rc_header x)), (3, signals_body x)])"
  let ?G = "enc_gates ?fs gates" and ?A = "enc_applications apps"
  have B: "content_bytes x = ?P @ r1cs_section (4, ?G) @ r1cs_section (5, ?A)"
    by (simp add: content_bytes_def content_sections_def assms(5))
  have F: "length (file_start x) = 12" by (simp add: file_start_def MAGIC_def VERSION_def)
  have sizes: "length ?G < 256 ^ 8" "length ?A < 256 ^ 8"
    using assms(2) by (simp_all add: sizes_ok_def content_sections_def assms(5))
  have st: "map_of (starts_of x) 4 = Some (length ?P)" "map_of (starts_of x) 5 = Some (length (?P @ r1cs_section (4, ?G)))"
    by (simp_all add: starts_of_def content_sections_def F update_conv' assms(5))
  have ok: "length gates < 256 ^ 4" "\<forall>gate \<in> set gates. gate_ok ?fs gate" "length apps < 256 ^ 4"
    "\<forall>app \<in> set apps. application_ok app" "0 < ?fs"
    using assms(1,5) unfolding content_ok_def header_ok_def by blast+
  have le8: "length (le_bytes 8 (length b)) = 8" if "length b < 256 ^ 8" for b :: "byte list"
    by (rule length_le_bytes [OF that]) simp
  have R: "bf_bytes (rr_reader r) = ?P @ r1cs_section (4, ?G) @ r1cs_section (5, ?A)" using assms(3) by (simp add: B)
  obtain s1 where s1: "read_start_section (section_type 4) 3 (seek_to (length ?P) r) = Inr s1"
    "reading (length ?P + 4, 3, ?fs, rr_sections r) s1 (?P @ section_type 4 @ le_bytes 8 (length ?G)) (?G @ r1cs_section (5, ?A))"
    using enter_section [OF R sizes(1), of 3] assms(4) by auto
  obtain s1' where s1': "read_custom_gates_usages s1 = Some (Inr (gates, s1'))"
    "reading (length ?P + 4, 3, ?fs, rr_sections r) s1' ((?P @ section_type 4 @ le_bytes 8 (length ?G)) @ ?G) (r1cs_section (5, ?A))"
    using read_usages_at [OF s1(2) ok(2,1,5)] by blast
  obtain r1 where r1: "reader_end_section s1' = Inr r1" "bf_bytes (rr_reader r1) = content_bytes x"
    using leave_section [OF s1'(2)] le8 [OF sizes(1)] by (auto simp: B r1cs_section_def section_type_def)
  have R1: "bf_bytes (rr_reader r1) = (?P @ r1cs_section (4, ?G)) @ r1cs_section (5, ?A) @ []" using r1(2) by (simp add: B)
  obtain s2 where s2: "read_start_section (section_type 5) 4 (seek_to (length (?P @ r1cs_section (4, ?G))) r1) = Inr s2"
    "reading (length (?P @ r1cs_section (4, ?G)) + 4, 4, rr_field_size r1, rr_sections r1) s2
      ((?P @ r1cs_section (4, ?G)) @ section_type 5 @ le_bytes 8 (length ?A)) (?A @ [])"
    using enter_section [OF R1 sizes(2), of 4] by blast
  obtain s2' where s2': "read_custom_gates_applications s2 = Inr (apps, s2')"
    "reading (length (?P @ r1cs_section (4, ?G)) + 4, 4, rr_field_size r1, rr_sections r1) s2'
      (((?P @ r1cs_section (4, ?G)) @ section_type 5 @ le_bytes 8 (length ?A)) @ ?A) []"
    using read_applications_at [OF s2(2) ok(4,3)] by blast
  obtain r2 where r2: "reader_end_section s2' = Inr r2"
    using leave_section [OF s2'(2)] le8 [OF sizes(2)] by (auto simp: r1cs_section_def section_type_def)
  show ?thesis
    by (simp only: read_custom_sections_def read_section_at_def st option.case option.map result_bind_simps sum.case
        read_start_custom_gates_used_section_def read_start_custom_gates_applied_section_def section_types
        s1(1) s1'(1) r1(1) s2(1) s2'(1) r2 prod.case)
qed

lemma read_content:
  assumes "content_ok x" and "sizes_ok x"
  shows "read_r1cs (content_bytes x) = Some (Inr (content_data x))"
proof -
  define n where n: "n = (if rc_gates x = None then 3 else 5::nat)"
  let ?body = "concat (map r1cs_section (content_sections x))"
  have start: "file_start x = MAGIC @ VERSION @ [of_nat n, 0, 0, 0]" by (simp add: file_start_def n)
  have init: "read_initialization (R1CSReader_new (content_bytes x)) =
      Inr ([of_nat n, 0, 0, 0], (R1CSReader_new (content_bytes x))\<lparr>rr_reader := file_at (file_start x) ?body\<rparr>)"
  proof -
    have m: "rr_reader (R1CSReader_new (content_bytes x)) = file_at [] (MAGIC @ VERSION @ [of_nat n, 0, 0, 0] @ ?body)"
      by (simp add: R1CSReader_new_def content_bytes_def start file_at_def)
    have 1: "length MAGIC = 4" "length VERSION = 4" "length [of_nat n, 0, 0, 0 :: byte] = 4" by (simp_all add: MAGIC_def VERSION_def)
    show ?thesis
      by (simp only: read_initialization_def m 1(1,2) read_exact_at [OF 1(1)] read_exact_at [OF 1(2)] read_exact_at [OF 1(3)]
          result_bind_simps prod.case simp_thms if_False start append_Nil append_assoc)
  qed
  have un: "unat (of_nat n :: byte) = n" by (rule unat_byte) (simp add: n)
  have F: "length (file_start x) = 12" by (simp add: file_start_def MAGIC_def VERSION_def)
  have fb: "bf_bytes (file_at (file_start x) ?body) = file_start x @ ?body @ []"
    "int (bf_position (file_at (file_start x) ?body)) + 0 = int (length (file_start x))"
    by (simp_all add: file_at_def)
  have cb: "content_bytes x = bf_bytes (file_at (file_start x) ?body)" by (simp add: file_at_def content_bytes_def)
  obtain f' where f': "section_starts n n 0 [] (file_at (file_start x) ?body) = Inr (starts_of x, f')"
    "bf_bytes f' = content_bytes x"
    using section_starts_at [OF content_sections_types(1) [OF assms(2) n] fb, of "[]"]
    unfolding content_sections_types(2) [OF assms(2) n] F starts_of_def [symmetric] cb by blast
  let ?r = "(R1CSReader_new (content_bytes x))\<lparr>rr_reader := f'\<rparr>"
  define info where info: "info = R1CSData_new\<lparr>ri_custom_gates := (n = 5)\<rparr>"
  obtain r' where r': "read_plain_sections info (starts_of x) ?r =
      Inr (info\<lparr>ri_header_data := read_header_of (rc_field_size x) (rc_header x),
        ri_constraints := ri_constraints info @ map ordered_triple (rc_constraints x),
        ri_signals := ri_signals info @ rc_signals x\<rparr>, r')"
    "bf_bytes (rr_reader r') = content_bytes x" "rr_field_size r' = rc_field_size x"
    using read_plain_sections_at [OF assms, of ?r info] f'(2) by auto
  have "read_sections info ?r (starts_of x) = Some (Inr (content_data x))"
  proof (cases "rc_gates x")
    case None
    then show ?thesis by (simp add: read_sections_def r'(1)) (simp add: info n R1CSData_new_def content_data_def)
  next
    case (Some p)
    obtain gates apps where p: "p = (gates, apps)" by (cases p)
    show ?thesis
      by (simp add: read_sections_def r'(1) read_custom_sections_at [OF assms r'(2,3) Some [unfolded p]])
        (simp add: info n R1CSData_new_def content_data_def Some p)
  qed
  then show ?thesis using f'(1) by (simp add: read_r1cs_def init un Let_def info)
qed

section \<open>Writing\<close>

definition ready :: "nat \<Rightarrow> r1cs_writer \<Rightarrow> byte list \<Rightarrow> bool" where
  "ready fs r pre \<longleftrightarrow> rw_writer r = file_at pre [] \<and> rw_field_size r = fs \<and> length (rw_sections r) = 5"

lemma ready_new: "ready fs (R1CSWriter_new fs custom_gates) (MAGIC @ VERSION @ [if custom_gates then 5 else 3, 0, 0, 0])"
proof -
  have "\<lparr>bf_bytes = [], bf_position = 0\<rparr> = file_at [] []" by (simp add: file_at_def)
  then show ?thesis by (simp add: ready_def R1CSWriter_new_def initialize_file_def Let_def)
qed

lemma section_ready:
  assumes "ready fs r pre" and "i < 5" and "length body < 256 ^ 8"
    and "\<And>s secs. writing (fs, i, secs) s (pre @ section_type t) [] \<Longrightarrow> writing (fs, i, secs) (f s) (pre @ section_type t) body"
  shows "\<exists>r'. writer_end_section (f (start_section (section_type t) i r)) = Some r' \<and> ready fs r' (pre @ r1cs_section (t, body))"
  using writer_section_done [of r pre fs i body t f] assms unfolding ready_def by blast

lemma write_triples_writing:
  assumes "\<forall>c \<in> set cs. triple_ok fs (con_a c, con_b c, con_c c)" and "writing (fs, i, secs) s pre body"
  shows "writing (fs, i, secs) (fold (\<lambda>c. write_constraint_usize (con_a c) (con_b c) (con_c c)) cs s) pre
    (body @ concat (map (enc_constraint fs) (map (\<lambda>c. (con_a c, con_b c, con_c c)) cs)))"
proof -
  have "writing (fs, i, secs) (fold (\<lambda>c. write_constraint_usize (con_a c) (con_b c) (con_c c)) cs s) pre
      (body @ concat (map (\<lambda>c. enc_constraint fs (con_a c, con_b c, con_c c)) cs))"
    by (rule fold_writing [OF _ assms(2)]) (use assms(1) in \<open>auto intro!: write_constraint_writing\<close>)
  then show ?thesis by (simp add: comp_def)
qed

text \<open>The three sections of every file.\<close>

lemma write_plain_sections:
  assumes x: "content_ok x" "sizes_ok x" and cs: "rc_constraints x = map (\<lambda>c. (con_a c, con_b c, con_c c)) cs"
    and r: "ready (rc_field_size x) r pre"
  obtains r1 r2 r3 where
    "writer_end_section (fold (\<lambda>c. write_constraint_usize (con_a c) (con_b c) (con_c c)) cs (start_constraints_section r)) = Some r1"
    "writer_end_section (write_header (rc_header x) (start_header_section r1)) = Some r2"
    "writer_end_section (fold write_signal_usize (rc_signals x) (start_signal_section r2)) = Some r3"
    "ready (rc_field_size x) r3 (pre @ r1cs_section (2, constraints_body x) @
      r1cs_section (1, enc_header (rc_field_size x) (rc_header x)) @ r1cs_section (3, signals_body x))"
proof -
  let ?fs = "rc_field_size x" and ?h = "rc_header x"
  have sizes: "length (constraints_body x) < 256 ^ 8" "length (enc_header ?fs ?h) < 256 ^ 8" "length (signals_body x) < 256 ^ 8"
    using x(2) by (simp_all add: sizes_ok_def content_sections_def)
  have ts: "\<forall>c \<in> set cs. triple_ok ?fs (con_a c, con_b c, con_c c)" using x(1) by (auto simp: content_ok_def cs)
  have h: "0 \<le> hd_field ?h" using x(1) by (simp add: content_ok_def header_ok_def)
  obtain r1 where r1: "writer_end_section (fold (\<lambda>c. write_constraint_usize (con_a c) (con_b c) (con_c c)) cs
        (writer_section.extend (start_section (section_type 2) 1 r) \<lparr>ws_number_of_constraints = 0\<rparr>)) = Some r1"
    "ready ?fs r1 (pre @ r1cs_section (2, constraints_body x))"
    using section_ready [OF r _ sizes(1), of 1 2 "\<lambda>s. fold (\<lambda>c. write_constraint_usize (con_a c) (con_b c) (con_c c)) cs
        (writer_section.extend s \<lparr>ws_number_of_constraints = 0\<rparr>)"] write_triples_writing [OF ts, of 1 _ _ _ "[]"]
    by (auto simp: constraints_body_def cs)
  obtain r2 where r2: "writer_end_section (write_header ?h (start_section (section_type 1) 0 r1)) = Some r2"
    "ready ?fs r2 ((pre @ r1cs_section (2, constraints_body x)) @ r1cs_section (1, enc_header ?fs ?h))"
    using section_ready [OF r1(2) _ sizes(2), of 0 1 "write_header ?h"] write_header_writing [OF _ h, of ?fs 0 _ _ _ "[]"] by auto
  have sig: "writing m (fold write_signal_usize (rc_signals x) s) p ([] @ signals_body x)" if "writing m s p []" for m s p
    unfolding signals_body_def by (rule fold_writing [OF _ that]) (rule write_signal_writing)
  obtain r3 where "writer_end_section (fold write_signal_usize (rc_signals x) (start_section (section_type 3) 2 r2)) = Some r3"
    "ready ?fs r3 (((pre @ r1cs_section (2, constraints_body x)) @ r1cs_section (1, enc_header ?fs ?h)) @ r1cs_section (3, signals_body x))"
    using section_ready [OF r2(2) _ sizes(3), of 2 3 "fold write_signal_usize (rc_signals x)"] sig by auto
  then show thesis using that r1(1) r2(1)
    by (simp add: start_constraints_section_def start_header_section_def start_signal_section_def section_types)
qed

definition ported_gates ::
    "(string \<times> int list) list \<Rightarrow> (string \<times> nat list) list \<Rightarrow> ((byte list \<times> int list) list \<times> (nat \<times> nat list) list) option" where
  "ported_gates gates application_data =
     Option.bind (gate_usages gates) (\<lambda>usages. map_option (\<lambda>apps. (map (\<lambda>(name, parameters). (as_bytes name, parameters)) usages, apps))
       (find_indexes (map fst gates) application_data))"

lemma write_gates_sections:
  assumes x: "content_ok x" "sizes_ok x" "rc_gates x = Some (used, applied)" and g: "ported_gates gates application_data = Some (used, applied)"
    and r: "ready (rc_field_size x) r pre"
  shows "\<exists>r'. port_custom_gates gates application_data r = Some r' \<and>
    ready (rc_field_size x) r' (pre @ r1cs_section (4, enc_gates (rc_field_size x) used) @ r1cs_section (5, enc_applications applied))"
proof -
  let ?fs = "rc_field_size x"
  have sizes: "length (enc_gates ?fs used) < 256 ^ 8" "length (enc_applications applied) < 256 ^ 8"
    using x(2,3) by (simp_all add: sizes_ok_def content_sections_def)
  obtain usages where u: "gate_usages gates = Some usages" "used = map (\<lambda>(name, parameters). (as_bytes name, parameters)) usages"
    "find_indexes (map fst gates) application_data = Some applied"
    using g by (auto simp: ported_gates_def bind_eq_Some_conv)
  have pos: "\<forall>gate \<in> set used. \<forall>v \<in> set (snd gate). 0 \<le> v"
    using x(1,3) unfolding content_ok_def gate_ok_def by fastforce
  obtain r1 where r1: "writer_end_section (write_custom_gates_usages used (start_section (section_type 4) 3 r)) = Some r1"
    "ready ?fs r1 (pre @ r1cs_section (4, enc_gates ?fs used))"
    using section_ready [OF r _ sizes(1), of 3 4 "write_custom_gates_usages used"] write_gates_writing [OF _ pos, of ?fs 3 _ _ _ "[]"] by auto
  obtain r2 where r2: "writer_end_section (write_custom_gates_applications applied (start_section (section_type 5) 4 r1)) = Some r2"
    "ready ?fs r2 ((pre @ r1cs_section (4, enc_gates ?fs used)) @ r1cs_section (5, enc_applications applied))"
    using section_ready [OF r1(2) _ sizes(2), of 4 5 "write_custom_gates_applications applied"] write_applications_writing [of _ _ _ "[]"]
    by auto
  have "port_custom_gates gates application_data r = Some r2"
    using r1(1) r2(1) by (simp add: port_custom_gates_def u write_usages_def start_custom_gates_used_section_def
        start_custom_gates_applied_section_def section_types)
  then show ?thesis using r2(2) by auto
qed

section \<open>A constraint list\<close>

definition ported_constraint :: "('r \<Rightarrow> int) \<Rightarrow> 'r constraint_list \<Rightarrow> nat \<Rightarrow> nat constraint option" where
  "ported_constraint of_raw l c_id =
     Option.bind (Option.bind (read_constraint of_raw (cn_constraints l) c_id) (\<lambda>c. c))
       (\<lambda>c. constraint_apply_correspondence c (cn_signal_map l))"

text \<open>What the file of a list is to hold: the stored constraints over the wires of the witness.\<close>

definition ported_content :: "('r \<Rightarrow> int) \<Rightarrow> nat \<Rightarrow> 'r constraint_list \<Rightarrow> bool \<Rightarrow> r1cs_content option" where
  "ported_content of_raw fuel l custom_gates =
     Option.bind (those (map (ported_constraint of_raw l) (get_ids (cn_constraints l)))) (\<lambda>cs.
     Option.bind (get_witness_as_vec (cn_signal_map l)) (\<lambda>witness.
       map_option (\<lambda>gates.
         \<lparr>rc_field_size = r1cs_field_size (cn_field l),
          rc_header = \<lparr>hd_field = cn_field l, hd_total_wires = no_wires (cn_signal_map l),
            hd_public_outputs = cn_no_public_outputs l, hd_public_inputs = cn_no_public_inputs l,
            hd_private_inputs = cn_no_private_inputs l, hd_number_of_labels = cn_no_labels l, hd_number_of_constraints = length cs\<rparr>,
          rc_constraints = map (\<lambda>c. (con_a c, con_b c, con_c c)) cs, rc_signals = witness, rc_gates = gates\<rparr>)
         (if custom_gates then
            Option.bind (iterator_new (cn_dag_encoding l)) (\<lambda>iter.
            Option.bind (iterate_gates fuel iter (cn_signal_map l) []) (\<lambda>application_data.
              map_option Some (ported_gates (encoded_gates (cn_dag_encoding l)) application_data)))
          else Some None)))"

lemma fold_port_constraint:
  assumes "those (map (ported_constraint of_raw l) ids) = Some cs"
  shows "fold (\<lambda>c_id acc. Option.bind acc (port_constraint of_raw l c_id)) ids (Some (sec, log, w)) =
    Some (fold (\<lambda>c. write_constraint_usize (con_a c) (con_b c) (con_c c)) cs sec, fold count_constraint cs log, w + length cs)"
  using assms
proof (induction ids arbitrary: cs sec log w)
  case (Cons i ids)
  obtain c cs' where c: "ported_constraint of_raw l i = Some c" "those (map (ported_constraint of_raw l) ids) = Some cs'" "cs = c # cs'"
    using Cons.prems by (auto split: option.splits)
  have "port_constraint of_raw l i (sec, log, w) =
      Some (write_constraint_usize (con_a c) (con_b c) (con_c c) sec, count_constraint c log, w + 1)"
    using c(1) by (auto simp: port_constraint_def ported_constraint_def bind_eq_Some_conv)
  then show ?case using Cons.IH [OF c(2)] by (simp add: c(3))
qed simp

lemma port_r1cs_content:
  assumes p: "ported_content of_raw fuel l custom_gates = Some x" and x: "content_ok x" "sizes_ok x"
  shows "\<exists>log. port_r1cs of_raw fuel l custom_gates = Some (log, content_bytes x)"
proof -
  obtain cs witness gates where c: "those (map (ported_constraint of_raw l) (get_ids (cn_constraints l))) = Some cs"
    "get_witness_as_vec (cn_signal_map l) = Some witness"
    "(if custom_gates then Option.bind (iterator_new (cn_dag_encoding l)) (\<lambda>iter.
        Option.bind (iterate_gates fuel iter (cn_signal_map l) []) (\<lambda>application_data.
          map_option Some (ported_gates (encoded_gates (cn_dag_encoding l)) application_data))) else Some None) = Some gates"
    "x = \<lparr>rc_field_size = r1cs_field_size (cn_field l),
          rc_header = \<lparr>hd_field = cn_field l, hd_total_wires = no_wires (cn_signal_map l),
            hd_public_outputs = cn_no_public_outputs l, hd_public_inputs = cn_no_public_inputs l,
            hd_private_inputs = cn_no_private_inputs l, hd_number_of_labels = cn_no_labels l, hd_number_of_constraints = length cs\<rparr>,
          rc_constraints = map (\<lambda>c. (con_a c, con_b c, con_c c)) cs, rc_signals = witness, rc_gates = gates\<rparr>"
    using p unfolding ported_content_def bind_eq_Some_conv map_option_eq_Some by blast
  let ?w = "R1CSWriter_new (r1cs_field_size (cn_field l)) custom_gates"
  have g: "gates \<noteq> None \<longleftrightarrow> custom_gates" using c(3) by (auto simp: bind_eq_Some_conv split: if_splits)
  have w: "ready (rc_field_size x) ?w (file_start x)"
    using ready_new [of "rc_field_size x" custom_gates] g by (auto simp: c(4) file_start_def)
  have cs: "rc_constraints x = map (\<lambda>c. (con_a c, con_b c, con_c c)) cs" by (simp add: c(4))
  obtain r1 r2 r3 where r:
    "writer_end_section (fold (\<lambda>c. write_constraint_usize (con_a c) (con_b c) (con_c c)) cs (start_constraints_section ?w)) = Some r1"
    "writer_end_section (write_header (rc_header x) (start_header_section r1)) = Some r2"
    "writer_end_section (fold write_signal_usize (rc_signals x) (start_signal_section r2)) = Some r3"
    "ready (rc_field_size x) r3 (file_start x @ r1cs_section (2, constraints_body x) @
      r1cs_section (1, enc_header (rc_field_size x) (rc_header x)) @ r1cs_section (3, signals_body x))"
    by (rule write_plain_sections [OF x cs w])
  note r' = r(1) r(2,3) [unfolded c(4) r1cs_content.simps]
  show ?thesis
  proof (cases custom_gates)
    case False
    then have "rc_gates x = None" using g by (cases gates) (auto simp: c(4))
    then show ?thesis using r(4) False r'
      by (simp add: port_r1cs_def Let_def fold_port_constraint [OF c(1)] c(2) ready_def content_bytes_def content_sections_def file_at_def)
  next
    case True
    then obtain iter application_data used applied where a: "iterator_new (cn_dag_encoding l) = Some iter"
      "iterate_gates fuel iter (cn_signal_map l) [] = Some application_data"
      "ported_gates (encoded_gates (cn_dag_encoding l)) application_data = Some (used, applied)" "gates = Some (used, applied)"
      using c(3) by (auto simp: bind_eq_Some_conv)
    have x3: "rc_gates x = Some (used, applied)" by (simp add: c(4) a(4))
    obtain r4 where r4: "port_custom_gates (encoded_gates (cn_dag_encoding l)) application_data r3 = Some r4"
      "bf_bytes (rw_writer r4) = content_bytes x"
      using write_gates_sections [OF x x3 a(3) r(4)]
      by (auto simp: ready_def content_bytes_def content_sections_def x3 file_at_def)
    show ?thesis using True r'
      by (simp add: port_r1cs_def Let_def fold_port_constraint [OF c(1)] c(2) a(1,2) r4)
  qed
qed

section \<open>A graph\<close>

text \<open>The signals and the constraints of a tree, in the order of its walk.\<close>

primrec walk_constraints :: "nat \<Rightarrow> dag_tree \<Rightarrow> (nat \<times> nat constraint list) option" where
  "walk_constraints 0 tree = None"
| "walk_constraints (Suc fuel) tree =
     Option.bind (tree_get_edges tree) (\<lambda>edges.
       fold (\<lambda>edge acc. Option.bind acc (\<lambda>(n, cs). Option.bind (go_to_subtree tree edge) (\<lambda>subtree.
         map_option (\<lambda>(m, ds). (n + m, cs @ ds)) (walk_constraints fuel subtree))))
         edges (Some (length (tr_signals tree), tr_constraints tree)))"

abbreviation write_all_constraints :: "nat constraint list \<Rightarrow> constraint_section \<times> log \<Rightarrow> constraint_section \<times> log" where
  "write_all_constraints \<equiv> fold (\<lambda>c (s, log). (write_constraint_usize (con_a c) (con_b c) (con_c c) s, count_constraint c log))"

lemma write_constraint_walk:
  "walk_constraints fuel tree = Some (n, cs) \<Longrightarrow>
    write_constraint_section fuel tree st = Some (n, write_all_constraints cs st)"
proof (induction fuel arbitrary: tree n cs st)
  case (Suc fuel)
  obtain edges where e: "tree_get_edges tree = Some edges"
    "fold (\<lambda>edge acc. Option.bind acc (\<lambda>(n, cs). Option.bind (go_to_subtree tree edge) (\<lambda>subtree.
         map_option (\<lambda>(m, ds). (n + m, cs @ ds)) (walk_constraints fuel subtree))))
         edges (Some (length (tr_signals tree), tr_constraints tree)) = Some (n, cs)"
    using Suc.prems by (auto simp: bind_eq_Some_conv)
  have "fold (\<lambda>edge acc. Option.bind acc (\<lambda>(no_signals, st). Option.bind (go_to_subtree tree edge) (\<lambda>subtree.
        map_option (\<lambda>(subtree_signals, st). (no_signals + subtree_signals, st)) (write_constraint_section fuel subtree st))))
      es (Some (k, write_all_constraints ds st)) = Some (n, write_all_constraints cs st)"
    if "fold (\<lambda>edge acc. Option.bind acc (\<lambda>(n, cs). Option.bind (go_to_subtree tree edge) (\<lambda>subtree.
         map_option (\<lambda>(m, ds). (n + m, cs @ ds)) (walk_constraints fuel subtree)))) es (Some (k, ds)) = Some (n, cs)" for es k ds
    using that
  proof (induction es arbitrary: k ds)
    case (Cons edge es)
    obtain subtree m ds' where s: "go_to_subtree tree edge = Some subtree" "walk_constraints fuel subtree = Some (m, ds')"
      "fold (\<lambda>edge acc. Option.bind acc (\<lambda>(n, cs). Option.bind (go_to_subtree tree edge) (\<lambda>subtree.
         map_option (\<lambda>(m, ds). (n + m, cs @ ds)) (walk_constraints fuel subtree)))) es (Some (k + m, ds @ ds')) = Some (n, cs)"
      using Cons.prems
      by (cases "go_to_subtree tree edge"; cases "Option.bind (go_to_subtree tree edge) (walk_constraints fuel)")
        auto
    show ?case using Cons.IH [OF s(3)] Suc.IH [OF s(2)] s(1) by simp
  qed simp
  from this [OF e(2)] show ?case by (simp add: e(1) Let_def)
qed simp

definition graph_content :: "nat \<Rightarrow> dag \<Rightarrow> bool \<Rightarrow> r1cs_content option" where
  "graph_content fuel d custom_gates =
     Option.bind (tree_new d) (\<lambda>tree.
     Option.bind (walk_constraints fuel tree) (\<lambda>(n, cs).
     Option.bind (dag_private_inputs d) (\<lambda>private_inputs.
       map_option (\<lambda>gates.
         \<lparr>rc_field_size = r1cs_field_size (tr_field tree),
          rc_header = \<lparr>hd_field = tr_field tree, hd_total_wires = n + 1, hd_public_outputs = dag_public_outputs d,
            hd_public_inputs = dag_public_inputs d, hd_private_inputs = private_inputs,
            hd_number_of_labels = n + 1, hd_number_of_constraints = length cs\<rparr>,
          rc_constraints = map (\<lambda>c. (con_a c, con_b c, con_c c)) cs, rc_signals = [0..<n + 1], rc_gates = gates\<rparr>)
         (if custom_gates then Option.bind (traverse_tree fuel tree []) (\<lambda>application_data.
              map_option Some (ported_gates (graph_gates d) application_data))
          else Some None))))"

lemma write_all_constraints_fst:
  "fst (write_all_constraints cs st) = fold (\<lambda>c. write_constraint_usize (con_a c) (con_b c) (con_c c)) cs (fst st)"
  by (induction cs arbitrary: st) (simp_all add: case_prod_unfold)

lemma constraints_written_fold:
  "constraints_written (fold (\<lambda>c. write_constraint_usize (con_a c) (con_b c) (con_c c)) cs s) = constraints_written s + length cs"
  by (induction cs arbitrary: s) (simp_all add: constraints_written_def write_constraint_usize_def write_constraint_def case_prod_unfold Let_def)

lemma dag_r1cs_content:
  assumes p: "graph_content fuel d custom_gates = Some x" and x: "content_ok x" "sizes_ok x"
  shows "\<exists>log. dag_r1cs_write fuel d custom_gates = Some (log, content_bytes x)"
proof -
  obtain tree nc where c0: "tree_new d = Some tree" "walk_constraints fuel tree = Some nc"
    using p unfolding graph_content_def bind_eq_Some_conv by blast
  obtain n cs where nc: "nc = (n, cs)" by (cases nc)
  have c1: "tree_new d = Some tree" "walk_constraints fuel tree = Some (n, cs)" using c0 by (simp_all add: nc)
  obtain private_inputs gates where c: "tree_new d = Some tree" "walk_constraints fuel tree = Some (n, cs)"
    "dag_private_inputs d = Some private_inputs"
    "(if custom_gates then Option.bind (traverse_tree fuel tree []) (\<lambda>application_data.
        map_option Some (ported_gates (graph_gates d) application_data)) else Some None) = Some gates"
    "x = \<lparr>rc_field_size = r1cs_field_size (tr_field tree),
          rc_header = \<lparr>hd_field = tr_field tree, hd_total_wires = n + 1, hd_public_outputs = dag_public_outputs d,
            hd_public_inputs = dag_public_inputs d, hd_private_inputs = private_inputs,
            hd_number_of_labels = n + 1, hd_number_of_constraints = length cs\<rparr>,
          rc_constraints = map (\<lambda>c. (con_a c, con_b c, con_c c)) cs, rc_signals = [0..<n + 1], rc_gates = gates\<rparr>"
    using p c1 unfolding graph_content_def c1 bind.bind_lunit prod.case bind_eq_Some_conv map_option_eq_Some by blast
  let ?w = "R1CSWriter_new (r1cs_field_size (tr_field tree)) custom_gates"
  have g: "gates \<noteq> None \<longleftrightarrow> custom_gates" using c(4) by (auto simp: bind_eq_Some_conv split: if_splits)
  have w: "ready (rc_field_size x) ?w (file_start x)"
    using ready_new [of "rc_field_size x" custom_gates] g by (auto simp: c(5) file_start_def)
  have cs: "rc_constraints x = map (\<lambda>c. (con_a c, con_b c, con_c c)) cs" by (simp add: c(5))
  obtain r1 r2 r3 where r:
    "writer_end_section (fold (\<lambda>c. write_constraint_usize (con_a c) (con_b c) (con_c c)) cs (start_constraints_section ?w)) = Some r1"
    "writer_end_section (write_header (rc_header x) (start_header_section r1)) = Some r2"
    "writer_end_section (fold write_signal_usize (rc_signals x) (start_signal_section r2)) = Some r3"
    "ready (rc_field_size x) r3 (file_start x @ r1cs_section (2, constraints_body x) @
      r1cs_section (1, enc_header (rc_field_size x) (rc_header x)) @ r1cs_section (3, signals_body x))"
    by (rule write_plain_sections [OF x cs w])
  obtain s log where st1: "write_all_constraints cs (start_constraints_section ?w, log_new) = (s, log)" by fastforce
  have st: "write_all_constraints cs (start_constraints_section ?w, log_new) = (s, log)"
    "s = fold (\<lambda>c. write_constraint_usize (con_a c) (con_b c) (con_c c)) cs (start_constraints_section ?w)"
    using write_all_constraints_fst [of cs "(start_constraints_section ?w, log_new)"] unfolding st1 by simp_all
  have k: "constraints_written s = length cs"
    by (simp add: st(2) constraints_written_fold) (simp add: constraints_written_def start_constraints_section_def writer_section.defs)
  note r' = r(1) [folded st(2)] r(2,3) [unfolded c(5) r1cs_content.simps]
  show ?thesis
  proof (cases custom_gates)
    case False
    then have "rc_gates x = None" using g by (cases gates) (auto simp: c(5))
    then show ?thesis using r(4) r'
      by (simp add: dag_r1cs_write_def Let_def c(1,3) write_constraint_walk [OF c(2)] st(1) k if_not_P [OF False] ready_def content_bytes_def
          content_sections_def file_at_def del: upt_Suc) (use False in simp)
  next
    case True
    then obtain application_data used applied where a: "traverse_tree fuel tree [] = Some application_data"
      "ported_gates (graph_gates d) application_data = Some (used, applied)" "gates = Some (used, applied)"
      using c(4) by (auto simp: bind_eq_Some_conv)
    have x3: "rc_gates x = Some (used, applied)" by (simp add: c(5) a(3))
    obtain r4 where r4: "port_custom_gates (graph_gates d) application_data r3 = Some r4"
      "bf_bytes (rw_writer r4) = content_bytes x"
      using write_gates_sections [OF x x3 a(2) r(4)]
      by (auto simp: ready_def content_bytes_def content_sections_def x3 file_at_def)
    show ?thesis using r'
      by (simp add: dag_r1cs_write_def Let_def c(1,3) write_constraint_walk [OF c(2)] st(1) k a(1) r4 del: upt_Suc) (use True in simp)
  qed
qed

end
