(* ===== verification/R1cs_Files.thy ===== *)
theory R1cs_Files
  imports R1cs_Correct Dag_Example
begin

text \<open>
  The round trip of r1cs files as properties, with a list of one constraint and one custom gate, and the
  graph of \<open>Dag_Example\<close>, as their witnesses.
\<close>

text \<open>What is read is what the file is to hold: the header, every constraint with the same factors,
  the witness, and the custom gates.\<close>

definition same_factors :: "constraint_triple \<Rightarrow> constraint_triple \<Rightarrow> bool" where
  "same_factors = (\<lambda>(a, b, c) (a', b', c'). mset a = mset a' \<and> mset b = mset b' \<and> mset c = mset c')"

definition content_read :: "r1cs_content \<Rightarrow> r1cs_data \<Rightarrow> bool" where
  "content_read x data \<longleftrightarrow> ri_header_data data = read_header_of (rc_field_size x) (rc_header x) \<and>
     list_all2 same_factors (rc_constraints x) (ri_constraints data) \<and> ri_signals data = rc_signals x \<and>
     ri_custom_gates_used_data data = map_option fst (rc_gates x) \<and>
     ri_custom_gates_applied_data data = map_option snd (rc_gates x)"

lemma content_data_read:
  assumes "content_ok x"
  shows "content_read x (content_data x)"
proof -
  have "same_factors t (ordered_triple t)" if "t \<in> set (rc_constraints x)" for t
  proof -
    have "triple_ok (rc_field_size x) t" using assms that by (simp add: content_ok_def)
    then show ?thesis by (cases t) (simp add: triple_ok_def combination_ok_def same_factors_def ordered_triple_def written_order_mset)
  qed
  then have "list_all2 same_factors (rc_constraints x) (map ordered_triple (rc_constraints x))"
    by (simp add: list_all2_map2 list_all2_same)
  then show ?thesis by (simp add: content_read_def content_data_def)
qed

section \<open>Examples\<close>

definition gate_encoding :: dag_encoding where
  "gate_encoding = \<lparr>de_init = 1, de_no_constraints = 1,
     de_nodes = [\<lparr>en_id = 0, en_name = ''G()'', en_parameters = [5], en_signals = [], en_ordered_signals = [0, 2],
         en_non_linear = [], en_is_custom_gate = True\<rparr>,
       \<lparr>en_id = 1, en_name = ''Main()'', en_parameters = [], en_signals = [], en_ordered_signals = [],
         en_non_linear = [], en_is_custom_gate = False\<rparr>],
     de_adjacency = [[], [\<lparr>ee_goes_to = 0, ee_path = ''g'', ee_offset = 1\<rparr>]]\<rparr>"

definition gate_list :: "int constraint_list" where
  "gate_list = \<lparr>cn_field = 7, cn_dag_encoding = gate_encoding, cn_no_public_inputs = 0, cn_no_public_outputs = 1,
     cn_no_private_inputs = 1, cn_no_private_inputs_witness = 1,
     cn_constraints = snd (add_constraint (\<lambda>n. n) \<lparr>con_a = [(3, 1)], con_b = [(3, 2)], con_c = [(1, 6)]\<rparr> storage_new),
     cn_no_labels = 4, cn_signal_map = [(0, 0), (1, 1), (3, 2)]\<rparr>"

definition gate_content :: r1cs_content where
  "gate_content = \<lparr>rc_field_size = 8, rc_header = \<lparr>hd_field = 7, hd_total_wires = 3, hd_public_outputs = 1, hd_public_inputs = 0,
     hd_private_inputs = 1, hd_number_of_labels = 4, hd_number_of_constraints = 1\<rparr>,
     rc_constraints = [([(2, 1)], [(2, 2)], [(1, 6)])], rc_signals = [0, 1, 3], rc_gates = Some ([([71], [5])], [(0, [1, 2])])\<rparr>"

lemma gate_list_content: "ported_content (\<lambda>n. n) 2 gate_list True = Some gate_content"
  by code_simp

lemma gate_content_ok: "content_ok gate_content"
  by (simp add: gate_content_def content_ok_def header_ok_def triple_ok_def combination_ok_def hm_wf_def gate_ok_def application_ok_def)

lemma length_enc_combination:
  assumes "combination_ok fs m" and "0 < fs"
  shows "length (enc_combination fs m) = 4 + length m * (4 + fs)"
proof -
  have wf: "hm_wf m" "length m < 256 ^ 4" using assms(1) by (simp_all add: combination_ok_def)
  have "length (enc_factor fs e) = 4 + fs" if "e \<in> set (written_order m)" for e
  proof -
    have e: "fst e < 256 ^ 4" "nat (snd e) < 256 ^ fs" using combination_entries [OF assms(1) that] by (simp_all add: nat_less_iff)
    show ?thesis
      using length_le_bytes [OF e(1)] length_le_bytes [OF e(2) assms(2)] by (cases e) (simp add: enc_factor_def)
  qed
  then have "map (\<lambda>e. length (enc_factor fs e)) (written_order m) = map (\<lambda>e. 4 + fs) (written_order m)"
    by (intro map_cong) simp_all
  moreover have "length (written_order m) = length m" using mset_eq_length [OF written_order_mset [OF wf(1)]] .
  moreover have "length (le_bytes 4 (length m)) = 4" by (rule length_le_bytes [OF wf(2)]) simp
  ultimately show ?thesis by (simp only: enc_combination_def length_append length_concat map_map comp_def sum_list_triv of_nat_id)
qed

lemma gate_sizes_ok: "sizes_ok gate_content"
proof -
  have "combination_ok 8 [(2, 1)]" "combination_ok 8 [(2, 2)]" "combination_ok 8 [(1, 6)]"
    by (simp_all add: combination_ok_def hm_wf_def)
  from this [THEN length_enc_combination]
  show ?thesis
    by (simp add: sizes_ok_def content_sections_def gate_content_def constraints_body_def signals_body_def enc_constraint_def
        enc_header_def enc_gates_def enc_gate_def enc_applications_def enc_application_def length_le_bytes)
qed

definition graph_file :: r1cs_content where
  "graph_file = \<lparr>rc_field_size = 8, rc_header = \<lparr>hd_field = goldilocks, hd_total_wires = 4, hd_public_outputs = 1, hd_public_inputs = 0,
     hd_private_inputs = 0, hd_number_of_labels = 4, hd_number_of_constraints = 2\<rparr>,
     rc_constraints = [([], [], [(1, 1), (2, 18446744069414584320)]), ([(3, 1)], [(3, 1)], [(2, 1)])], rc_signals = [0, 1, 2, 3], rc_gates = None\<rparr>"

lemma goldilocks_field_size: "r1cs_field_size goldilocks = 8"
  by (simp add: r1cs_field_size_def bits_def goldilocks_def radix_le.simps)

lemma graph_file_walk:
  "map_option tr_field (tree_new example_dag) = Some goldilocks"
  "Option.bind (tree_new example_dag) (walk_constraints 2) = Some (3, [\<lparr>con_a = [], con_b = [], con_c = [(1, 1), (2, 18446744069414584320)]\<rparr>,
     \<lparr>con_a = [(3, 1)], con_b = [(3, 1)], con_c = [(2, 1)]\<rparr>])"
  "dag_private_inputs example_dag = Some 0"
  by code_simp+

lemma graph_file_content: "graph_content 2 example_dag False = Some graph_file"
proof -
  obtain tree where "tree_new example_dag = Some tree" "tr_field tree = goldilocks" using graph_file_walk(1) by auto
  then show ?thesis
    using graph_file_walk(2,3) example_main(5,6)
    by (simp add: graph_content_def goldilocks_field_size graph_file_def upt_rec)
qed

lemma graph_file_ok: "content_ok graph_file"
  by (simp add: graph_file_def content_ok_def header_ok_def triple_ok_def combination_ok_def hm_wf_def goldilocks_def)

lemma graph_sizes_ok: "sizes_ok graph_file"
proof -
  have "combination_ok 8 [(1, 1), (2, 18446744069414584320)]" "combination_ok 8 [(3, 1)]" "combination_ok 8 [(2, 1)]"
    "combination_ok 8 []"
    by (simp_all add: combination_ok_def hm_wf_def)
  from this [THEN length_enc_combination]
  show ?thesis
    by (simp add: sizes_ok_def content_sections_def graph_file_def constraints_body_def signals_body_def enc_constraint_def
        enc_header_def length_le_bytes goldilocks_def)
qed

section \<open>Properties\<close>

text \<open>C12: What is written is read back. If the constraints of the list are stored, the witness numbers and
  the custom gates are found (\<open>ported_content\<close>) and the numbers fit their fields, then \<open>port_r1cs\<close> writes a
  file, and \<open>read_r1cs\<close> returns from its bytes the header, each constraint over the wires with the same factors, the
  witness, and the custom gates used and applied.\<close>

theorem port_r1cs_round_trip:
  assumes "ported_content of_raw fuel l custom_gates = Some x" and "content_ok x" and "sizes_ok x"
  shows "\<exists>log bytes data. port_r1cs of_raw fuel l custom_gates = Some (log, bytes) \<and>
    read_r1cs bytes = Some (Inr data) \<and> content_read x data"
  using port_r1cs_content [OF assms] read_content [OF assms(2,3)] content_data_read [OF assms(2)] by blast

theorem port_r1cs_round_trip_witness:
  "\<exists>log bytes data. port_r1cs (\<lambda>n. n) 2 gate_list True = Some (log, bytes) \<and> read_r1cs bytes = Some (Inr data) \<and>
    ri_signals data = [0, 1, 3] \<and> ri_custom_gates_applied_data data = Some [(0, [1, 2])]"
  using port_r1cs_round_trip [OF gate_list_content gate_content_ok gate_sizes_ok]
  by (auto simp: content_read_def gate_content_def)

text \<open>C13: A graph that is written without simplification is read back in the same way: the header counts the signals
  of all its instances, and the constraints are those of every instance, shifted to its signals, in preorder.\<close>

theorem dag_r1cs_round_trip:
  assumes "graph_content fuel d custom_gates = Some x" and "content_ok x" and "sizes_ok x"
  shows "\<exists>log bytes data. dag_r1cs_write fuel d custom_gates = Some (log, bytes) \<and>
    read_r1cs bytes = Some (Inr data) \<and> content_read x data"
  using dag_r1cs_content [OF assms] read_content [OF assms(2,3)] content_data_read [OF assms(2)] by blast

theorem dag_r1cs_round_trip_witness:
  "\<exists>log bytes data. dag_r1cs_write 2 example_dag False = Some (log, bytes) \<and> read_r1cs bytes = Some (Inr data) \<and>
    ri_signals data = [0, 1, 2, 3] \<and> length (ri_constraints data) = 2"
  using dag_r1cs_round_trip [OF graph_file_content graph_file_ok graph_sizes_ok]
  by (auto simp: content_read_def graph_file_def dest: list_all2_lengthD)

end
