(* ===== verification/Comment_Removal.thy ===== *)
theory Comment_Removal
  imports Prelude
begin

text \<open>
  The removal of comments before parsing, \<open>preprocess\<close> of \<open>parser/src/parser_logic.rs\<close>. Characters are
  Unicode scalar values; a comment becomes as many spaces as it has bytes in UTF-8, so that the byte
  offsets of the tokens that are left point into the source. The error carries the position of the
  report \<open>UnclosedComment\<close>.
\<close>

section \<open>The scanner\<close>

type_synonym code_point = nat

definition len_utf8 :: "code_point \<Rightarrow> nat" where
  "len_utf8 c = (if c < 0x80 then 1 else if c < 0x800 then 2 else if c < 0x10000 then 3 else 4)"

definition SLASH :: code_point where "SLASH = 47"
definition STAR :: code_point where "STAR = 42"
definition NEWLINE :: code_point where "NEWLINE = 10"
definition SPACE :: code_point where "SPACE = 32"

definition blanks :: "code_point \<Rightarrow> code_point list" where
  "blanks c = replicate (len_utf8 c) SPACE"

text \<open>\<open>while next == Some('*')\<close>: the number of stars taken, and the rest with the character after them.\<close>

primrec skip_stars :: "code_point list \<Rightarrow> nat \<times> code_point list" where
  "skip_stars [] = (0, [])"
| "skip_stars (c # cs) = (if c = STAR then (let (n, rest) = skip_stars cs in (n + 1, rest)) else (0, c # cs))"

lemma skip_stars_length: "length (snd (skip_stars cs)) \<le> length cs"
  by (induction cs) (auto simp: Let_def case_prod_unfold)

text \<open>The loop over the characters: the state, the location and the start of the last block comment,
  the text written so far. \<open>break\<close> ends it with the state zero.\<close>

function preprocess_loop ::
    "nat \<Rightarrow> nat \<Rightarrow> nat \<Rightarrow> code_point list \<Rightarrow> code_point list \<Rightarrow> nat \<times> nat \<times> code_point list" where
  "preprocess_loop state loc block_start pp [] = (state, block_start, pp)"
| "preprocess_loop state loc block_start pp (c0 # it) =
     (let loc = loc + 1
      in if state = 0 \<and> c0 = SLASH then
           (let loc = loc + 1
            in case it of
                 [] \<Rightarrow> (state, block_start, pp @ [c0])
               | c1 # it \<Rightarrow>
                   if c1 = SLASH then preprocess_loop 1 loc block_start (pp @ [SPACE, SPACE]) it
                   else if c1 = STAR then preprocess_loop 2 loc loc (pp @ [SPACE, SPACE]) it
                   else preprocess_loop state loc block_start (pp @ [c0, c1]) it)
         else if state = 0 then preprocess_loop state loc block_start (pp @ [c0]) it
         else if state = 1 \<and> c0 = NEWLINE then preprocess_loop 0 loc block_start (pp @ [c0]) it
         else if state = 2 \<and> c0 = STAR then
           (let (n, it) = skip_stars it; loc = loc + 1 + n; pp = pp @ replicate n SPACE
            in case it of
                 [] \<Rightarrow> preprocess_loop state loc block_start pp []
               | c # it \<Rightarrow>
                   if c = SLASH then preprocess_loop 0 loc block_start (pp @ [SPACE, SPACE]) it
                   else preprocess_loop state loc block_start (pp @ SPACE # blanks c) it)
         else preprocess_loop state loc block_start (pp @ blanks c0) it)"
  by pat_completeness auto

termination
  by (relation "measure (\<lambda>(_, _, _, _, cs). length cs)")
    (auto simp: less_Suc_eq_le dest!: arg_cong [where f = "\<lambda>r. length (snd r)"] intro: le_SucI skip_stars_length [THEN [2] order_trans])

definition preprocess :: "code_point list \<Rightarrow> nat + code_point list" where
  "preprocess expr =
     (let (state, block_start, pp) = preprocess_loop 0 0 0 [] expr
      in if state = 2 then Inl block_start else Inr pp)"

section \<open>The grammar of comments\<close>

text \<open>The first \<open>*/\<close>: what is before it, and what is after it.\<close>

primrec find_close :: "code_point list \<Rightarrow> (code_point list \<times> code_point list) option" where
  "find_close [] = None"
| "find_close (c # cs) = (if c = STAR \<and> cs \<noteq> [] \<and> hd cs = SLASH then Some ([], tl cs)
     else map_option (\<lambda>(body, rest). (c # body, rest)) (find_close cs))"

definition blanked :: "code_point list \<Rightarrow> code_point list" where
  "blanked cs = concat (map blanks cs)"

definition comment_start :: "code_point list \<Rightarrow> bool" where
  "comment_start cs \<longleftrightarrow> take 2 cs \<in> {[SLASH, SLASH], [SLASH, STAR]}"

inductive stripped :: "code_point list \<Rightarrow> code_point list \<Rightarrow> bool" where
  stripped_end: "stripped [] []"
| stripped_char: "stripped (c # cs) (c # t)" if "\<not> comment_start (c # cs)" and "stripped cs t"
| stripped_line: "stripped (SLASH # SLASH # body @ NEWLINE # cs) (SPACE # SPACE # blanked body @ NEWLINE # t)"
    if "NEWLINE \<notin> set body" and "stripped cs t"
| stripped_last_line: "stripped (SLASH # SLASH # body) (SPACE # SPACE # blanked body)" if "NEWLINE \<notin> set body"
| stripped_block: "stripped (SLASH # STAR # cs) (SPACE # SPACE # blanked body @ SPACE # SPACE # t)"
    if "find_close cs = Some (body, rest)" and "stripped rest t"

lemmas code_point_defs = SLASH_def STAR_def NEWLINE_def SPACE_def

lemma code_points_distinct [simp]:
  "SLASH \<noteq> STAR" "STAR \<noteq> SLASH" "SLASH \<noteq> NEWLINE" "NEWLINE \<noteq> SLASH" "STAR \<noteq> NEWLINE" "NEWLINE \<noteq> STAR"
  by (simp_all add: code_point_defs)

lemma blanked_simps [simp]:
  "blanked [] = []" "blanked (c # cs) = blanks c @ blanked cs" "blanked (cs @ ds) = blanked cs @ blanked ds"
  "blanks STAR = [SPACE]" "blanks SLASH = [SPACE]" "blanks NEWLINE = [SPACE]"
  by (simp_all add: blanked_def blanks_def len_utf8_def code_point_defs)

lemma blanked_stars [simp]: "blanked (replicate n STAR) = replicate n SPACE"
  by (induction n) simp_all

lemma skip_stars_split: "skip_stars cs = (n, rest) \<Longrightarrow> cs = replicate n STAR @ rest \<and> (rest \<noteq> [] \<longrightarrow> hd rest \<noteq> STAR)"
  by (induction cs arbitrary: n) (auto simp: Let_def split: if_splits prod.splits)

lemma find_close_char: "c \<noteq> STAR \<Longrightarrow> find_close (c # cs) = map_option (\<lambda>(body, rest). (c # body, rest)) (find_close cs)"
  by simp

lemma find_close_stars:
  assumes "rest \<noteq> [] \<longrightarrow> hd rest \<noteq> STAR"
  shows "find_close (STAR # replicate n STAR @ rest) =
    (case rest of [] \<Rightarrow> None
     | c # cs \<Rightarrow> if c = SLASH then Some (replicate n STAR, cs)
         else map_option (\<lambda>(body, r). (STAR # replicate n STAR @ c # body, r)) (find_close cs))"
proof (induction n)
  case 0
  then show ?case using assms by (cases rest) (auto simp: option.map_comp comp_def case_prod_unfold)
next
  case (Suc n)
  have "find_close (STAR # replicate (Suc n) STAR @ rest) =
      map_option (\<lambda>(body, r). (STAR # body, r)) (find_close (STAR # replicate n STAR @ rest))"
    by (simp del: find_close.simps) (simp only: find_close.simps, simp)
  then show ?case unfolding Suc by (cases rest) (auto simp: option.map_comp comp_def case_prod_unfold)
qed

section \<open>The scanner follows the grammar\<close>

lemma loop_line:
  "NEWLINE \<notin> set body \<Longrightarrow> preprocess_loop (Suc 0) loc bs pp body = (1, bs, pp @ blanked body)"
  by (induction body arbitrary: loc pp) (auto simp: Let_def)

lemma loop_line_end:
  "NEWLINE \<notin> set body \<Longrightarrow> preprocess_loop (Suc 0) loc bs pp (body @ NEWLINE # cs) =
    preprocess_loop 0 (loc + length body + 1) bs (pp @ blanked body @ [NEWLINE]) cs"
  by (induction body arbitrary: loc pp) (auto simp: Let_def)

lemma loop_block:
  "case find_close cs of
     None \<Rightarrow> \<exists>pp'. preprocess_loop 2 loc bs pp cs = (2, bs, pp')
   | Some (body, rest) \<Rightarrow> preprocess_loop 2 loc bs pp cs =
       preprocess_loop 0 (loc + length body + 2) bs (pp @ blanked body @ [SPACE, SPACE]) rest"
proof (induction "length cs" arbitrary: cs loc pp rule: less_induct)
  case less
  show ?case
  proof (cases cs)
    case (Cons c cs')
    show ?thesis
    proof (cases "c = STAR")
      case False
      have "length cs' < length cs" by (simp add: Cons)
      from less [OF this, of "loc + 1" "pp @ blanks c"] show ?thesis
        using False by (auto simp: Cons Let_def split: option.splits)
    next
      case True
      obtain n rest where s: "skip_stars cs' = (n, rest)" by fastforce
      then have cs: "cs' = replicate n STAR @ rest" "rest \<noteq> [] \<longrightarrow> hd rest \<noteq> STAR" using skip_stars_split by auto
      have fc: "find_close cs = (case rest of [] \<Rightarrow> None
          | c # cs \<Rightarrow> if c = SLASH then Some (replicate n STAR, cs)
              else map_option (\<lambda>(body, r). (STAR # replicate n STAR @ c # body, r)) (find_close cs))"
        unfolding Cons True cs(1) by (rule find_close_stars [OF cs(2)])
      have lp: "preprocess_loop 2 loc bs pp cs = (case rest of [] \<Rightarrow> (2, bs, pp @ replicate n SPACE)
          | c # it \<Rightarrow> if c = SLASH then preprocess_loop 0 (loc + n + 2) bs (pp @ replicate n SPACE @ [SPACE, SPACE]) it
              else preprocess_loop 2 (loc + n + 2) bs (pp @ replicate n SPACE @ SPACE # blanks c) it)"
        unfolding Cons by (auto simp: True s Let_def algebra_simps split: list.split)
      show ?thesis
      proof (cases rest)
        case r: (Cons d rest')
        show ?thesis
        proof (cases "d = SLASH")
          case True
          then show ?thesis by (simp add: fc lp r)
        next
          case False
          have "length rest' < length cs" by (simp add: Cons cs(1) r)
          from less [OF this, of "loc + n + 2" "pp @ replicate n SPACE @ SPACE # blanks d"] show ?thesis
            using False by (auto simp: fc lp r algebra_simps replicate_app_Cons_same split: option.splits)
        qed
      qed (simp add: fc lp)
    qed
  qed simp
qed

lemma loop_plain:
  assumes "\<not> comment_start (c # cs)"
  shows "preprocess_loop 0 loc bs pp (c # cs) = preprocess_loop 0 (loc + 1) bs (pp @ [c]) cs"
proof (cases "c = SLASH")
  case True
  then show ?thesis using assms by (cases cs) (auto simp: comment_start_def Let_def)
qed (simp add: Let_def)

lemma loop_stripped: "stripped cs t \<Longrightarrow> \<exists>st b. st \<noteq> 2 \<and> preprocess_loop 0 loc bs pp cs = (st, b, pp @ t)"
proof (induction arbitrary: loc bs pp rule: stripped.induct)
  case stripped_end
  show ?case by simp
next
  case (stripped_char c cs t)
  then show ?case using stripped_char.IH [of "loc + 1" bs "pp @ [c]"] by (simp add: loop_plain del: preprocess_loop.simps)
next
  case (stripped_line body cs t)
  then show ?case
    using stripped_line.IH [of "loc + 2 + length body + 1" bs "pp @ SPACE # SPACE # blanked body @ [NEWLINE]"]
    by (simp add: Let_def loop_line_end)
next
  case (stripped_last_line body)
  then show ?case by (simp add: Let_def loop_line)
next
  case (stripped_block cs body rest t)
  then show ?case
    using stripped_block.IH [of "loc + 2 + length body + 2" "loc + 2" "pp @ SPACE # SPACE # blanked body @ [SPACE, SPACE]"]
      loop_block [of "loc + 2" "loc + 2" "pp @ [SPACE, SPACE]" cs]
    by (simp add: Let_def)
qed

lemma comment_start_cases:
  assumes "comment_start cs"
  obtains (line) ds where "cs = SLASH # SLASH # ds" | (block) ds where "cs = SLASH # STAR # ds"
proof (cases cs)
  case (Cons c cs')
  then show thesis using assms line block by (cases cs') (auto simp: comment_start_def)
qed (use assms in \<open>simp add: comment_start_def\<close>)

lemma find_close_shorter: "find_close cs = Some (body, rest) \<Longrightarrow> length rest < length cs"
  by (induction cs arbitrary: body) (auto split: if_splits)

lemma split_newline: "(NEWLINE \<notin> set ds) \<or> (\<exists>body cs. ds = body @ NEWLINE # cs \<and> NEWLINE \<notin> set body)"
  by (meson split_list_first)

text \<open>A block comment that is not closed, and the location the scanner keeps for it.\<close>

definition unclosed :: "code_point list \<Rightarrow> nat \<Rightarrow> bool" where
  "unclosed cs n \<longleftrightarrow> (\<exists>before body. cs = before @ SLASH # STAR # body \<and> find_close body = None \<and> n = length before + 2) \<and>
     (\<forall>loc bs pp. \<exists>pp'. preprocess_loop 0 loc bs pp cs = (2, loc + n, pp'))"

lemma unclosed_prefix:
  assumes "unclosed cs n"
    and "\<And>loc bs pp. \<exists>bs' pp'. preprocess_loop 0 loc bs pp (pre @ cs) = preprocess_loop 0 (loc + length pre) bs' pp' cs"
  shows "unclosed (pre @ cs) (length pre + n)"
proof -
  obtain before body where b: "cs = before @ SLASH # STAR # body" "find_close body = None" "n = length before + 2"
    using assms(1) by (auto simp: unclosed_def)
  have "pre @ cs = (pre @ before) @ SLASH # STAR # body" "length pre + n = length (pre @ before) + 2" using b by simp_all
  moreover have "\<exists>pp'. preprocess_loop 0 loc bs pp (pre @ cs) = (2, loc + (length pre + n), pp')" for loc bs pp
    using assms(2) [of loc bs pp] assms(1) unfolding unclosed_def by (metis add.assoc)
  ultimately show ?thesis using b(2) unfolding unclosed_def by blast
qed

lemma stripped_or_unclosed: "(\<exists>t. stripped cs t) \<or> (\<exists>n. unclosed cs n)"
proof (induction "length cs" arbitrary: cs rule: less_induct)
  case less
  show ?case
  proof (cases "comment_start cs")
    case False
    show ?thesis
    proof (cases cs)
      case (Cons c cs')
      have "\<exists>bs' pp'. preprocess_loop 0 loc bs pp ([c] @ cs') = preprocess_loop 0 (loc + length [c]) bs' pp' cs'" for loc bs pp
        using loop_plain [of c cs' loc bs pp] False unfolding Cons by auto
      then have "unclosed cs (length [c] + n)" if "unclosed cs' n" for n
        using unclosed_prefix [OF that, of "[c]"] by (simp add: Cons)
      then show ?thesis using less [of cs'] stripped_char [of c cs'] False unfolding Cons by fastforce
    qed (use stripped_end in blast)
  next
    case True
    then show ?thesis
    proof (cases rule: comment_start_cases)
      case (line ds)
      show ?thesis
      proof (cases "NEWLINE \<in> set ds")
        case True
        then obtain body rest where d: "ds = body @ NEWLINE # rest" "NEWLINE \<notin> set body" using split_newline by blast
        let ?pre = "SLASH # SLASH # body @ [NEWLINE]"
        have "\<exists>bs' pp'. preprocess_loop 0 loc bs pp (?pre @ rest) = preprocess_loop 0 (loc + length ?pre) bs' pp' rest" for loc bs pp
          using loop_line_end [OF d(2), of "loc + 2" bs "pp @ [SPACE, SPACE]" rest] by (auto simp: Let_def)
        then have "unclosed cs (length ?pre + n)" if "unclosed rest n" for n
          using unclosed_prefix [OF that, of ?pre] by (simp add: line d(1))
        then show ?thesis using less [of rest] stripped_line [OF d(2)] unfolding line d(1) by fastforce
      qed (use stripped_last_line line in blast)
    next
      case (block ds)
      show ?thesis
      proof (cases "find_close ds")
        case None
        have "\<exists>pp'. preprocess_loop 0 loc bs pp cs = (2, loc + 2, pp')" for loc bs pp
          using loop_block [of "loc + 2" "loc + 2" "pp @ [SPACE, SPACE]" ds] None by (simp add: block Let_def)
        moreover have "cs = [] @ SLASH # STAR # ds" by (simp add: block)
        ultimately show ?thesis using None unfolding unclosed_def by (metis add_0 list.size(3))
      next
        case (Some p)
        obtain body rest where p: "find_close ds = Some (body, rest)" using Some by (cases p) auto
        have ds: "ds = body @ STAR # SLASH # rest" using p
          by (induction ds arbitrary: body) (auto split: if_splits simp: neq_Nil_conv)
        let ?pre = "SLASH # STAR # body @ [STAR, SLASH]"
        have "\<exists>bs' pp'. preprocess_loop 0 loc bs pp (?pre @ rest) = preprocess_loop 0 (loc + length ?pre) bs' pp' rest" for loc bs pp
          using loop_block [of "loc + 2" "loc + 2" "pp @ [SPACE, SPACE]" ds] p ds by (auto simp: Let_def)
        then have "unclosed cs (length ?pre + n)" if "unclosed rest n" for n
          using unclosed_prefix [OF that, of ?pre] by (simp add: block ds)
        moreover have "length rest < length cs" using find_close_shorter [OF p] by (simp add: block)
        ultimately show ?thesis using less [of rest] stripped_block [OF p] unfolding block by blast
      qed
    qed
  qed
qed

section \<open>Alignment\<close>

text \<open>The characters of a text with their byte offsets.\<close>

primrec offsets :: "nat \<Rightarrow> code_point list \<Rightarrow> (nat \<times> code_point) list" where
  "offsets n [] = []"
| "offsets n (c # cs) = (n, c) # offsets (n + len_utf8 c) cs"

definition byte_length :: "code_point list \<Rightarrow> nat" where
  "byte_length cs = sum_list (map len_utf8 cs)"

definition aligned :: "code_point list \<Rightarrow> code_point list \<Rightarrow> bool" where
  "aligned cs t \<longleftrightarrow> byte_length t = byte_length cs \<and> (\<forall>n. \<forall>(i, c) \<in> set (offsets n t). c = SPACE \<or> (i, c) \<in> set (offsets n cs))"

lemma byte_length_simps [simp]:
  "byte_length [] = 0" "byte_length (c # cs) = len_utf8 c + byte_length cs"
  "byte_length (cs @ ds) = byte_length cs + byte_length ds" "len_utf8 SPACE = 1" "len_utf8 SLASH = 1" "len_utf8 STAR = 1"
  "len_utf8 NEWLINE = 1"
  by (simp_all add: byte_length_def len_utf8_def code_point_defs)

lemma offsets_append: "offsets n (cs @ ds) = offsets n cs @ offsets (n + byte_length cs) ds"
  by (induction cs arbitrary: n) (simp_all add: add.assoc)

lemma byte_length_blanked [simp]: "byte_length (blanked cs) = byte_length cs"
proof (induction cs)
  case (Cons c cs)
  have "byte_length (replicate k SPACE) = k" for k by (induction k) simp_all
  then show ?case using Cons by (simp add: blanks_def)
qed simp

lemma aligned_append: "aligned cs t \<Longrightarrow> aligned ds u \<Longrightarrow> aligned (cs @ ds) (t @ u)"
  unfolding aligned_def offsets_append byte_length_simps by auto

lemma aligned_same: "aligned cs cs"
  by (auto simp: aligned_def)

lemma offsets_spaces: "set t \<subseteq> {SPACE} \<Longrightarrow> (i, c) \<in> set (offsets n t) \<Longrightarrow> c = SPACE"
  by (induction t arbitrary: n) auto

lemma aligned_blanked: "aligned cs (blanked cs)"
proof -
  have "set (blanked cs) \<subseteq> {SPACE}" by (auto simp: blanked_def blanks_def)
  then show ?thesis using offsets_spaces unfolding aligned_def by fastforce
qed

lemma stripped_aligned: "stripped cs t \<Longrightarrow> aligned cs t"
proof (induction rule: stripped.induct)
  case (stripped_char c cs t)
  then show ?case using aligned_append [OF aligned_same [of "[c]"]] by simp
next
  case (stripped_line body cs t)
  then show ?case
    using aligned_append [OF aligned_blanked [of "SLASH # SLASH # body"] aligned_append [OF aligned_same [of "[NEWLINE]"]]] by simp
next
  case (stripped_last_line body)
  then show ?case using aligned_blanked [of "SLASH # SLASH # body"] by simp
next
  case (stripped_block cs body rest t)
  have "cs = body @ STAR # SLASH # rest" using stripped_block.hyps(1)
    by (induction cs arbitrary: body) (auto split: if_splits simp: neq_Nil_conv)
  then show ?case
    using aligned_append [OF aligned_blanked [of "SLASH # STAR # body @ [STAR, SLASH]"] stripped_block.IH] by simp
qed (simp add: aligned_same)

section \<open>Properties\<close>

lemma preprocess_of_stripped: "stripped cs t \<Longrightarrow> preprocess cs = Inr t"
  using loop_stripped [of cs t 0 0 "[]"] by (auto simp: preprocess_def)

lemma preprocess_of_unclosed: "unclosed cs n \<Longrightarrow> preprocess cs = Inl n"
proof -
  assume "unclosed cs n"
  then obtain pp' where "preprocess_loop 0 0 0 [] cs = (2, 0 + n, pp')" unfolding unclosed_def by blast
  then show ?thesis by (simp add: preprocess_def)
qed

lemma preprocess_stripped: "preprocess cs = Inr t \<longleftrightarrow> stripped cs t"
  using stripped_or_unclosed [of cs] preprocess_of_stripped preprocess_of_unclosed by (metis Inr_inject sum.distinct(1))

text \<open>C15: \<open>preprocess\<close> follows the grammar of comments (\<open>stripped\<close>): outside of comments every character is kept, a line
  comment ends at the end of its line, which is kept, and a block comment at the first \<open>*/\<close>. It fails exactly where a
  block comment is not closed, with the number of characters up to its opening as the position, although positions in
  reports are bytes.\<close>

theorem preprocess_strips_comments:
  "(preprocess cs = Inr t \<longleftrightarrow> stripped cs t) \<and>
    (preprocess cs = Inl p \<longrightarrow> (\<nexists>u. stripped cs u) \<and>
      (\<exists>before body. cs = before @ SLASH # STAR # body \<and> find_close body = None \<and> p = length before + 2))"
proof (intro conjI impI preprocess_stripped)
  assume p: "preprocess cs = Inl p"
  show "\<nexists>u. stripped cs u" using preprocess_of_stripped p by fastforce
  then obtain n where n: "unclosed cs n" using stripped_or_unclosed by blast
  then have "p = n" using preprocess_of_unclosed p by fastforce
  then show "\<exists>before body. cs = before @ SLASH # STAR # body \<and> find_close body = None \<and> p = length before + 2"
    using n unfolding unclosed_def by blast
qed

text \<open>A comment of a letter of two bytes, not closed, after one such letter: the position is 3, not 4.\<close>

theorem preprocess_strips_comments_witness:
  "\<exists>before body. [233, SLASH, STAR, 233] = before @ SLASH # STAR # body \<and> find_close body = None \<and> (3 :: nat) = length before + 2"
proof -
  have "preprocess [233, SLASH, STAR, 233] = Inl 3" by code_simp
  then show ?thesis using preprocess_strips_comments [of "[233, SLASH, STAR, 233]" "[]" 3] by blast
qed

text \<open>C16: Byte offsets survive the removal of comments: the text that is left has as many bytes as the source,
  and every character in it that is not a space stands at the byte offset it has in the source.\<close>

theorem preprocess_keeps_offsets:
  assumes "preprocess cs = Inr t"
  shows "byte_length t = byte_length cs \<and> (\<forall>(i, c) \<in> set (offsets 0 t). c = SPACE \<or> (i, c) \<in> set (offsets 0 cs))"
  using stripped_aligned assms unfolding preprocess_stripped aligned_def by blast

theorem preprocess_keeps_offsets_witness:
  "byte_length [97, SPACE, SPACE, SPACE, SPACE, SPACE, SPACE, 98] = byte_length [97, SLASH, STAR, 233, STAR, SLASH, 98]"
proof -
  have "preprocess [97, SLASH, STAR, 233, STAR, SLASH, 98] = Inr [97, SPACE, SPACE, SPACE, SPACE, SPACE, SPACE, 98]" by code_simp
  then show ?thesis using preprocess_keeps_offsets by blast
qed

end
