(* ===== verification/Abstract_Syntax.thy ===== *)
theory Abstract_Syntax
  imports Prelude
begin

text \<open>
  The abstract syntax of circom programs, \<open>program_structure/src/abstract_syntax_tree/ast.rs\<close>, with the
  knowledge the type analysis leaves in it, and reports,
  \<open>program_structure/src/program_library/error_definition.rs\<close>. Reading knowledge that is not there
  is a panic, \<open>None\<close>.
\<close>

section \<open>Reports\<close>

type_synonym file_id = nat
type_synonym file_location = "nat \<times> nat"

definition generate_file_location :: "nat \<Rightarrow> nat \<Rightarrow> file_location" where
  "generate_file_location start end = (start, end)"

text \<open>The codes of the structural analyses; the rest of \<open>ReportCode\<close> belongs to passes that are not modelled.\<close>

datatype report_code =
    UndefinedFunction | UndefinedBus | SignalOutsideOriginalScope | FunctionReturnError | TemplateWithReturnStatement
  | BusWrongNumberOfArguments | UnconstrainedSignal | UnconstrainedIOSignal | UnclosedComment | MultiplePragma
  | SameSymbolDeclaredTwice | NonExistentSymbol | FunctionWrongNumberOfArguments | CustomGateIntermediateSignalWarning
  | CustomGateSubComponentError | CustomGateConstraintError

datatype message_category = Error | Warning

record report_label =
  rl_file_id :: file_id
  rl_range :: file_location
  rl_message :: string

record report =
  rp_category :: message_category
  rp_error_message :: string
  rp_error_code :: report_code
  rp_primary :: "report_label list"
  rp_secondary :: "report_label list"
  rp_notes :: "string list"

definition report_new :: "message_category \<Rightarrow> string \<Rightarrow> report_code \<Rightarrow> report" where
  "report_new category error_message error_code =
     \<lparr>rp_category = category, rp_error_message = error_message, rp_error_code = error_code,
      rp_primary = [], rp_secondary = [], rp_notes = []\<rparr>"

definition report_error :: "string \<Rightarrow> report_code \<Rightarrow> report" where
  "report_error error_message code = report_new Error error_message code"

definition report_warning :: "string \<Rightarrow> report_code \<Rightarrow> report" where
  "report_warning error_message code = report_new Warning error_message code"

definition add_primary :: "file_location \<Rightarrow> file_id \<Rightarrow> string \<Rightarrow> report \<Rightarrow> report" where
  "add_primary location file message self =
     self\<lparr>rp_primary := rp_primary self @ [\<lparr>rl_file_id = file, rl_range = location, rl_message = message\<rparr>]\<rparr>"

definition add_note :: "string \<Rightarrow> report \<Rightarrow> report" where
  "add_note note self = self\<lparr>rp_notes := rp_notes self @ [note]\<rparr>"

section \<open>Knowledge\<close>

datatype type_reduction = RVariable | RComponent "string option" | RBus "string option" | RSignal | RTag

record type_knowledge =
  tk_reduces_to :: "type_reduction option"

definition type_knowledge_new :: type_knowledge where
  "type_knowledge_new = \<lparr>tk_reduces_to = None\<rparr>"

definition set_reduces_to :: "type_reduction \<Rightarrow> type_knowledge \<Rightarrow> type_knowledge" where
  "set_reduces_to reduces_to self = self\<lparr>tk_reduces_to := Some reduces_to\<rparr>"

definition get_reduces_to :: "type_knowledge \<Rightarrow> type_reduction option" where
  "get_reduces_to self = tk_reduces_to self"

definition tk_is_var :: "type_knowledge \<Rightarrow> bool option" where
  "tk_is_var self = map_option (\<lambda>t. t = RVariable) (get_reduces_to self)"

definition tk_is_initialized :: "type_knowledge \<Rightarrow> bool" where
  "tk_is_initialized self = (case tk_reduces_to self of Some _ \<Rightarrow> True | None \<Rightarrow> False)"

definition tk_is_component :: "type_knowledge \<Rightarrow> bool option" where
  "tk_is_component self = map_option (\<lambda>t. case t of RComponent _ \<Rightarrow> True | _ \<Rightarrow> False) (get_reduces_to self)"

definition tk_is_signal :: "type_knowledge \<Rightarrow> bool option" where
  "tk_is_signal self = map_option (\<lambda>t. t = RSignal) (get_reduces_to self)"

definition tk_is_tag :: "type_knowledge \<Rightarrow> bool option" where
  "tk_is_tag self = map_option (\<lambda>t. t = RTag) (get_reduces_to self)"

definition tk_is_bus :: "type_knowledge \<Rightarrow> bool option" where
  "tk_is_bus self = map_option (\<lambda>t. case t of RBus _ \<Rightarrow> True | _ \<Rightarrow> False) (get_reduces_to self)"

record memory_knowledge =
  mk_concrete_dimensions :: "nat list option"
  mk_full_length :: "nat option"
  mk_abstract_memory_address :: "nat option"

definition memory_knowledge_new :: memory_knowledge where
  "memory_knowledge_new = \<lparr>mk_concrete_dimensions = None, mk_full_length = None, mk_abstract_memory_address = None\<rparr>"

definition set_concrete_dimensions :: "nat list \<Rightarrow> memory_knowledge \<Rightarrow> memory_knowledge" where
  "set_concrete_dimensions value self =
     self\<lparr>mk_full_length := Some (foldl (\<lambda>p v. p * v) 1 value), mk_concrete_dimensions := Some value\<rparr>"

definition set_abstract_memory_address :: "nat \<Rightarrow> memory_knowledge \<Rightarrow> memory_knowledge" where
  "set_abstract_memory_address value self = self\<lparr>mk_abstract_memory_address := Some value\<rparr>"

record meta =
  mt_elem_id :: nat
  mt_start :: nat
  mt_end :: nat
  mt_location :: file_location
  mt_file_id :: "nat option"
  mt_component_inference :: "string option"
  mt_type_knowledge :: type_knowledge
  mt_memory_knowledge :: memory_knowledge

definition meta_new :: "nat \<Rightarrow> nat \<Rightarrow> meta" where
  "meta_new start end = \<lparr>mt_elem_id = 0, mt_start = start, mt_end = end, mt_location = (start, end), mt_file_id = None,
     mt_component_inference = None, mt_type_knowledge = type_knowledge_new, mt_memory_knowledge = memory_knowledge_new\<rparr>"

definition change_location :: "file_location \<Rightarrow> nat option \<Rightarrow> meta \<Rightarrow> meta" where
  "change_location location file self = self\<lparr>mt_location := location, mt_file_id := file\<rparr>"

definition get_start :: "meta \<Rightarrow> nat" where
  "get_start self = fst (mt_location self)"

definition get_end :: "meta \<Rightarrow> nat" where
  "get_end self = snd (mt_location self)"

definition get_file_id :: "meta \<Rightarrow> nat option" where
  "get_file_id self = mt_file_id self"

definition meta_file_location :: "meta \<Rightarrow> file_location" where
  "meta_file_location self = mt_location self"

definition set_file_id :: "nat \<Rightarrow> meta \<Rightarrow> meta" where
  "set_file_id file self = self\<lparr>mt_file_id := Some file\<rparr>"

section \<open>Expressions and statements\<close>

datatype signal_type = Output | Input | Intermediate

datatype variable_type =
    VVar | VSignal signal_type "string list" | VComponent | VAnonymousComponent | VBus string signal_type "string list"

datatype assign_op = AssignVar | AssignSignal | AssignConstraintSignal

datatype infix_opcode =
    IMul | IDiv | IAdd | ISub | IPow | IIntDiv | IMod | IShiftL | IShiftR | ILesserEq | IGreaterEq | ILesser | IGreater
  | IEq | INotEq | IBoolOr | IBoolAnd | IBitOr | IBitAnd | IBitXor

datatype prefix_opcode = PSub | PBoolNot | PComplement

datatype expression =
    InfixOp meta expression infix_opcode expression
  | PrefixOp meta prefix_opcode expression
  | InlineSwitchOp meta expression expression expression
  | ParallelOp meta expression
  | Variable meta string "access list"
  | Number meta int
  | Call meta string "expression list"
  | BusCall meta string "expression list"
  | AnonymousComp meta string bool "expression list" "expression list" "(assign_op \<times> string) list option"
  | ArrayInLine meta "expression list"
  | Tuple meta "expression list"
  | UniformArray meta expression expression
and access = ComponentAccess string | ArrayAccess expression

datatype log_argument = LogStr string | LogExp expression

datatype statement =
    IfThenElse meta expression statement "statement option"
  | While meta expression statement
  | Return meta expression
  | InitializationBlock meta variable_type "statement list"
  | Declaration meta variable_type string "expression list" bool bool
  | Substitution meta string "access list" assign_op expression
  | MultSubstitution meta expression assign_op expression
  | UnderscoreSubstitution meta assign_op expression
  | ConstraintEquality meta expression expression
  | LogCall meta "log_argument list"
  | Block meta "statement list"
  | Assert meta expression

primrec expression_meta :: "expression \<Rightarrow> meta" where
  "expression_meta (InfixOp meta _ _ _) = meta"
| "expression_meta (PrefixOp meta _ _) = meta"
| "expression_meta (InlineSwitchOp meta _ _ _) = meta"
| "expression_meta (ParallelOp meta _) = meta"
| "expression_meta (Variable meta _ _) = meta"
| "expression_meta (Number meta _) = meta"
| "expression_meta (Call meta _ _) = meta"
| "expression_meta (BusCall meta _ _) = meta"
| "expression_meta (AnonymousComp meta _ _ _ _ _) = meta"
| "expression_meta (ArrayInLine meta _) = meta"
| "expression_meta (Tuple meta _) = meta"
| "expression_meta (UniformArray meta _ _) = meta"

primrec statement_meta :: "statement \<Rightarrow> meta" where
  "statement_meta (IfThenElse meta _ _ _) = meta"
| "statement_meta (While meta _ _) = meta"
| "statement_meta (Return meta _) = meta"
| "statement_meta (InitializationBlock meta _ _) = meta"
| "statement_meta (Declaration meta _ _ _ _ _) = meta"
| "statement_meta (Substitution meta _ _ _ _) = meta"
| "statement_meta (MultSubstitution meta _ _ _) = meta"
| "statement_meta (UnderscoreSubstitution meta _ _) = meta"
| "statement_meta (ConstraintEquality meta _ _) = meta"
| "statement_meta (LogCall meta _) = meta"
| "statement_meta (Block meta _) = meta"
| "statement_meta (Assert meta _) = meta"

definition is_signal_operator :: "assign_op \<Rightarrow> bool" where
  "is_signal_operator self \<longleftrightarrow> self = AssignConstraintSignal \<or> self = AssignSignal"

fun is_bus_call_array :: "expression \<Rightarrow> bool" where
  "is_bus_call_array (BusCall _ _ _) \<longleftrightarrow> True"
| "is_bus_call_array (UniformArray _ value _) \<longleftrightarrow> is_bus_call_array value"
| "is_bus_call_array _ \<longleftrightarrow> False"

section \<open>Numbering the elements\<close>

text \<open>\<open>FillMeta\<close> of \<open>expression_impl.rs\<close> and \<open>statement_impl.rs\<close>: every element gets the next number and the
  file it stands in.\<close>

definition fill_meta :: "file_id \<Rightarrow> nat \<Rightarrow> meta \<Rightarrow> meta" where
  "fill_meta file element_id meta = set_file_id file (meta\<lparr>mt_elem_id := element_id\<rparr>)"

fun fill_expression :: "file_id \<Rightarrow> expression \<Rightarrow> nat \<Rightarrow> expression \<times> nat"
and fill_expressions :: "file_id \<Rightarrow> expression list \<Rightarrow> nat \<Rightarrow> expression list \<times> nat"
and fill_accesses :: "file_id \<Rightarrow> access list \<Rightarrow> nat \<Rightarrow> access list \<times> nat" where
  "fill_expression f (InfixOp meta lhe op rhe) n =
     (let (lhe, m) = fill_expression f lhe (n + 1); (rhe, m) = fill_expression f rhe m in (InfixOp (fill_meta f n meta) lhe op rhe, m))"
| "fill_expression f (PrefixOp meta op rhe) n =
     (let (rhe, m) = fill_expression f rhe (n + 1) in (PrefixOp (fill_meta f n meta) op rhe, m))"
| "fill_expression f (InlineSwitchOp meta cond if_true if_false) n =
     (let (cond, m) = fill_expression f cond (n + 1); (if_true, m) = fill_expression f if_true m;
          (if_false, m) = fill_expression f if_false m
      in (InlineSwitchOp (fill_meta f n meta) cond if_true if_false, m))"
| "fill_expression f (ParallelOp meta rhe) n =
     (let (rhe, m) = fill_expression f rhe (n + 1) in (ParallelOp (fill_meta f n meta) rhe, m))"
| "fill_expression f (Variable meta name access) n =
     (let (access, m) = fill_accesses f access (n + 1) in (Variable (fill_meta f n meta) name access, m))"
| "fill_expression f (Number meta value) n = (Number (fill_meta f n meta) value, n + 1)"
| "fill_expression f (Call meta name args) n =
     (let (args, m) = fill_expressions f args (n + 1) in (Call (fill_meta f n meta) name args, m))"
| "fill_expression f (BusCall meta name args) n =
     (let (args, m) = fill_expressions f args (n + 1) in (BusCall (fill_meta f n meta) name args, m))"
| "fill_expression f (AnonymousComp meta name is_parallel params signals names) n =
     (let (params, m) = fill_expressions f params (n + 1); (signals, m) = fill_expressions f signals m
      in (AnonymousComp (fill_meta f n meta) name is_parallel params signals names, m))"
| "fill_expression f (ArrayInLine meta values) n =
     (let (values, m) = fill_expressions f values (n + 1) in (ArrayInLine (fill_meta f n meta) values, m))"
| "fill_expression f (Tuple meta values) n =
     (let (values, m) = fill_expressions f values (n + 1) in (Tuple (fill_meta f n meta) values, m))"
| "fill_expression f (UniformArray meta value dimension) n =
     (let (value, m) = fill_expression f value (n + 1); (dimension, m) = fill_expression f dimension m
      in (UniformArray (fill_meta f n meta) value dimension, m))"
| "fill_expressions f [] n = ([], n)"
| "fill_expressions f (e # es) n =
     (let (e, m) = fill_expression f e n; (es, m) = fill_expressions f es m in (e # es, m))"
| "fill_accesses f [] n = ([], n)"
| "fill_accesses f (ComponentAccess name # as) n = (let (as, m) = fill_accesses f as n in (ComponentAccess name # as, m))"
| "fill_accesses f (ArrayAccess e # as) n =
     (let (e, m) = fill_expression f e n; (as, m) = fill_accesses f as m in (ArrayAccess e # as, m))"

fun fill_log_arguments :: "file_id \<Rightarrow> log_argument list \<Rightarrow> nat \<Rightarrow> log_argument list \<times> nat" where
  "fill_log_arguments f [] n = ([], n)"
| "fill_log_arguments f (LogStr s # as) n = (let (as, m) = fill_log_arguments f as n in (LogStr s # as, m))"
| "fill_log_arguments f (LogExp e # as) n =
     (let (e, m) = fill_expression f e n; (as, m) = fill_log_arguments f as m in (LogExp e # as, m))"

fun fill_statement :: "file_id \<Rightarrow> statement \<Rightarrow> nat \<Rightarrow> statement \<times> nat"
and fill_statements :: "file_id \<Rightarrow> statement list \<Rightarrow> nat \<Rightarrow> statement list \<times> nat" where
  "fill_statement f (IfThenElse meta cond if_case else_case) n =
     (let (cond, m) = fill_expression f cond (n + 1); (if_case, m) = fill_statement f if_case m
      in case else_case of
           None \<Rightarrow> (IfThenElse (fill_meta f n meta) cond if_case None, m)
         | Some s \<Rightarrow> let (s, m) = fill_statement f s m in (IfThenElse (fill_meta f n meta) cond if_case (Some s), m))"
| "fill_statement f (While meta cond stmt) n =
     (let (cond, m) = fill_expression f cond (n + 1); (stmt, m) = fill_statement f stmt m in (While (fill_meta f n meta) cond stmt, m))"
| "fill_statement f (Return meta value) n =
     (let (value, m) = fill_expression f value (n + 1) in (Return (fill_meta f n meta) value, m))"
| "fill_statement f (InitializationBlock meta xtype initializations) n =
     (let (initializations, m) = fill_statements f initializations (n + 1)
      in (InitializationBlock (fill_meta f n meta) xtype initializations, m))"
| "fill_statement f (Declaration meta xtype name dimensions is_constant is_anonymous) n =
     (let (dimensions, m) = fill_expressions f dimensions (n + 1)
      in (Declaration (fill_meta f n meta) xtype name dimensions is_constant is_anonymous, m))"
| "fill_statement f (Substitution meta var access op rhe) n =
     (let (rhe, m) = fill_expression f rhe (n + 1); (access, m) = fill_accesses f access m
      in (Substitution (fill_meta f n meta) var access op rhe, m))"
| "fill_statement f (MultSubstitution meta lhe op rhe) n =
     (let (rhe, m) = fill_expression f rhe (n + 1); (lhe, m) = fill_expression f lhe m
      in (MultSubstitution (fill_meta f n meta) lhe op rhe, m))"
| "fill_statement f (UnderscoreSubstitution meta op rhe) n =
     (let (rhe, m) = fill_expression f rhe (n + 1) in (UnderscoreSubstitution (fill_meta f n meta) op rhe, m))"
| "fill_statement f (ConstraintEquality meta lhe rhe) n =
     (let (lhe, m) = fill_expression f lhe (n + 1); (rhe, m) = fill_expression f rhe m
      in (ConstraintEquality (fill_meta f n meta) lhe rhe, m))"
| "fill_statement f (LogCall meta args) n =
     (let (args, m) = fill_log_arguments f args (n + 1) in (LogCall (fill_meta f n meta) args, m))"
| "fill_statement f (Block meta stmts) n =
     (let (stmts, m) = fill_statements f stmts (n + 1) in (Block (fill_meta f n meta) stmts, m))"
| "fill_statement f (Assert meta arg) n =
     (let (arg, m) = fill_expression f arg (n + 1) in (Assert (fill_meta f n meta) arg, m))"
| "fill_statements f [] n = ([], n)"
| "fill_statements f (s # ss) n =
     (let (s, m) = fill_statement f s n; (ss, m) = fill_statements f ss m in (s # ss, m))"

text \<open>The elements of a syntax tree.\<close>

fun expression_metas :: "expression \<Rightarrow> meta list"
and access_metas :: "access \<Rightarrow> meta list" where
  "expression_metas (InfixOp meta lhe _ rhe) = meta # expression_metas lhe @ expression_metas rhe"
| "expression_metas (PrefixOp meta _ rhe) = meta # expression_metas rhe"
| "expression_metas (InlineSwitchOp meta cond t e) = meta # expression_metas cond @ expression_metas t @ expression_metas e"
| "expression_metas (ParallelOp meta rhe) = meta # expression_metas rhe"
| "expression_metas (Variable meta _ access) = meta # concat (map access_metas access)"
| "expression_metas (Number meta _) = [meta]"
| "expression_metas (Call meta _ args) = meta # concat (map expression_metas args)"
| "expression_metas (BusCall meta _ args) = meta # concat (map expression_metas args)"
| "expression_metas (AnonymousComp meta _ _ params signals _) =
     meta # concat (map expression_metas params) @ concat (map expression_metas signals)"
| "expression_metas (ArrayInLine meta values) = meta # concat (map expression_metas values)"
| "expression_metas (Tuple meta values) = meta # concat (map expression_metas values)"
| "expression_metas (UniformArray meta value dimension) = meta # expression_metas value @ expression_metas dimension"
| "access_metas (ComponentAccess _) = []"
| "access_metas (ArrayAccess e) = expression_metas e"

definition log_metas :: "log_argument \<Rightarrow> meta list" where
  "log_metas arg = (case arg of LogStr _ \<Rightarrow> [] | LogExp e \<Rightarrow> expression_metas e)"

fun statement_metas :: "statement \<Rightarrow> meta list" where
  "statement_metas (IfThenElse meta cond if_case else_case) = meta # expression_metas cond @ statement_metas if_case @
     (case else_case of None \<Rightarrow> [] | Some s \<Rightarrow> statement_metas s)"
| "statement_metas (While meta cond stmt) = meta # expression_metas cond @ statement_metas stmt"
| "statement_metas (Return meta value) = meta # expression_metas value"
| "statement_metas (InitializationBlock meta _ stmts) = meta # concat (map statement_metas stmts)"
| "statement_metas (Declaration meta _ _ dimensions _ _) = meta # concat (map expression_metas dimensions)"
| "statement_metas (Substitution meta _ access _ rhe) = meta # expression_metas rhe @ concat (map access_metas access)"
| "statement_metas (MultSubstitution meta lhe _ rhe) = meta # expression_metas rhe @ expression_metas lhe"
| "statement_metas (UnderscoreSubstitution meta _ rhe) = meta # expression_metas rhe"
| "statement_metas (ConstraintEquality meta lhe rhe) = meta # expression_metas lhe @ expression_metas rhe"
| "statement_metas (LogCall meta args) = meta # concat (map log_metas args)"
| "statement_metas (Block meta stmts) = meta # concat (map statement_metas stmts)"
| "statement_metas (Assert meta arg) = meta # expression_metas arg"

definition numbered :: "file_id \<Rightarrow> nat \<Rightarrow> nat \<Rightarrow> meta list \<Rightarrow> bool" where
  "numbered f n m metas \<longleftrightarrow> map mt_elem_id metas = [n..<m] \<and> (\<forall>meta \<in> set metas. mt_file_id meta = Some f) \<and> n \<le> m"

lemma numbered_nil [simp]: "numbered f n m [] \<longleftrightarrow> n = m"
  by (auto simp: numbered_def eq_commute [of "[]"])

lemma numbered_Cons: "numbered f (n + 1) m metas \<Longrightarrow> numbered f n m (fill_meta f n meta # metas)"
  by (auto simp: numbered_def fill_meta_def set_file_id_def upt_conv_Cons)

lemma numbered_append: "numbered f n k xs \<Longrightarrow> numbered f k m ys \<Longrightarrow> numbered f n m (xs @ ys)"
  unfolding numbered_def by (metis (no_types, lifting) Un_iff le_iff_add map_append set_append upt_add_eq_append add.assoc)

lemmas numbered_intros = numbered_Cons numbered_append

lemma fill_expression_numbered:
  "fill_expression f e n = (e', m) \<Longrightarrow> numbered f n m (expression_metas e')"
  "fill_expressions f es n = (es', m) \<Longrightarrow> numbered f n m (concat (map expression_metas es'))"
  "fill_accesses f as n = (as', m) \<Longrightarrow> numbered f n m (concat (map access_metas as'))"
proof (induction f e n and f es n and f as n arbitrary: e' m and es' m and as' m rule: fill_expression_fill_expressions_fill_accesses.induct)
qed (fastforce simp: Let_def split: prod.splits intro: numbered_intros)+

lemma fill_log_numbered: "fill_log_arguments f as n = (as', m) \<Longrightarrow> numbered f n m (concat (map log_metas as'))"
  by (induction f as n arbitrary: as' m rule: fill_log_arguments.induct)
    (fastforce simp: Let_def log_metas_def split: prod.splits intro: numbered_append fill_expression_numbered(1))+

lemma fill_statement_numbered:
  "fill_statement f s n = (s', m) \<Longrightarrow> numbered f n m (statement_metas s')"
  "fill_statements f ss n = (ss', m) \<Longrightarrow> numbered f n m (concat (map statement_metas ss'))"
proof (induction f s n and f ss n arbitrary: s' m and ss' m rule: fill_statement_fill_statements.induct)
qed (fastforce simp: Let_def split: prod.splits option.splits
    intro: numbered_intros fill_expression_numbered fill_log_numbered)+

section \<open>Properties\<close>

text \<open>C29: Numbering a body gives its elements the numbers from the counter on, each once, and every element
  the file; the counter ends behind them. The passes that follow keep knowledge by these numbers, and panic at an
  element without a file.\<close>

theorem fill_statement_numbers:
  "let (body, m) = fill_statement file body n
   in map mt_elem_id (statement_metas body) = [n..<m] \<and> (\<forall>meta \<in> set (statement_metas body). get_file_id meta = Some file)"
  using fill_statement_numbered(1) by (fastforce simp: numbered_def get_file_id_def)

theorem fill_statement_numbers_witness:
  "map mt_elem_id (statement_metas (fst (fill_statement 1 (Block (meta_new 0 9) [Return (meta_new 1 8) (Number (meta_new 2 3) 5)]) 7)))
    = [7, 8, 9]"
  using fill_statement_numbers [of 1 "Block (meta_new 0 9) [Return (meta_new 1 8) (Number (meta_new 2 3) 5)]" 7]
  by (simp add: upt_rec)

end
