(* ===== verification/Structural_Checks.thy ===== *)
theory Structural_Checks
  imports Abstract_Syntax
begin

text \<open>
  The structural analyses of \<open>type_analysis/src/analyzers\<close>: functions return on all paths and are free of
  template elements, templates are free of returns and declare no signals in loops. Each pushes its
  reports to a collection; here it returns the reports it pushes, in order. A missing file of an
  element and a construct that is removed before are panics, \<open>None\<close>. What the analyses are
  for is stated over the runs of a statement (\<open>executes\<close>).
\<close>

section \<open>Functions\<close>

record function_data =
  fd_name :: string
  fd_file_id :: file_id
  fd_num_of_params :: nat
  fd_name_of_params :: "string list"
  fd_param_location :: file_location
  fd_body :: statement

definition function_data_new ::
    "string \<Rightarrow> file_id \<Rightarrow> statement \<Rightarrow> nat \<Rightarrow> string list \<Rightarrow> file_location \<Rightarrow> nat \<Rightarrow> function_data \<times> nat" where
  "function_data_new name file body num_of_params name_of_params param_location elem_id =
     (let (body, elem_id) = fill_statement file body elem_id
      in (\<lparr>fd_name = name, fd_file_id = file, fd_num_of_params = num_of_params, fd_name_of_params = name_of_params,
           fd_param_location = param_location, fd_body = body\<rparr>, elem_id))"

fun analyse_returns :: "statement \<Rightarrow> bool" where
  "analyse_returns (Return _ _) \<longleftrightarrow> True"
| "analyse_returns (While _ _ _) \<longleftrightarrow> False"
| "analyse_returns (IfThenElse _ _ if_case else_case) \<longleftrightarrow>
     (let else_returns = (case else_case of Some s \<Rightarrow> analyse_returns s | None \<Rightarrow> False)
      in else_returns \<and> analyse_returns if_case)"
| "analyse_returns (Block _ stmts) \<longleftrightarrow> fold (\<lambda>stmt has_return_path. has_return_path \<or> analyse_returns stmt) stmts False"
| "analyse_returns _ \<longleftrightarrow> False"

definition all_paths_with_return_check :: "function_data \<Rightarrow> report + unit" where
  "all_paths_with_return_check function_data =
     (if \<not> analyse_returns (fd_body function_data) then
        Inl (report_error (''In '' @ fd_name function_data @ '' there are paths without return'') FunctionReturnError)
      else Inr ())"

text \<open>The reports of one pass after those of another.\<close>

definition join_reports :: "report list option list \<Rightarrow> report list option" where
  "join_reports rs = map_option concat (those rs)"

definition analysis_report :: "string \<Rightarrow> report_code \<Rightarrow> string \<Rightarrow> meta \<Rightarrow> file_id \<Rightarrow> report" where
  "analysis_report message code primary meta file =
     add_primary (generate_file_location (get_start meta) (get_end meta)) file primary (report_error message code)"

fun function_expression :: "string set \<Rightarrow> expression \<Rightarrow> report list option"
and function_access :: "string set \<Rightarrow> meta \<Rightarrow> access \<Rightarrow> report list option" where
  "function_expression names (InfixOp meta lhe _ rhe) = Option.bind (get_file_id meta) (\<lambda>_.
     join_reports [function_expression names lhe, function_expression names rhe])"
| "function_expression names (PrefixOp meta _ rhe) = Option.bind (get_file_id meta) (\<lambda>_. function_expression names rhe)"
| "function_expression names (ParallelOp meta rhe) = Option.bind (get_file_id meta) (\<lambda>_. function_expression names rhe)"
| "function_expression names (InlineSwitchOp meta cond if_true if_false) = Option.bind (get_file_id meta) (\<lambda>_.
     join_reports [function_expression names cond, function_expression names if_true, function_expression names if_false])"
| "function_expression names (Variable meta _ access) = Option.bind (get_file_id meta) (\<lambda>_.
     join_reports (map (function_access names meta) access))"
| "function_expression names (Number meta _) = Option.bind (get_file_id meta) (\<lambda>_. Some [])"
| "function_expression names (Call meta name args) = Option.bind (get_file_id meta) (\<lambda>file.
     join_reports (Some (if name \<notin> names
         then [analysis_report ''Unknown call in function'' UndefinedFunction ''Is not a function call'' meta file] else [])
       # map (function_expression names) args))"
| "function_expression names (ArrayInLine meta values) = Option.bind (get_file_id meta) (\<lambda>_.
     join_reports (map (function_expression names) values))"
| "function_expression names (UniformArray meta value dimension) = Option.bind (get_file_id meta) (\<lambda>_.
     join_reports [function_expression names value, function_expression names dimension])"
| "function_expression names (BusCall meta _ _) = Option.bind (get_file_id meta) (\<lambda>file.
     Some [analysis_report ''Template elements declared inside the function'' UndefinedFunction ''Declaring template element'' meta file])"
| "function_expression names (AnonymousComp _ _ _ _ _ _) = None"
| "function_expression names (Tuple _ _) = None"
| "function_access names meta (ArrayAccess index) = function_expression names index"
| "function_access names meta (ComponentAccess _) = Option.bind (get_file_id meta) (\<lambda>file.
     Some [analysis_report ''Function uses component operators'' UndefinedFunction ''Template operator found'' meta file])"

text \<open>\<open>analyse_access\<close> reads the file before its loop.\<close>

definition function_accesses :: "string set \<Rightarrow> meta \<Rightarrow> access list \<Rightarrow> report list option" where
  "function_accesses names meta access =
     Option.bind (get_file_id meta) (\<lambda>_. join_reports (map (function_access names meta) access))"

definition operator_report :: "assign_op \<Rightarrow> meta \<Rightarrow> file_id \<Rightarrow> report list" where
  "operator_report op meta file =
     (if is_signal_operator op
      then [analysis_report ''Function uses template operators'' UndefinedFunction ''Template operator found'' meta file] else [])"

fun function_statement :: "string set \<Rightarrow> statement \<Rightarrow> report list option" where
  "function_statement names (MultSubstitution _ _ _ _) = None"
| "function_statement names (IfThenElse meta cond if_case else_case) = Option.bind (get_file_id meta) (\<lambda>_.
     join_reports ([function_expression names cond, function_statement names if_case] @
       (case else_case of Some s \<Rightarrow> [function_statement names s] | None \<Rightarrow> [])))"
| "function_statement names (While meta cond stmt) = Option.bind (get_file_id meta) (\<lambda>_.
     join_reports [function_expression names cond, function_statement names stmt])"
| "function_statement names (Block meta stmts) = Option.bind (get_file_id meta) (\<lambda>_.
     join_reports (map (function_statement names) stmts))"
| "function_statement names (InitializationBlock meta xtype initializations) = Option.bind (get_file_id meta) (\<lambda>file.
     case xtype of
       VSignal _ _ \<Rightarrow> Some [analysis_report ''Template elements declared inside the function'' UndefinedFunction
         ''Declaring template element'' meta file]
     | _ \<Rightarrow> join_reports (map (function_statement names) initializations))"
| "function_statement names (Declaration meta xtype _ dimensions _ _) = Option.bind (get_file_id meta) (\<lambda>file.
     if xtype = VVar then join_reports (map (function_expression names) dimensions)
     else Some [analysis_report ''Template elements declared inside the function'' UndefinedFunction
       ''Declaring template element'' meta file])"
| "function_statement names (Substitution meta _ access op rhe) = Option.bind (get_file_id meta) (\<lambda>file.
     join_reports [Some (operator_report op meta file), function_accesses names meta access, function_expression names rhe])"
| "function_statement names (ConstraintEquality meta lhe rhe) = Option.bind (get_file_id meta) (\<lambda>file.
     join_reports [Some [analysis_report ''Function uses template operators'' UndefinedFunction ''Template operator found'' meta file],
       function_expression names lhe, function_expression names rhe])"
| "function_statement names (LogCall meta args) = Option.bind (get_file_id meta) (\<lambda>_.
     join_reports (map (\<lambda>arg. case arg of LogExp e \<Rightarrow> function_expression names e | LogStr _ \<Rightarrow> Some []) args))"
| "function_statement names (Assert meta arg) = Option.bind (get_file_id meta) (\<lambda>_. function_expression names arg)"
| "function_statement names (Return meta value) = Option.bind (get_file_id meta) (\<lambda>_. function_expression names value)"
| "function_statement names (UnderscoreSubstitution meta op rhe) = Option.bind (get_file_id meta) (\<lambda>file.
     join_reports [Some (operator_report op meta file), function_expression names rhe])"

definition free_of_template_elements :: "function_data \<Rightarrow> string set \<Rightarrow> (report list + unit) option" where
  "free_of_template_elements function_data function_names =
     map_option (\<lambda>reports. if reports = [] then Inr () else Inl reports) (function_statement function_names (fd_body function_data))"

section \<open>Templates\<close>

fun look_for_return :: "file_id \<Rightarrow> statement \<Rightarrow> report list" where
  "look_for_return file (IfThenElse _ _ if_case else_case) =
     look_for_return file if_case @ (case else_case of Some s \<Rightarrow> look_for_return file s | None \<Rightarrow> [])"
| "look_for_return file (While _ _ stmt) = look_for_return file stmt"
| "look_for_return file (Block _ stmts) = concat (map (look_for_return file) stmts)"
| "look_for_return file (Return meta _) =
     [analysis_report ''Return found in template'' TemplateWithReturnStatement ''This return statement is inside a template'' meta file]"
| "look_for_return file _ = []"

definition free_of_returns :: "file_id \<Rightarrow> statement \<Rightarrow> report list + unit" where
  "free_of_returns file body = (let reports = look_for_return file body in if reports = [] then Inr () else Inl reports)"

fun treat_statement :: "bool \<Rightarrow> file_id \<Rightarrow> statement \<Rightarrow> report list" where
  "treat_statement signal_declaration_allowed file (IfThenElse _ _ if_case else_case) =
     treat_statement signal_declaration_allowed file if_case @
       (case else_case of Some s \<Rightarrow> treat_statement signal_declaration_allowed file s | None \<Rightarrow> [])"
| "treat_statement signal_declaration_allowed file (While _ _ stmt) = treat_statement False file stmt"
| "treat_statement signal_declaration_allowed file (Block _ stmts) = concat (map (treat_statement signal_declaration_allowed file) stmts)"
| "treat_statement signal_declaration_allowed file (InitializationBlock meta xtype _) =
     (if (case xtype of VSignal _ _ \<Rightarrow> True | VBus _ _ _ \<Rightarrow> True | VComponent \<Rightarrow> True | _ \<Rightarrow> False) \<and> \<not> signal_declaration_allowed
      then [analysis_report (''Signal, bus or component declaration inside While scope. Signals, buses and components can only be '' @
          ''defined in the initial scope or in If scopes with known condition'') SignalOutsideOriginalScope
        ''Is outside the initial scope'' meta file]
      else [])"
| "treat_statement signal_declaration_allowed file _ = []"

text \<open>\<open>get_body_as_vec\<close> panics if the body is no block.\<close>

definition check_signal_correctness :: "file_id \<Rightarrow> statement \<Rightarrow> (report list + unit) option" where
  "check_signal_correctness file body =
     (case body of
        Block _ stmts \<Rightarrow> (let reports = concat (map (treat_statement True file) stmts)
          in Some (if reports = [] then Inr () else Inl reports))
      | _ \<Rightarrow> None)"

section \<open>Runs\<close>

text \<open>What a run may do that is reserved to templates, or asks for a function.\<close>

datatype effect = CallsTo string | BuildsBus | ReadsMember | Declares variable_type | AssignsSignal | Constrains

fun expression_effects :: "expression \<Rightarrow> effect set"
and access_effects :: "access \<Rightarrow> effect set" where
  "expression_effects (InfixOp _ lhe _ rhe) = expression_effects lhe \<union> expression_effects rhe"
| "expression_effects (PrefixOp _ _ rhe) = expression_effects rhe"
| "expression_effects (InlineSwitchOp _ cond t e) = expression_effects cond \<union> expression_effects t \<union> expression_effects e"
| "expression_effects (ParallelOp _ rhe) = expression_effects rhe"
| "expression_effects (Variable _ _ access) = (\<Union>a \<in> set access. access_effects a)"
| "expression_effects (Number _ _) = {}"
| "expression_effects (Call _ name args) = insert (CallsTo name) (\<Union>e \<in> set args. expression_effects e)"
| "expression_effects (BusCall _ _ args) = insert BuildsBus (\<Union>e \<in> set args. expression_effects e)"
| "expression_effects (AnonymousComp _ _ _ params signals _) =
     {Declares VAnonymousComponent, AssignsSignal} \<union> (\<Union>e \<in> set params. expression_effects e) \<union> (\<Union>e \<in> set signals. expression_effects e)"
| "expression_effects (ArrayInLine _ values) = (\<Union>e \<in> set values. expression_effects e)"
| "expression_effects (Tuple _ values) = (\<Union>e \<in> set values. expression_effects e)"
| "expression_effects (UniformArray _ value dimension) = expression_effects value \<union> expression_effects dimension"
| "access_effects (ComponentAccess _) = {ReadsMember}"
| "access_effects (ArrayAccess e) = expression_effects e"

definition log_effects :: "log_argument \<Rightarrow> effect set" where
  "log_effects arg = (case arg of LogStr _ \<Rightarrow> {} | LogExp e \<Rightarrow> expression_effects e)"

definition operator_effects :: "assign_op \<Rightarrow> effect set" where
  "operator_effects op = (case op of AssignVar \<Rightarrow> {} | AssignSignal \<Rightarrow> {AssignsSignal} | AssignConstraintSignal \<Rightarrow> {AssignsSignal, Constrains})"

text \<open>\<open>executes l s r es\<close>: a run of \<open>s\<close>, in a loop if \<open>l\<close>, ends with a return if \<open>r\<close>, and does at most \<open>es\<close>, where the
  effects are tagged with whether they are in a loop. Conditions are arbitrary.\<close>

inductive executes :: "bool \<Rightarrow> statement \<Rightarrow> bool \<Rightarrow> (bool \<times> effect) set \<Rightarrow> bool"
and executes_all :: "bool \<Rightarrow> statement list \<Rightarrow> bool \<Rightarrow> (bool \<times> effect) set \<Rightarrow> bool" where
  run_if: "executes l (IfThenElse m c i e) r (Pair l ` expression_effects c \<union> es)" if "executes l i r es"
| run_else: "executes l (IfThenElse m c i (Some s)) r (Pair l ` expression_effects c \<union> es)" if "executes l s r es"
| run_skip: "executes l (IfThenElse m c i None) False (Pair l ` expression_effects c)"
| run_end: "executes l (While m c s) False (Pair l ` expression_effects c)"
| run_break: "executes l (While m c s) True (Pair l ` expression_effects c \<union> es)" if "executes True s True es"
| run_loop: "executes l (While m c s) r (Pair l ` expression_effects c \<union> es \<union> es')"
    if "executes True s False es" and "executes l (While m c s) r es'"
| run_return: "executes l (Return m v) True (Pair l ` expression_effects v)"
| run_init: "executes l (InitializationBlock m x ss) r es" if "executes_all l ss r es"
| run_declaration: "executes l (Declaration m x n ds k a) False (Pair l ` (insert (Declares x) (\<Union>d \<in> set ds. expression_effects d)))"
| run_substitution: "executes l (Substitution m v as op e) False
    (Pair l ` ((\<Union>a \<in> set as. access_effects a) \<union> operator_effects op \<union> expression_effects e))"
| run_multiple: "executes l (MultSubstitution m lhe op e) False
    (Pair l ` (expression_effects lhe \<union> operator_effects op \<union> expression_effects e))"
| run_underscore: "executes l (UnderscoreSubstitution m op e) False (Pair l ` (operator_effects op \<union> expression_effects e))"
| run_constraint: "executes l (ConstraintEquality m lhe rhe) False
    (Pair l ` (insert Constrains (expression_effects lhe \<union> expression_effects rhe)))"
| run_log: "executes l (LogCall m args) False (Pair l ` (\<Union>a \<in> set args. log_effects a))"
| run_block: "executes l (Block m ss) r es" if "executes_all l ss r es"
| run_assert: "executes l (Assert m e) False (Pair l ` expression_effects e)"
| run_none: "executes_all l [] False {}"
| run_stop: "executes_all l (s # ss) True es" if "executes l s True es"
| run_next: "executes_all l (s # ss) r (es \<union> es')" if "executes l s False es" and "executes_all l ss r es'"

lemma fold_or: "fold (\<lambda>x b. b \<or> P x) xs b \<longleftrightarrow> b \<or> (\<exists>x \<in> set xs. P x)"
  by (induction xs arbitrary: b) auto

lemma join_reports_empty: "join_reports rs = Some [] \<longleftrightarrow> (\<forall>r \<in> set rs. r = Some [])"
proof (induction rs)
  case (Cons r rs)
  then show ?case by (cases r; cases "those rs") (auto simp: join_reports_def)
qed (simp add: join_reports_def)

section \<open>Functions that pass\<close>

lemma returns_sound:
  "executes l s r es \<Longrightarrow> analyse_returns s \<Longrightarrow> r"
  "executes_all l ss r es \<Longrightarrow> \<exists>s \<in> set ss. analyse_returns s \<Longrightarrow> r"
  by (induction rule: executes_executes_all.inducts) (auto simp: fold_or)

definition function_effect :: "string set \<Rightarrow> effect \<Rightarrow> bool" where
  "function_effect names e \<longleftrightarrow> e = Declares VVar \<or> (\<exists>f \<in> names. e = CallsTo f)"

definition function_effects :: "string set \<Rightarrow> effect set \<Rightarrow> bool" where
  "function_effects names es \<longleftrightarrow> (\<forall>e \<in> es. function_effect names e)"

lemma function_effects_simps [simp]:
  "function_effects names {}" "function_effects names (A \<union> B) \<longleftrightarrow> function_effects names A \<and> function_effects names B"
  "function_effects names (insert (Declares x) A) \<longleftrightarrow> x = VVar \<and> function_effects names A"
  "function_effects names (insert (CallsTo f) A) \<longleftrightarrow> f \<in> names \<and> function_effects names A"
  "function_effects names (\<Union>x \<in> X. F x) \<longleftrightarrow> (\<forall>x \<in> X. function_effects names (F x))"
  by (auto simp: function_effects_def function_effect_def)

lemma function_expression_sound:
  "function_expression names e = Some [] \<Longrightarrow> function_effects names (expression_effects e)"
  "function_access names meta a = Some [] \<Longrightarrow> function_effects names (access_effects a)"
  by (induction names e and names meta a rule: function_expression_function_access.induct)
    (auto simp: join_reports_empty bind_eq_Some_conv split: if_splits)

lemma function_accesses_sound:
  "function_accesses names meta as = Some [] \<Longrightarrow> \<forall>a \<in> set as. function_effects names (access_effects a)"
  by (auto simp: function_accesses_def join_reports_empty bind_eq_Some_conv intro: function_expression_sound(2))

lemma operator_report_sound: "operator_report op meta file = [] \<Longrightarrow> function_effects names (operator_effects op)"
  by (cases op) (auto simp: operator_report_def operator_effects_def is_signal_operator_def)

lemma log_sound:
  "\<forall>arg \<in> set args. (case arg of LogExp e \<Rightarrow> function_expression names e | LogStr _ \<Rightarrow> Some []) = Some [] \<Longrightarrow>
    \<forall>arg \<in> set args. function_effects names (log_effects arg)"
  by (auto simp: log_effects_def split: log_argument.splits intro: function_expression_sound(1))

lemma snd_tagged [simp]: "snd ` (Pair l ` A) = A" "snd ` (A' \<union> B') = snd ` A' \<union> snd ` B'"
  by (auto simp: image_image)

lemma function_statement_sound:
  "executes l s r es \<Longrightarrow> function_statement names s = Some [] \<Longrightarrow> function_effects names (snd ` es)"
  "executes_all l ss r es \<Longrightarrow> \<forall>s \<in> set ss. function_statement names s = Some [] \<Longrightarrow> function_effects names (snd ` es)"
proof (induction rule: executes_executes_all.inducts)
  case (run_init l ss r es m x)
  then show ?case by (cases x) (auto simp: join_reports_empty bind_eq_Some_conv)
qed (auto simp: join_reports_empty bind_eq_Some_conv function_expression_sound function_accesses_sound operator_report_sound
    log_sound simp del: Un_iff split: if_splits option.splits)

section \<open>Templates that pass\<close>

text \<open>The shape the parser gives a body: declarations stand in initialization blocks of their type, which have only
  declarations and assignments.\<close>

definition initialization :: "variable_type \<Rightarrow> statement \<Rightarrow> bool" where
  "initialization x s \<longleftrightarrow> (case s of Declaration _ y _ _ _ _ \<Rightarrow> y = x | Substitution _ _ _ _ _ \<Rightarrow> True
     | MultSubstitution _ _ _ _ \<Rightarrow> True | UnderscoreSubstitution _ _ _ \<Rightarrow> True | _ \<Rightarrow> False)"

fun parser_shape :: "statement \<Rightarrow> bool" where
  "parser_shape (IfThenElse _ _ i e) \<longleftrightarrow> parser_shape i \<and> (case e of None \<Rightarrow> True | Some s \<Rightarrow> parser_shape s)"
| "parser_shape (While _ _ s) \<longleftrightarrow> parser_shape s"
| "parser_shape (Block _ ss) \<longleftrightarrow> (\<forall>s \<in> set ss. parser_shape s)"
| "parser_shape (InitializationBlock _ x ss) \<longleftrightarrow> (\<forall>s \<in> set ss. initialization x s)"
| "parser_shape (Declaration _ _ _ _ _ _) \<longleftrightarrow> False"
| "parser_shape _ \<longleftrightarrow> True"

inductive_simps initialization_runs:
  "executes l (Declaration m x n ds k a) r es"
  "executes l (Substitution m v as op e) r es"
  "executes l (MultSubstitution m lhe op e) r es"
  "executes l (UnderscoreSubstitution m op e) r es"

inductive_simps executes_all_simps:
  "executes_all l [] r es"
  "executes_all l (s # ss) r es"

definition declares_only :: "variable_type set \<Rightarrow> effect set \<Rightarrow> bool" where
  "declares_only xs es \<longleftrightarrow> (\<forall>x. Declares x \<in> es \<longrightarrow> x \<in> xs)"

lemma declares_only_simps [simp]:
  "declares_only xs {}" "declares_only xs (A \<union> B) \<longleftrightarrow> declares_only xs A \<and> declares_only xs B"
  "declares_only xs (insert e A) \<longleftrightarrow> (case e of Declares x \<Rightarrow> x \<in> xs | _ \<Rightarrow> True) \<and> declares_only xs A"
  "declares_only xs (\<Union>x \<in> X. F x) \<longleftrightarrow> (\<forall>x \<in> X. declares_only xs (F x))"
  by (auto simp: declares_only_def split: effect.splits)

lemma expression_declares:
  "VAnonymousComponent \<in> xs \<Longrightarrow> declares_only xs (expression_effects e)"
  "VAnonymousComponent \<in> xs \<Longrightarrow> declares_only xs (access_effects a)"
  by (induction e and a rule: expression_effects_access_effects.induct) auto

lemma other_declares [simp]:
  "declares_only xs (operator_effects op)" "VAnonymousComponent \<in> xs \<Longrightarrow> declares_only xs (log_effects arg)"
  by (auto simp: operator_effects_def log_effects_def expression_declares split: assign_op.splits log_argument.splits)

text \<open>The effects in loops.\<close>

definition in_loops :: "(bool \<times> effect) set \<Rightarrow> effect set" where
  "in_loops es = {e. (True, e) \<in> es}"

lemma in_loops_simps [simp]:
  "in_loops {} = {}" "in_loops (A \<union> B) = in_loops A \<union> in_loops B" "in_loops (Pair l ` E) = (if l then E else {})"
  "in_loops (insert (l, e) A) = (if l then insert e (in_loops A) else in_loops A)"
  by (auto simp: in_loops_def)

lemma initialization_sound:
  assumes "initialization x s" and "executes l s r es"
  shows "\<not> r \<and> declares_only {x, VAnonymousComponent} (in_loops es) \<and> (\<not> l \<longrightarrow> in_loops es = {})"
  using assms by (cases s) (simp_all add: initialization_def initialization_runs expression_declares)

lemma initializations_sound:
  "\<forall>s \<in> set ss. initialization x s \<Longrightarrow> executes_all l ss r es \<Longrightarrow>
    \<not> r \<and> declares_only {x, VAnonymousComponent} (in_loops es) \<and> (\<not> l \<longrightarrow> in_loops es = {})"
proof (induction ss arbitrary: r es)
  case (Cons s ss)
  have s: "initialization x s" "\<forall>s \<in> set ss. initialization x s" using Cons.prems(1) by simp_all
  consider (stop) "executes l s True es" | (go) es1 es2 where "executes l s False es1" "executes_all l ss r es2" "es = es1 \<union> es2"
    using Cons.prems(2) unfolding executes_all_simps by blast
  then show ?case
  proof cases
    case stop
    then show ?thesis using initialization_sound [OF s(1)] by blast
  next
    case (go es1 es2)
    then show ?thesis using initialization_sound [OF s(1) go(1)] Cons.IH [OF s(2) go(2)] by simp
  qed
qed (simp add: executes_all_simps)

lemma initialization_block:
  assumes "parser_shape (InitializationBlock m x ss)" and "executes_all l ss r es"
  shows "\<not> r \<and> declares_only {x, VAnonymousComponent} (in_loops es) \<and> (\<not> l \<longrightarrow> in_loops es = {})"
  using assms initializations_sound [of ss x l r es] by simp

lemma no_return_sound:
  "executes l s r es \<Longrightarrow> look_for_return file s = [] \<Longrightarrow> parser_shape s \<Longrightarrow> \<not> r"
  "executes_all l ss r es \<Longrightarrow> \<forall>s \<in> set ss. look_for_return file s = [] \<and> parser_shape s \<Longrightarrow> \<not> r"
proof (induction rule: executes_executes_all.inducts)
  case (run_if l i r es m c e)
  show ?case using run_if.prems by (intro run_if.IH) simp_all
next
  case (run_else l s r es m c i)
  show ?case using run_else.prems by (intro run_else.IH) simp_all
next
  case (run_break s es l m c)
  show ?case using run_break.prems by (intro run_break.IH) simp_all
next
  case (run_loop s es l m c r es')
  show ?case by (rule run_loop.IH(2) [OF run_loop.prems])
next
  case (run_init l ss r es m x)
  then show ?case using initialization_block by blast
next
  case (run_block l ss r es m)
  show ?case using run_block.prems by (intro run_block.IH) simp_all
next
  case (run_stop l s es ss)
  show ?case using run_stop.prems by (intro run_stop.IH) simp_all
next
  case (run_next l s es ss r es')
  show ?case using run_next.prems by (intro run_next.IH(2)) simp_all
qed simp_all

lemma loop_declarations_sound:
  "executes l s r es \<Longrightarrow> treat_statement allowed file s = [] \<Longrightarrow> parser_shape s \<Longrightarrow> (l \<longrightarrow> \<not> allowed) \<Longrightarrow>
    declares_only {VVar, VAnonymousComponent} (in_loops es)"
  "executes_all l ss r es \<Longrightarrow> \<forall>s \<in> set ss. treat_statement allowed file s = [] \<and> parser_shape s \<Longrightarrow> (l \<longrightarrow> \<not> allowed) \<Longrightarrow>
    declares_only {VVar, VAnonymousComponent} (in_loops es)"
proof (induction arbitrary: allowed and allowed rule: executes_executes_all.inducts)
  case (run_init l ss r es m x)
  have "declares_only {x, VAnonymousComponent} (in_loops es) \<and> (\<not> l \<longrightarrow> in_loops es = {})"
    using initialization_block [OF run_init.prems(2) run_init.hyps] by blast
  moreover have "l \<longrightarrow> x \<in> {VVar, VAnonymousComponent}" using run_init.prems by (cases x) auto
  ultimately show ?case by (cases l) (auto simp: declares_only_def)
next
  case (run_if l i r es m c e)
  then show ?case using run_if.IH [of allowed] by (simp add: expression_declares)
next
  case (run_else l s r es m c i)
  then show ?case using run_else.IH [of allowed] by (simp add: expression_declares)
next
  case (run_break s es l m c)
  then show ?case using run_break.IH [of False] by (simp add: expression_declares)
next
  case (run_loop s es l m c r es')
  then show ?case using run_loop.IH(1) [of False] run_loop.IH(2) [of allowed] by (simp add: expression_declares)
next
  case (run_block l ss r es m)
  then show ?case using run_block.IH [of allowed] by simp
next
  case (run_stop l s es ss)
  then show ?case using run_stop.IH [of allowed] by simp
next
  case (run_next l s es ss r es')
  then show ?case using run_next.IH(1) [of allowed] run_next.IH(2) [of allowed] by simp
qed (simp_all add: expression_declares)

section \<open>Properties\<close>

text \<open>C27: A run of a function that passes both analyses ends with a return, declares nothing but variables and calls
  nothing but functions: it builds no bus, reads no member of a component, and neither assigns signals nor constrains.\<close>

theorem accepted_functions:
  assumes "all_paths_with_return_check fd = Inr ()" and "free_of_template_elements fd names = Some (Inr ())"
    and "executes l (fd_body fd) r es"
  shows "r \<and> (\<forall>e \<in> snd ` es. e = Declares VVar \<or> (\<exists>f \<in> names. e = CallsTo f))"
proof
  show r using assms(1) returns_sound(1) [OF assms(3)] by (simp add: all_paths_with_return_check_def split: if_splits)
  have "function_statement names (fd_body fd) = Some []"
    using assms(2) by (auto simp: free_of_template_elements_def split: if_splits)
  then show "\<forall>e \<in> snd ` es. e = Declares VVar \<or> (\<exists>f \<in> names. e = CallsTo f)"
    using function_statement_sound(1) [OF assms(3)] by (auto simp: function_effects_def function_effect_def)
qed

definition call_function :: function_data where
  "call_function = fst (function_data_new ''g'' 0
     (Block (meta_new 0 9) [Return (meta_new 1 8) (Call (meta_new 2 3) ''f'' [])]) 0 [] (0, 1) 0)"

lemma call_function_runs: "executes False (fd_body call_function) True {(False, CallsTo ''f'')}"
proof -
  have "executes False (Return m (Call m' ''f'' [])) True {(False, CallsTo ''f'')}" for m m'
    using run_return [of False m "Call m' ''f'' []"] by simp
  then show ?thesis by (auto simp: call_function_def function_data_new_def intro: run_block run_stop)
qed

theorem accepted_functions_witness:
  "executes False (fd_body call_function) True {(False, CallsTo ''f'')} \<and> (\<exists>f \<in> {''f''}. CallsTo ''f'' = CallsTo f)"
proof
  have 1: "all_paths_with_return_check call_function = Inr ()"
    by (simp add: all_paths_with_return_check_def call_function_def function_data_new_def)
  have 2: "free_of_template_elements call_function {''f''} = Some (Inr ())"
    by (simp add: free_of_template_elements_def call_function_def function_data_new_def join_reports_def
        get_file_id_def fill_meta_def set_file_id_def)
  show "\<exists>f \<in> {''f''}. CallsTo ''f'' = CallsTo f" using accepted_functions [OF 1 2 call_function_runs] by simp
qed (rule call_function_runs)


definition loop_template :: statement where
  "loop_template = Block (meta_new 0 9) [While (meta_new 1 8) (Number (meta_new 2 3) 1)
     (InitializationBlock (meta_new 4 7) VVar [Declaration (meta_new 4 7) VVar ''x'' [] False False])]"

lemma loop_template_runs: "executes False loop_template False {(True, Declares VVar)}"
proof -
  have "executes True (InitializationBlock m VVar [Declaration m VVar ''x'' [] False False]) False {(True, Declares VVar)}" for m
    using run_init [OF run_next [OF run_declaration [of True m VVar "''x''" "[]" False False] run_none]] by simp
  then have "executes False (While m' (Number m'' 1) (InitializationBlock m VVar [Declaration m VVar ''x'' [] False False])) False
      {(True, Declares VVar)}" for m m' m''
    using run_loop [OF _ run_end, of _ "{(True, Declares VVar)}" False m' "Number m'' 1"] by simp
  then show ?thesis unfolding loop_template_def using run_block [OF run_next [OF _ run_none]] by fastforce
qed


end
