(* ===== verification/Memory_Slice.thy ===== *)
theory Memory_Slice
  imports Abstract_Syntax
begin

text \<open>
  Multidimensional values, \<open>program_structure/src/utils/memory_slice.rs\<close>: the cells of an array in row-major order
  with its dimensions. An index out of the vector and a division by zero are panics, \<open>None\<close>; errors are values. A
  function that takes the slice mutably returns it, also when it fails. A reference to a cell is its value when
  it is shared, and its position when it is mutable.
\<close>

section \<open>Slices and errors\<close>

datatype type_invalid_access =
    AccessMissingInputs string | AccessMissingInputTags string | AccessNoInitializedComponent | AccessNoInitializedSignal
  | AccessNoInitializedBus

datatype type_assignment_error =
    MultipleAssignmentsComponent | MultipleAssignmentsBus | MultipleAssignments meta | AssignmentOutput
  | NoInitializedComponent | DifferentBusInstances | AssignmentInput string

datatype memory_error =
    OutOfBoundsError | AssignmentError type_assignment_error | InvalidAccess type_invalid_access | UnknownSizeDimension
  | MismatchedInstances | MismatchedDimensions nat nat | MismatchedDimensionsWeak nat nat | AssignmentMissingTags string string
  | AssignmentTagAfterInit | AssignmentTagTwice | AssignmentTagInputTwice string string | AssignmentTagInput
  | TagValueNotInitializedAccess | MissingInputs string | MultipleSizesInlineBuses | DifferentBusesInline

record 'c memory_slice =
  ms_route :: "nat list"
  ms_values :: "'c list"

section \<open>Operations\<close>

text \<open>The loop over the access: the position of the cell, and how far apart the cells of one index are.\<close>

fun initial_cell_loop :: "nat list \<Rightarrow> nat list \<Rightarrow> nat \<Rightarrow> nat \<Rightarrow> memory_error + nat" where
  "initial_cell_loop route (a # access) cell_jump cell =
     (case route of
        [] \<Rightarrow> Inl OutOfBoundsError
      | r # route \<Rightarrow>
          if a \<ge> r then Inl OutOfBoundsError
          else let cell_jump = cell_jump div r in initial_cell_loop route access cell_jump (cell + cell_jump * a))"
| "initial_cell_loop route [] cell_jump cell = Inr cell"

definition get_initial_cell :: "'c memory_slice \<Rightarrow> nat list \<Rightarrow> memory_error + nat" where
  "get_initial_cell memory_slice access =
     (if length access > length (ms_route memory_slice) then Inl OutOfBoundsError
      else initial_cell_loop (ms_route memory_slice) access (length (ms_values memory_slice)) 0)"

fun access_in_route :: "nat list \<Rightarrow> nat list \<Rightarrow> bool" where
  "access_in_route route [] \<longleftrightarrow> True"
| "access_in_route [] (a # access) \<longleftrightarrow> False"
| "access_in_route (r # route) (a # access) \<longleftrightarrow> \<not> a \<ge> r \<and> access_in_route route access"

fun compare_dims :: "nat list \<Rightarrow> nat list \<Rightarrow> bool \<Rightarrow> memory_error + unit" where
  "compare_dims (n # new) (r # route) is_strict =
     (if n < r then Inl (if is_strict then MismatchedDimensions n r else MismatchedDimensionsWeak n r)
      else if n > r then Inl (if is_strict then MismatchedDimensions n r else MismatchedDimensionsWeak n r)
      else compare_dims new route is_strict)"
| "compare_dims _ _ _ = Inr ()"

definition check_correct_dims :: "'c memory_slice \<Rightarrow> nat list \<Rightarrow> 'c memory_slice \<Rightarrow> bool \<Rightarrow> memory_error + unit" where
  "check_correct_dims memory_slice access new_values is_strict =
     (if length access + length (ms_route new_values) > length (ms_route memory_slice) then Inl OutOfBoundsError
      else if \<not> access_in_route (ms_route memory_slice) access then Inl OutOfBoundsError
      else compare_dims (ms_route new_values) (drop (length access) (ms_route memory_slice)) is_strict)"

definition generate_new_route_from_access :: "'c memory_slice \<Rightarrow> nat list \<Rightarrow> memory_error + (nat list \<times> nat)" where
  "generate_new_route_from_access memory_slice access =
     (if length access > length (ms_route memory_slice) then Inl OutOfBoundsError
      else let new_route = drop (length access) (ms_route memory_slice) in Inr (new_route, foldl (\<lambda>n r. n * r) 1 new_route))"

text \<open>The cells from a position on: reading beyond the last one is a panic.\<close>

definition read_cells :: "'c list \<Rightarrow> nat \<Rightarrow> nat \<Rightarrow> 'c list option" where
  "read_cells values initial_cell number_of_cells =
     (if number_of_cells = 0 \<or> initial_cell + number_of_cells \<le> length values
      then Some (take number_of_cells (drop initial_cell values)) else None)"

definition generate_slice_from_access :: "'c memory_slice \<Rightarrow> nat list \<Rightarrow> (memory_error + 'c memory_slice) option" where
  "generate_slice_from_access memory_slice access =
     (if access = [] then Some (Inr memory_slice)
      else case generate_new_route_from_access memory_slice access of
        Inl e \<Rightarrow> Some (Inl e)
      | Inr (new_route, number_of_cells) \<Rightarrow>
          (case get_initial_cell memory_slice access of
             Inl e \<Rightarrow> Some (Inl e)
           | Inr initial_cell \<Rightarrow>
               map_option (\<lambda>values. Inr \<lparr>ms_route = new_route, ms_values = values\<rparr>)
                 (read_cells (ms_values memory_slice) initial_cell number_of_cells)))"

definition generate_references_from_access :: "'c memory_slice \<Rightarrow> nat list \<Rightarrow> (memory_error + 'c list) option" where
  "generate_references_from_access memory_slice access =
     (if access = [] then Some (Inr (ms_values memory_slice))
      else case generate_new_route_from_access memory_slice access of
        Inl e \<Rightarrow> Some (Inl e)
      | Inr (new_route, number_of_cells) \<Rightarrow>
          (case get_initial_cell memory_slice access of
             Inl e \<Rightarrow> Some (Inl e)
           | Inr initial_cell \<Rightarrow> map_option Inr (read_cells (ms_values memory_slice) initial_cell number_of_cells)))"

text \<open>The positions of the cells that may be changed.\<close>

definition generate_mut_references_from_access :: "'c memory_slice \<Rightarrow> nat list \<Rightarrow> memory_error + nat list" where
  "generate_mut_references_from_access memory_slice access =
     (if access = [] then Inr [0..<length (ms_values memory_slice)]
      else case generate_new_route_from_access memory_slice access of
        Inl e \<Rightarrow> Inl e
      | Inr (new_route, number_of_cells) \<Rightarrow>
          (case get_initial_cell memory_slice access of
             Inl e \<Rightarrow> Inl e
           | Inr initial_cell \<Rightarrow>
               Inr (filter (\<lambda>index. index \<ge> initial_cell \<and> index < initial_cell + number_of_cells)
                 [0..<length (ms_values memory_slice)])))"

definition new_with_route :: "nat list \<Rightarrow> 'c \<Rightarrow> 'c memory_slice" where
  "new_with_route route initial_value =
     \<lparr>ms_route = route, ms_values = replicate (foldl (\<lambda>length i. length * i) 1 route) initial_value\<rparr>"

definition slice_new :: "'c \<Rightarrow> 'c memory_slice" where
  "slice_new initial_value = new_with_route [] initial_value"

definition new_array :: "nat list \<Rightarrow> 'c list \<Rightarrow> 'c memory_slice" where
  "new_array route values = \<lparr>ms_route = route, ms_values = values\<rparr>"

definition access_values :: "'c memory_slice \<Rightarrow> nat list \<Rightarrow> (memory_error + 'c memory_slice) option" where
  "access_values memory_slice access = generate_slice_from_access memory_slice access"

text \<open>The writes of \<open>insert_values\<close>, one cell after the other.\<close>

fun write_cells :: "'c list \<Rightarrow> nat \<Rightarrow> 'c list \<Rightarrow> 'c list option" where
  "write_cells values cell [] = Some values"
| "write_cells values cell (v # vs) = (if cell < length values then write_cells (values[cell := v]) (cell + 1) vs else None)"

lemma access_one_route: "access_values new [i] = Some (Inr row) \<Longrightarrow> length (ms_route row) < length (ms_route new)"
  by (auto simp: access_values_def generate_slice_from_access_def generate_new_route_from_access_def Let_def
      split: if_splits sum.splits)

text \<open>Values of other dimensions are inserted row by row where they fit; the errors of the rows are dropped.\<close>

function insert_values :: "'c memory_slice \<Rightarrow> nat list \<Rightarrow> 'c memory_slice \<Rightarrow> bool \<Rightarrow> ('c memory_slice \<times> (memory_error + unit)) option"
and insert_rows :: "'c memory_slice \<Rightarrow> nat list \<Rightarrow> 'c memory_slice \<Rightarrow> bool \<Rightarrow> nat \<Rightarrow> nat \<Rightarrow> ('c memory_slice \<times> (memory_error + unit)) option" where
  "insert_values memory_slice access new_values is_strict =
     (case check_correct_dims memory_slice access new_values is_strict of
        Inr _ \<Rightarrow>
          (case get_initial_cell memory_slice access of
             Inl e \<Rightarrow> Some (memory_slice, Inl e)
           | Inr cell \<Rightarrow>
               (case write_cells (ms_values memory_slice) cell (ms_values new_values) of
                  None \<Rightarrow> None
                | Some values \<Rightarrow> Some (memory_slice\<lparr>ms_values := values\<rparr>, Inr ())))
      | Inl (MismatchedDimensionsWeak dim_1 dim_2) \<Rightarrow>
          (case ms_route new_values of
             [] \<Rightarrow> None
           | n # _ \<Rightarrow>
               (case insert_rows memory_slice access new_values is_strict 0 n of
                  None \<Rightarrow> None
                | Some (memory_slice, Inl e) \<Rightarrow> Some (memory_slice, Inl e)
                | Some (memory_slice, Inr _) \<Rightarrow> Some (memory_slice, Inl (MismatchedDimensionsWeak dim_1 dim_2))))
      | Inl error \<Rightarrow> Some (memory_slice, Inl error))"
| "insert_rows memory_slice access new_values is_strict index n =
     (if index < n then
        (case access_values new_values [index] of
           None \<Rightarrow> None
         | Some (Inl e) \<Rightarrow> Some (memory_slice, Inl e)
         | Some (Inr row) \<Rightarrow>
             (case insert_values memory_slice (access @ [index]) row is_strict of
                None \<Rightarrow> None
              | Some (memory_slice, _) \<Rightarrow> insert_rows memory_slice access new_values is_strict (index + 1) n))
      else Some (memory_slice, Inr ()))"
  by pat_completeness auto

termination
  by (relation "measures [case_sum (\<lambda>(_, _, new, _). length (ms_route new)) (\<lambda>(_, _, new, _, _, _). length (ms_route new)),
        case_sum (\<lambda>_. 1) (\<lambda>_. 0), case_sum (\<lambda>_. 0) (\<lambda>(_, _, _, _, index, n). n - index)]")
    (auto dest: access_one_route)

declare insert_values.simps [simp del] insert_rows.simps [simp del]

definition get_number_of_cells :: "'c memory_slice \<Rightarrow> nat" where
  "get_number_of_cells memory_slice = length (ms_values memory_slice)"

definition insert_value_by_index :: "'c memory_slice \<Rightarrow> nat \<Rightarrow> 'c \<Rightarrow> (memory_error + 'c memory_slice) option" where
  "insert_value_by_index memory_slice index new_value =
     (if index > get_number_of_cells memory_slice then Some (Inl OutOfBoundsError)
      else if index < length (ms_values memory_slice)
        then Some (Inr (memory_slice\<lparr>ms_values := (ms_values memory_slice)[index := new_value]\<rparr>))
      else None)"

fun access_index_loop :: "nat list \<Rightarrow> nat \<Rightarrow> nat \<Rightarrow> nat list option" where
  "access_index_loop [] number_cells index_aux = Some []"
| "access_index_loop (pos # route) number_cells index_aux =
     (if pos = 0 then None
      else let number_cells = number_cells div pos
        in if number_cells = 0 then None
           else map_option ((#) (index_aux div number_cells)) (access_index_loop route number_cells (index_aux mod number_cells)))"

definition get_access_index :: "'c memory_slice \<Rightarrow> nat \<Rightarrow> (memory_error + nat list) option" where
  "get_access_index memory_slice index =
     (let number_cells = get_number_of_cells memory_slice
      in if index > number_cells then Some (Inl OutOfBoundsError)
         else map_option Inr (access_index_loop (ms_route memory_slice) number_cells index))"

definition access_value_by_index :: "'c memory_slice \<Rightarrow> nat \<Rightarrow> (memory_error + 'c) option" where
  "access_value_by_index memory_slice index =
     (if index > get_number_of_cells memory_slice then Some (Inl OutOfBoundsError)
      else if index < length (ms_values memory_slice) then Some (Inr (ms_values memory_slice ! index))
      else None)"

definition get_reference_to_single_value :: "'c memory_slice \<Rightarrow> nat list \<Rightarrow> (memory_error + 'c) option" where
  "get_reference_to_single_value memory_slice access =
     (if length (ms_route memory_slice) \<noteq> length access then None
      else case get_initial_cell memory_slice access of
        Inl e \<Rightarrow> Some (Inl e)
      | Inr cell \<Rightarrow> if cell < length (ms_values memory_slice) then Some (Inr (ms_values memory_slice ! cell)) else None)"

definition get_reference_to_single_value_by_index :: "'c memory_slice \<Rightarrow> nat \<Rightarrow> (memory_error + 'c) option" where
  "get_reference_to_single_value_by_index memory_slice index = access_value_by_index memory_slice index"

definition get_reference_to_single_value_by_index_or_break :: "'c memory_slice \<Rightarrow> nat \<Rightarrow> 'c option" where
  "get_reference_to_single_value_by_index_or_break memory_slice index =
     (if index > get_number_of_cells memory_slice then None
      else if index < length (ms_values memory_slice) then Some (ms_values memory_slice ! index) else None)"

definition get_mut_reference_to_single_value :: "'c memory_slice \<Rightarrow> nat list \<Rightarrow> (memory_error + nat) option" where
  "get_mut_reference_to_single_value memory_slice access =
     (if length (ms_route memory_slice) \<noteq> length access then None
      else case get_initial_cell memory_slice access of
        Inl e \<Rightarrow> Some (Inl e)
      | Inr cell \<Rightarrow> if cell < length (ms_values memory_slice) then Some (Inr cell) else None)"

definition get_mut_reference_to_single_value_by_index :: "'c memory_slice \<Rightarrow> nat \<Rightarrow> (memory_error + nat) option" where
  "get_mut_reference_to_single_value_by_index memory_slice index =
     (if index > get_number_of_cells memory_slice then Some (Inl OutOfBoundsError)
      else if index < length (ms_values memory_slice) then Some (Inr index) else None)"

definition is_single :: "'c memory_slice \<Rightarrow> bool" where
  "is_single self \<longleftrightarrow> ms_route self = []"

definition unwrap_to_single :: "'c memory_slice \<Rightarrow> 'c option" where
  "unwrap_to_single memory_slice =
     (if is_single memory_slice \<and> ms_values memory_slice \<noteq> [] then Some (last (ms_values memory_slice)) else None)"

definition destruct :: "'c memory_slice \<Rightarrow> nat list \<times> 'c list" where
  "destruct self = (ms_route self, ms_values self)"

section \<open>Cells of a slice\<close>

text \<open>The cells stand in row-major order.\<close>

definition slice_wf :: "'c memory_slice \<Rightarrow> bool" where
  "slice_wf s \<longleftrightarrow> length (ms_values s) = prod_list (ms_route s)"

fun flat :: "nat list \<Rightarrow> nat list \<Rightarrow> nat" where
  "flat (r # route) (i # ks) = i * prod_list route + flat route ks"
| "flat _ _ = 0"

definition in_bounds :: "nat list \<Rightarrow> nat list \<Rightarrow> bool" where
  "in_bounds route ks \<longleftrightarrow> list_all2 (<) ks route"

definition cell :: "'c memory_slice \<Rightarrow> nat list \<Rightarrow> 'c" where
  "cell s ks = ms_values s ! flat (ms_route s) ks"

lemma in_bounds_simps [simp]:
  "in_bounds [] ks \<longleftrightarrow> ks = []" "in_bounds route [] \<longleftrightarrow> route = []"
  "in_bounds (r # route) (i # ks) \<longleftrightarrow> i < r \<and> in_bounds route ks"
  by (auto simp: in_bounds_def)

lemma in_bounds_length: "in_bounds route ks \<Longrightarrow> length ks = length route"
  by (simp add: in_bounds_def list_all2_lengthD)

lemma foldl_prod: "foldl (\<lambda>n r. n * r) (a :: nat) rs = a * prod_list rs"
  by (induction rs arbitrary: a) (simp_all add: mult.assoc)

lemma flat_less: "in_bounds route ks \<Longrightarrow> flat route ks < prod_list route"
proof (induction route ks rule: flat.induct)
  case (1 r route i ks)
  then have "i * prod_list route + flat route ks < (i + 1) * prod_list route" by simp
  also have "\<dots> \<le> r * prod_list route" using 1 by (intro mult_right_mono) auto
  finally show ?case by simp
qed auto

lemma flat_append: "length as \<le> length route \<Longrightarrow>
    flat route (as @ bs) = flat route as + flat (drop (length as) route) bs"
  by (induction route as rule: flat.induct) auto

lemma in_bounds_append: "length as \<le> length route \<Longrightarrow>
    in_bounds route (as @ bs) \<longleftrightarrow> in_bounds (take (length as) route) as \<and> in_bounds (drop (length as) route) bs"
  by (induction route as rule: flat.induct) auto

lemma access_in_route_bounds: "length as \<le> length route \<Longrightarrow> access_in_route route as \<longleftrightarrow> in_bounds (take (length as) route) as"
  by (induction route as rule: access_in_route.induct) auto

lemma flat_inject:
  assumes "in_bounds route ks" and "in_bounds route js" and "flat route ks = flat route js"
  shows "ks = js"
  using assms
proof (induction route ks arbitrary: js rule: flat.induct)
  case (1 r route i ks)
  obtain j js' where js: "js = j # js'" using "1.prems"(2) by (cases js) auto
  have b: "flat route ks < prod_list route" "flat route js' < prod_list route"
    using "1.prems" unfolding js by (auto intro: flat_less)
  have e: "i * prod_list route + flat route ks = j * prod_list route + flat route js'" using "1.prems"(3) unfolding js by simp
  have "i = j" using arg_cong [OF e, of "\<lambda>n. n div prod_list route"] b by simp
  then show ?case using "1.IH" [of js'] "1.prems" e unfolding js by simp
qed (auto simp: in_bounds_def)

lemma initial_cell_loop_flat: "length as \<le> length route \<Longrightarrow> in_bounds (take (length as) route) as \<Longrightarrow>
    initial_cell_loop route as (prod_list route) c = Inr (c + flat route as)"
  by (induction route as arbitrary: c rule: flat.induct) (auto simp: Let_def mult.commute add.assoc)

lemma initial_cell_loop_error: "length as \<le> length route \<Longrightarrow> \<not> in_bounds (take (length as) route) as \<Longrightarrow>
    initial_cell_loop route as n c = Inl OutOfBoundsError"
  by (induction route as arbitrary: n c rule: flat.induct) (auto simp: Let_def)

lemma get_initial_cell_eq:
  assumes "slice_wf s"
  shows "get_initial_cell s as = (if length as \<le> length (ms_route s) \<and> in_bounds (take (length as) (ms_route s)) as
    then Inr (flat (ms_route s) as) else Inl OutOfBoundsError)"
  using assms initial_cell_loop_flat [of as "ms_route s" 0] initial_cell_loop_error
  by (auto simp: get_initial_cell_def slice_wf_def)

text \<open>The block of an access ends in the slice.\<close>

lemma flat_block: "length as \<le> length route \<Longrightarrow> in_bounds (take (length as) route) as \<Longrightarrow>
    flat route as + prod_list (drop (length as) route) \<le> prod_list route"
proof (induction route as rule: flat.induct)
  case (1 r route i ks)
  then have "i * prod_list route + (flat route ks + prod_list (drop (length ks) route)) \<le> (i + 1) * prod_list route" by simp
  also have "\<dots> \<le> r * prod_list route" using 1 by (intro mult_right_mono) auto
  finally show ?case by (simp add: add.assoc)
qed auto

section \<open>Reading\<close>

lemma access_values_eq:
  assumes "slice_wf s"
  shows "access_values s as = Some (if length as \<le> length (ms_route s) \<and> in_bounds (take (length as) (ms_route s)) as
    then Inr \<lparr>ms_route = drop (length as) (ms_route s),
      ms_values = take (prod_list (drop (length as) (ms_route s))) (drop (flat (ms_route s) as) (ms_values s))\<rparr>
    else Inl OutOfBoundsError)"
  using assms flat_block [of as "ms_route s"]
  by (cases "as = []") (auto simp: access_values_def generate_slice_from_access_def generate_new_route_from_access_def
      get_initial_cell_eq foldl_prod Let_def read_cells_def slice_wf_def)

lemma sub_slice:
  assumes "slice_wf s" and "length as \<le> length (ms_route s)" and "in_bounds (take (length as) (ms_route s)) as"
  defines "t \<equiv> \<lparr>ms_route = drop (length as) (ms_route s),
      ms_values = take (prod_list (drop (length as) (ms_route s))) (drop (flat (ms_route s) as) (ms_values s))\<rparr>"
  shows "slice_wf t" and "in_bounds (ms_route t) ks \<Longrightarrow> cell t ks = cell s (as @ ks)"
  using assms(1) flat_block [OF assms(2,3)] flat_less [of "drop (length as) (ms_route s)" ks]
  by (auto simp: t_def slice_wf_def cell_def flat_append [OF assms(2)])

section \<open>Writing\<close>

lemma write_cells_eq: "c + length vs \<le> length values \<Longrightarrow>
    write_cells values c vs = Some (take c values @ vs @ drop (c + length vs) values)"
proof (induction "values" c vs rule: write_cells.induct)
  case (2 "values" c v vs)
  then show ?case by (simp add: take_Suc_conv_app_nth upd_conv_take_nth_drop add.commute [of c])
qed simp

lemma compare_dims_eq:
  assumes "length new = length route"
  shows "new = route \<Longrightarrow> compare_dims new route is_strict = Inr ()"
    and "new \<noteq> route \<Longrightarrow> \<exists>d e. compare_dims new route is_strict =
      Inl (if is_strict then MismatchedDimensions d e else MismatchedDimensionsWeak d e)"
  using assms by (induction new route rule: list_induct2') (auto intro: exI)

lemma flat_prefix:
  "length as \<le> length route \<Longrightarrow> in_bounds (take (length as) route) as \<Longrightarrow> in_bounds route ks \<Longrightarrow>
    flat route as \<le> flat route ks \<Longrightarrow> flat route ks < flat route as + prod_list (drop (length as) route) \<Longrightarrow>
    take (length as) ks = as"
proof (induction route as arbitrary: ks rule: flat.induct)
  case (1 r route a as)
  obtain k ks' where ks: "ks = k # ks'" using "1.prems"(3) by (cases ks) auto
  let ?P = "prod_list route"
  have less: "flat route ks' < ?P" using "1.prems"(3) by (simp add: ks flat_less)
  have block: "flat route as + prod_list (drop (length as) route) \<le> ?P" using "1.prems"(1,2) by (intro flat_block) simp_all
  have lo: "a * ?P + flat route as \<le> k * ?P + flat route ks'" using "1.prems"(4) by (simp add: ks)
  have hi: "k * ?P + flat route ks' < a * ?P + flat route as + prod_list (drop (length as) route)"
    using "1.prems"(5) by (simp add: ks)
  have "\<not> k < a"
  proof
    assume "k < a"
    then have "(k + 1) * ?P \<le> a * ?P" by (intro mult_right_mono) auto
    then show False using lo less by simp
  qed
  moreover have "\<not> a < k"
  proof
    assume "a < k"
    then have "(a + 1) * ?P \<le> k * ?P" by (intro mult_right_mono) auto
    then show False using hi block by simp
  qed
  ultimately have "k = a" by simp
  then show ?case using "1.IH" [of ks'] "1.prems" ks by simp
qed auto

text \<open>\<open>t\<close> is \<open>s\<close> with the cells of \<open>new\<close> at the indices \<open>J\<close> in place of those below the access.\<close>

definition pasted :: "'c memory_slice \<Rightarrow> nat list \<Rightarrow> 'c memory_slice \<Rightarrow> nat list set \<Rightarrow> 'c memory_slice \<Rightarrow> bool" where
  "pasted s as new J t \<longleftrightarrow> ms_route t = ms_route s \<and> slice_wf t \<and> (\<forall>ks. in_bounds (ms_route s) ks \<longrightarrow>
     cell t ks = (if take (length as) ks = as \<and> drop (length as) ks \<in> J then cell new (drop (length as) ks) else cell s ks))"

definition indices :: "'c memory_slice \<Rightarrow> nat list set" where
  "indices s = {ks. in_bounds (ms_route s) ks}"

text \<open>The access of an insertion fits the slice and leaves the dimensions of the values.\<close>

definition insertable :: "'c memory_slice \<Rightarrow> nat list \<Rightarrow> 'c memory_slice \<Rightarrow> bool" where
  "insertable s as new \<longleftrightarrow> slice_wf s \<and> slice_wf new \<and> length as + length (ms_route new) = length (ms_route s)
     \<and> in_bounds (take (length as) (ms_route s)) as"

lemma check_correct_dims_eq:
  assumes "insertable s as new"
  shows "check_correct_dims s as new is_strict = compare_dims (ms_route new) (drop (length as) (ms_route s)) is_strict"
  using assms by (auto simp: insertable_def check_correct_dims_def access_in_route_bounds)

lemma insert_same:
  assumes "insertable s as new" and "ms_route new = drop (length as) (ms_route s)"
  obtains t where "insert_values s as new is_strict = Some (t, Inr ())" and "pasted s as new (indices new) t"
proof -
  let ?f = "flat (ms_route s) as"
  have l: "length as \<le> length (ms_route s)" and b: "in_bounds (take (length as) (ms_route s)) as"
    and wf: "length (ms_values s) = prod_list (ms_route s)" "length (ms_values new) = prod_list (ms_route new)"
    using assms(1) by (auto simp: insertable_def slice_wf_def)
  have fits: "?f + length (ms_values new) \<le> length (ms_values s)" using flat_block [OF l b] wf assms(2) by simp
  define t where "t = s\<lparr>ms_values := take ?f (ms_values s) @ ms_values new @ drop (?f + length (ms_values new)) (ms_values s)\<rparr>"
  have run: "insert_values s as new is_strict = Some (t, Inr ())"
    using assms compare_dims_eq(1) [of "ms_route new" "ms_route new" is_strict] l b wf fits
    by (simp add: insert_values.simps check_correct_dims_eq get_initial_cell_eq slice_wf_def write_cells_eq t_def)
  have "cell t ks = (if take (length as) ks = as \<and> drop (length as) ks \<in> indices new then cell new (drop (length as) ks) else cell s ks)"
    if ks: "in_bounds (ms_route s) ks" for ks
  proof (cases "take (length as) ks = as")
    case True
    then obtain js where js: "ks = as @ js" by (metis append_take_drop_id)
    have j: "in_bounds (ms_route new) js" using ks in_bounds_append [OF l] assms(2) by (simp add: js)
    have "flat (ms_route s) ks = ?f + flat (ms_route new) js" using flat_append [OF l] assms(2) by (simp add: js)
    then show ?thesis using flat_less [OF j] wf fits j by (simp add: js t_def cell_def indices_def nth_append)
  next
    case False
    have "flat (ms_route s) ks < ?f \<or> flat (ms_route s) ks \<ge> ?f + length (ms_values new)"
      using flat_prefix [OF l b ks] False wf assms(2) by force
    moreover have "flat (ms_route s) ks < length (ms_values s)" using flat_less [OF ks] wf by simp
    ultimately show ?thesis using False fits by (auto simp: t_def cell_def nth_append)
  qed
  moreover have "slice_wf t" using fits wf by (simp add: t_def slice_wf_def)
  ultimately show ?thesis using that [OF run] by (simp add: pasted_def t_def)
qed

lemma pasted_trans: "pasted s as new I t \<Longrightarrow> pasted t as new J u \<Longrightarrow> pasted s as new (I \<union> J) u"
  by (auto simp: pasted_def)

lemma pasted_none: "slice_wf s \<Longrightarrow> pasted s as new {} s"
  by (simp add: pasted_def)

lemma access_row:
  assumes "slice_wf new" and "ms_route new = n # rest" and "i < n"
  obtains row where "access_values new [i] = Some (Inr row)" and "ms_route row = rest" and "slice_wf row"
    and "\<And>js. in_bounds rest js \<Longrightarrow> cell row js = cell new (i # js)"
  using that access_values_eq [OF assms(1), of "[i]"] sub_slice [OF assms(1), of "[i]"] assms(2,3) by simp

text \<open>A row that is inserted below the access, or that is beyond the dimension.\<close>

lemma insert_row:
  assumes ins: "insertable s as new" and new: "ms_route new = n # rest" and "i < n"
    and row: "ms_route row = rest" "slice_wf row" "\<And>js. in_bounds rest js \<Longrightarrow> cell row js = cell new (i # js)"
    and IH: "insertable s (as @ [i]) row \<Longrightarrow> \<exists>t r. insert_values s (as @ [i]) row False = Some (t, r) \<and> pasted s (as @ [i]) row (indices row) t"
  shows "\<exists>t r. insert_values s (as @ [i]) row False = Some (t, r) \<and> pasted s as new {i # js |js. in_bounds rest js} t"
proof -
  obtain d route where d: "drop (length as) (ms_route s) = d # route" "length route = length rest"
    using ins new by (cases "drop (length as) (ms_route s)") (auto simp: insertable_def dest: arg_cong [where f = length])
  have l: "length as < length (ms_route s)" and wf: "slice_wf s" using ins new by (auto simp: insertable_def)
  have nth: "ms_route s ! length as = d" using d(1) l by (metis nth_via_drop)
  have take: "take (Suc (length as)) (ms_route s) = take (length as) (ms_route s) @ [d]" using l nth by (simp add: take_Suc_conv_app_nth)
  have b: "in_bounds (take (Suc (length as)) (ms_route s)) (as @ [i]) \<longleftrightarrow> i < d"
    using ins l in_bounds_append [of as "take (Suc (length as)) (ms_route s)" "[i]"] by (simp add: take insertable_def)
  show ?thesis
  proof (cases "i < d")
    case True
    then have "insertable s (as @ [i]) row" using ins new row b by (simp add: insertable_def)
    then obtain t r where t: "insert_values s (as @ [i]) row False = Some (t, r)" "pasted s (as @ [i]) row (indices row) t"
      using IH by blast
    have "take (length (as @ [i])) ks = as @ [i] \<and> drop (length (as @ [i])) ks \<in> indices row \<longleftrightarrow>
        take (length as) ks = as \<and> drop (length as) ks \<in> {i # js |js. in_bounds rest js}" if "in_bounds (ms_route s) ks" for ks
    proof -
      have "length as < length ks" using in_bounds_length [OF that] l by simp
      then have "take (length (as @ [i])) ks = take (length as) ks @ [ks ! length as]" "drop (length as) ks = ks ! length as # drop (length (as @ [i])) ks"
        by (simp_all add: take_Suc_conv_app_nth Cons_nth_drop_Suc)
      then show ?thesis by (auto simp: indices_def row(1))
    qed
    moreover have "cell row (drop (length (as @ [i])) ks) = cell new (drop (length as) ks)"
      if h: "drop (length as) ks \<in> {i # js |js. in_bounds rest js}" for ks
    proof -
      obtain js where js: "drop (length as) ks = i # js" "in_bounds rest js" using h by blast
      then have "drop (length (as @ [i])) ks = js" by (metis drop_Suc length_append_singleton list.sel(3) tl_drop)
      then show ?thesis using js row(3) by simp
    qed
    ultimately have "pasted s as new {i # js |js. in_bounds rest js} t" using t(2) unfolding pasted_def by force
    then show ?thesis using t(1) by blast
  next
    case False
    have "check_correct_dims s (as @ [i]) row False = Inl OutOfBoundsError"
      using False b ins new row(1) by (auto simp: check_correct_dims_def access_in_route_bounds insertable_def)
    then have "insert_values s (as @ [i]) row False = Some (s, Inl OutOfBoundsError)" by (simp add: insert_values.simps)
    moreover have "pasted s as new {i # js |js. in_bounds rest js} s"
    proof -
      have "\<not> (take (length as) ks = as \<and> drop (length as) ks \<in> {i # js |js. in_bounds rest js})" if "in_bounds (ms_route s) ks" for ks
      proof
        assume "take (length as) ks = as \<and> drop (length as) ks \<in> {i # js |js. in_bounds rest js}"
        then obtain js where "take (length as) ks = as" "drop (length as) ks = i # js" by blast
        then have "ks = as @ i # js" by (metis append_take_drop_id)
        then show False using that False l d(1) in_bounds_append [of as "ms_route s" "i # js"] by simp
      qed
      then show ?thesis using wf by (auto simp: pasted_def)
    qed
    ultimately show ?thesis by blast
  qed
qed

definition weak_result :: "'c memory_slice \<Rightarrow> nat list \<Rightarrow> 'c memory_slice \<Rightarrow> bool \<Rightarrow> memory_error + unit \<Rightarrow> bool" where
  "weak_result s as new is_strict r \<longleftrightarrow>
     (if ms_route new = drop (length as) (ms_route s) then r = Inr ()
      else \<exists>d e. r = Inl (if is_strict then MismatchedDimensions d e else MismatchedDimensionsWeak d e))"

lemma insertable_pasted: "insertable s as new \<Longrightarrow> pasted s as new J t \<Longrightarrow> insertable t as new"
  by (simp add: insertable_def pasted_def)

lemma insert_values_weak:
  assumes "insertable s as new"
  shows "\<exists>t r. insert_values s as new False = Some (t, r) \<and> pasted s as new (indices new) t \<and> weak_result s as new False r"
  using assms
proof (induction "length (ms_route new)" arbitrary: s as new)
  case 0
  then have "ms_route new = drop (length as) (ms_route s)" by (simp add: insertable_def)
  then show ?case using insert_same [OF 0(2)] by (metis weak_result_def)
next
  case (Suc m)
  obtain n rest where new: "ms_route new = n # rest" using Suc.hyps(2) by (cases "ms_route new") auto
  have wf: "slice_wf new" using Suc.prems by (simp add: insertable_def)
  have rows: "\<exists>t. insert_rows s as new False i n = Some (t, Inr ()) \<and> pasted s as new {j # js |j js. i \<le> j \<and> j < n \<and> in_bounds rest js} t"
    if "insertable s as new" "i \<le> n" for s i
    using that
  proof (induction "n - i" arbitrary: s i)
    case 0
    then have "{j # js |j js. i \<le> j \<and> j < n \<and> in_bounds rest js} = {}" by auto
    moreover have "pasted s as new {} s" using 0 by (intro pasted_none) (simp add: insertable_def)
    ultimately show ?case using 0 by (simp only:) (simp add: insert_rows.simps)
  next
    case (Suc k)
    have less: "i < n" and k: "k = n - (i + 1)" using Suc.hyps(2) by simp_all
    obtain row where row: "access_values new [i] = Some (Inr row)" "ms_route row = rest" "slice_wf row"
      "\<And>js. in_bounds rest js \<Longrightarrow> cell row js = cell new (i # js)" using access_row [OF wf new less] by blast
    have "m = length (ms_route row)" using row(2) new \<open>Suc m = length (ms_route new)\<close> by simp
    then obtain t r where t: "insert_values s (as @ [i]) row False = Some (t, r)" "pasted s as new {i # js |js. in_bounds rest js} t"
      using insert_row [OF Suc.prems(1) new less row(2,3,4)] \<open>\<And>new s as. m = length (ms_route new) \<Longrightarrow> insertable s as new \<Longrightarrow> _\<close> by blast
    obtain u where u: "insert_rows t as new False (i + 1) n = Some (u, Inr ())"
      "pasted t as new {j # js |j js. i + 1 \<le> j \<and> j < n \<and> in_bounds rest js} u"
      using Suc.hyps(1) [OF k insertable_pasted [OF Suc.prems(1) t(2)]] less by auto
    have "{i # js |js. in_bounds rest js} \<union> {j # js |j js. i + 1 \<le> j \<and> j < n \<and> in_bounds rest js}
        = {j # js |j js. i \<le> j \<and> j < n \<and> in_bounds rest js}" using less by (auto simp: Suc_le_eq le_less)
    then show ?case using pasted_trans [OF t(2) u(2)] u(1) row(1) t(1) less by (subst insert_rows.simps) simp
  qed
  show ?case
  proof (cases "ms_route new = drop (length as) (ms_route s)")
    case True
    then show ?thesis using insert_same [OF Suc.prems] by (metis weak_result_def)
  next
    case False
    have "length (ms_route new) = length (drop (length as) (ms_route s))" using Suc.prems by (auto simp: insertable_def)
    then obtain d e where "check_correct_dims s as new False = Inl (MismatchedDimensionsWeak d e)"
      using compare_dims_eq(2) False check_correct_dims_eq [OF Suc.prems] by (metis (full_types))
    moreover have "{j # js |j js. 0 \<le> j \<and> j < n \<and> in_bounds rest js} = indices new"
      by (auto simp: indices_def new) (metis in_bounds_simps(1) in_bounds_simps(3) list.exhaust list.distinct(1) in_bounds_simps(2))
    ultimately show ?thesis using rows [OF Suc.prems, of 0] False new by (auto simp: insert_values.simps weak_result_def)
  qed
qed

section \<open>Indices\<close>

lemma access_index_loop_ok:
  "index < prod_list route \<Longrightarrow> \<exists>ks. access_index_loop route (prod_list route) index = Some ks \<and> in_bounds route ks \<and> flat route ks = index"
proof (induction route arbitrary: index)
  case (Cons r route)
  let ?P = "prod_list route"
  have pos: "r > 0" "?P > 0" using Cons.prems by (auto intro: Nat.gr0I)
  have "index mod ?P < ?P" using pos by simp
  then obtain ks where "access_index_loop route ?P (index mod ?P) = Some ks" "in_bounds route ks" "flat route ks = index mod ?P"
    using Cons.IH by blast
  moreover have "index div ?P < r" using Cons.prems by (simp add: less_mult_imp_div_less)
  ultimately show ?case using pos by simp
qed simp

section \<open>Properties\<close>

text \<open>C20: Reading: an access in bounds returns the slice of the remaining dimensions, whose cell at every index is the
  cell of the whole at the access and the index; any other access is \<open>OutOfBoundsError\<close>. It never panics.\<close>

theorem access_values_correct:
  assumes "slice_wf s"
  shows "if length as \<le> length (ms_route s) \<and> in_bounds (take (length as) (ms_route s)) as
    then \<exists>t. access_values s as = Some (Inr t) \<and> slice_wf t \<and> ms_route t = drop (length as) (ms_route s) \<and>
      (\<forall>ks. in_bounds (ms_route t) ks \<longrightarrow> cell t ks = cell s (as @ ks))
    else access_values s as = Some (Inl OutOfBoundsError)"
  using access_values_eq [OF assms, of as] sub_slice [OF assms, of as] by auto

theorem access_values_correct_witness:
  "\<exists>t. access_values \<lparr>ms_route = [2, 3], ms_values = [0, 1, 2, 3, 4, 5 :: nat]\<rparr> [1] = Some (Inr t) \<and> ms_route t = [3]"
  using access_values_correct [of "\<lparr>ms_route = [2, 3], ms_values = [0, 1, 2, 3, 4, 5 :: nat]\<rparr>" "[1]"]
  by (auto simp: slice_wf_def)

text \<open>C19: Writing: an insertion at an access that leaves the dimensions of the values ends without a panic and keeps
  the dimensions. If these agree it succeeds; otherwise it is an error, and the error of a weak insertion has
  written all the cells that both have. No other cell changes. A strict insertion that fails changes nothing.\<close>

theorem insert_values_correct:
  assumes "slice_wf s" and "slice_wf new" and "length as + length (ms_route new) = length (ms_route s)"
    and "in_bounds (take (length as) (ms_route s)) as"
  shows "\<exists>t r. insert_values s as new is_strict = Some (t, r) \<and> weak_result s as new is_strict r \<and>
    (if is_strict \<and> r \<noteq> Inr () then t = s
     else ms_route t = ms_route s \<and> slice_wf t \<and> (\<forall>ks. in_bounds (ms_route s) ks \<longrightarrow>
       cell t ks = (if take (length as) ks = as \<and> in_bounds (ms_route new) (drop (length as) ks)
         then cell new (drop (length as) ks) else cell s ks)))"
proof -
  have ins: "insertable s as new" using assms by (simp add: insertable_def)
  show ?thesis
  proof (cases "is_strict \<and> ms_route new \<noteq> drop (length as) (ms_route s)")
    case True
    have "length (ms_route new) = length (drop (length as) (ms_route s))" using assms(3) by simp
    then obtain d e where "check_correct_dims s as new is_strict = Inl (MismatchedDimensions d e)"
      using compare_dims_eq(2) True check_correct_dims_eq [OF ins] by (metis (full_types))
    then show ?thesis using True by (auto simp: insert_values.simps weak_result_def)
  next
    case False
    have "\<exists>t r. insert_values s as new is_strict = Some (t, r) \<and> pasted s as new (indices new) t \<and> weak_result s as new is_strict r"
    proof (cases is_strict)
      case True
      then have same: "ms_route new = drop (length as) (ms_route s)" using False by simp
      show ?thesis by (rule insert_same [OF ins same, of is_strict]) (auto simp: weak_result_def same)
    next
      case False
      then show ?thesis using insert_values_weak [OF ins] by simp
    qed
    then obtain t r where t: "insert_values s as new is_strict = Some (t, r)" "pasted s as new (indices new) t"
      "weak_result s as new is_strict r" by blast
    have "\<not> (is_strict \<and> r \<noteq> Inr ())" using t(3) False by (auto simp: weak_result_def)
    then show ?thesis using t unfolding pasted_def indices_def mem_Collect_eq by (intro exI [of _ t] exI [of _ r]) auto
  qed
qed

theorem insert_values_correct_witness:
  "\<exists>t d e. insert_values (new_with_route [2, 3] 0) [] (new_with_route [1, 4] (7 :: nat)) False
      = Some (t, Inl (MismatchedDimensionsWeak d e)) \<and> cell t [0, 2] = 7 \<and> cell t [1, 2] = 0"
proof -
  let ?s = "new_with_route [2, 3] 0 :: nat memory_slice" and ?n = "new_with_route [1, 4] 7 :: nat memory_slice"
  have wf: "slice_wf ?s" "slice_wf ?n" by (simp_all add: new_with_route_def slice_wf_def)
  obtain t r where t: "insert_values ?s [] ?n False = Some (t, r)" "weak_result ?s [] ?n False r"
      "\<forall>ks. in_bounds (ms_route ?s) ks \<longrightarrow> cell t ks = (if in_bounds (ms_route ?n) ks then cell ?n ks else cell ?s ks)"
    using insert_values_correct [OF wf, of "[]" False] by (auto simp: new_with_route_def)
  show ?thesis using t(1,2) t(3) [rule_format, of "[0, 2]"] t(3) [rule_format, of "[1, 2]"]
    by (auto simp: weak_result_def new_with_route_def cell_def)
qed

text \<open>The index of a cell and its access: below the number of cells \<open>get_access_index\<close> returns the access whose cell
  is the index, and \<open>get_initial_cell\<close> takes it back.\<close>

theorem access_index_round_trip:
  assumes "slice_wf s" and "index < get_number_of_cells s"
  shows "\<exists>ks. get_access_index s index = Some (Inr ks) \<and> in_bounds (ms_route s) ks \<and> get_initial_cell s ks = Inr index \<and>
    access_value_by_index s index = get_reference_to_single_value s ks"
proof -
  obtain ks where ks: "access_index_loop (ms_route s) (prod_list (ms_route s)) index = Some ks" "in_bounds (ms_route s) ks"
      "flat (ms_route s) ks = index"
    using access_index_loop_ok assms by (metis get_number_of_cells_def slice_wf_def)
  then show ?thesis using assms in_bounds_length [OF ks(2)]
    by (auto simp: get_access_index_def get_number_of_cells_def slice_wf_def get_initial_cell_eq get_reference_to_single_value_def
        access_value_by_index_def)
qed

theorem access_index_round_trip_witness:
  "\<exists>ks. get_access_index (new_with_route [2, 3] (0 :: nat)) 4 = Some (Inr ks) \<and> get_initial_cell (new_with_route [2, 3] (0 :: nat)) ks = Inr 4"
  using access_index_round_trip [of "new_with_route [2, 3] (0 :: nat)" 4]
  by (auto simp: new_with_route_def slice_wf_def get_number_of_cells_def)


end
