(* ===== verification/Program_Library.thy ===== *)
theory Program_Library
  imports Structural_Checks "HOL-Library.Multiset"
begin

text \<open>
  The definitions of a program, \<open>program_structure/src/program_library\<close>: the wires a template or a bus declares, the data
  of templates and buses, the merger of the definitions of all files, and the archive. The library of sources
  is a parameter. A \<open>HashMap\<close> is an association list, a \<open>HashSet\<close> that is only tested a set; \<open>None\<close> is a panic.
\<close>

section \<open>Wires\<close>

datatype wire_type = WireSignal | WireBus string

record wire_data =
  wd_type :: wire_type
  wd_dimension :: nat
  wd_tag_info :: "string set"

type_synonym wire_info = "(string, wire_data) hmap"
type_synonym wire_declaration_order = "(string \<times> nat) list"

definition wire_data_new :: "wire_type \<Rightarrow> nat \<Rightarrow> string set \<Rightarrow> wire_data" where
  "wire_data_new wire_type dimension tag_info = \<lparr>wd_type = wire_type, wd_dimension = dimension, wd_tag_info = tag_info\<rparr>"

definition contains_tag :: "wire_data \<Rightarrow> string \<Rightarrow> bool" where
  "contains_tag self name \<longleftrightarrow> name \<in> wd_tag_info self"

section \<open>Templates\<close>

text \<open>The four collections that \<open>fill_inputs_and_outputs\<close> takes mutably.\<close>

record io_wires =
  io_input_wires :: wire_info
  io_output_wires :: wire_info
  io_input_declarations :: wire_declaration_order
  io_output_declarations :: wire_declaration_order

definition fill_wire :: "signal_type \<Rightarrow> wire_type \<Rightarrow> string list \<Rightarrow> string \<Rightarrow> expression list \<Rightarrow> io_wires \<Rightarrow> io_wires" where
  "fill_wire stype wire_type tag_list name dimensions io =
     (let dim = length dimensions; data = wire_data_new wire_type dim (set tag_list)
      in case stype of
           Input \<Rightarrow> io\<lparr>io_input_wires := hm_insert name data (io_input_wires io),
             io_input_declarations := io_input_declarations io @ [(name, dim)]\<rparr>
         | Output \<Rightarrow> io\<lparr>io_output_wires := hm_insert name data (io_output_wires io),
             io_output_declarations := io_output_declarations io @ [(name, dim)]\<rparr>
         | Intermediate \<Rightarrow> io)"

fun fill_inputs_and_outputs :: "statement \<Rightarrow> io_wires \<Rightarrow> io_wires" where
  "fill_inputs_and_outputs (IfThenElse _ _ if_case else_case) io =
     (let io = fill_inputs_and_outputs if_case io
      in case else_case of Some else_value \<Rightarrow> fill_inputs_and_outputs else_value io | None \<Rightarrow> io)"
| "fill_inputs_and_outputs (Block _ stmts) io = fold fill_inputs_and_outputs stmts io"
| "fill_inputs_and_outputs (While _ _ stmt) io = fill_inputs_and_outputs stmt io"
| "fill_inputs_and_outputs (InitializationBlock _ _ initializations) io = fold fill_inputs_and_outputs initializations io"
| "fill_inputs_and_outputs (Declaration _ xtype name dimensions _ _) io =
     (case xtype of
        VSignal stype tag_list \<Rightarrow> fill_wire stype WireSignal tag_list name dimensions io
      | VBus tname stype tag_list \<Rightarrow> fill_wire stype (WireBus tname) tag_list name dimensions io
      | _ \<Rightarrow> io)"
| "fill_inputs_and_outputs _ io = io"

record template_data =
  td_file_id :: file_id
  td_name :: string
  td_body :: statement
  td_num_of_params :: nat
  td_name_of_params :: "string list"
  td_param_location :: file_location
  td_input_wires :: wire_info
  td_output_wires :: wire_info
  td_is_parallel :: bool
  td_is_custom_gate :: bool
  td_is_extern_c :: bool
  td_input_declarations :: wire_declaration_order
  td_output_declarations :: wire_declaration_order

definition template_data_copy ::
    "string \<Rightarrow> file_id \<Rightarrow> statement \<Rightarrow> nat \<Rightarrow> string list \<Rightarrow> file_location \<Rightarrow> wire_info \<Rightarrow> wire_info \<Rightarrow> bool \<Rightarrow> bool \<Rightarrow> bool
      \<Rightarrow> wire_declaration_order \<Rightarrow> wire_declaration_order \<Rightarrow> template_data" where
  "template_data_copy name file body num_of_params name_of_params param_location input_wires output_wires
       is_parallel is_custom_gate is_extern_c input_declarations output_declarations =
     \<lparr>td_file_id = file, td_name = name, td_body = body, td_num_of_params = num_of_params, td_name_of_params = name_of_params,
      td_param_location = param_location, td_input_wires = input_wires, td_output_wires = output_wires,
      td_is_parallel = is_parallel, td_is_custom_gate = is_custom_gate, td_is_extern_c = is_extern_c,
      td_input_declarations = input_declarations, td_output_declarations = output_declarations\<rparr>"

definition template_data_new ::
    "string \<Rightarrow> file_id \<Rightarrow> statement \<Rightarrow> nat \<Rightarrow> string list \<Rightarrow> file_location \<Rightarrow> nat \<Rightarrow> bool \<Rightarrow> bool \<Rightarrow> bool \<Rightarrow> template_data \<times> nat" where
  "template_data_new name file body num_of_params name_of_params param_location elem_id is_parallel is_custom_gate is_extern_c =
     (let (body, elem_id) = fill_statement file body elem_id;
          io = fill_inputs_and_outputs body
            \<lparr>io_input_wires = [], io_output_wires = [], io_input_declarations = [], io_output_declarations = []\<rparr>
      in (\<lparr>td_file_id = file, td_name = name, td_body = body, td_num_of_params = num_of_params, td_name_of_params = name_of_params,
           td_param_location = param_location, td_input_wires = io_input_wires io, td_output_wires = io_output_wires io,
           td_is_parallel = is_parallel, td_is_custom_gate = is_custom_gate, td_is_extern_c = is_extern_c,
           td_input_declarations = io_input_declarations io, td_output_declarations = io_output_declarations io\<rparr>, elem_id))"

definition template_get_body_as_vec :: "template_data \<Rightarrow> statement list option" where
  "template_get_body_as_vec self = (case td_body self of Block _ stmts \<Rightarrow> Some stmts | _ \<Rightarrow> None)"

definition get_input_info :: "template_data \<Rightarrow> string \<Rightarrow> wire_data option" where
  "get_input_info self name = map_of (td_input_wires self) name"

definition get_output_info :: "template_data \<Rightarrow> string \<Rightarrow> wire_data option" where
  "get_output_info self name = map_of (td_output_wires self) name"

section \<open>Buses and functions\<close>

record bus_data =
  bd_file_id :: file_id
  bd_name :: string
  bd_body :: statement
  bd_num_of_params :: nat
  bd_name_of_params :: "string list"
  bd_param_location :: file_location
  bd_fields :: wire_info
  bd_field_declarations :: wire_declaration_order

definition fill_field :: "wire_type \<Rightarrow> string list \<Rightarrow> string \<Rightarrow> expression list
    \<Rightarrow> wire_info \<times> wire_declaration_order \<Rightarrow> wire_info \<times> wire_declaration_order" where
  "fill_field wire_type tag_list name dimensions =
     (\<lambda>(fields_info, field_declarations).
        let dim = length dimensions; field_data = wire_data_new wire_type dim (set tag_list)
        in (hm_insert name field_data fields_info, field_declarations @ [(name, dim)]))"

fun fill_fields :: "statement \<Rightarrow> wire_info \<times> wire_declaration_order \<Rightarrow> wire_info \<times> wire_declaration_order" where
  "fill_fields (Block _ stmts) fs = fold fill_fields stmts fs"
| "fill_fields (InitializationBlock _ _ stmts) fs = fold fill_fields stmts fs"
| "fill_fields (Declaration _ xtype name dimensions _ _) fs =
     (case xtype of
        VSignal stype tag_list \<Rightarrow> if stype = Intermediate then fill_field WireSignal tag_list name dimensions fs else fs
      | VBus tname stype tag_list \<Rightarrow> if stype = Intermediate then fill_field (WireBus tname) tag_list name dimensions fs else fs
      | _ \<Rightarrow> fs)"
| "fill_fields _ fs = fs"

definition bus_data_copy ::
    "file_id \<Rightarrow> string \<Rightarrow> statement \<Rightarrow> nat \<Rightarrow> string list \<Rightarrow> file_location \<Rightarrow> wire_info \<Rightarrow> wire_declaration_order \<Rightarrow> bus_data" where
  "bus_data_copy file name body num_of_params name_of_params param_location fields_info field_declarations =
     \<lparr>bd_file_id = file, bd_name = name, bd_body = body, bd_num_of_params = num_of_params, bd_name_of_params = name_of_params,
      bd_param_location = param_location, bd_fields = fields_info, bd_field_declarations = field_declarations\<rparr>"

definition bus_data_new ::
    "file_id \<Rightarrow> string \<Rightarrow> statement \<Rightarrow> nat \<Rightarrow> string list \<Rightarrow> file_location \<Rightarrow> nat \<Rightarrow> bus_data \<times> nat" where
  "bus_data_new file name body num_of_params name_of_params param_location elem_id =
     (let (body, elem_id) = fill_statement file body elem_id; (fields_info, field_declarations) = fill_fields body ([], [])
      in (\<lparr>bd_file_id = file, bd_name = name, bd_body = body, bd_num_of_params = num_of_params, bd_name_of_params = name_of_params,
           bd_param_location = param_location, bd_fields = fields_info, bd_field_declarations = field_declarations\<rparr>, elem_id))"

definition bus_get_body_as_vec :: "bus_data \<Rightarrow> statement list option" where
  "bus_get_body_as_vec self = (case bd_body self of Block _ stmts \<Rightarrow> Some stmts | _ \<Rightarrow> None)"

definition get_field_info :: "bus_data \<Rightarrow> string \<Rightarrow> wire_data option" where
  "get_field_info self name = map_of (bd_fields self) name"

definition function_get_body_as_vec :: "function_data \<Rightarrow> statement list option" where
  "function_get_body_as_vec self = (case fd_body self of Block _ stmts \<Rightarrow> Some stmts | _ \<Rightarrow> None)"

section \<open>Merging the definitions\<close>

datatype program_definition =
    DTemplate meta string "string list" file_location statement bool bool bool
  | DFunction meta string "string list" file_location statement
  | DBus meta string "string list" file_location statement

record merger =
  mg_fresh_id :: nat
  mg_function_info :: "(string, function_data) hmap"
  mg_template_info :: "(string, template_data) hmap"
  mg_bus_info :: "(string, bus_data) hmap"

definition merger_new :: merger where
  "merger_new = \<lparr>mg_fresh_id = 0, mg_function_info = [], mg_template_info = [], mg_bus_info = []\<rparr>"

definition merger_contains :: "merger \<Rightarrow> string \<Rightarrow> bool" where
  "merger_contains self name \<longleftrightarrow> hm_contains (mg_function_info self) name \<or> hm_contains (mg_template_info self) name
     \<or> hm_contains (mg_bus_info self) name"

text \<open>One iteration: the merger, and the name and element of a definition whose name is taken.\<close>

definition add_definition :: "file_id \<Rightarrow> program_definition \<Rightarrow> merger \<Rightarrow> merger \<times> (string option \<times> meta)" where
  "add_definition file d self =
     (case d of
        DTemplate meta name args arg_location body parallel is_custom_gate is_extern_c \<Rightarrow>
          if merger_contains self name then (self, (Some name, meta))
          else let (new_data, fresh_id) = template_data_new name file body (length args) args arg_location (mg_fresh_id self)
                     parallel is_custom_gate is_extern_c
               in (self\<lparr>mg_fresh_id := fresh_id, mg_template_info := hm_insert name new_data (mg_template_info self)\<rparr>, (None, meta))
      | DFunction meta name args arg_location body \<Rightarrow>
          if merger_contains self name then (self, (Some name, meta))
          else let (new_data, fresh_id) = function_data_new name file body (length args) args arg_location (mg_fresh_id self)
               in (self\<lparr>mg_fresh_id := fresh_id, mg_function_info := hm_insert name new_data (mg_function_info self)\<rparr>, (None, meta))
      | DBus meta name args arg_location body \<Rightarrow>
          if merger_contains self name then (self, (Some name, meta))
          else let (new_data, fresh_id) = bus_data_new file name body (length args) args arg_location (mg_fresh_id self)
               in (self\<lparr>mg_fresh_id := fresh_id, mg_bus_info := hm_insert name new_data (mg_bus_info self)\<rparr>, (None, meta)))"

fun add_definitions_loop :: "file_id \<Rightarrow> program_definition list \<Rightarrow> merger \<Rightarrow> report list \<Rightarrow> merger \<times> report list" where
  "add_definitions_loop file [] self reports = (self, reports)"
| "add_definitions_loop file (d # ds) self reports =
     (let (self, (name, meta)) = add_definition file d self
      in add_definitions_loop file ds self
           (case name of
              Some definition_name \<Rightarrow> reports @ [add_primary (meta_file_location meta) file (definition_name @ '' is already in use'')
                (report_error ''Duplicated callable symbol'' SameSymbolDeclaredTwice)]
            | None \<Rightarrow> reports))"

definition add_definitions :: "file_id \<Rightarrow> program_definition list \<Rightarrow> merger \<Rightarrow> merger \<times> (report list + unit)" where
  "add_definitions file definitions self =
     (let (self, reports) = add_definitions_loop file definitions self []
      in (self, if reports = [] then Inr () else Inl reports))"

section \<open>The archive\<close>

type_synonym main_component = "string list \<times> expression"

record 'lib program_archive =
  pa_id_max :: nat
  pa_file_id_main :: file_id
  pa_file_library :: 'lib
  pa_functions :: "(string, function_data) hmap"
  pa_templates :: "(string, template_data) hmap"
  pa_buses :: "(string, bus_data) hmap"
  pa_function_keys :: "string set"
  pa_template_keys :: "string set"
  pa_bus_keys :: "string set"
  pa_public_inputs :: "string list"
  pa_initial_template_call :: expression
  pa_custom_gates :: bool

fun merge_contents :: "(file_id \<times> program_definition list) list \<Rightarrow> merger \<Rightarrow> report list \<Rightarrow> merger \<times> report list" where
  "merge_contents [] merger reports = (merger, reports)"
| "merge_contents ((file, definitions) # contents) merger reports =
     (let (merger, result) = add_definitions file definitions merger
      in merge_contents contents merger (case result of Inl errs \<Rightarrow> reports @ errs | Inr _ \<Rightarrow> reports))"

definition program_archive_new ::
    "'lib \<Rightarrow> file_id \<Rightarrow> main_component \<Rightarrow> (file_id \<times> program_definition list) list \<Rightarrow> bool
      \<Rightarrow> ('lib \<times> report list) + 'lib program_archive" where
  "program_archive_new file_library file_id_main main_component program_contents custom_gates =
     (let (merger, reports) = merge_contents program_contents merger_new [];
          (public_inputs, initial_template_call) = main_component;
          (initial_template_call, fresh_id) = fill_expression file_id_main initial_template_call (mg_fresh_id merger)
      in if reports = [] then
           Inr \<lparr>pa_id_max = fresh_id, pa_file_id_main = file_id_main, pa_file_library = file_library,
             pa_functions = mg_function_info merger, pa_templates = mg_template_info merger, pa_buses = mg_bus_info merger,
             pa_function_keys = keys_of (mg_function_info merger), pa_template_keys = keys_of (mg_template_info merger),
             pa_bus_keys = keys_of (mg_bus_info merger), pa_public_inputs = public_inputs,
             pa_initial_template_call = initial_template_call, pa_custom_gates = custom_gates\<rparr>
         else Inl (file_library, reports))"

definition contains_template :: "'lib program_archive \<Rightarrow> string \<Rightarrow> bool" where
  "contains_template self template_name \<longleftrightarrow> hm_contains (pa_templates self) template_name"

definition get_template_data :: "'lib program_archive \<Rightarrow> string \<Rightarrow> template_data option" where
  "get_template_data self template_name = map_of (pa_templates self) template_name"

definition remove_template :: "string \<Rightarrow> 'lib program_archive \<Rightarrow> 'lib program_archive" where
  "remove_template name self =
     self\<lparr>pa_template_keys := pa_template_keys self - {name}, pa_templates := hm_remove name (pa_templates self)\<rparr>"

definition contains_function :: "'lib program_archive \<Rightarrow> string \<Rightarrow> bool" where
  "contains_function self function_name \<longleftrightarrow> hm_contains (pa_functions self) function_name"

definition get_function_data :: "'lib program_archive \<Rightarrow> string \<Rightarrow> function_data option" where
  "get_function_data self function_name = map_of (pa_functions self) function_name"

definition remove_function :: "string \<Rightarrow> 'lib program_archive \<Rightarrow> 'lib program_archive" where
  "remove_function name self =
     self\<lparr>pa_function_keys := pa_function_keys self - {name}, pa_functions := hm_remove name (pa_functions self)\<rparr>"

definition contains_bus :: "'lib program_archive \<Rightarrow> string \<Rightarrow> bool" where
  "contains_bus self bus_name \<longleftrightarrow> hm_contains (pa_buses self) bus_name"

definition get_bus_data :: "'lib program_archive \<Rightarrow> string \<Rightarrow> bus_data option" where
  "get_bus_data self bus_name = map_of (pa_buses self) bus_name"

definition remove_bus :: "string \<Rightarrow> 'lib program_archive \<Rightarrow> 'lib program_archive" where
  "remove_bus name self =
     self\<lparr>pa_bus_keys := pa_bus_keys self - {name}, pa_buses := hm_remove name (pa_buses self)\<rparr>"

section \<open>Numbers of elements\<close>

definition body_ids :: "statement \<Rightarrow> nat list" where
  "body_ids s = map mt_elem_id (statement_metas s)"

definition merger_ids :: "merger \<Rightarrow> nat multiset" where
  "merger_ids m = mset (concat (map (body_ids \<circ> fd_body \<circ> snd) (mg_function_info m)))
     + mset (concat (map (body_ids \<circ> td_body \<circ> snd) (mg_template_info m)))
     + mset (concat (map (body_ids \<circ> bd_body \<circ> snd) (mg_bus_info m)))"

definition in_file :: "file_id \<Rightarrow> statement \<Rightarrow> bool" where
  "in_file file s \<longleftrightarrow> (\<forall>meta \<in> set (statement_metas s). get_file_id meta = Some file)"

definition archive_entries ::
    "(string, function_data) hmap \<Rightarrow> (string, template_data) hmap \<Rightarrow> (string, bus_data) hmap \<Rightarrow> bool" where
  "archive_entries fs ts bs \<longleftrightarrow>
     (\<forall>(name, fd) \<in> set fs. fd_name fd = name \<and> in_file (fd_file_id fd) (fd_body fd)) \<and>
     (\<forall>(name, td) \<in> set ts. td_name td = name \<and> in_file (td_file_id td) (td_body td)) \<and>
     (\<forall>(name, bd) \<in> set bs. bd_name bd = name \<and> in_file (bd_file_id bd) (bd_body bd))"

definition merger_ok :: "merger \<Rightarrow> bool" where
  "merger_ok m \<longleftrightarrow> distinct (hm_keys (mg_function_info m) @ hm_keys (mg_template_info m) @ hm_keys (mg_bus_info m)) \<and>
     merger_ids m = mset [0..<mg_fresh_id m] \<and> archive_entries (mg_function_info m) (mg_template_info m) (mg_bus_info m)"

definition definition_name :: "program_definition \<Rightarrow> string" where
  "definition_name d = (case d of DTemplate _ name _ _ _ _ _ _ \<Rightarrow> name | DFunction _ name _ _ _ \<Rightarrow> name | DBus _ name _ _ _ \<Rightarrow> name)"

definition merger_names :: "merger \<Rightarrow> string set" where
  "merger_names m = keys_of (mg_function_info m) \<union> keys_of (mg_template_info m) \<union> keys_of (mg_bus_info m)"

lemma merger_contains_names: "merger_contains m name \<longleftrightarrow> name \<in> merger_names m"
  by (simp add: merger_contains_def merger_names_def hm_contains_set)

lemma filled_body:
  assumes "fill_statement file body n = (body', m)"
  shows "mset (body_ids body') = mset [n..<m]" "n \<le> m" "in_file file body'"
  using fill_statement_numbered(1) [OF assms] by (auto simp: numbered_def body_ids_def in_file_def get_file_id_def)

lemma mset_upt_add: "n \<le> m \<Longrightarrow> mset [0..<m] = mset [0..<n] + mset [n..<m]"
  using upt_add_eq_append [of 0 n "m - n"] by (metis le_add_diff_inverse mset_append zero_le)

lemma archive_entries_append:
  "archive_entries (fs @ [(k, fd)]) ts bs \<longleftrightarrow> archive_entries fs ts bs \<and> fd_name fd = k \<and> in_file (fd_file_id fd) (fd_body fd)"
  "archive_entries fs (ts @ [(k, td)]) bs \<longleftrightarrow> archive_entries fs ts bs \<and> td_name td = k \<and> in_file (td_file_id td) (td_body td)"
  "archive_entries fs ts (bs @ [(k, bd)]) \<longleftrightarrow> archive_entries fs ts bs \<and> bd_name bd = k \<and> in_file (bd_file_id bd) (bd_body bd)"
  unfolding archive_entries_def set_append by (auto split: prod.split)

text \<open>A definition is added under a new name.\<close>

lemma merger_ok_append:
  assumes "merger_ok m" and "name \<notin> merger_names m" and "fill_statement file body (mg_fresh_id m) = (body', n)"
  shows "fd_name fd = name \<Longrightarrow> fd_file_id fd = file \<Longrightarrow> fd_body fd = body' \<Longrightarrow>
      merger_ok (m\<lparr>mg_fresh_id := n, mg_function_info := mg_function_info m @ [(name, fd)]\<rparr>)"
    and "td_name td = name \<Longrightarrow> td_file_id td = file \<Longrightarrow> td_body td = body' \<Longrightarrow>
      merger_ok (m\<lparr>mg_fresh_id := n, mg_template_info := mg_template_info m @ [(name, td)]\<rparr>)"
    and "bd_name bd = name \<Longrightarrow> bd_file_id bd = file \<Longrightarrow> bd_body bd = body' \<Longrightarrow>
      merger_ok (m\<lparr>mg_fresh_id := n, mg_bus_info := mg_bus_info m @ [(name, bd)]\<rparr>)"
proof -
  note body = filled_body [OF assms(3)]
  have keys: "distinct (hm_keys (mg_function_info m) @ hm_keys (mg_template_info m) @ hm_keys (mg_bus_info m))"
    and entries: "archive_entries (mg_function_info m) (mg_template_info m) (mg_bus_info m)"
    and ids: "merger_ids m = mset [0..<mg_fresh_id m]"
    using assms(1) by (simp_all add: merger_ok_def)
  have fresh: "name \<notin> set (hm_keys (mg_function_info m))" "name \<notin> set (hm_keys (mg_template_info m))" "name \<notin> set (hm_keys (mg_bus_info m))"
    using assms(2) by (simp_all add: merger_names_def)
  have n: "merger_ids m + mset (body_ids body') = mset [0..<n]" using ids body mset_upt_add [of "mg_fresh_id m" n] by simp
  have keys_append: "hm_keys (xs @ [(k, x)]) = hm_keys xs @ [k]" for xs :: "(string, 'x) hmap" and k x by (simp add: hm_keys_def)
  show "merger_ok (m\<lparr>mg_fresh_id := n, mg_function_info := mg_function_info m @ [(name, fd)]\<rparr>)"
    if "fd_name fd = name" "fd_file_id fd = file" "fd_body fd = body'"
    unfolding merger_ok_def using that keys fresh entries body(3) n
    by (simp add: archive_entries_append keys_append merger_ids_def ac_simps del: mset_upt distinct_hm_keys set_hm_keys; auto)
  show "merger_ok (m\<lparr>mg_fresh_id := n, mg_template_info := mg_template_info m @ [(name, td)]\<rparr>)"
    if "td_name td = name" "td_file_id td = file" "td_body td = body'"
    unfolding merger_ok_def using that keys fresh entries body(3) n
    by (simp add: archive_entries_append keys_append merger_ids_def ac_simps del: mset_upt distinct_hm_keys set_hm_keys; auto)
  show "merger_ok (m\<lparr>mg_fresh_id := n, mg_bus_info := mg_bus_info m @ [(name, bd)]\<rparr>)"
    if "bd_name bd = name" "bd_file_id bd = file" "bd_body bd = body'"
    unfolding merger_ok_def using that keys fresh entries body(3) n
    by (simp add: archive_entries_append keys_append merger_ids_def ac_simps del: mset_upt distinct_hm_keys set_hm_keys)
qed

lemma add_definition_ok:
  assumes "merger_ok m" and "add_definition file d m = (m', (name, meta))"
  shows "merger_ok m' \<and> merger_names m' = insert (definition_name d) (merger_names m)
    \<and> (name = None \<longleftrightarrow> definition_name d \<notin> merger_names m)"
proof (cases "definition_name d \<in> merger_names m")
  case True
  then have "m' = m \<and> name \<noteq> None"
    using assms(2) by (cases d) (auto simp: add_definition_def merger_contains_names definition_name_def)
  then show ?thesis using assms(1) True by (auto simp: insert_absorb)
next
  case False
  then have new: "\<not> hm_contains (mg_function_info m) (definition_name d)" "\<not> hm_contains (mg_template_info m) (definition_name d)"
    "\<not> hm_contains (mg_bus_info m) (definition_name d)" by (simp_all add: merger_names_def hm_contains_set)
  have contains: "\<not> merger_contains m (definition_name d)" using False by (simp add: merger_contains_names)
  obtain body' n where f: "fill_statement file (case d of DTemplate _ _ _ _ body _ _ _ \<Rightarrow> body | DFunction _ _ _ _ body \<Rightarrow> body | DBus _ _ _ _ body \<Rightarrow> body)
      (mg_fresh_id m) = (body', n)" by fastforce
  note ok = merger_ok_append [OF assms(1) False f]
  show ?thesis
  proof (cases d)
    case (DTemplate dmeta nm args loc body parallel cg ec)
    then have "name = None" "m' = m\<lparr>mg_fresh_id := n, mg_template_info := mg_template_info m @ [(nm, fst (template_data_new nm file body (length args) args loc (mg_fresh_id m) parallel cg ec))]\<rparr>"
      using assms(2) contains f new by (simp_all add: add_definition_def definition_name_def template_data_new_def Let_def hm_insert_append)
    then show ?thesis using ok(2) f DTemplate by (simp add: definition_name_def template_data_new_def Let_def merger_names_def) (use False in \<open>simp add: DTemplate definition_name_def merger_names_def\<close>)
  next
    case (DFunction dmeta nm args loc body)
    then have "name = None" "m' = m\<lparr>mg_fresh_id := n, mg_function_info := mg_function_info m @ [(nm, fst (function_data_new nm file body (length args) args loc (mg_fresh_id m)))]\<rparr>"
      using assms(2) contains f new by (simp_all add: add_definition_def definition_name_def function_data_new_def Let_def hm_insert_append)
    then show ?thesis using ok(1) f DFunction by (simp add: definition_name_def function_data_new_def Let_def merger_names_def) (use False in \<open>simp add: DFunction definition_name_def merger_names_def\<close>)
  next
    case (DBus dmeta nm args loc body)
    obtain fs ds where fill: "fill_fields body' ([], []) = (fs, ds)" by fastforce
    then have "name = None" "m' = m\<lparr>mg_fresh_id := n, mg_bus_info := mg_bus_info m @ [(nm, fst (bus_data_new file nm body (length args) args loc (mg_fresh_id m)))]\<rparr>"
      using assms(2) contains f new DBus by (simp_all add: add_definition_def definition_name_def bus_data_new_def Let_def hm_insert_append)
    then show ?thesis using ok(3) f DBus fill by (simp add: definition_name_def bus_data_new_def Let_def merger_names_def) (use False in \<open>simp add: DBus definition_name_def merger_names_def\<close>)
  qed
qed

lemma finite_merger_names [simp]: "finite (merger_names m)"
  by (simp add: merger_names_def keys_of_def)

lemma add_definitions_loop_ok:
  "merger_ok m \<Longrightarrow> add_definitions_loop file ds m rs = (m', rs') \<Longrightarrow>
    merger_ok m' \<and> merger_names m' = merger_names m \<union> set (map definition_name ds) \<and>
    length rs' + card (merger_names m') = length rs + length ds + card (merger_names m)"
proof (induction ds arbitrary: m rs)
  case (Cons d ds)
  obtain m1 name meta where d: "add_definition file d m = (m1, (name, meta))" by (metis prod.exhaust)
  define rs1 where "rs1 = (case name of Some taken \<Rightarrow> rs @ [add_primary (meta_file_location meta) file
    (taken @ '' is already in use'') (report_error ''Duplicated callable symbol'' SameSymbolDeclaredTwice)] | None \<Rightarrow> rs)"
  have run: "add_definitions_loop file ds m1 rs1 = (m', rs')" using Cons.prems(2) d by (simp add: rs1_def)
  have ok: "merger_ok m1" "merger_names m1 = insert (definition_name d) (merger_names m)" "name = None \<longleftrightarrow> definition_name d \<notin> merger_names m"
    using add_definition_ok [OF Cons.prems(1) d] by simp_all
  have "length rs1 + card (merger_names m1) = length rs + 1 + card (merger_names m)"
    using ok(2,3) by (cases name) (simp_all add: rs1_def card_insert_if)
  then show ?case using Cons.IH [OF ok(1) run] ok(2) by auto
qed simp

lemma merge_contents_ok:
  "merger_ok m \<Longrightarrow> merge_contents contents m rs = (m', rs') \<Longrightarrow>
    merger_ok m' \<and> merger_names m' = merger_names m \<union> set (concat (map (map definition_name \<circ> snd) contents)) \<and>
    length rs' + card (merger_names m') = length rs + length (concat (map (map definition_name \<circ> snd) contents)) + card (merger_names m)"
proof (induction contents m rs arbitrary: m' rs' rule: merge_contents.induct)
  case (2 "file" ds contents m rs)
  obtain m1 rs1 where l: "add_definitions_loop file ds m [] = (m1, rs1)" by fastforce
  have run: "merge_contents contents m1 (rs @ rs1) = (m', rs')"
    using "2.prems"(2) l by (cases "rs1 = []") (simp_all add: add_definitions_def)
  note first = add_definitions_loop_ok [OF "2.prems"(1) l]
  have "(m1, if rs1 = [] then Inr () else Inl rs1) = add_definitions file ds m" by (simp add: add_definitions_def l)
  moreover have "(case (if rs1 = [] then Inr () else Inl rs1) of Inl errs \<Rightarrow> rs @ errs | Inr _ \<Rightarrow> rs) = rs @ rs1" by simp
  ultimately have rest: "merger_ok m' \<and> merger_names m' = merger_names m1 \<union> set (concat (map (map definition_name \<circ> snd) contents)) \<and>
    length rs' + card (merger_names m') = length (rs @ rs1) + length (concat (map (map definition_name \<circ> snd) contents)) + card (merger_names m1)"
    using "2.IH" first run by metis
  have "length rs' + card (merger_names m') = length rs + length (concat (map (map definition_name \<circ> snd) ((file, ds) # contents)))
      + card (merger_names m)" using conjunct2 [OF conjunct2 [OF first]] conjunct2 [OF conjunct2 [OF rest]] by simp
  then show ?case using first rest by (simp add: Un_assoc comp_def del: length_concat)
qed auto

lemma merger_new_ok: "merger_ok merger_new" "merger_names merger_new = {}"
  by (simp_all add: merger_ok_def merger_new_def merger_ids_def archive_entries_def merger_names_def hm_keys_def)

definition all_names :: "(file_id \<times> program_definition list) list \<Rightarrow> string list" where
  "all_names contents = concat (map (map definition_name \<circ> snd) contents)"

lemma merged_ok:
  assumes "merge_contents contents merger_new [] = (m, rs)"
  shows "merger_ok m" "merger_names m = set (all_names contents)" "length rs + card (set (all_names contents)) = length (all_names contents)"
  using merge_contents_ok [OF merger_new_ok(1) assms] merger_new_ok(2) unfolding all_names_def by (metis Un_empty_left add.right_neutral card.empty add_0 list.size(3))+

definition archive_ids :: "'lib program_archive \<Rightarrow> nat multiset" where
  "archive_ids a = mset (concat (map (body_ids \<circ> fd_body \<circ> snd) (pa_functions a)))
     + mset (concat (map (body_ids \<circ> td_body \<circ> snd) (pa_templates a)))
     + mset (concat (map (body_ids \<circ> bd_body \<circ> snd) (pa_buses a)))
     + mset (map mt_elem_id (expression_metas (pa_initial_template_call a)))"

lemma archive_ok:
  assumes "program_archive_new file_library file_id_main main_component contents custom_gates = Inr a"
  shows "archive_ids a = mset [0..<pa_id_max a]" and "archive_entries (pa_functions a) (pa_templates a) (pa_buses a)"
    and "distinct (hm_keys (pa_functions a) @ hm_keys (pa_templates a) @ hm_keys (pa_buses a))"
    and "set (hm_keys (pa_functions a) @ hm_keys (pa_templates a) @ hm_keys (pa_buses a)) = set (all_names contents)"
    and "distinct (all_names contents)"
proof -
  obtain m rs where m: "merge_contents contents merger_new [] = (m, rs)" by fastforce
  obtain public e where mc: "main_component = (public, e)" by fastforce
  obtain e' n where e: "fill_expression file_id_main e (mg_fresh_id m) = (e', n)" by fastforce
  have a: "rs = []" "pa_functions a = mg_function_info m" "pa_templates a = mg_template_info m" "pa_buses a = mg_bus_info m"
      "pa_id_max a = n" "pa_initial_template_call a = e'"
    using assms m mc e by (auto simp: program_archive_new_def split: if_splits)
  have num: "mset (map mt_elem_id (expression_metas e')) = mset [mg_fresh_id m..<n]" "mg_fresh_id m \<le> n"
    using fill_expression_numbered(1) [OF e] by (simp_all add: numbered_def)
  note ok = merged_ok [OF m]
  have ids: "merger_ids m = mset [0..<mg_fresh_id m]" using ok(1) by (simp add: merger_ok_def)
  have "archive_ids a = merger_ids m + mset (map mt_elem_id (expression_metas e'))" by (simp only: archive_ids_def merger_ids_def a)
  then show "archive_ids a = mset [0..<pa_id_max a]" using ids num mset_upt_add [of "mg_fresh_id m" n] a(5) by simp
  show "archive_entries (pa_functions a) (pa_templates a) (pa_buses a)"
    and "distinct (hm_keys (pa_functions a) @ hm_keys (pa_templates a) @ hm_keys (pa_buses a))"
    using ok(1) by (simp_all only: merger_ok_def a)
  show "set (hm_keys (pa_functions a) @ hm_keys (pa_templates a) @ hm_keys (pa_buses a)) = set (all_names contents)"
    using ok(2) by (simp add: a merger_names_def Un_assoc)
  show "distinct (all_names contents)" using ok(3) a(1) by (intro card_distinct) simp
qed

section \<open>The interface of a template\<close>

text \<open>The wires a statement declares, in the order of the text.\<close>

fun declared_wires :: "statement \<Rightarrow> (signal_type \<times> string \<times> wire_data) list" where
  "declared_wires (IfThenElse _ _ i e) = declared_wires i @ (case e of Some s \<Rightarrow> declared_wires s | None \<Rightarrow> [])"
| "declared_wires (Block _ stmts) = concat (map declared_wires stmts)"
| "declared_wires (While _ _ stmt) = declared_wires stmt"
| "declared_wires (InitializationBlock _ _ stmts) = concat (map declared_wires stmts)"
| "declared_wires (Declaration _ xtype name dimensions _ _) =
     (case xtype of
        VSignal stype tags \<Rightarrow> [(stype, name, wire_data_new WireSignal (length dimensions) (set tags))]
      | VBus tname stype tags \<Rightarrow> [(stype, name, wire_data_new (WireBus tname) (length dimensions) (set tags))]
      | _ \<Rightarrow> [])"
| "declared_wires _ = []"

definition wires_of :: "signal_type \<Rightarrow> (signal_type \<times> string \<times> wire_data) list \<Rightarrow> (string \<times> wire_data) list" where
  "wires_of stype ws = map snd (filter (\<lambda>w. fst w = stype) ws)"

definition filled_with :: "io_wires \<Rightarrow> (signal_type \<times> string \<times> wire_data) list \<Rightarrow> io_wires \<Rightarrow> bool" where
  "filled_with io ws io' \<longleftrightarrow>
     map_of (io_input_wires io') = map_of (io_input_wires io) ++ map_of (rev (wires_of Input ws)) \<and>
     map_of (io_output_wires io') = map_of (io_output_wires io) ++ map_of (rev (wires_of Output ws)) \<and>
     io_input_declarations io' = io_input_declarations io @ map (\<lambda>(n, d). (n, wd_dimension d)) (wires_of Input ws) \<and>
     io_output_declarations io' = io_output_declarations io @ map (\<lambda>(n, d). (n, wd_dimension d)) (wires_of Output ws)"

lemma filled_with_none [simp]: "filled_with io [] io"
  by (simp add: filled_with_def wires_of_def)

lemma filled_with_trans: "filled_with io ws io' \<Longrightarrow> filled_with io' vs io'' \<Longrightarrow> filled_with io (ws @ vs) io''"
  by (simp add: filled_with_def wires_of_def)

lemma filled_with_wire: "filled_with io [(stype, name, wire_data_new t (length dims) (set tags))] (fill_wire stype t tags name dims io)"
  by (cases stype) (auto simp: filled_with_def fill_wire_def wires_of_def Let_def wire_data_new_def update_conv')

lemma filled_with_fold: "(\<And>s io. s \<in> set stmts \<Longrightarrow> filled_with io (declared_wires s) (fill_inputs_and_outputs s io)) \<Longrightarrow>
    filled_with io (concat (map declared_wires stmts)) (fold fill_inputs_and_outputs stmts io)"
  by (induction stmts arbitrary: io) (auto intro: filled_with_trans)

lemma fill_inputs_and_outputs_declared: "filled_with io (declared_wires s) (fill_inputs_and_outputs s io)"
proof (induction s io rule: fill_inputs_and_outputs.induct)
  case (1 m c i e io)
  then show ?case by (cases e) (auto simp: Let_def intro: filled_with_trans)
next
  case (2 m stmts io)
  then show ?case by (auto intro: filled_with_fold)
next
  case (4 m x stmts io)
  then show ?case by (auto intro: filled_with_fold)
next
  case (5 m xtype name dims c a io)
  then show ?case by (cases xtype) (auto simp: filled_with_wire)
qed simp_all

section \<open>Properties\<close>

text \<open>C22: An archive is made exactly when no name is defined twice in any of the files; otherwise there is one report for every
  repetition. Then functions, templates and buses have the names that are defined, each once.\<close>

theorem program_archive_names:
  "case program_archive_new file_library file_id_main main_component contents custom_gates of
     Inl (library, reports) \<Rightarrow> \<not> distinct (all_names contents) \<and> library = file_library \<and>
       length reports = length (all_names contents) - card (set (all_names contents))
   | Inr a \<Rightarrow> distinct (all_names contents) \<and>
       distinct (hm_keys (pa_functions a) @ hm_keys (pa_templates a) @ hm_keys (pa_buses a)) \<and>
       set (hm_keys (pa_functions a) @ hm_keys (pa_templates a) @ hm_keys (pa_buses a)) = set (all_names contents)"
proof (cases "program_archive_new file_library file_id_main main_component contents custom_gates")
  case (Inl e)
  obtain m rs where m: "merge_contents contents merger_new [] = (m, rs)" by fastforce
  obtain library reports where e: "e = (library, reports)" by fastforce
  have r: "library = file_library" "reports = rs" "rs \<noteq> []"
    using Inl m e by (auto simp: program_archive_new_def split: if_splits prod.splits)
  have l: "length rs + card (set (all_names contents)) = length (all_names contents)" by (rule merged_ok(3) [OF m])
  then have "\<not> distinct (all_names contents)" using r(3) distinct_card by fastforce
  then show ?thesis using Inl e r l by simp
next
  case (Inr a)
  then show ?thesis using archive_ok(3,4,5) [OF Inr] by simp
qed

text \<open>C23: In an archive the elements of all bodies and of the main expression have the numbers below \<open>id_max\<close>, each exactly
  once, so that the knowledge kept by number is that of one element; every body stands in the file of its data,
  under its own name.\<close>

theorem program_archive_numbering:
  assumes "program_archive_new file_library file_id_main main_component contents custom_gates = Inr a"
  shows "archive_ids a = mset [0..<pa_id_max a] \<and> archive_entries (pa_functions a) (pa_templates a) (pa_buses a)"
  using archive_ok(1,2) [OF assms] by blast

definition small_contents :: "(file_id \<times> program_definition list) list" where
  "small_contents = [(1, [DFunction (meta_new 0 9) ''f'' [] (0, 1) (Block (meta_new 2 9) [Return (meta_new 3 8) (Number (meta_new 4 5) 7)])]),
     (2, [DTemplate (meta_new 0 9) ''t'' [] (0, 1) (Block (meta_new 2 9) []) False False False])]"

theorem program_archive_numbering_witness:
  "\<exists>a. program_archive_new () 2 ([], Call (meta_new 9 12) ''t'' []) small_contents False = Inr a \<and>
    archive_ids a = mset [0..<5]"
proof -
  obtain a where a: "program_archive_new () 2 ([], Call (meta_new 9 12) ''t'' []) small_contents False = Inr a" "pa_id_max a = 5"
    by (auto simp: program_archive_new_def small_contents_def add_definitions_def add_definition_def merger_contains_def merger_new_def
        function_data_new_def template_data_new_def Let_def)
  show ?thesis using program_archive_numbering [OF a(1)] a by auto
qed

text \<open>The interface of a template: its inputs are the input signals and buses that its body declares anywhere, in the order
  of the text, and for a name the dimension and the tags are those of its last declaration; likewise for the outputs.\<close>

theorem template_interface:
  "let (td, n) = template_data_new name file body num_of_params name_of_params param_location elem_id is_parallel is_custom_gate is_extern_c;
       ws = declared_wires (fst (fill_statement file body elem_id))
   in get_input_info td x = map_of (rev (wires_of Input ws)) x \<and> get_output_info td x = map_of (rev (wires_of Output ws)) x \<and>
      td_input_declarations td = map (\<lambda>(n, d). (n, wd_dimension d)) (wires_of Input ws) \<and>
      td_output_declarations td = map (\<lambda>(n, d). (n, wd_dimension d)) (wires_of Output ws)"
  using fill_inputs_and_outputs_declared [of "\<lparr>io_input_wires = [], io_output_wires = [], io_input_declarations = [], io_output_declarations = []\<rparr>"
      "fst (fill_statement file body elem_id)"]
  by (simp add: template_data_new_def filled_with_def get_input_info_def get_output_info_def Let_def case_prod_unfold)

end
