(* ===== verification/Symbol_Analysis.thy ===== *)
theory Symbol_Analysis
  imports Program_Library
begin

text \<open>
  The analysis of names, \<open>type_analysis/src/analyzers/symbol_analysis.rs\<close>: every name is declared in a block around its use and
  once in its block, calls are of something that exists, with as many arguments as it has parameters. The blocks
  are a vector whose last is the innermost; declaring without a block is a panic, \<open>None\<close>.
\<close>

section \<open>Numbers in messages\<close>

fun decimal :: "nat \<Rightarrow> string" where
  "decimal n = (if n < 10 then [char_of (48 + n)] else decimal (n div 10) @ [char_of (48 + n mod 10)])"

declare decimal.simps [simp del]

section \<open>The analysis\<close>

type_synonym scopes = "string set list"

text \<open>What is looked up of the program: \<open>function_info\<close>, \<open>template_info\<close> and \<open>bus_info\<close>.\<close>

record program_info =
  pi_functions :: "(string, function_data) hmap"
  pi_templates :: "(string, template_data) hmap"
  pi_buses :: "(string, bus_data) hmap"

definition symbol_in_environment :: "scopes \<Rightarrow> string \<Rightarrow> bool" where
  "symbol_in_environment environment symbol \<longleftrightarrow> (\<exists>block \<in> set environment. symbol \<in> block)"

definition add_symbol_to_block :: "scopes \<Rightarrow> string \<Rightarrow> (scopes \<times> bool) option" where
  "add_symbol_to_block environment symbol =
     (if environment = [] then None
      else let last_block = last environment
        in if symbol \<in> last_block then Some (environment, False)
           else Some (butlast environment @ [insert symbol last_block], True))"

definition symbol_report :: "string \<Rightarrow> report_code \<Rightarrow> file_location \<Rightarrow> file_id \<Rightarrow> string \<Rightarrow> report" where
  "symbol_report message code location file primary = add_primary location file primary (report_error message code)"

definition meta_range :: "meta \<Rightarrow> file_location" where
  "meta_range meta = generate_file_location (get_start meta) (get_end meta)"

definition argument_count_message :: "nat \<Rightarrow> nat \<Rightarrow> string" where
  "argument_count_message got expected = ''Got '' @ decimal got @ '' params, '' @ decimal expected @ '' where expected''"

definition expected_num_of_params :: "program_info \<Rightarrow> string \<Rightarrow> nat option" where
  "expected_num_of_params info f =
     (case map_of (pi_functions info) f of
        Some data \<Rightarrow> Some (fd_num_of_params data)
      | None \<Rightarrow> map_option td_num_of_params (map_of (pi_templates info) f))"

fun analyze_symbols_expression :: "program_info \<Rightarrow> file_id \<Rightarrow> scopes \<Rightarrow> expression \<Rightarrow> report list"
and analyze_symbols_access :: "program_info \<Rightarrow> file_id \<Rightarrow> scopes \<Rightarrow> access \<Rightarrow> report list" where
  "analyze_symbols_expression info file environment (InfixOp _ lhe _ rhe) =
     analyze_symbols_expression info file environment lhe @ analyze_symbols_expression info file environment rhe"
| "analyze_symbols_expression info file environment (PrefixOp _ _ rhe) = analyze_symbols_expression info file environment rhe"
| "analyze_symbols_expression info file environment (ParallelOp _ rhe) = analyze_symbols_expression info file environment rhe"
| "analyze_symbols_expression info file environment (InlineSwitchOp _ cond if_true if_false) =
     analyze_symbols_expression info file environment cond @ analyze_symbols_expression info file environment if_true @
     analyze_symbols_expression info file environment if_false"
| "analyze_symbols_expression info file environment (Variable meta name access) =
     (if \<not> symbol_in_environment environment name
      then [symbol_report ''Undeclared symbol'' NonExistentSymbol (meta_range meta) file ''Using unknown symbol''] else []) @
     concat (map (analyze_symbols_access info file environment) access)"
| "analyze_symbols_expression info file environment (Call meta name args) =
     (case expected_num_of_params info name of
        None \<Rightarrow> [symbol_report ''Calling symbol'' NonExistentSymbol (meta_range meta) file ''Calling unknown symbol'']
      | Some expected \<Rightarrow>
          if length args \<noteq> expected
          then [symbol_report ''Calling function with wrong number of arguments'' FunctionWrongNumberOfArguments (meta_range meta) file
                  (argument_count_message (length args) expected)]
          else concat (map (analyze_symbols_expression info file environment) args))"
| "analyze_symbols_expression info file environment (ArrayInLine _ values) =
     concat (map (analyze_symbols_expression info file environment) values)"
| "analyze_symbols_expression info file environment (UniformArray _ value dimension) =
     analyze_symbols_expression info file environment value @ analyze_symbols_expression info file environment dimension"
| "analyze_symbols_expression info file environment (BusCall meta name args) =
     (case map_of (pi_buses info) name of
        None \<Rightarrow> [symbol_report ''Calling symbol'' NonExistentSymbol (meta_range meta) file ''Calling unknown symbol'']
      | Some data \<Rightarrow>
          if length args \<noteq> bd_num_of_params data
          then [symbol_report ''Instantiating bus with wrong number of arguments'' BusWrongNumberOfArguments (meta_range meta) file
                  (argument_count_message (length args) (bd_num_of_params data))]
          else concat (map (analyze_symbols_expression info file environment) args))"
| "analyze_symbols_expression info file environment _ = []"
| "analyze_symbols_access info file environment (ArrayAccess index) = analyze_symbols_expression info file environment index"
| "analyze_symbols_access info file environment (ComponentAccess _) = []"

definition treat_variable :: "program_info \<Rightarrow> file_id \<Rightarrow> scopes \<Rightarrow> meta \<Rightarrow> string \<Rightarrow> access list \<Rightarrow> report list" where
  "treat_variable info file environment meta name access =
     (if \<not> symbol_in_environment environment name
      then [symbol_report ''Undeclared symbol'' NonExistentSymbol (meta_range meta) file ''Using unknown symbol''] else []) @
     concat (map (analyze_symbols_access info file environment) access)"

text \<open>The tags of a bus are not fields of it.\<close>

definition bus_tag_reports :: "program_info \<Rightarrow> file_id \<Rightarrow> meta \<Rightarrow> variable_type \<Rightarrow> report list" where
  "bus_tag_reports info file meta xtype =
     (case xtype of
        VBus b_name _ tags \<Rightarrow>
          (case map_of (pi_buses info) b_name of
             Some bus \<Rightarrow> map (\<lambda>t. symbol_report ''Declaring same symbol twice'' SameSymbolDeclaredTwice (mt_location meta) file
                 ''This tag name is also a field name in the bus.'') (filter (\<lambda>t. hm_contains (bd_fields bus) t) tags)
           | None \<Rightarrow> [])
      | _ \<Rightarrow> [])"

fun analyze_symbols_statement :: "program_info \<Rightarrow> file_id \<Rightarrow> statement \<Rightarrow> scopes \<Rightarrow> (report list \<times> scopes) option"
and analyze_symbols_statements :: "program_info \<Rightarrow> file_id \<Rightarrow> statement list \<Rightarrow> scopes \<Rightarrow> (report list \<times> scopes) option" where
  "analyze_symbols_statement info file (MultSubstitution _ _ _ _) environment = None"
| "analyze_symbols_statement info file (Return _ value) environment = Some (analyze_symbols_expression info file environment value, environment)"
| "analyze_symbols_statement info file (UnderscoreSubstitution _ _ rhe) environment =
     Some (analyze_symbols_expression info file environment rhe, environment)"
| "analyze_symbols_statement info file (Substitution meta var access _ rhe) environment =
     Some (analyze_symbols_expression info file environment rhe @ treat_variable info file environment meta var access, environment)"
| "analyze_symbols_statement info file (ConstraintEquality _ lhe rhe) environment =
     Some (analyze_symbols_expression info file environment lhe @ analyze_symbols_expression info file environment rhe, environment)"
| "analyze_symbols_statement info file (InitializationBlock _ _ initializations) environment =
     analyze_symbols_statements info file initializations environment"
| "analyze_symbols_statement info file (Declaration meta xtype name dimensions _ _) environment =
     (let reports = concat (map (analyze_symbols_expression info file environment) dimensions)
      in map_option (\<lambda>(environment, added).
           (reports @ (if \<not> added then [symbol_report ''Symbol declared twice'' SameSymbolDeclaredTwice (mt_location meta) file
                ''Declaring same symbol twice''] else []) @ bus_tag_reports info file meta xtype, environment))
           (add_symbol_to_block environment name))"
| "analyze_symbols_statement info file (LogCall _ args) environment =
     Some (concat (map (\<lambda>arg. case arg of LogExp e \<Rightarrow> analyze_symbols_expression info file environment e | LogStr _ \<Rightarrow> []) args), environment)"
| "analyze_symbols_statement info file (Assert _ arg) environment = Some (analyze_symbols_expression info file environment arg, environment)"
| "analyze_symbols_statement info file (Block _ stmts) environment =
     map_option (\<lambda>(reports, environment). (reports, butlast environment))
       (analyze_symbols_statements info file stmts (environment @ [{}]))"
| "analyze_symbols_statement info file (While _ cond stmt) environment =
     map_option (\<lambda>(reports, environment'). (analyze_symbols_expression info file environment cond @ reports, environment'))
       (analyze_symbols_statement info file stmt environment)"
| "analyze_symbols_statement info file (IfThenElse _ cond if_case else_case) environment =
     (case analyze_symbols_statement info file if_case environment of
        None \<Rightarrow> None
      | Some (reports, environment') \<Rightarrow>
          (let reports = analyze_symbols_expression info file environment cond @ reports
           in case else_case of
                None \<Rightarrow> Some (reports, environment')
              | Some else_stmt \<Rightarrow> map_option (\<lambda>(rs, environment). (reports @ rs, environment))
                  (analyze_symbols_statement info file else_stmt environment')))"
| "analyze_symbols_statements info file [] environment = Some ([], environment)"
| "analyze_symbols_statements info file (stmt # stmts) environment =
     (case analyze_symbols_statement info file stmt environment of
        None \<Rightarrow> None
      | Some (reports, environment) \<Rightarrow>
          map_option (\<lambda>(rs, environment). (reports @ rs, environment)) (analyze_symbols_statements info file stmts environment))"

fun add_params :: "scopes \<Rightarrow> string list \<Rightarrow> bool \<Rightarrow> (scopes \<times> bool) option" where
  "add_params environment [] collision = Some (environment, collision)"
| "add_params environment (param # params) collision =
     (case add_symbol_to_block environment param of
        None \<Rightarrow> None
      | Some (environment, success) \<Rightarrow> add_params environment params (collision \<or> \<not> success))"

definition analyze_symbols ::
    "file_id \<Rightarrow> file_location \<Rightarrow> string list \<Rightarrow> statement list \<Rightarrow> program_info \<Rightarrow> (report list + unit) option" where
  "analyze_symbols file param_location params_names body info =
     (case add_params [{}] params_names False of
        None \<Rightarrow> None
      | Some (environment, param_name_collision) \<Rightarrow>
          map_option (\<lambda>(rs, environment).
            let reports = (if param_name_collision then [symbol_report ''Symbol declared twice'' SameSymbolDeclaredTwice param_location file
                  ''Declaring same symbol twice''] else []) @ rs
            in if reports = [] then Inr () else Inl reports)
          (analyze_symbols_statements info file body environment))"

definition archive_info :: "'lib program_archive \<Rightarrow> program_info" where
  "archive_info program = \<lparr>pi_functions = pa_functions program, pi_templates = pa_templates program, pi_buses = pa_buses program\<rparr>"

definition public_reports :: "'lib program_archive \<Rightarrow> file_id \<Rightarrow> report list" where
  "public_reports program file =
     (case pa_initial_template_call program of
        Call meta name _ \<Rightarrow>
          (case get_template_data program name of
             Some data \<Rightarrow> map (\<lambda>signal. symbol_report ''Invalid public list'' SameSymbolDeclaredTwice (mt_location meta) file
                 (signal @ '' is not an input signal''))
               (filter (\<lambda>signal. \<not> hm_contains (td_input_wires data) signal) (pa_public_inputs program))
           | None \<Rightarrow> [])
      | _ \<Rightarrow> [])"

definition analyze_main :: "'lib program_archive \<Rightarrow> (report list + unit) option" where
  "analyze_main program =
     (let call = pa_initial_template_call program
      in Option.bind (get_file_id (expression_meta call)) (\<lambda>file.
        let reports = public_reports program file @ analyze_symbols_expression (archive_info program) file [] call
        in Some (if reports = [] then Inr () else Inl reports)))"

text \<open>The templates, functions and buses with what is analysed of them; a body that is no block is a panic.\<close>

definition naming_instances :: "'lib program_archive \<Rightarrow> (file_id \<times> file_location \<times> string list \<times> statement list) list option" where
  "naming_instances program = those (
     map (\<lambda>(_, data). map_option (\<lambda>body. (td_file_id data, td_param_location data, td_name_of_params data, body)) (template_get_body_as_vec data))
       (pa_templates program) @
     map (\<lambda>(_, data). map_option (\<lambda>body. (fd_file_id data, fd_param_location data, fd_name_of_params data, body)) (function_get_body_as_vec data))
       (pa_functions program) @
     map (\<lambda>(_, data). map_option (\<lambda>body. (bd_file_id data, bd_param_location data, bd_name_of_params data, body)) (bus_get_body_as_vec data))
       (pa_buses program))"

definition result_reports :: "report list + unit \<Rightarrow> report list" where
  "result_reports r = (case r of Inl reports \<Rightarrow> reports | Inr _ \<Rightarrow> [])"

definition check_naming_correctness :: "'lib program_archive \<Rightarrow> (report list + unit) option" where
  "check_naming_correctness program =
     Option.bind (naming_instances program) (\<lambda>instances.
       map_option (\<lambda>results. let reports = concat (map result_reports results) in if reports = [] then Inr () else Inl reports)
         (those (analyze_main program #
            map (\<lambda>(file, param_location, params_names, body). analyze_symbols file param_location params_names body (archive_info program)) instances)))"

section \<open>Runs in scopes\<close>

fun expression_named :: "program_info \<Rightarrow> scopes \<Rightarrow> expression \<Rightarrow> bool"
and access_named :: "program_info \<Rightarrow> scopes \<Rightarrow> access \<Rightarrow> bool" where
  "expression_named info E (InfixOp _ lhe _ rhe) \<longleftrightarrow> expression_named info E lhe \<and> expression_named info E rhe"
| "expression_named info E (PrefixOp _ _ rhe) \<longleftrightarrow> expression_named info E rhe"
| "expression_named info E (ParallelOp _ rhe) \<longleftrightarrow> expression_named info E rhe"
| "expression_named info E (InlineSwitchOp _ c t e) \<longleftrightarrow> expression_named info E c \<and> expression_named info E t \<and> expression_named info E e"
| "expression_named info E (Variable _ name access) \<longleftrightarrow> name \<in> \<Union>(set E) \<and> (\<forall>a \<in> set access. access_named info E a)"
| "expression_named info E (Number _ _) \<longleftrightarrow> True"
| "expression_named info E (Call _ name args) \<longleftrightarrow>
     ((\<exists>fd. map_of (pi_functions info) name = Some fd \<and> fd_num_of_params fd = length args) \<or>
      (\<exists>td. map_of (pi_templates info) name = Some td \<and> td_num_of_params td = length args)) \<and>
     (\<forall>a \<in> set args. expression_named info E a)"
| "expression_named info E (BusCall _ name args) \<longleftrightarrow>
     (\<exists>bd. map_of (pi_buses info) name = Some bd \<and> bd_num_of_params bd = length args) \<and> (\<forall>a \<in> set args. expression_named info E a)"
| "expression_named info E (ArrayInLine _ values) \<longleftrightarrow> (\<forall>v \<in> set values. expression_named info E v)"
| "expression_named info E (UniformArray _ v d) \<longleftrightarrow> expression_named info E v \<and> expression_named info E d"
| "expression_named info E (AnonymousComp _ _ _ _ _ _) \<longleftrightarrow> True"
| "expression_named info E (Tuple _ _) \<longleftrightarrow> True"
| "access_named info E (ArrayAccess index) \<longleftrightarrow> expression_named info E index"
| "access_named info E (ComponentAccess _) \<longleftrightarrow> True"

definition log_named :: "program_info \<Rightarrow> scopes \<Rightarrow> log_argument \<Rightarrow> bool" where
  "log_named info E arg \<longleftrightarrow> (case arg of LogExp e \<Rightarrow> expression_named info E e | LogStr _ \<Rightarrow> True)"

text \<open>\<open>scope_run info E s r E' ok\<close>: a run of \<open>s\<close> in the blocks \<open>E\<close> ends in the blocks \<open>E'\<close>, with a return if \<open>r\<close>; it is \<open>ok\<close> if
  every name it evaluates or assigns is declared then, every name it declares is new in its block, and every call it
  makes is of something that takes the arguments. A block of statements runs in a block of its own.\<close>

inductive scope_run :: "program_info \<Rightarrow> scopes \<Rightarrow> statement \<Rightarrow> bool \<Rightarrow> scopes \<Rightarrow> bool \<Rightarrow> bool"
and scope_runs :: "program_info \<Rightarrow> scopes \<Rightarrow> statement list \<Rightarrow> bool \<Rightarrow> scopes \<Rightarrow> bool \<Rightarrow> bool"
for info where
  scope_if: "scope_run info E (IfThenElse m c i e) r E' (expression_named info E c \<and> ok)" if "scope_run info E i r E' ok"
| scope_else: "scope_run info E (IfThenElse m c i (Some s)) r E' (expression_named info E c \<and> ok)" if "scope_run info E s r E' ok"
| scope_skip: "scope_run info E (IfThenElse m c i None) False E (expression_named info E c)"
| scope_end: "scope_run info E (While m c s) False E (expression_named info E c)"
| scope_break: "scope_run info E (While m c s) True E' (expression_named info E c \<and> ok)" if "scope_run info E s True E' ok"
| scope_loop: "scope_run info E (While m c s) r E'' (expression_named info E c \<and> ok \<and> ok')"
    if "scope_run info E s False E' ok" and "scope_run info E' (While m c s) r E'' ok'"
| scope_return: "scope_run info E (Return m v) True E (expression_named info E v)"
| scope_init: "scope_run info E (InitializationBlock m x ss) r E' ok" if "scope_runs info E ss r E' ok"
| scope_declaration: "scope_run info E (Declaration m x n ds k a) False (butlast E @ [insert n (last E)])
    ((\<forall>d \<in> set ds. expression_named info E d) \<and> n \<notin> last E)"
| scope_substitution: "scope_run info E (Substitution m v as op e) False E
    (expression_named info E e \<and> v \<in> \<Union>(set E) \<and> (\<forall>a \<in> set as. access_named info E a))"
| scope_underscore: "scope_run info E (UnderscoreSubstitution m op e) False E (expression_named info E e)"
| scope_constraint: "scope_run info E (ConstraintEquality m lhe rhe) False E (expression_named info E lhe \<and> expression_named info E rhe)"
| scope_log: "scope_run info E (LogCall m args) False E (\<forall>a \<in> set args. log_named info E a)"
| scope_block: "scope_run info E (Block m ss) r (butlast E') ok" if "scope_runs info (E @ [{}]) ss r E' ok"
| scope_assert: "scope_run info E (Assert m e) False E (expression_named info E e)"
| scope_none: "scope_runs info E [] False E True"
| scope_stop: "scope_runs info E (s # ss) True E' ok" if "scope_run info E s True E' ok"
| scope_next: "scope_runs info E (s # ss) r E'' (ok \<and> ok')" if "scope_run info E s False E' ok" and "scope_runs info E' ss r E'' ok'"

text \<open>The grammar has no declaration as a branch or as the body of a loop.\<close>

definition branch_shape :: "statement \<Rightarrow> bool" where
  "branch_shape s \<longleftrightarrow> (case s of Declaration _ _ _ _ _ _ \<Rightarrow> False | InitializationBlock _ _ _ \<Rightarrow> False | _ \<Rightarrow> True)"

fun scoped_shape :: "statement \<Rightarrow> bool" where
  "scoped_shape (IfThenElse _ _ i e) \<longleftrightarrow> branch_shape i \<and> scoped_shape i \<and> (case e of None \<Rightarrow> True | Some s \<Rightarrow> branch_shape s \<and> scoped_shape s)"
| "scoped_shape (While _ _ s) \<longleftrightarrow> branch_shape s \<and> scoped_shape s"
| "scoped_shape (Block _ ss) \<longleftrightarrow> (\<forall>s \<in> set ss. scoped_shape s)"
| "scoped_shape (InitializationBlock _ _ ss) \<longleftrightarrow> (\<forall>s \<in> set ss. scoped_shape s)"
| "scoped_shape _ \<longleftrightarrow> True"

section \<open>Soundness\<close>

lemma analyze_expression_named:
  "analyze_symbols_expression info file E e = [] \<Longrightarrow> expression_named info E e"
  "analyze_symbols_access info file E a = [] \<Longrightarrow> access_named info E a"
  by (induction info "file" E e and info "file" E a rule: analyze_symbols_expression_analyze_symbols_access.induct)
    (auto simp: expected_num_of_params_def symbol_in_environment_def split: if_splits option.splits)

lemma treat_variable_named:
  "treat_variable info file E m v as = [] \<Longrightarrow> v \<in> \<Union>(set E) \<and> (\<forall>a \<in> set as. access_named info E a)"
  by (auto simp: treat_variable_def symbol_in_environment_def split: if_splits intro: analyze_expression_named(2))

lemma log_analyzed:
  "\<forall>arg \<in> set args. (case arg of LogExp e \<Rightarrow> analyze_symbols_expression info file E e | LogStr _ \<Rightarrow> []) = [] \<Longrightarrow>
    \<forall>arg \<in> set args. log_named info E arg"
  by (auto simp: log_named_def split: log_argument.splits intro: analyze_expression_named(1))

lemma add_symbol_blocks:
  "add_symbol_to_block E n = Some (F, b) \<Longrightarrow> F \<noteq> [] \<and> butlast F = butlast E \<and>
    (b \<longrightarrow> n \<notin> last E \<and> F = butlast E @ [insert n (last E)])"
  by (auto simp: add_symbol_to_block_def Let_def split: if_splits)

text \<open>Only the innermost block grows, and a branch leaves even that as it is.\<close>

lemma analysis_keeps_outer:
  "analyze_symbols_statement info file s E = Some (rs, F) \<Longrightarrow> E \<noteq> [] \<Longrightarrow> F \<noteq> [] \<and> butlast F = butlast E"
  "analyze_symbols_statements info file ss E = Some (rs, F) \<Longrightarrow> E \<noteq> [] \<Longrightarrow> F \<noteq> [] \<and> butlast F = butlast E"
proof (induction info "file" s E and info "file" ss E arbitrary: rs F and rs F
    rule: analyze_symbols_statement_analyze_symbols_statements.induct)
  case (7 info "file" meta xtype name dimensions k a E)
  then show ?case using add_symbol_blocks [of E name] by auto
next
  case (10 info "file" m stmts E)
  then show ?case by (auto simp: butlast_append)
next
  case (12 info "file" m c i e E)
  obtain rs1 E1 where i: "analyze_symbols_statement info file i E = Some (rs1, E1)" using "12.prems"(1) by (auto split: option.splits)
  have 1: "E1 \<noteq> [] \<and> butlast E1 = butlast E" using "12.IH"(1) [OF i "12.prems"(2)] .
  show ?case
  proof (cases e)
    case (Some s)
    then obtain rs2 where s: "analyze_symbols_statement info file s E1 = Some (rs2, F)" using "12.prems"(1) i by auto
    show ?thesis using "12.IH"(2) [OF i refl refl Some s] 1 by simp
  qed (use "12.prems"(1) i 1 in auto)
next
  case (14 info "file" stmt stmts E)
  obtain rs1 E1 where i: "analyze_symbols_statement info file stmt E = Some (rs1, E1)" using "14.prems"(1) by (auto split: option.splits)
  have 1: "E1 \<noteq> [] \<and> butlast E1 = butlast E" using "14.IH"(1) [OF i "14.prems"(2)] .
  obtain rs2 where s: "analyze_symbols_statements info file stmts E1 = Some (rs2, F)" using "14.prems"(1) i by auto
  show ?case using "14.IH"(2) [OF i refl s] 1 by simp
qed (auto split: option.splits)

lemma branch_keeps:
  "branch_shape s \<Longrightarrow> scoped_shape s \<Longrightarrow> analyze_symbols_statement info file s E = Some (rs, F) \<Longrightarrow> F = E"
  "analyze_symbols_statements info file ss E = Some (rs, F) \<Longrightarrow> True"
proof (induction info "file" s E and info "file" ss E arbitrary: rs F and rs F
    rule: analyze_symbols_statement_analyze_symbols_statements.induct)
  case (10 info "file" m stmts E)
  then obtain F' where "analyze_symbols_statements info file stmts (E @ [{}]) = Some (rs, F')" "F = butlast F'" by auto
  then show ?case using analysis_keeps_outer(2) [of info "file" stmts "E @ [{}]" rs F'] by simp
next
  case (12 info "file" m c i e E)
  then show ?case by (cases e) (fastforce split: option.splits)+
qed (auto simp: branch_shape_def)

lemma analysis_sound:
  "scope_run info E s r E' ok \<Longrightarrow> analyze_symbols_statement info file s E = Some ([], F) \<Longrightarrow> scoped_shape s \<Longrightarrow> E \<noteq> [] \<Longrightarrow>
    ok \<and> (\<not> r \<longrightarrow> E' = F)"
  "scope_runs info E ss r E' ok \<Longrightarrow> analyze_symbols_statements info file ss E = Some ([], F) \<Longrightarrow> \<forall>s \<in> set ss. scoped_shape s \<Longrightarrow> E \<noteq> [] \<Longrightarrow>
    ok \<and> (\<not> r \<longrightarrow> E' = F)"
proof (induction arbitrary: F and F rule: scope_run_scope_runs.inducts)
  case (scope_if E i r E' ok m c e)
  obtain E1 where i: "analyze_symbols_statement info file i E = Some ([], E1)" "analyze_symbols_expression info file E c = []"
    using scope_if.prems(1) by (cases e) (auto split: option.splits)
  have "E1 = E" using branch_keeps(1) [OF _ _ i(1)] scope_if.prems(2) by simp
  have "F = E1"
  proof (cases e)
    case (Some s)
    then obtain rs where "analyze_symbols_statement info file s E1 = Some (rs, F)" using scope_if.prems(1) i by auto
    then show ?thesis using branch_keeps(1) scope_if.prems(2) Some \<open>E1 = E\<close> by auto
  qed (use scope_if.prems(1) i in simp)
  then show ?case using scope_if.IH(2) [OF i(1)] scope_if.prems(2,3) analyze_expression_named(1) [OF i(2)] by simp
next
  case (scope_else E s r E' ok m c i)
  obtain E1 where i: "analyze_symbols_statement info file i E = Some ([], E1)" "analyze_symbols_expression info file E c = []"
    "analyze_symbols_statement info file s E1 = Some ([], F)" using scope_else.prems(1) by (auto split: option.splits)
  have "E1 = E" using branch_keeps(1) [OF _ _ i(1)] scope_else.prems(2) by simp
  then show ?case using scope_else.IH(2) [of F] i(3) scope_else.prems(2,3) analyze_expression_named(1) [OF i(2)] by simp
next
  case (scope_skip E m c i)
  obtain E1 where i: "analyze_symbols_statement info file i E = Some ([], E1)" "analyze_symbols_expression info file E c = []" "F = E1"
    using scope_skip.prems(1) by (auto split: option.splits)
  then show ?case using branch_keeps(1) [OF _ _ i(1)] scope_skip.prems(2) analyze_expression_named(1) [OF i(2)] by simp
next
  case (scope_end E m c s)
  obtain E1 where i: "analyze_symbols_statement info file s E = Some ([], E1)" "analyze_symbols_expression info file E c = []" "F = E1"
    using scope_end.prems(1) by auto
  then show ?case using branch_keeps(1) [OF _ _ i(1)] scope_end.prems(2) analyze_expression_named(1) [OF i(2)] by simp
next
  case (scope_break E s E' ok m c)
  obtain E1 where i: "analyze_symbols_statement info file s E = Some ([], E1)" "analyze_symbols_expression info file E c = []"
    using scope_break.prems(1) by auto
  then show ?case using scope_break.IH(2) [OF i(1)] scope_break.prems(2,3) analyze_expression_named(1) [OF i(2)] by simp
next
  case (scope_loop E s E' ok m c r E'' ok')
  obtain E1 where i: "analyze_symbols_statement info file s E = Some ([], E1)" "analyze_symbols_expression info file E c = []"
    using scope_loop.prems(1) by auto
  have "E1 = E" using branch_keeps(1) [OF _ _ i(1)] scope_loop.prems(2) by simp
  moreover have "ok" "E' = E1" using scope_loop.IH(2) [OF i(1)] scope_loop.prems(2,3) by simp_all
  ultimately show ?case using scope_loop.IH(4) [of F] scope_loop.prems analyze_expression_named(1) [OF i(2)] by simp
next
  case (scope_init E ss r E' ok m x)
  then show ?case by simp
next
  case (scope_declaration E m x n ds k a)
  obtain b where b: "add_symbol_to_block E n = Some (F, b)" and d: "\<forall>d \<in> set ds. analyze_symbols_expression info file E d = []" and "b"
    using scope_declaration.prems(1) by (auto split: if_splits)
  then show ?case using add_symbol_blocks [OF b] analyze_expression_named(1) by blast
next
  case (scope_substitution E m v as op e)
  then show ?case using analyze_expression_named(1) [of info "file" E e] treat_variable_named [of info "file" E m v as] by auto
next
  case (scope_log E m args)
  then show ?case using log_analyzed [of args info "file" E] by simp
next
  case (scope_block E ss r E' ok m)
  obtain F' where "analyze_symbols_statements info file ss (E @ [{}]) = Some ([], F')" "F = butlast F'" using scope_block.prems(1) by auto
  then show ?case using scope_block.IH(2) [of F'] scope_block.prems(2) by simp
next
  case (scope_stop E s E' ok ss)
  then show ?case by (auto split: option.splits)
next
  case (scope_next E s E' ok ss r E'' ok')
  obtain E1 where i: "analyze_symbols_statement info file s E = Some ([], E1)" "analyze_symbols_statements info file ss E1 = Some ([], F)"
    using scope_next.prems(1) by (auto split: option.splits)
  have "ok" "E' = E1" using scope_next.IH(2) [OF i(1)] scope_next.prems(2,3) by simp_all
  then show ?case using scope_next.IH(4) [of F] i(2) scope_next.prems(2,3) analysis_keeps_outer(1) [OF i(1)] by simp
qed (auto intro: analyze_expression_named(1))

lemma add_params_ok:
  "add_params E params c = Some (F, b) \<Longrightarrow> E \<noteq> [] \<Longrightarrow> \<not> b \<Longrightarrow>
    \<not> c \<and> F = butlast E @ [last E \<union> set params] \<and> distinct params \<and> set params \<inter> last E = {}"
proof (induction params arbitrary: E c)
  case (Cons p params)
  obtain E1 s where a: "add_symbol_to_block E p = Some (E1, s)" and rest: "add_params E1 params (c \<or> \<not> s) = Some (F, b)"
    using Cons.prems(1) by (auto split: option.splits)
  have "E1 \<noteq> []" using add_symbol_blocks [OF a] by simp
  from Cons.IH [OF rest this Cons.prems(3)] add_symbol_blocks [OF a] show ?case by auto
qed auto

lemma analyze_symbols_sound:
  assumes "analyze_symbols file location params body info = Some (Inr ())" and "\<forall>s \<in> set body. scoped_shape s"
    and "scope_runs info [set params] body r E' ok"
  shows "distinct params \<and> ok"
proof -
  obtain E b where p: "add_params [{}] params False = Some (E, b)" "\<not> b" and F: "\<exists>F. analyze_symbols_statements info file body E = Some ([], F)"
    using assms(1) by (auto simp: analyze_symbols_def Let_def split: option.splits if_splits)
  have "E = [set params]" "distinct params" using add_params_ok [OF p(1)] p(2) by simp_all
  then show ?thesis using F analysis_sound(2) [OF assms(3) _ assms(2)] by auto
qed

lemma checked_instance:
  assumes "check_naming_correctness program = Some (Inr ())"
  shows "analyze_main program = Some (Inr ())"
    and "\<exists>instances. naming_instances program = Some instances \<and> (\<forall>(file, location, params, body) \<in> set instances.
      analyze_symbols file location params body (archive_info program) = Some (Inr ()))"
proof -
  obtain instances where i: "naming_instances program = Some instances"
    using assms by (cases "naming_instances program") (auto simp: check_naming_correctness_def)
  obtain results where t: "those (analyze_main program # map (\<lambda>(file, location, params, body). analyze_symbols file location params body (archive_info program)) instances) = Some results" and e: "\<forall>r \<in> set results. result_reports r = []"
    using assms i unfolding check_naming_correctness_def
    by (cases "those (analyze_main program # map (\<lambda>(file, location, params, body). analyze_symbols file location params body (archive_info program)) instances)") (auto simp: Let_def simp del: those.simps split: if_splits)
  have r: "(analyze_main program # map (\<lambda>(file, location, params, body). analyze_symbols file location params body (archive_info program)) instances) = map Some results" using t by (simp only: those_Some)
  have inr: "r = Inr ()" if "r \<in> set results" "r \<noteq> Inl []" for r
    using e that by (cases r) (auto simp: result_reports_def)
  have no_empty: "analyze_main program \<noteq> Some (Inl [])" "analyze_symbols file location params body info \<noteq> Some (Inl [])"
    for "file" location params body info
    by (auto simp: analyze_main_def analyze_symbols_def Let_def bind_eq_Some_conv split: if_splits option.splits prod.splits)
  obtain r1 rest where r1: "results = r1 # rest" "analyze_main program = Some r1"
    "map (\<lambda>(file, location, params, body). analyze_symbols file location params body (archive_info program)) instances = map Some rest"
    using r by (cases results) auto
  show "analyze_main program = Some (Inr ())" using inr [of r1] r1 no_empty(1) by auto
  have "analyze_symbols file location params body (archive_info program) = Some (Inr ())"
    if mem: "(file, location, params, body) \<in> set instances" for "file" location params body
  proof -
    have "(\<lambda>(file, location, params, body). analyze_symbols file location params body (archive_info program)) (file, location, params, body)
        \<in> set (map Some rest)" unfolding r1(3) [symmetric] set_map by (rule imageI [OF mem])
    then have "analyze_symbols file location params body (archive_info program) \<in> Some ` set rest" by simp
    then obtain q where q: "q \<in> set rest" "analyze_symbols file location params body (archive_info program) = Some q" by blast
    then have "q \<noteq> Inl []" using no_empty(2) by metis
    then show ?thesis using inr [of q] q r1(1) by simp
  qed
  then show "\<exists>instances. naming_instances program = Some instances \<and> (\<forall>(file, location, params, body) \<in> set instances.
      analyze_symbols file location params body (archive_info program) = Some (Inr ()))" using i by blast
qed

definition well_named :: "program_info \<Rightarrow> string list \<Rightarrow> statement \<Rightarrow> bool" where
  "well_named info params s \<longleftrightarrow> distinct params \<and> (\<exists>m body. s = Block m body \<and>
     (scoped_shape s \<longrightarrow> (\<forall>r E ok. scope_runs info [set params] body r E ok \<longrightarrow> ok)))"

lemma analyzed_well_named:
  assumes "analyze_symbols file location params body info = Some (Inr ())"
  shows "well_named info params (Block m body)"
proof -
  obtain E b where "add_params [{}] params False = Some (E, b)" "\<not> b"
    using assms by (auto simp: analyze_symbols_def Let_def split: option.splits if_splits)
  then show ?thesis using analyze_symbols_sound [OF assms] add_params_ok [of "[{}]" params False E b] by (auto simp: well_named_def)
qed

section \<open>Properties\<close>

text \<open>C18: A program that passes the analysis of names: parameters are distinct, and in every run of the body of a function, a
  template or a bus, with branches in any order and loops any number of times, every name is declared in a block around
  its use, no name is declared twice in a block, and every call has as many arguments as there are parameters. So it is
  for the main component, whose public signals are inputs.\<close>

theorem naming_correct:
  assumes "check_naming_correctness program = Some (Inr ())"
  shows "(\<forall>(name, fd) \<in> set (pa_functions program). well_named (archive_info program) (fd_name_of_params fd) (fd_body fd)) \<and>
    (\<forall>(name, td) \<in> set (pa_templates program). well_named (archive_info program) (td_name_of_params td) (td_body td)) \<and>
    (\<forall>(name, bd) \<in> set (pa_buses program). well_named (archive_info program) (bd_name_of_params bd) (bd_body bd)) \<and>
    expression_named (archive_info program) [] (pa_initial_template_call program) \<and>
    (\<forall>m name args td. pa_initial_template_call program = Call m name args \<and> get_template_data program name = Some td \<longrightarrow>
      set (pa_public_inputs program) \<subseteq> keys_of (td_input_wires td))"
proof -
  obtain instances where i: "naming_instances program = Some instances"
    and ok: "\<And>file location params body. (file, location, params, body) \<in> set instances \<Longrightarrow>
      analyze_symbols file location params body (archive_info program) = Some (Inr ())"
    using checked_instance(2) [OF assms] by fast
  have all: "map Some instances =
     map (\<lambda>(_, data). map_option (\<lambda>body. (td_file_id data, td_param_location data, td_name_of_params data, body)) (template_get_body_as_vec data))
       (pa_templates program) @
     map (\<lambda>(_, data). map_option (\<lambda>body. (fd_file_id data, fd_param_location data, fd_name_of_params data, body)) (function_get_body_as_vec data))
       (pa_functions program) @
     map (\<lambda>(_, data). map_option (\<lambda>body. (bd_file_id data, bd_param_location data, bd_name_of_params data, body)) (bus_get_body_as_vec data))
       (pa_buses program)"
    using i by (simp add: naming_instances_def those_Some)
  have "well_named (archive_info program) (fd_name_of_params fd) (fd_body fd)" if "(name, fd) \<in> set (pa_functions program)" for name fd
  proof -
    have "map_option (\<lambda>body. (fd_file_id fd, fd_param_location fd, fd_name_of_params fd, body)) (function_get_body_as_vec fd) \<in> set (map Some instances)"
      unfolding all using that by force
    then obtain body where b: "function_get_body_as_vec fd = Some body"
      "(fd_file_id fd, fd_param_location fd, fd_name_of_params fd, body) \<in> set instances" by auto
    then obtain m where "fd_body fd = Block m body" by (cases "fd_body fd") (simp_all add: function_get_body_as_vec_def)
    then show ?thesis using analyzed_well_named [OF ok [OF b(2)]] by simp
  qed
  moreover have "well_named (archive_info program) (td_name_of_params td) (td_body td)" if "(name, td) \<in> set (pa_templates program)" for name td
  proof -
    have "map_option (\<lambda>body. (td_file_id td, td_param_location td, td_name_of_params td, body)) (template_get_body_as_vec td) \<in> set (map Some instances)"
      unfolding all using that by force
    then obtain body where b: "template_get_body_as_vec td = Some body"
      "(td_file_id td, td_param_location td, td_name_of_params td, body) \<in> set instances" by auto
    then obtain m where "td_body td = Block m body" by (cases "td_body td") (simp_all add: template_get_body_as_vec_def)
    then show ?thesis using analyzed_well_named [OF ok [OF b(2)]] by simp
  qed
  moreover have "well_named (archive_info program) (bd_name_of_params bd) (bd_body bd)" if "(name, bd) \<in> set (pa_buses program)" for name bd
  proof -
    have "map_option (\<lambda>body. (bd_file_id bd, bd_param_location bd, bd_name_of_params bd, body)) (bus_get_body_as_vec bd) \<in> set (map Some instances)"
      unfolding all using that by force
    then obtain body where b: "bus_get_body_as_vec bd = Some body"
      "(bd_file_id bd, bd_param_location bd, bd_name_of_params bd, body) \<in> set instances" by auto
    then obtain m where "bd_body bd = Block m body" by (cases "bd_body bd") (simp_all add: bus_get_body_as_vec_def)
    then show ?thesis using analyzed_well_named [OF ok [OF b(2)]] by simp
  qed
  moreover obtain f where main: "analyze_symbols_expression (archive_info program) f [] (pa_initial_template_call program) = []"
    and public: "public_reports program f = []"
    using checked_instance(1) [OF assms] by (auto simp: analyze_main_def Let_def bind_eq_Some_conv split: if_splits)
  moreover have "set (pa_public_inputs program) \<subseteq> keys_of (td_input_wires td)"
    if "pa_initial_template_call program = Call m name args" "get_template_data program name = Some td" for m name args td
    using public that by (auto simp: public_reports_def filter_empty_conv hm_contains_set)
  ultimately show ?thesis using analyze_expression_named(1) [OF main] by blast
qed

theorem naming_correct_witness:
  "\<exists>a. program_archive_new () 2 ([], Call (meta_new 9 12) ''t'' []) small_contents False = Inr a \<and>
    expression_named (archive_info a) [] (pa_initial_template_call a)"
proof -
  obtain a where a: "program_archive_new () 2 ([], Call (meta_new 9 12) ''t'' []) small_contents False = Inr a"
    "check_naming_correctness a = Some (Inr ())"
    by (auto simp: program_archive_new_def small_contents_def add_definitions_def add_definition_def merger_contains_def merger_new_def
        function_data_new_def template_data_new_def Let_def check_naming_correctness_def naming_instances_def analyze_main_def
        public_reports_def get_file_id_def fill_meta_def set_file_id_def result_reports_def analyze_symbols_def
        template_get_body_as_vec_def function_get_body_as_vec_def archive_info_def expected_num_of_params_def get_template_data_def)
  show ?thesis using naming_correct [OF a(2)] a(1) by blast
qed

end
