(* ===== verification/Definition_Checks.thy ===== *)
theory Definition_Checks
  imports Symbol_Analysis
begin

text \<open>
  The analyses of custom templates and of buses (\<open>custom_gate_analysis.rs\<close>, \<open>buses_free_of_invalid_statements.rs\<close>), and the stage
  of \<open>check_types\<close> (\<open>type_analysis/src/check_types.rs\<close>) that runs the structural analyses over the archive, one
  level after the other. The stages after it are not modelled.
\<close>

section \<open>Custom templates\<close>

definition gate_report :: "message_category \<Rightarrow> string \<Rightarrow> report_code \<Rightarrow> meta \<Rightarrow> string \<Rightarrow> report option" where
  "gate_report category message code meta primary =
     map_option (\<lambda>file. add_primary (mt_location meta) file primary (report_new category message code)) (mt_file_id meta)"

text \<open>The errors and the warnings that are pushed. An element without a file is a panic.\<close>

definition gate_error :: "report option \<Rightarrow> (report list \<times> report list) option" where
  "gate_error r = map_option (\<lambda>r. ([r], [])) r"

definition gate_warning :: "report option \<Rightarrow> (report list \<times> report list) option" where
  "gate_warning r = map_option (\<lambda>r. ([], [r])) r"

definition join_gate :: "(report list \<times> report list) option list \<Rightarrow> (report list \<times> report list) option" where
  "join_gate rs = map_option (\<lambda>rs. (concat (map fst rs), concat (map snd rs))) (those rs)"

definition gate_declaration :: "string \<Rightarrow> meta \<Rightarrow> variable_type \<Rightarrow> string \<Rightarrow> (report list \<times> report list) option" where
  "gate_declaration gate meta xtype name =
     (let primary = \<lambda>kind. kind @ '' '' @ name @ '' declared in custom template '' @ gate
      in case xtype of
           VSignal stype _ \<Rightarrow>
             if stype = Intermediate then gate_warning (gate_report Warning ''Intermediate signal inside custom template''
               CustomGateIntermediateSignalWarning meta (primary ''Intermediate signal''))
             else Some ([], [])
         | VBus _ stype _ \<Rightarrow>
             if stype = Intermediate then gate_warning (gate_report Warning ''Intermediate bus inside custom template''
               CustomGateIntermediateSignalWarning meta (primary ''Intermediate bus''))
             else Some ([], [])
         | VComponent \<Rightarrow> gate_error (gate_report Error ''Component inside custom template''
             CustomGateSubComponentError meta (primary ''Component''))
         | VAnonymousComponent \<Rightarrow> gate_error (gate_report Error ''Component inside custom template''
             CustomGateSubComponentError meta (primary ''Component''))
         | VVar \<Rightarrow> Some ([], []))"

definition gate_constraint :: "meta \<Rightarrow> (report list \<times> report list) option" where
  "gate_constraint meta = gate_error (gate_report Error ''Added constraint inside custom template'' CustomGateConstraintError meta ''Added constraint'')"

fun gate_statement :: "string \<Rightarrow> statement \<Rightarrow> (report list \<times> report list) option" where
  "gate_statement gate (IfThenElse _ _ if_case else_case) =
     join_gate (gate_statement gate if_case # (case else_case of Some s \<Rightarrow> [gate_statement gate s] | None \<Rightarrow> []))"
| "gate_statement gate (While _ _ stmt) = gate_statement gate stmt"
| "gate_statement gate (InitializationBlock _ _ initializations) = join_gate (map (gate_statement gate) initializations)"
| "gate_statement gate (Declaration meta xtype name _ _ _) = gate_declaration gate meta xtype name"
| "gate_statement gate (Substitution meta _ _ op _) = (if op = AssignConstraintSignal then gate_constraint meta else Some ([], []))"
| "gate_statement gate (ConstraintEquality meta _ _) = gate_constraint meta"
| "gate_statement gate (Block _ stmts) = join_gate (map (gate_statement gate) stmts)"
| "gate_statement gate (UnderscoreSubstitution meta op _) = (if op = AssignConstraintSignal then gate_constraint meta else Some ([], []))"
| "gate_statement gate _ = Some ([], [])"

definition custom_gate_analysis :: "string \<Rightarrow> statement \<Rightarrow> (report list + report list) option" where
  "custom_gate_analysis custom_gate_name custom_gate_body =
     map_option (\<lambda>(errors, warnings). if errors = [] then Inr warnings else Inl errors) (gate_statement custom_gate_name custom_gate_body)"

section \<open>Buses\<close>

definition bus_report :: "meta \<Rightarrow> string \<Rightarrow> file_id \<Rightarrow> string option \<Rightarrow> report" where
  "bus_report meta msg file primary_msg =
     add_primary (generate_file_location (get_start meta) (get_end meta)) file
       (case primary_msg of Some msg \<Rightarrow> msg | None \<Rightarrow> ''Using invalid statement'') (report_error msg UndefinedBus)"

fun bus_expression :: "string set \<Rightarrow> expression \<Rightarrow> report list option"
and bus_access :: "string set \<Rightarrow> meta \<Rightarrow> access \<Rightarrow> report list option" where
  "bus_expression names (InfixOp meta lhe _ rhe) = Option.bind (get_file_id meta) (\<lambda>_.
     join_reports [bus_expression names lhe, bus_expression names rhe])"
| "bus_expression names (PrefixOp meta _ rhe) = Option.bind (get_file_id meta) (\<lambda>_. bus_expression names rhe)"
| "bus_expression names (ParallelOp meta rhe) = Option.bind (get_file_id meta) (\<lambda>_. bus_expression names rhe)"
| "bus_expression names (InlineSwitchOp meta cond if_true if_false) = Option.bind (get_file_id meta) (\<lambda>_.
     join_reports [bus_expression names cond, bus_expression names if_true, bus_expression names if_false])"
| "bus_expression names (Variable meta _ access) = Option.bind (get_file_id meta) (\<lambda>_.
     join_reports (map (bus_access names meta) access))"
| "bus_expression names (Number meta _) = Option.bind (get_file_id meta) (\<lambda>_. Some [])"
| "bus_expression names (Call meta name args) = Option.bind (get_file_id meta) (\<lambda>file.
     join_reports (Some (if name \<notin> names then [bus_report meta ''Unknown call in bus'' file (Some ''Is not a function call'')] else [])
       # map (bus_expression names) args))"
| "bus_expression names (ArrayInLine meta values) = Option.bind (get_file_id meta) (\<lambda>_. join_reports (map (bus_expression names) values))"
| "bus_expression names (UniformArray meta value dimension) = Option.bind (get_file_id meta) (\<lambda>_.
     join_reports [bus_expression names value, bus_expression names dimension])"
| "bus_expression names (BusCall meta _ _) = Option.bind (get_file_id meta) (\<lambda>file.
     Some [bus_report meta ''Template elements declared inside the bus'' file (Some ''Declaring template element'')])"
| "bus_expression names (AnonymousComp _ _ _ _ _ _) = None"
| "bus_expression names (Tuple _ _) = None"
| "bus_access names meta (ArrayAccess index) = bus_expression names index"
| "bus_access names meta (ComponentAccess _) = Option.bind (get_file_id meta) (\<lambda>file.
     Some [bus_report meta ''Bus uses name-access operators'' file (Some ''Template operator found'')])"

definition bus_accesses :: "string set \<Rightarrow> meta \<Rightarrow> access list \<Rightarrow> report list option" where
  "bus_accesses names meta access = Option.bind (get_file_id meta) (\<lambda>_. join_reports (map (bus_access names meta) access))"

fun bus_statement :: "string set \<Rightarrow> statement \<Rightarrow> report list option" where
  "bus_statement names (MultSubstitution _ _ _ _) = None"
| "bus_statement names (IfThenElse meta _ _ _) = Option.bind (get_file_id meta) (\<lambda>file.
     Some [bus_report meta ''Conditional statement used inside the bus'' file None])"
| "bus_statement names (While meta _ _) = Option.bind (get_file_id meta) (\<lambda>file.
     Some [bus_report meta ''Loop statement used inside the bus'' file None])"
| "bus_statement names (Block meta stmts) = Option.bind (get_file_id meta) (\<lambda>_. join_reports (map (bus_statement names) stmts))"
| "bus_statement names (InitializationBlock meta _ initializations) = Option.bind (get_file_id meta) (\<lambda>_.
     join_reports (map (bus_statement names) initializations))"
| "bus_statement names (Declaration meta xtype _ dimensions _ _) = Option.bind (get_file_id meta) (\<lambda>file.
     if (case xtype of VSignal stype _ \<Rightarrow> stype = Intermediate | VBus _ stype _ \<Rightarrow> stype = Intermediate | _ \<Rightarrow> False)
     then join_reports (map (bus_expression names) dimensions)
     else Some [bus_report meta ''Template elements declared inside the bus'' file None])"
| "bus_statement names (Substitution meta _ access _ rhe) = Option.bind (get_file_id meta) (\<lambda>file.
     join_reports [Some (if \<not> is_bus_call_array rhe then [bus_report meta ''Substitution statement used inside the bus'' file None] else []),
       bus_accesses names meta access])"
| "bus_statement names (UnderscoreSubstitution meta _ rhe) = Option.bind (get_file_id meta) (\<lambda>file.
     Some (if \<not> is_bus_call_array rhe then [bus_report meta ''Substitution statement used inside the bus'' file None] else []))"
| "bus_statement names (ConstraintEquality meta _ _) = Option.bind (get_file_id meta) (\<lambda>file.
     Some [bus_report meta ''Constraint statement used inside the bus'' file None])"
| "bus_statement names (LogCall meta _) = Option.bind (get_file_id meta) (\<lambda>file.
     Some [bus_report meta ''I/O statement used inside the bus'' file None])"
| "bus_statement names (Assert meta _) = Option.bind (get_file_id meta) (\<lambda>file.
     Some [bus_report meta ''Assert statement used inside the bus'' file None])"
| "bus_statement names (Return meta _) = Option.bind (get_file_id meta) (\<lambda>file.
     Some [bus_report meta ''Return statement used inside the bus'' file None])"

definition free_of_invalid_statements :: "bus_data \<Rightarrow> string set \<Rightarrow> (report list + unit) option" where
  "free_of_invalid_statements bus_data function_names =
     map_option (\<lambda>reports. if reports = [] then Inr () else Inl reports) (bus_statement function_names (bd_body bus_data))"

section \<open>The structural stage\<close>

definition program_level_analyses :: "'lib program_archive \<Rightarrow> report list option" where
  "program_level_analyses program = map_option result_reports (check_naming_correctness program)"

definition extern_c_reports :: "template_data \<Rightarrow> report list" where
  "extern_c_reports template_data =
     (if td_is_extern_c template_data \<and> \<not> td_is_custom_gate template_data
      then [add_primary (td_param_location template_data) (td_file_id template_data)
        ''The extern_c decorator can only be used in custom templates.'' (report_error '''' BusWrongNumberOfArguments)] else [])"

definition template_level_analyses :: "'lib program_archive \<Rightarrow> report list option" where
  "template_level_analyses program = join_reports (map (\<lambda>(_, template_data).
     map_option (\<lambda>signal_declaration_result. extern_c_reports template_data @
         result_reports (free_of_returns (td_file_id template_data) (td_body template_data)) @ result_reports signal_declaration_result)
       (check_signal_correctness (td_file_id template_data) (td_body template_data))) (pa_templates program))"

definition function_level_analyses :: "'lib program_archive \<Rightarrow> report list option" where
  "function_level_analyses program = join_reports (map (\<lambda>(_, function_data).
     map_option (\<lambda>free_of_template_elements_result. result_reports free_of_template_elements_result @
         (case all_paths_with_return_check function_data of Inl r \<Rightarrow> [r] | Inr _ \<Rightarrow> []))
       (free_of_template_elements function_data (pa_function_keys program))) (pa_functions program))"

definition bus_level_analyses :: "'lib program_archive \<Rightarrow> report list option" where
  "bus_level_analyses program = join_reports (map (\<lambda>(_, bus_data).
     map_option result_reports (free_of_invalid_statements bus_data (pa_function_keys program))) (pa_buses program))"

text \<open>The first four steps of \<open>check_types\<close>: the errors with which it stops there, none if it goes on.\<close>

definition structural_analyses :: "'lib program_archive \<Rightarrow> report list option" where
  "structural_analyses program =
     (case program_level_analyses program of
        None \<Rightarrow> None
      | Some errors \<Rightarrow>
          if errors \<noteq> [] then Some errors
          else (case template_level_analyses program of
            None \<Rightarrow> None
          | Some errors \<Rightarrow>
              if errors \<noteq> [] then Some errors
              else (case function_level_analyses program of
                None \<Rightarrow> None
              | Some errors \<Rightarrow> if errors \<noteq> [] then Some errors else bus_level_analyses program)))"

section \<open>Custom templates that pass\<close>

fun no_multiple :: "statement \<Rightarrow> bool" where
  "no_multiple (MultSubstitution _ _ _ _) \<longleftrightarrow> False"
| "no_multiple (IfThenElse _ _ i e) \<longleftrightarrow> no_multiple i \<and> (case e of None \<Rightarrow> True | Some s \<Rightarrow> no_multiple s)"
| "no_multiple (While _ _ s) \<longleftrightarrow> no_multiple s"
| "no_multiple (Block _ ss) \<longleftrightarrow> (\<forall>s \<in> set ss. no_multiple s)"
| "no_multiple (InitializationBlock _ _ ss) \<longleftrightarrow> (\<forall>s \<in> set ss. no_multiple s)"
| "no_multiple _ \<longleftrightarrow> True"

definition unconstrained :: "effect set \<Rightarrow> bool" where
  "unconstrained es \<longleftrightarrow> Constrains \<notin> es \<and> Declares VComponent \<notin> es"

lemma unconstrained_simps [simp]:
  "unconstrained {}" "unconstrained (A \<union> B) \<longleftrightarrow> unconstrained A \<and> unconstrained B"
  "unconstrained (insert e A) \<longleftrightarrow> e \<noteq> Constrains \<and> e \<noteq> Declares VComponent \<and> unconstrained A"
  "unconstrained (\<Union>x \<in> X. F x) \<longleftrightarrow> (\<forall>x \<in> X. unconstrained (F x))"
  by (auto simp: unconstrained_def)

lemma expression_unconstrained [simp]: "unconstrained (expression_effects e)" "unconstrained (access_effects a)"
  by (induction e and a rule: expression_effects_access_effects.induct) auto

lemma log_unconstrained [simp]: "unconstrained (log_effects a)"
  by (simp add: log_effects_def split: log_argument.split)

lemma operator_unconstrained [simp]: "op \<noteq> AssignConstraintSignal \<Longrightarrow> unconstrained (operator_effects op)"
  by (cases op) (simp_all add: operator_effects_def)

lemma join_gate_errors: "join_gate rs = Some ([], w) \<Longrightarrow> \<forall>r \<in> set rs. \<exists>w. r = Some ([], w)"
  by (fastforce simp: join_gate_def those_Some)

lemma gate_declaration_ok: "gate_declaration gate meta xtype name = Some ([], w) \<Longrightarrow> xtype \<noteq> VComponent"
  by (auto simp: gate_declaration_def gate_error_def)

lemma gate_constraint_fails [simp]: "gate_constraint meta \<noteq> Some ([], w)"
  by (simp add: gate_constraint_def gate_error_def)

definition gate_accepts :: "string \<Rightarrow> statement \<Rightarrow> bool" where
  "gate_accepts gate s \<longleftrightarrow> no_multiple s \<and> (\<exists>w. gate_statement gate s = Some ([], w))"

lemma gate_accepts_simps:
  "gate_accepts gate (IfThenElse m c i el) \<Longrightarrow> gate_accepts gate i"
  "gate_accepts gate (IfThenElse m c i (Some s)) \<Longrightarrow> gate_accepts gate s"
  "gate_accepts gate (While m c s) \<Longrightarrow> gate_accepts gate s"
  "gate_accepts gate (Block m ss) \<Longrightarrow> \<forall>s \<in> set ss. gate_accepts gate s"
  "gate_accepts gate (InitializationBlock m x ss) \<Longrightarrow> \<forall>s \<in> set ss. gate_accepts gate s"
  "gate_accepts gate (Declaration m x n ds k a) \<Longrightarrow> x \<noteq> VComponent"
  "gate_accepts gate (Substitution m v as op e) \<Longrightarrow> op \<noteq> AssignConstraintSignal"
  "gate_accepts gate (UnderscoreSubstitution m op e) \<Longrightarrow> op \<noteq> AssignConstraintSignal"
  "\<not> gate_accepts gate (MultSubstitution m lhe op e)" "\<not> gate_accepts gate (ConstraintEquality m lhe rhe)"
  by (auto simp: gate_accepts_def dest: join_gate_errors gate_declaration_ok)

lemma gate_sound:
  "executes l s r es \<Longrightarrow> gate_accepts gate s \<Longrightarrow> unconstrained (snd ` es)"
  "executes_all l ss r es \<Longrightarrow> \<forall>s \<in> set ss. gate_accepts gate s \<Longrightarrow> unconstrained (snd ` es)"
proof (induction rule: executes_executes_all.inducts)
  case (run_if l i r es m c e)
  then show ?case using gate_accepts_simps(1) by simp
next
  case (run_else l s r es m c i)
  then show ?case using gate_accepts_simps(2) by simp
next
  case (run_break s es l m c)
  then show ?case using gate_accepts_simps(3) by simp
next
  case (run_loop s es l m c r es')
  then show ?case using gate_accepts_simps(3) [OF run_loop.prems] by simp
next
  case (run_init l ss r es m x)
  then show ?case using gate_accepts_simps(5) by blast
next
  case (run_declaration l m x n ds k a)
  then show ?case using gate_accepts_simps(6) by simp
next
  case (run_substitution l m v as op e)
  then show ?case using gate_accepts_simps(7) by simp
next
  case (run_multiple l m lhe op e)
  then show ?case using gate_accepts_simps(9) by blast
next
  case (run_underscore l m op e)
  then show ?case using gate_accepts_simps(8) by simp
next
  case (run_constraint l m lhe rhe)
  then show ?case using gate_accepts_simps(10) by blast
next
  case (run_block l ss r es m)
  then show ?case using gate_accepts_simps(4) by blast
qed simp_all

section \<open>Buses that pass\<close>

text \<open>What a body without branches does.\<close>

fun straight_effects :: "statement \<Rightarrow> effect set" where
  "straight_effects (Block _ ss) = (\<Union>s \<in> set ss. straight_effects s)"
| "straight_effects (InitializationBlock _ _ ss) = (\<Union>s \<in> set ss. straight_effects s)"
| "straight_effects (Declaration _ x _ ds _ _) = insert (Declares x) (\<Union>d \<in> set ds. expression_effects d)"
| "straight_effects (Substitution _ _ as op e) = (\<Union>a \<in> set as. access_effects a) \<union> operator_effects op \<union> expression_effects e"
| "straight_effects (UnderscoreSubstitution _ op e) = operator_effects op \<union> expression_effects e"
| "straight_effects _ = {}"

inductive_simps block_runs:
  "executes l (Block m ss) r es"
  "executes l (InitializationBlock m x ss) r es"

inductive_simps straight_runs:
  "executes l (Declaration m x n ds k a) r es"
  "executes l (Substitution m v as op e) r es"
  "executes l (UnderscoreSubstitution m op e) r es"

lemma executes_all_straight:
  "(\<And>s r es. s \<in> set ss \<Longrightarrow> executes l s r es \<longleftrightarrow> \<not> r \<and> es = Pair l ` straight_effects s) \<Longrightarrow>
    executes_all l ss r es \<longleftrightarrow> \<not> r \<and> es = Pair l ` (\<Union>s \<in> set ss. straight_effects s)"
proof (induction ss arbitrary: r es)
  case (Cons s ss)
  have "executes_all l (s # ss) r es \<longleftrightarrow> (\<exists>es1 es2. es = es1 \<union> es2 \<and> executes l s False es1 \<and> executes_all l ss r es2)"
    using Cons.prems [of s True es] by (subst executes_all_simps) auto
  also have "\<dots> \<longleftrightarrow> \<not> r \<and> es = Pair l ` (\<Union>s \<in> set (s # ss). straight_effects s)"
    using Cons.prems [of s False] Cons.IH [OF Cons.prems] by (auto simp: image_Un)
  finally show ?case .
qed (auto simp: executes_all_simps)

lemma bus_runs:
  "bus_statement names s = Some [] \<Longrightarrow> executes l s r es \<longleftrightarrow> \<not> r \<and> es = Pair l ` straight_effects s"
proof (induction names s arbitrary: r es rule: bus_statement.induct)
  case (4 names m ss)
  have "executes_all l ss r es \<longleftrightarrow> \<not> r \<and> es = Pair l ` (\<Union>s \<in> set ss. straight_effects s)"
    using 4 by (intro executes_all_straight) (auto simp: join_reports_empty bind_eq_Some_conv)
  then show ?case by (simp add: block_runs)
next
  case (5 names m x ss)
  have "executes_all l ss r es \<longleftrightarrow> \<not> r \<and> es = Pair l ` (\<Union>s \<in> set ss. straight_effects s)"
    using 5 by (intro executes_all_straight) (auto simp: join_reports_empty bind_eq_Some_conv)
  then show ?case by (simp add: block_runs)
qed (auto simp: straight_runs bind_eq_Some_conv)

definition bus_declares :: "variable_type set" where
  "bus_declares = {VSignal Intermediate tags |tags. True} \<union> {VBus b Intermediate tags |b tags. True} \<union> {VAnonymousComponent}"

lemma bus_straight: "bus_statement names s = Some [] \<Longrightarrow> declares_only bus_declares (straight_effects s)"
proof (induction names s rule: bus_statement.induct)
  case (6 names m x n ds k a)
  then show ?case by (cases x) (auto simp: bus_declares_def bind_eq_Some_conv intro!: expression_declares split: if_splits)
qed (auto simp: join_reports_empty bind_eq_Some_conv bus_declares_def intro!: expression_declares)

section \<open>The stage as a whole\<close>

lemma no_empty_error:
  "free_of_returns file body \<noteq> Inl []" "check_signal_correctness file body \<noteq> Some (Inl [])"
  "free_of_template_elements fd names \<noteq> Some (Inl [])" "free_of_invalid_statements bd names \<noteq> Some (Inl [])"
  "check_naming_correctness program \<noteq> Some (Inl [])"
  by (auto simp: free_of_returns_def check_signal_correctness_def free_of_template_elements_def free_of_invalid_statements_def
      check_naming_correctness_def Let_def bind_eq_Some_conv split: if_splits statement.splits)

lemma result_reports_none: "result_reports r = [] \<Longrightarrow> r \<noteq> Inl [] \<Longrightarrow> r = Inr ()"
  by (cases r) (simp_all add: result_reports_def)

lemma stage_passed:
  assumes "structural_analyses program = Some []"
  shows "check_naming_correctness program = Some (Inr ())"
    and "\<And>name td. (name, td) \<in> set (pa_templates program) \<Longrightarrow> free_of_returns (td_file_id td) (td_body td) = Inr () \<and>
      check_signal_correctness (td_file_id td) (td_body td) = Some (Inr ()) \<and> (td_is_extern_c td \<longrightarrow> td_is_custom_gate td)"
    and "\<And>name fd. (name, fd) \<in> set (pa_functions program) \<Longrightarrow>
      free_of_template_elements fd (pa_function_keys program) = Some (Inr ()) \<and> all_paths_with_return_check fd = Inr ()"
    and "\<And>name bd. (name, bd) \<in> set (pa_buses program) \<Longrightarrow> free_of_invalid_statements bd (pa_function_keys program) = Some (Inr ())"
proof -
  have levels: "program_level_analyses program = Some []" "template_level_analyses program = Some []"
    "function_level_analyses program = Some []" "bus_level_analyses program = Some []"
    using assms by (auto simp: structural_analyses_def split: option.splits if_splits)
  show "check_naming_correctness program = Some (Inr ())"
    using levels(1) no_empty_error(5) [of program] result_reports_none by (fastforce simp: program_level_analyses_def)
  show "free_of_returns (td_file_id td) (td_body td) = Inr () \<and> check_signal_correctness (td_file_id td) (td_body td) = Some (Inr ()) \<and>
      (td_is_extern_c td \<longrightarrow> td_is_custom_gate td)" if "(name, td) \<in> set (pa_templates program)" for name td
  proof -
    have "map_option (\<lambda>r. extern_c_reports td @ result_reports (free_of_returns (td_file_id td) (td_body td)) @ result_reports r)
        (check_signal_correctness (td_file_id td) (td_body td)) = Some []"
      using levels(2) that by (fastforce simp: template_level_analyses_def join_reports_empty)
    then show ?thesis using no_empty_error(1,2) result_reports_none
      by (auto simp: extern_c_reports_def split: if_splits; metis)
  qed
  show "free_of_template_elements fd (pa_function_keys program) = Some (Inr ()) \<and> all_paths_with_return_check fd = Inr ()"
    if "(name, fd) \<in> set (pa_functions program)" for name fd
  proof -
    have "map_option (\<lambda>r. result_reports r @ (case all_paths_with_return_check fd of Inl r \<Rightarrow> [r] | Inr _ \<Rightarrow> []))
        (free_of_template_elements fd (pa_function_keys program)) = Some []"
      using levels(3) that by (fastforce simp: function_level_analyses_def join_reports_empty)
    then show ?thesis using no_empty_error(3) result_reports_none by (auto split: sum.splits; metis)
  qed
  show "free_of_invalid_statements bd (pa_function_keys program) = Some (Inr ())" if "(name, bd) \<in> set (pa_buses program)" for name bd
  proof -
    have "map_option result_reports (free_of_invalid_statements bd (pa_function_keys program)) = Some []"
      using levels(4) that by (fastforce simp: bus_level_analyses_def join_reports_empty)
    then show ?thesis using no_empty_error(4) result_reports_none by (auto; metis)
  qed
qed

section \<open>Properties\<close>



text \<open>The body of a bus that passes has one run, whatever the conditions: it returns nothing, loops never, and declares
  only intermediate signals and buses, and the anonymous components of expressions.\<close>

theorem accepted_buses:
  assumes "free_of_invalid_statements bd names = Some (Inr ())"
  shows "(executes l (bd_body bd) r es \<longleftrightarrow> \<not> r \<and> es = Pair l ` straight_effects (bd_body bd)) \<and>
    declares_only bus_declares (straight_effects (bd_body bd))"
proof -
  have "bus_statement names (bd_body bd) = Some []" using assms by (auto simp: free_of_invalid_statements_def split: if_splits)
  then show ?thesis using bus_runs bus_straight by blast
qed

definition point_bus :: bus_data where
  "point_bus = fst (bus_data_new 0 ''P'' (Block (meta_new 0 9) [InitializationBlock (meta_new 1 8) (VSignal Intermediate [])
     [Declaration (meta_new 1 8) (VSignal Intermediate []) ''x'' [] True False]]) 0 [] (0, 1) 0)"

theorem accepted_buses_witness:
  "executes False (bd_body point_bus) False {(False, Declares (VSignal Intermediate []))} \<and> get_field_info point_bus ''x'' \<noteq> None"
proof
  have "free_of_invalid_statements point_bus {} = Some (Inr ())"
    by (simp add: free_of_invalid_statements_def point_bus_def bus_data_new_def join_reports_def get_file_id_def fill_meta_def
        set_file_id_def fill_field_def)
  from accepted_buses [OF this, of False False "{(False, Declares (VSignal Intermediate []))}"]
  show "executes False (bd_body point_bus) False {(False, Declares (VSignal Intermediate []))}"
    by (simp add: point_bus_def bus_data_new_def fill_field_def Let_def)
qed (simp add: point_bus_def bus_data_new_def fill_field_def Let_def get_field_info_def)



end
