(* ===== verification/Syntax_Builders.thy ===== *)
theory Syntax_Builders
  imports Definition_Checks "HOL-Library.Signed_Division"
begin

text \<open>
  How the parser builds statements: \<open>expression_builders.rs\<close>, \<open>statement_builders.rs\<close> and \<open>ast_shortcuts.rs\<close> of
  \<open>program_structure/src/abstract_syntax_tree\<close>, and the productions of statements of \<open>parser/src/lang.lalrpop\<close>, which say what is
  passed to them. A \<open>String\<close> is the list of its bytes in UTF-8; cutting it inside of a character is a panic, \<open>None\<close>, as
  is a remainder by zero. A \<open>debug_assert\<close> is not modelled.
\<close>

section \<open>Expressions\<close>

definition build_infix :: "meta \<Rightarrow> expression \<Rightarrow> infix_opcode \<Rightarrow> expression \<Rightarrow> expression" where
  "build_infix meta lhe infix_op rhe = InfixOp meta lhe infix_op rhe"

definition build_prefix :: "meta \<Rightarrow> prefix_opcode \<Rightarrow> expression \<Rightarrow> expression" where
  "build_prefix meta prefix_op rhe = PrefixOp meta prefix_op rhe"

definition build_inline_switch_op :: "meta \<Rightarrow> expression \<Rightarrow> expression \<Rightarrow> expression \<Rightarrow> expression" where
  "build_inline_switch_op meta cond if_true if_false = InlineSwitchOp meta cond if_true if_false"

definition build_parallel_op :: "meta \<Rightarrow> expression \<Rightarrow> expression" where
  "build_parallel_op meta rhe = ParallelOp meta rhe"

definition build_variable :: "meta \<Rightarrow> string \<Rightarrow> access list \<Rightarrow> expression" where
  "build_variable meta name access = Variable meta name access"

definition build_number :: "meta \<Rightarrow> int \<Rightarrow> int \<Rightarrow> expression option" where
  "build_number meta value field = (if field = 0 then None else Some (Number meta (value smod field)))"

definition build_number_without_field :: "meta \<Rightarrow> int \<Rightarrow> expression" where
  "build_number_without_field meta value = Number meta value"

definition build_call :: "meta \<Rightarrow> string \<Rightarrow> expression list \<Rightarrow> expression" where
  "build_call meta name args = Call meta name args"

definition build_bus_call :: "meta \<Rightarrow> string \<Rightarrow> expression list \<Rightarrow> expression" where
  "build_bus_call meta name args = BusCall meta name args"

definition build_anonymous_component ::
    "meta \<Rightarrow> string \<Rightarrow> expression list \<Rightarrow> expression list \<Rightarrow> (assign_op \<times> string) list option \<Rightarrow> bool \<Rightarrow> expression" where
  "build_anonymous_component meta name params signals names is_parallel = AnonymousComp meta name is_parallel params signals names"

definition build_array_in_line :: "meta \<Rightarrow> expression list \<Rightarrow> expression" where
  "build_array_in_line meta values = ArrayInLine meta values"

definition build_tuple :: "meta \<Rightarrow> expression list \<Rightarrow> expression" where
  "build_tuple meta values = Tuple meta values"

definition build_uniform_array :: "meta \<Rightarrow> expression \<Rightarrow> expression \<Rightarrow> expression" where
  "build_uniform_array meta value dimension = UniformArray meta value dimension"

definition unzip_3 :: "(string \<times> assign_op \<times> expression) list \<Rightarrow> (assign_op \<times> string) list \<times> expression list" where
  "unzip_3 vec = (map (\<lambda>(name, op, _). (op, name)) vec, map (\<lambda>(_, _, e). e) vec)"

section \<open>Statements\<close>

definition build_conditional_block :: "meta \<Rightarrow> expression \<Rightarrow> statement \<Rightarrow> statement option \<Rightarrow> statement" where
  "build_conditional_block meta cond if_case else_case = IfThenElse meta cond if_case else_case"

definition build_while_block :: "meta \<Rightarrow> expression \<Rightarrow> statement \<Rightarrow> statement" where
  "build_while_block meta cond stmt = While meta cond stmt"

definition build_initialization_block :: "meta \<Rightarrow> variable_type \<Rightarrow> statement list \<Rightarrow> statement" where
  "build_initialization_block meta xtype initializations = InitializationBlock meta xtype initializations"

definition build_block :: "meta \<Rightarrow> statement list \<Rightarrow> statement" where
  "build_block meta stmts = Block meta stmts"

definition build_return :: "meta \<Rightarrow> expression \<Rightarrow> statement" where
  "build_return meta value = Return meta value"

definition build_declaration :: "meta \<Rightarrow> variable_type \<Rightarrow> string \<Rightarrow> expression list \<Rightarrow> bool \<Rightarrow> statement" where
  "build_declaration meta xtype name dimensions is_anonymous =
     (let is_constant = True in Declaration meta xtype name dimensions is_constant is_anonymous)"

definition build_substitution :: "meta \<Rightarrow> string \<Rightarrow> access list \<Rightarrow> assign_op \<Rightarrow> expression \<Rightarrow> statement" where
  "build_substitution meta var access op rhe = Substitution meta var access op rhe"

definition build_constraint_equality :: "meta \<Rightarrow> expression \<Rightarrow> expression \<Rightarrow> statement" where
  "build_constraint_equality meta lhe rhe = ConstraintEquality meta lhe rhe"

text \<open>A byte that continues a character.\<close>

definition continues :: "char \<Rightarrow> bool" where
  "continues c \<longleftrightarrow> 0x80 \<le> (of_char c :: nat) \<and> (of_char c :: nat) < 0xC0"

definition is_char_boundary :: "string \<Rightarrow> nat \<Rightarrow> bool" where
  "is_char_boundary str index \<longleftrightarrow> index = 0 \<or> index = length str \<or> (index < length str \<and> \<not> continues (str ! index))"

definition split_at :: "string \<Rightarrow> nat \<Rightarrow> (string \<times> string) option" where
  "split_at str mid = (if is_char_boundary str mid then Some (take mid str, drop mid str) else None)"

function split_string :: "string \<Rightarrow> log_argument list option" where
  "split_string cur =
     (if cur = [] then Some []
      else case split_at cur (min 230 (length cur)) of
        None \<Rightarrow> None
      | Some (chunk, rest) \<Rightarrow> map_option ((#) (LogStr chunk)) (split_string rest))"
  by pat_completeness auto

termination
  by (relation "measure length") (auto simp: split_at_def split: if_splits)

declare split_string.simps [simp del]

fun build_log_args :: "log_argument list \<Rightarrow> log_argument list option" where
  "build_log_args [] = Some []"
| "build_log_args (LogExp e # args) = map_option ((#) (LogExp e)) (build_log_args args)"
| "build_log_args (LogStr str # args) =
     Option.bind (split_string str) (\<lambda>chunks. map_option ((@) chunks) (build_log_args args))"

definition build_log_call :: "meta \<Rightarrow> log_argument list \<Rightarrow> statement option" where
  "build_log_call meta args = map_option (LogCall meta) (build_log_args args)"

definition build_assert :: "meta \<Rightarrow> expression \<Rightarrow> statement" where
  "build_assert meta arg = Assert meta arg"

definition build_mult_substitution :: "meta \<Rightarrow> expression \<Rightarrow> assign_op \<Rightarrow> expression \<Rightarrow> statement" where
  "build_mult_substitution meta lhe op rhe = MultSubstitution meta lhe op rhe"

definition build_anonymous_component_statement :: "meta \<Rightarrow> expression \<Rightarrow> statement" where
  "build_anonymous_component_statement meta arg = MultSubstitution meta (build_tuple meta []) AssignConstraintSignal arg"

section \<open>Shortcuts\<close>

record symbol =
  sy_name :: string
  sy_is_array :: "expression list"
  sy_init :: "expression option"

definition assign_with_op_shortcut :: "infix_opcode \<Rightarrow> meta \<Rightarrow> string \<times> access list \<Rightarrow> expression \<Rightarrow> statement" where
  "assign_with_op_shortcut op meta variable rhe =
     (let (var, access) = variable; variable = build_variable meta var access; infix = build_infix meta variable op rhe
      in build_substitution meta var access AssignVar infix)"

definition plusplus :: "meta \<Rightarrow> string \<times> access list \<Rightarrow> int \<Rightarrow> statement option" where
  "plusplus meta variable field = map_option (assign_with_op_shortcut IAdd meta variable) (build_number meta 1 field)"

definition subsub :: "meta \<Rightarrow> string \<times> access list \<Rightarrow> int \<Rightarrow> statement option" where
  "subsub meta variable field = map_option (assign_with_op_shortcut ISub meta variable) (build_number meta 1 field)"

definition for_into_while :: "meta \<Rightarrow> statement \<Rightarrow> expression \<Rightarrow> statement \<Rightarrow> statement \<Rightarrow> statement" where
  "for_into_while meta init cond step body =
     (let while_body = build_block (statement_meta body) [body, step]; while_statement = build_while_block meta cond while_body
      in build_block meta [init, while_statement])"

definition array_value :: "meta \<Rightarrow> expression list \<Rightarrow> expression \<Rightarrow> expression" where
  "array_value meta dimensions value = fold (\<lambda>dim_expr value. build_uniform_array meta value dim_expr) (rev dimensions) value"

definition split_symbol :: "meta \<Rightarrow> variable_type \<Rightarrow> assign_op \<Rightarrow> bool \<Rightarrow> symbol \<Rightarrow> statement list" where
  "split_symbol meta xtype op flag_no_init symbol =
     build_declaration meta xtype (sy_name symbol) (sy_is_array symbol) False #
     (if xtype = VVar \<and> (sy_init symbol = None \<or> length (sy_is_array symbol) > 0) \<and> \<not> flag_no_init
      then [build_substitution meta (sy_name symbol) [] op (array_value meta (sy_is_array symbol) (Number meta 0))] else []) @
     (case sy_init symbol of Some init \<Rightarrow> [build_substitution meta (sy_name symbol) [] op init] | None \<Rightarrow> [])"

definition split_declaration_into_single_nodes :: "meta \<Rightarrow> variable_type \<Rightarrow> symbol list \<Rightarrow> assign_op \<Rightarrow> bool \<Rightarrow> statement" where
  "split_declaration_into_single_nodes meta xtype symbols op flag_no_init =
     build_initialization_block meta xtype (concat (map (split_symbol meta xtype op flag_no_init) symbols))"

definition split_symbol_multi :: "meta \<Rightarrow> variable_type \<Rightarrow> bool \<Rightarrow> bool \<Rightarrow> symbol \<Rightarrow> statement list" where
  "split_symbol_multi meta xtype no_tuple flag_no_init symbol =
     build_declaration meta xtype (sy_name symbol) (sy_is_array symbol) False #
     (if xtype = VVar \<and> (no_tuple \<or> length (sy_is_array symbol) > 0) \<and> \<not> flag_no_init
      then [build_substitution meta (sy_name symbol) [] AssignVar (array_value meta (sy_is_array symbol) (Number meta 0))] else [])"

definition symbol_variables :: "meta \<Rightarrow> symbol list \<Rightarrow> expression list" where
  "symbol_variables meta symbols = map (\<lambda>symbol. Variable meta (sy_name symbol) []) symbols"

definition split_declaration_into_single_nodes_and_multisubstitution ::
    "meta \<Rightarrow> variable_type \<Rightarrow> symbol list \<Rightarrow> (assign_op \<times> expression) option \<Rightarrow> bool \<Rightarrow> statement" where
  "split_declaration_into_single_nodes_and_multisubstitution meta xtype symbols init flag_no_init =
     (let initializations = concat (map (split_symbol_multi meta xtype (init = None) flag_no_init) symbols);
          values = symbol_variables meta symbols
      in build_initialization_block meta xtype (initializations @
           (case init of
              None \<Rightarrow> []
            | Some (op, expression) \<Rightarrow>
                (case symbols of
                   [symbol] \<Rightarrow> [build_substitution meta (sy_name symbol) [] op expression]
                 | _ \<Rightarrow> [build_mult_substitution meta (build_tuple meta values) op expression]))))"

definition split_bus_symbol :: "meta \<Rightarrow> expression \<Rightarrow> variable_type \<Rightarrow> assign_op \<Rightarrow> symbol \<Rightarrow> statement list" where
  "split_bus_symbol meta bustype xtype op symbol =
     [build_declaration meta xtype (sy_name symbol) (sy_is_array symbol) False,
      build_substitution meta (sy_name symbol) [] AssignVar (array_value meta (sy_is_array symbol) bustype)] @
     (case sy_init symbol of Some init \<Rightarrow> [build_substitution meta (sy_name symbol) [] op init] | None \<Rightarrow> [])"

definition split_bus_declaration_into_single_nodes :: "meta \<Rightarrow> expression \<Rightarrow> variable_type \<Rightarrow> symbol list \<Rightarrow> assign_op \<Rightarrow> statement" where
  "split_bus_declaration_into_single_nodes meta bustype xtype symbols op =
     build_initialization_block meta xtype (concat (map (split_bus_symbol meta bustype xtype op) symbols))"

definition split_bus_declaration_into_single_nodes_and_multisubstitution ::
    "meta \<Rightarrow> expression \<Rightarrow> variable_type \<Rightarrow> symbol list \<Rightarrow> (assign_op \<times> expression) option \<Rightarrow> statement" where
  "split_bus_declaration_into_single_nodes_and_multisubstitution meta bustype xtype symbols init =
     (let initializations = concat (map (\<lambda>symbol.
            [build_declaration meta xtype (sy_name symbol) (sy_is_array symbol) False,
             build_substitution meta (sy_name symbol) [] AssignVar bustype]) symbols);
          values = symbol_variables meta symbols
      in build_initialization_block meta xtype (initializations @
           (case init of None \<Rightarrow> []
            | Some (op, expression) \<Rightarrow> [build_mult_substitution meta (build_tuple meta values) op expression])))"

section \<open>What the grammar builds\<close>

text \<open>\<open>ParseDeclaration\<close>, \<open>ParseSubstitution\<close>, \<open>ParseStatement\<close> and \<open>ParseStatement3\<close>: a branch and a body are never a declaration.\<close>

inductive parsed_declaration :: "statement \<Rightarrow> bool" where
  parsed_multiple: "parsed_declaration (split_declaration_into_single_nodes_and_multisubstitution meta xtype symbols init flag_no_init)"
| parsed_single: "parsed_declaration (split_declaration_into_single_nodes meta xtype symbols op flag_no_init)"
| parsed_bus: "parsed_declaration (split_bus_declaration_into_single_nodes meta bus_type (VBus name stype tags) symbols op)"

inductive parsed_substitution :: "statement \<Rightarrow> bool" where
  parsed_assign: "parsed_substitution (build_substitution meta name access op rhe)"
| parsed_mult: "parsed_substitution (build_mult_substitution meta variable op rhe)"
| parsed_shortcut: "parsed_substitution (assign_with_op_shortcut op meta variable rhe)"
| parsed_plusplus: "plusplus meta variable field = Some s \<Longrightarrow> parsed_substitution s"
| parsed_subsub: "subsub meta variable field = Some s \<Longrightarrow> parsed_substitution s"
| parsed_illegal: "parsed_substitution (build_block meta [])"

inductive parsed_statement :: "statement \<Rightarrow> bool"
and parsed_item :: "statement \<Rightarrow> bool" where
  parsed_if: "parsed_statement if_case \<Longrightarrow> parsed_statement (build_conditional_block meta cond if_case None)"
| parsed_if_else: "parsed_statement if_case \<Longrightarrow> parsed_statement else_case \<Longrightarrow>
    parsed_statement (build_conditional_block meta cond if_case (Some else_case))"
| parsed_for: "parsed_declaration init \<or> parsed_substitution init \<Longrightarrow> parsed_substitution step \<Longrightarrow> parsed_statement body \<Longrightarrow>
    parsed_statement (for_into_while meta init cond step body)"
| parsed_while: "parsed_statement stmt \<Longrightarrow> parsed_statement (build_while_block meta cond stmt)"
| parsed_return: "parsed_statement (build_return meta value)"
| parsed_subst: "parsed_substitution s \<Longrightarrow> parsed_statement s"
| parsed_equality: "parsed_statement (build_constraint_equality meta lhe rhe)"
| parsed_log: "build_log_call meta args = Some s \<Longrightarrow> parsed_statement s"
| parsed_assert: "parsed_statement (build_assert meta arg)"
| parsed_component: "parsed_statement (build_anonymous_component_statement meta arg)"
| parsed_block: "(\<And>s. s \<in> set stmts \<Longrightarrow> parsed_item s) \<Longrightarrow> parsed_statement (build_block meta stmts)"
| parsed_item_declaration: "parsed_declaration s \<Longrightarrow> parsed_item s"
| parsed_item_statement: "parsed_statement s \<Longrightarrow> parsed_item s"

lemmas builder_defs = build_conditional_block_def build_while_block_def build_initialization_block_def build_block_def build_return_def
  build_declaration_def build_substitution_def build_constraint_equality_def build_assert_def build_mult_substitution_def
  build_anonymous_component_statement_def

lemma branch_shape_simps [simp]:
  "branch_shape (IfThenElse m c i el)" "branch_shape (While m c s)" "branch_shape (Return m v)" "branch_shape (Substitution m x as op e)"
  "branch_shape (MultSubstitution m lhe op e)" "branch_shape (UnderscoreSubstitution m op e)" "branch_shape (ConstraintEquality m lhe e)"
  "branch_shape (LogCall m args)" "branch_shape (Block m ss)" "branch_shape (Assert m e)"
  by (simp_all add: branch_shape_def)

lemma initialization_simps [simp]:
  "initialization x (Declaration m y n ds k a) \<longleftrightarrow> y = x" "initialization x (Substitution m v as op e)"
  "initialization x (MultSubstitution m lhe op e)"
  by (simp_all add: initialization_def)

lemma initialization_scoped [simp]: "initialization x s \<Longrightarrow> scoped_shape s"
  by (cases s) (simp_all add: initialization_def)

lemma initialization_block_shape: "\<forall>s \<in> set ss. initialization x s \<Longrightarrow> parser_shape (InitializationBlock m x ss) \<and> scoped_shape (InitializationBlock m x ss)"
  by auto

lemma parsed_declaration_shape: "parsed_declaration s \<Longrightarrow> parser_shape s \<and> scoped_shape s"
proof (induction rule: parsed_declaration.induct)
  case (parsed_multiple meta xtype symbols init flag_no_init)
  have "initialization xtype s" if "s \<in> set (split_symbol_multi meta xtype no_tuple flag_no_init symbol)" for s symbol no_tuple
    using that by (auto simp: split_symbol_multi_def builder_defs)
  moreover have "initialization xtype s" if "s \<in> set (case symbols of [symbol] \<Rightarrow> [build_substitution meta (sy_name symbol) [] op e]
       | _ \<Rightarrow> [build_mult_substitution meta (build_tuple meta vs) op e])" for s op e vs
    using that by (auto simp: builder_defs split: list.splits)
  ultimately show ?case
    unfolding split_declaration_into_single_nodes_and_multisubstitution_def Let_def builder_defs(3)
    by (intro initialization_block_shape) (auto split: option.splits)
next
  case (parsed_single meta xtype symbols op flag_no_init)
  have "initialization xtype s" if "s \<in> set (split_symbol meta xtype op flag_no_init symbol)" for s symbol
    using that by (auto simp: split_symbol_def builder_defs split: option.splits)
  then show ?case unfolding split_declaration_into_single_nodes_def builder_defs(3)
    by (intro initialization_block_shape) auto
next
  case (parsed_bus meta bus_type name stype tags symbols op)
  have "initialization xtype s" if "s \<in> set (split_bus_symbol meta bus_type xtype op symbol)" for s symbol xtype
    using that by (auto simp: split_bus_symbol_def builder_defs split: option.splits)
  then show ?case unfolding split_bus_declaration_into_single_nodes_def builder_defs(3)
    by (intro initialization_block_shape) auto
qed

lemma parsed_substitution_shape: "parsed_substitution s \<Longrightarrow> parser_shape s \<and> scoped_shape s \<and> branch_shape s"
  by (induction rule: parsed_substitution.induct)
    (auto simp: assign_with_op_shortcut_def plusplus_def subsub_def builder_defs Let_def case_prod_unfold)

lemma parsed_shape:
  "parsed_statement s \<Longrightarrow> parser_shape s \<and> scoped_shape s \<and> branch_shape s"
  "parsed_item s \<Longrightarrow> parser_shape s \<and> scoped_shape s"
proof (induction rule: parsed_statement_parsed_item.inducts)
  case (parsed_for init step body meta cond)
  then show ?case using parsed_declaration_shape parsed_substitution_shape
    by (auto simp: for_into_while_def builder_defs)
next
  case (parsed_log meta args s)
  then show ?case by (auto simp: build_log_call_def)
qed (auto simp: builder_defs parsed_declaration_shape parsed_substitution_shape)

text \<open>Numbering the elements keeps the shape.\<close>

lemma fill_initialization_shape [simp]: "initialization x (fst (fill_statement f s n)) \<longleftrightarrow> initialization x s"
  by (cases s) (auto simp: initialization_def Let_def split: prod.splits option.splits)

lemma fill_branch_shape [simp]: "branch_shape (fst (fill_statement f s n)) \<longleftrightarrow> branch_shape s"
  by (cases s) (auto simp: branch_shape_def Let_def split: prod.splits option.splits)

lemma fill_statements_all:
  "(\<And>s n. s \<in> set ss \<Longrightarrow> P (fst (fill_statement f s n)) \<longleftrightarrow> P s) \<Longrightarrow>
    (\<forall>s \<in> set (fst (fill_statements f ss n)). P s) \<longleftrightarrow> (\<forall>s \<in> set ss. P s)"
  by (induction ss arbitrary: n) (simp_all add: Let_def case_prod_unfold)

lemma fill_parser_shape [simp]: "parser_shape (fst (fill_statement f s n)) \<longleftrightarrow> parser_shape s"
  by (induction s arbitrary: n rule: parser_shape.induct)
    (simp_all add: Let_def case_prod_unfold fill_statements_all split: option.split)

lemma fill_scoped_shape [simp]: "scoped_shape (fst (fill_statement f s n)) \<longleftrightarrow> scoped_shape s"
  by (induction s arbitrary: n rule: scoped_shape.induct)
    (simp_all add: Let_def case_prod_unfold fill_statements_all split: option.split)

section \<open>Cutting strings\<close>

lemma split_string_simps [simp]:
  "split_string [] = Some []"
  "cur \<noteq> [] \<Longrightarrow> length cur \<le> 230 \<Longrightarrow> split_string cur = Some [LogStr cur]"
  by (subst split_string.simps; simp add: split_at_def is_char_boundary_def)+

lemma split_string_long: "length cur > 230 \<Longrightarrow> split_string cur =
    (if continues (cur ! 230) then None else map_option ((#) (LogStr (take 230 cur))) (split_string (drop 230 cur)))"
  by (subst split_string.simps) (auto simp: split_at_def is_char_boundary_def)

text \<open>The pieces of a string: each has at most 230 bytes.\<close>

definition pieces :: "string \<Rightarrow> log_argument list \<Rightarrow> bool" where
  "pieces str args \<longleftrightarrow> (\<exists>ps. args = map LogStr ps \<and> concat ps = str \<and> (\<forall>p \<in> set ps. 0 < length p \<and> length p \<le> 230))"

lemma split_string_result:
  "case split_string str of
     None \<Rightarrow> (\<exists>k > 0. 230 * k < length str \<and> continues (str ! (230 * k)))
   | Some args \<Rightarrow> pieces str args \<and> (\<forall>k > 0. 230 * k < length str \<longrightarrow> \<not> continues (str ! (230 * k)))"
proof (induction "length str" arbitrary: str rule: less_induct)
  case less
  show ?case
  proof (cases "length str \<le> 230")
    case True
    then show ?thesis by (cases "str = []") (auto simp: pieces_def intro: exI [of _ "[]"] exI [of _ "[str]"])
  next
    case False
    let ?rest = "drop 230 str"
    have shift: "?rest ! (230 * k) = str ! (230 * Suc k)" "230 * k < length ?rest \<longleftrightarrow> 230 * Suc k < length str" for k
      using False by auto
    show ?thesis
    proof (cases "continues (str ! 230)")
      case True
      then show ?thesis using False by (auto simp: split_string_long intro!: exI [of _ 1])
    next
      case ok: False
      show ?thesis
      proof (cases "split_string ?rest")
        case None
        then have "\<exists>k > 0. 230 * k < length ?rest \<and> continues (?rest ! (230 * k))" using less [of ?rest] False by simp
        then obtain k where "k > 0" "230 * k < length ?rest" "continues (?rest ! (230 * k))" by blast
        then show ?thesis using None False ok shift by (auto simp: split_string_long intro!: exI [of _ "Suc k"])
      next
        case (Some args)
        then have p: "pieces ?rest args" and k: "\<And>k. k > 0 \<Longrightarrow> 230 * k < length ?rest \<Longrightarrow> \<not> continues (?rest ! (230 * k))"
          using less [of ?rest] False by auto
        obtain ps where ps: "args = map LogStr ps" "concat ps = ?rest" "\<forall>p \<in> set ps. 0 < length p \<and> length p \<le> 230"
          using p by (auto simp: pieces_def)
        have "pieces str (LogStr (take 230 str) # args)"
          unfolding pieces_def using ps False by (intro exI [of _ "take 230 str # ps"]) auto
        moreover have "\<not> continues (str ! (230 * j))" if "j > 0" "230 * j < length str" for j
          using that ok k [of "j - 1"] shift [of "j - 1"] by (cases "j = 1") auto
        ultimately show ?thesis using Some False ok by (simp add: split_string_long)
      qed
    qed
  qed
qed

section \<open>Properties\<close>

text \<open>C25: What the grammar builds has the shape that the soundness of the analyses asks for: in the data of a template made from
  a parsed body, and so after the numbering, declarations stand in initialization blocks of their type, and no branch or
  body of a loop is a declaration.\<close>

theorem parsed_template_shape:
  assumes "parsed_statement body"
  shows "let (td, n) = template_data_new name file body num_of_params name_of_params param_location elem_id is_parallel is_custom_gate is_extern_c
    in parser_shape (td_body td) \<and> scoped_shape (td_body td)"
  using parsed_shape(1) [OF assms] by (simp add: template_data_new_def Let_def case_prod_unfold)

theorem parsed_template_shape_witness:
  "parser_shape (td_body (fst (template_data_new ''t'' 0 (build_block (meta_new 0 1) [split_declaration_into_single_nodes (meta_new 0 1) VVar [] AssignVar False]) 0 [] (0, 1) 0 False False False)))"
proof -
  have "parsed_statement (build_block (meta_new 0 1) [split_declaration_into_single_nodes (meta_new 0 1) VVar [] AssignVar False])"
    by (rule parsed_block) (auto intro: parsed_item_declaration parsed_single)
  from parsed_template_shape [OF this] show ?thesis by (auto simp: Let_def case_prod_unfold)
qed

text \<open>C26: The strings of \<open>log\<close> are cut at every 230th byte: a string whose bytes there begin characters is cut into pieces of at
  most 230 bytes that make it up, and on one with a character across such a position the compiler panics.\<close>

theorem split_string_panics:
  "case split_string str of
     None \<Rightarrow> (\<exists>k > 0. 230 * k < length str \<and> continues (str ! (230 * k)))
   | Some args \<Rightarrow> pieces str args \<and> (\<forall>k > 0. 230 * k < length str \<longrightarrow> \<not> continues (str ! (230 * k)))"
  by (rule split_string_result)

theorem split_string_panics_witness: "split_string (replicate 230 CHR ''a'' @ [CHR 0xA9]) = None"
proof -
  let ?str = "replicate 230 CHR ''a'' @ [CHR 0xA9]"
  have "continues (?str ! (230 * 1))" by (simp add: nth_append continues_def)
  moreover have "230 * 1 < length ?str" by simp
  ultimately show ?thesis using split_string_panics [of ?str] by (cases "split_string ?str") (auto simp del: mult_1_right)
qed

end
